(* ===== verification/Prelude.thy ===== *)
theory Prelude
  imports Main "HOL-Library.Word"
begin

unbundle bit_operations_syntax

text \<open>
  What the components share: the library's collections of rewrite rules, JavaScript array
  access as total functions (a read past the end is \<open>undefined\<close>, a write past the end
  extends the array), and lemmas on lists and words.
\<close>

named_theorems js_simps \<open>rules for JavaScript arrays, strings and objects\<close>

section \<open>JavaScript arrays\<close>

text \<open>
  A read \<open>a[i]\<close> is \<open>undefined\<close> past the end: \<open>None\<close> here. A write \<open>a[i] = v\<close>
  past the end extends the array; the cells in between are holes, filled here with the value
  \<open>d\<close> that a hole stands for in the operations of the code that reads them.
\<close>

definition js_get :: "'a list \<Rightarrow> nat \<Rightarrow> 'a option" where
  "js_get xs i = (if i < length xs then Some (xs ! i) else None)"

definition js_set :: "'a \<Rightarrow> 'a list \<Rightarrow> nat \<Rightarrow> 'a \<Rightarrow> 'a list" where
  "js_set d xs i v =
     (if i < length xs then xs[i := v] else xs @ replicate (i - length xs) d @ [v])"

lemma js_get_in [js_simps]: "i < length xs \<Longrightarrow> js_get xs i = Some (xs ! i)"
  by (simp add: js_get_def)

lemma js_get_out [js_simps]: "length xs \<le> i \<Longrightarrow> js_get xs i = None"
  by (simp add: js_get_def)

lemma js_get_Some_iff: "js_get xs i = Some v \<longleftrightarrow> i < length xs \<and> xs ! i = v"
  by (auto simp: js_get_def)

lemma js_get_mem: "js_get xs i = Some v \<Longrightarrow> v \<in> set xs"
  by (auto simp: js_get_Some_iff)

lemma js_set_in [js_simps]: "i < length xs \<Longrightarrow> js_set d xs i v = xs[i := v]"
  by (simp add: js_set_def)

lemma js_set_end [js_simps]: "js_set d xs (length xs) v = xs @ [v]"
  by (simp add: js_set_def)

lemma length_js_set: "length (js_set d xs i v) = max (length xs) (Suc i)"
  by (auto simp: js_set_def)

section \<open>Exceptions\<close>

text \<open>
  A JavaScript function that can throw returns \<open>Inl\<close> of what it throws or \<open>Inr\<close> of its
  result. \<open>ErrorMsg\<close> is an \<open>Error\<close> that the code makes itself, with its message.
\<close>

datatype js_error =
    TypeError
  | RangeError
  | AssertionError
  | ErrorMsg string

type_synonym 'a res = "js_error + 'a"

definition rbind :: "'e + 'a \<Rightarrow> ('a \<Rightarrow> 'e + 'b) \<Rightarrow> 'e + 'b" where
  "rbind r f = (case r of Inl e \<Rightarrow> Inl e | Inr a \<Rightarrow> f a)"

lemma rbind_simps [simp]:
  "rbind (Inl e) f = Inl e"
  "rbind (Inr a) f = f a"
  by (simp_all add: rbind_def)

lemma rbind_Inr_iff: "rbind r f = Inr b \<longleftrightarrow> (\<exists>a. r = Inr a \<and> f a = Inr b)"
  by (cases r) simp_all

lemma rbind_cong [fundef_cong]:
  "r = r' \<Longrightarrow> (\<And>a. r' = Inr a \<Longrightarrow> f a = f' a) \<Longrightarrow> rbind r f = rbind r' f'"
  by (cases r') simp_all

fun rmap :: "('a \<Rightarrow> 'e + 'b) \<Rightarrow> 'a list \<Rightarrow> 'e + 'b list" where
  "rmap f [] = Inr []"
| "rmap f (x # xs) = rbind (f x) (\<lambda>y. rbind (rmap f xs) (\<lambda>ys. Inr (y # ys)))"

lemma rmap_cong [fundef_cong]:
  "xs = ys \<Longrightarrow> (\<And>x. x \<in> set ys \<Longrightarrow> f x = g x) \<Longrightarrow> rmap f xs = rmap g ys"
  by (induction xs arbitrary: ys) auto

lemma rmap_Inr_iff: "rmap f xs = Inr ys \<longleftrightarrow> list_all2 (\<lambda>x y. f x = Inr y) xs ys"
  by (induction xs arbitrary: ys) (auto simp: rbind_Inr_iff list_all2_Cons1)

lemma rmap_total:
  assumes "\<And>x. x \<in> set xs \<Longrightarrow> \<exists>y. f x = Inr y \<and> P x y"
  shows "\<exists>ys. rmap f xs = Inr ys \<and> list_all2 P xs ys"
  using assms
proof (induction xs)
  case (Cons x xs)
  from Cons.prems[of x] Cons.IH Cons.prems show ?case by fastforce
qed simp

section \<open>Numbers as decimal text\<close>

definition digit_char :: "nat \<Rightarrow> char" where
  "digit_char d = char_of (48 + d)"

fun nat_str :: "nat \<Rightarrow> string" where
  "nat_str n = (if n < 10 then [digit_char n] else nat_str (n div 10) @ [digit_char (n mod 10)])"

declare nat_str.simps [simp del]

definition int_str :: "int \<Rightarrow> string" where
  "int_str i = (if i < 0 then ''-'' @ nat_str (nat (- i)) else nat_str (nat i))"

definition digit_val :: "char \<Rightarrow> nat option" where
  "digit_val c = (let n = of_char c in if 48 \<le> n \<and> n \<le> (57::nat) then Some (n - 48) else None)"

fun str_nat :: "nat \<Rightarrow> string \<Rightarrow> nat option" where
  "str_nat acc [] = Some acc"
| "str_nat acc (c # cs) =
     (case digit_val c of None \<Rightarrow> None | Some d \<Rightarrow> str_nat (10 * acc + d) cs)"

lemma digit_val_digit_char [simp]: "d < 10 \<Longrightarrow> digit_val (digit_char d) = Some d"
  by (simp add: digit_val_def digit_char_def Let_def)

lemma str_nat_append:
  "str_nat acc (xs @ ys) = Option.bind (str_nat acc xs) (\<lambda>a. str_nat a ys)"
  by (induction xs arbitrary: acc) (auto split: option.splits)

lemma str_nat_nat_str [simp]: "str_nat 0 (nat_str n) = Some n"
  by (induction n rule: nat_str.induct) (subst nat_str.simps, simp add: str_nat_append)

lemma nat_str_ne [simp]: "nat_str n \<noteq> []"
  by (subst nat_str.simps) simp

lemma nat_str_inj [simp]: "nat_str m = nat_str n \<longleftrightarrow> m = n"
  by (metis str_nat_nat_str option.inject)

section \<open>JavaScript values\<close>

text \<open>
  The values the modelled code inspects dynamically. Numbers are whole numbers; a function is known
  by a name, and what a call of it returns is a parameter of the operations that call it. The
  properties of an object are kept in insertion order.
\<close>

datatype js =
    JUndef
  | JNull
  | JBool bool
  | JNum int
  | JStr string
  | JArr "js list"
  | JObj "(string \<times> js) list"
  | JFun string

definition js_typeof :: "js \<Rightarrow> string" where
  "js_typeof v = (case v of JUndef \<Rightarrow> ''undefined'' | JNull \<Rightarrow> ''object'' | JBool _ \<Rightarrow> ''boolean''
     | JNum _ \<Rightarrow> ''number'' | JStr _ \<Rightarrow> ''string'' | JArr _ \<Rightarrow> ''object'' | JObj _ \<Rightarrow> ''object''
     | JFun _ \<Rightarrow> ''function'')"

definition js_truthy :: "js \<Rightarrow> bool" where
  "js_truthy v = (case v of JUndef \<Rightarrow> False | JNull \<Rightarrow> False | JBool b \<Rightarrow> b | JNum n \<Rightarrow> n \<noteq> 0
     | JStr s \<Rightarrow> s \<noteq> [] | _ \<Rightarrow> True)"

fun obj_get :: "(string \<times> js) list \<Rightarrow> string \<Rightarrow> js" where
  "obj_get [] k = JUndef"
| "obj_get ((k', v) # ps) k = (if k' = k then v else obj_get ps k)"

fun obj_put :: "(string \<times> js) list \<Rightarrow> string \<Rightarrow> js \<Rightarrow> (string \<times> js) list" where
  "obj_put [] k v = [(k, v)]"
| "obj_put ((k', v') # ps) k v = (if k' = k then (k, v) # ps else (k', v') # obj_put ps k v)"

definition obj_has :: "(string \<times> js) list \<Rightarrow> string \<Rightarrow> bool" where
  "obj_has ps k \<longleftrightarrow> k \<in> fst ` set ps"

text \<open>
  The own enumerable properties, as \<open>for (p in v)\<close> with \<open>hasOwnProperty\<close> visits them; those of a
  string are its characters.
\<close>

definition own_props :: "js \<Rightarrow> (string \<times> js) list" where
  "own_props v = (case v of JObj ps \<Rightarrow> ps | JArr xs \<Rightarrow> zip (map nat_str [0..<length xs]) xs
     | JStr s \<Rightarrow> zip (map nat_str [0..<length s]) (map (\<lambda>c. JStr [c]) s) | _ \<Rightarrow> [])"

text \<open>
  Reading a named property: an exception on \<open>undefined\<close> and \<open>null\<close>, \<open>undefined\<close> when the
  value has no such property (the names the code reads are no properties of primitive values).
\<close>

definition js_member :: "js \<Rightarrow> string \<Rightarrow> js res" where
  "js_member v k = (case v of JUndef \<Rightarrow> Inl TypeError | JNull \<Rightarrow> Inl TypeError
     | JObj ps \<Rightarrow> Inr (obj_get ps k) | JArr xs \<Rightarrow> Inr (obj_get (own_props v) k) | _ \<Rightarrow> Inr JUndef)"

lemma obj_get_put [js_simps, simp]: "obj_get (obj_put ps k v) k' = (if k' = k then v else obj_get ps k')"
  by (induction ps k v rule: obj_put.induct) auto

lemma obj_get_append: "obj_get (ps @ qs) k = (if obj_has ps k then obj_get ps k else obj_get qs k)"
  by (induction ps k rule: obj_get.induct) (auto simp: obj_has_def)

lemma obj_has_simps [simp]:
  "\<not> obj_has [] k"
  "obj_has ((k', v) # ps) k \<longleftrightarrow> k' = k \<or> obj_has ps k"
  by (auto simp: obj_has_def)

lemma obj_get_absent: "\<not> obj_has ps k \<Longrightarrow> obj_get ps k = JUndef"
  by (induction ps k rule: obj_get.induct) auto

lemma obj_has_put [simp]: "obj_has (obj_put ps k v) k' \<longleftrightarrow> k' = k \<or> obj_has ps k'"
  by (induction ps k v rule: obj_put.induct) auto

lemma obj_put_distinct: "distinct (map fst ps) \<Longrightarrow> distinct (map fst (obj_put ps k v))"
proof (induction ps k v rule: obj_put.induct)
  case (2 k' v' ps k v)
  have "obj_has (obj_put ps k v) k' \<longleftrightarrow> k' = k \<or> obj_has ps k'" by simp
  with 2 show ?case by (auto simp: obj_has_def)
qed simp

section \<open>Lists\<close>

lemma distinct_sorted_eqI:
  fixes xs ys :: "'a::linorder list"
  assumes "sorted xs" "distinct xs" "sorted ys" "distinct ys" "set xs = set ys"
  shows "xs = ys"
  using assms by (rule sorted_distinct_set_unique)

end
