(* ===== verification/NumberLine.thy ===== *)
theory NumberLine
  imports Prelude "HOL-Library.Product_Lexorder" "HOL-Library.Multiset"
begin

text \<open>
  The interval arithmetic of \<^verbatim>\<open>Adapter/common/IndexBounds.js\<close>: values with the infinities and
  null, endpoints, segments, number lines, and the sweep over a stack of lines that computes unions
  and intersections. A number line is the list of its transition points; the set of key values it
  stands for is \<open>line_set\<close>. Methods that change an endpoint in place return the changed endpoint:
  within this theory no endpoint is used again under its old value.
  The finite values of a column are of one type \<open>'v\<close>, with its order for JavaScript's \<open><\<close>.
\<close>

section \<open>Values\<close>

text \<open>The constructors are in the order in which the values sort.\<close>

datatype 'v jsval = NegInf | Null | Fin 'v | PosInf

instantiation jsval :: (linorder) linorder
begin

fun less_eq_jsval :: "'a jsval \<Rightarrow> 'a jsval \<Rightarrow> bool" where
  "less_eq_jsval NegInf b = True"
| "less_eq_jsval Null b = (b \<noteq> NegInf)"
| "less_eq_jsval (Fin x) b = (case b of Fin y \<Rightarrow> x \<le> y | PosInf \<Rightarrow> True | _ \<Rightarrow> False)"
| "less_eq_jsval PosInf b = (b = PosInf)"

definition less_jsval :: "'a jsval \<Rightarrow> 'a jsval \<Rightarrow> bool" where
  "less_jsval a b \<longleftrightarrow> a \<le> b \<and> \<not> b \<le> a"

instance
proof
  fix a b c :: "'a jsval"
  show "a < b \<longleftrightarrow> a \<le> b \<and> \<not> b \<le> a" by (rule less_jsval_def)
  show "a \<le> a" by (cases a) auto
  show "a \<le> b \<Longrightarrow> b \<le> c \<Longrightarrow> a \<le> c" by (cases a; cases b; cases c) auto
  show "a \<le> b \<Longrightarrow> b \<le> a \<Longrightarrow> a = b" by (cases a; cases b) auto
  show "a \<le> b \<or> b \<le> a" by (cases a; cases b) auto
qed

end

definition compareValues :: "('v::linorder) jsval \<Rightarrow> 'v jsval \<Rightarrow> int" where
  "compareValues a b =
     (if a = NegInf \<or> b = PosInf then -1
      else if a = PosInf \<or> b = NegInf then 1
      else if a = Null \<or> b = Null then (if a = b then 0 else if a = Null then -1 else 1)
      else (case (a, b) of (Fin x, Fin y) \<Rightarrow> if x = y then 0 else if x < y then -1 else 1 | _ \<Rightarrow> 0))"

text \<open>
  The value of an endpoint is a plain value or an \<open>IndexValue\<close>, the list of the values of the leading
  columns of an index.
\<close>

datatype 'v epval = Simple "'v jsval" | Index "'v jsval list"

fun IndexValue_compare :: "('v::linorder) jsval list \<Rightarrow> 'v jsval list \<Rightarrow> int" where
  "IndexValue_compare (a # as) (b # bs) =
     (let cmp = compareValues a b in if cmp \<noteq> 0 then cmp else IndexValue_compare as bs)"
| "IndexValue_compare _ _ = 0"

definition isFinite_value :: "'v jsval \<Rightarrow> bool" where
  "isFinite_value v = (case v of Fin _ \<Rightarrow> True | _ \<Rightarrow> False)"

definition IndexValue_isFinite :: "'v jsval list \<Rightarrow> bool" where
  "IndexValue_isFinite parts = (if parts = [] then False else isFinite_value (last parts))"

section \<open>Endpoints\<close>

record 'v endpoint =
  ep_value :: "'v epval"
  inclusive :: bool
  isLow :: "bool option"
  isFinite :: bool

definition Endpoint :: "'v epval \<Rightarrow> bool \<Rightarrow> bool option \<Rightarrow> 'v endpoint" where
  "Endpoint v incl low = \<lparr>ep_value = v, inclusive = incl, isLow = low,
     isFinite = (case v of Simple x \<Rightarrow> isFinite_value x | Index xs \<Rightarrow> IndexValue_isFinite xs)\<rparr>"

text \<open>
  Comparing an \<open>IndexValue\<close> with a plain value fails the assertion of \<open>IndexValue.compare\<close> (or reads
  a property of \<open>null\<close>); a plain value compared with an \<open>IndexValue\<close> goes to \<open>compareValues\<close>. Only
  the infinities that \<open>complement\<close> adds can meet an \<open>IndexValue\<close> there; a number is neither equal to
  nor less than an object.
\<close>

definition value_compare :: "('v::linorder) epval \<Rightarrow> 'v epval \<Rightarrow> int res" where
  "value_compare a b = (case a of
       Index xs \<Rightarrow> (case b of Index ys \<Rightarrow> Inr (IndexValue_compare xs ys)
                   | Simple y \<Rightarrow> Inl (if y = Null then TypeError else AssertionError))
     | Simple x \<Rightarrow> (case b of Simple y \<Rightarrow> Inr (compareValues x y)
                   | Index ys \<Rightarrow> Inr (if x = NegInf \<or> x = Null then -1 else 1)))"

definition ep_compare :: "('v::linorder) endpoint \<Rightarrow> 'v endpoint \<Rightarrow> int res" where
  "ep_compare this that =
     rbind (value_compare (ep_value this) (ep_value that)) (\<lambda>cmp.
       Inr (if cmp \<noteq> 0 then cmp
         else if isLow this = Some True \<and> isLow that = Some True \<and> inclusive this \<noteq> inclusive that
         then (if inclusive this then -1 else 1)
         else if isLow this = isLow that \<and> inclusive this \<noteq> inclusive that
         then (if inclusive this then 1 else -1)
         else if inclusive this \<and> inclusive that
         then (if isLow this = Some True then -1 else 1)
         else (if isLow this = Some True then 1 else -1)))"

definition ep_complement :: "'v endpoint \<Rightarrow> 'v endpoint" where
  "ep_complement e =
     (let e1 = (if isFinite e then e\<lparr>inclusive := \<not> inclusive e\<rparr> else e)
      in (case isLow e1 of Some b \<Rightarrow> e1\<lparr>isLow := Some (\<not> b)\<rparr> | None \<Rightarrow> e1))"

definition ep_low :: "'v endpoint \<Rightarrow> 'v endpoint" where "ep_low e = e\<lparr>isLow := Some True\<rparr>"
definition ep_high :: "'v endpoint \<Rightarrow> 'v endpoint" where "ep_high e = e\<lparr>isLow := Some False\<rparr>"

definition toIndexValueEndpoint :: "'v endpoint \<Rightarrow> 'v endpoint" where
  "toIndexValueEndpoint e =
     Endpoint (Index (case ep_value e of Simple v \<Rightarrow> [v] | Index vs \<Rightarrow> vs)) (inclusive e) (isLow e)"

definition negInf :: "'v endpoint" where "negInf = ep_low (Endpoint (Simple NegInf) True None)"
definition posInf :: "'v endpoint" where "posInf = ep_high (Endpoint (Simple PosInf) True None)"
definition negInfNonNull :: "'v endpoint" where "negInfNonNull = Endpoint (Simple Null) False None"
definition nullInc :: "'v endpoint" where "nullInc = Endpoint (Simple Null) True None"
definition nullExc :: "'v endpoint" where "nullExc = Endpoint (Simple Null) False None"

section \<open>Segments and number lines\<close>

type_synonym 'v segment = "'v endpoint \<times> 'v endpoint"
type_synonym 'v line = "'v endpoint list"

definition Segment :: "('v::linorder) endpoint \<Rightarrow> 'v endpoint \<Rightarrow> 'v segment res" where
  "Segment p1 p2 = rbind (ep_compare p1 p2) (\<lambda>cmp.
     Inr (if cmp = -1 then (ep_low p1, ep_high p2) else (ep_low p2, ep_high p1)))"

definition seg_toNumberLine :: "'v segment \<Rightarrow> 'v line" where
  "seg_toNumberLine s = [fst s, snd s]"

definition seg_toIndexValues :: "('v::linorder) segment \<Rightarrow> 'v segment res" where
  "seg_toIndexValues s = Segment (toIndexValueEndpoint (fst s)) (toIndexValueEndpoint (snd s))"

definition line_toIndexValues :: "'v line \<Rightarrow> 'v line" where
  "line_toIndexValues ts = map toIndexValueEndpoint ts"

text \<open>
  \<open>lowerBound\<close> of an empty line calls \<open>posInf.low\<close> instead of \<open>posInf().low\<close>, a function that has no
  method \<open>low\<close>.
\<close>

definition lowerBound :: "'v line \<Rightarrow> 'v endpoint res" where
  "lowerBound ts = (if ts = [] then Inl TypeError else Inr (hd ts))"

definition upperBound :: "'v line \<Rightarrow> 'v endpoint" where
  "upperBound ts = (if ts = [] then ep_high negInf else last ts)"

definition line_complement :: "'v line \<Rightarrow> 'v line res" where
  "line_complement ts0 =
     (let ts = map ep_complement ts0 in
      rbind (lowerBound ts) (\<lambda>lb.
        let ts1 = (if \<not> isFinite lb then tl ts else negInf # ts);
            ts2 = (if \<not> isFinite (upperBound ts1) then butlast ts1 else ts1 @ [posInf])
        in if even (length ts2) then Inr ts2 else Inl AssertionError))"

definition seg_complement :: "'v segment \<Rightarrow> 'v line res" where
  "seg_complement s = line_complement (seg_toNumberLine s)"

definition line_nonNull :: "'v line \<Rightarrow> 'v line" where
  "line_nonNull ts = (case ts of [] \<Rightarrow> [ep_low nullExc] | t # ts' \<Rightarrow> ep_low nullExc # ts')"

text \<open>The iterator over the segments, run to its end.\<close>

fun line_segments :: "('v::linorder) line \<Rightarrow> 'v segment list res" where
  "line_segments [] = Inr []"
| "line_segments [p] = Inl TypeError"
| "line_segments (p # q # ts) =
     rbind (Segment p q) (\<lambda>s. rbind (line_segments ts) (\<lambda>ss. Inr (s # ss)))"

definition createSegmentBetween :: "('v::linorder) jsval \<Rightarrow> 'v jsval \<Rightarrow> 'v segment res" where
  "createSegmentBetween a b = Segment (Endpoint (Simple a) True None) (Endpoint (Simple b) True None)"

definition unboundedSegment :: "('v::linorder) segment res" where
  "unboundedSegment = Segment negInf posInf"

section \<open>The stack of lines\<close>

fun merge_with :: "('e \<Rightarrow> 'e \<Rightarrow> int res) \<Rightarrow> 'e list \<Rightarrow> 'e list \<Rightarrow> 'e list res" where
  "merge_with cmp (a # as) (b # bs) =
     rbind (cmp a b) (\<lambda>c.
       if c < 1 then rbind (merge_with cmp as (b # bs)) (\<lambda>r. Inr (a # r))
       else rbind (merge_with cmp (a # as) bs) (\<lambda>r. Inr (b # r)))"
| "merge_with cmp [] bs = Inr bs"
| "merge_with cmp as [] = Inr as"

definition mergeSortEndpoints :: "('v::linorder) line \<Rightarrow> 'v line \<Rightarrow> 'v line res" where
  "mergeSortEndpoints = merge_with ep_compare"

text \<open>The lines are popped from the end of the array and merged into the list.\<close>

fun merge_lines :: "('v::linorder) line \<Rightarrow> 'v line list \<Rightarrow> 'v line res" where
  "merge_lines acc [] = Inr acc"
| "merge_lines acc (ins # rest) = rbind (mergeSortEndpoints acc ins) (\<lambda>acc'. merge_lines acc' rest)"

record 'v line_stack =
  st_size :: nat
  st_list :: "'v line"

definition NumberLineStack :: "('v::linorder) line list \<Rightarrow> 'v line_stack res" where
  "NumberLineStack ls =
     (if ls = [] then Inl TypeError
      else rbind (merge_lines (last ls) (rev (butlast ls))) (\<lambda>l.
             Inr \<lparr>st_size = length ls, st_list = l\<rparr>))"

fun sweep_loop :: "int \<Rightarrow> int \<Rightarrow> 'v line \<Rightarrow> 'v line res" where
  "sweep_loop targetDepth depth [] = Inr []"
| "sweep_loop targetDepth depth (p # ps) =
     (case isLow p of
        None \<Rightarrow> Inl AssertionError
      | Some True \<Rightarrow> rbind (sweep_loop targetDepth (depth + 1) ps) (\<lambda>r.
          Inr (if depth + 1 = targetDepth then p # r else r))
      | Some False \<Rightarrow> rbind (sweep_loop targetDepth (depth - 1) ps) (\<lambda>r.
          Inr (if depth = targetDepth then p # r else r)))"

definition stack_intersection :: "'v line_stack \<Rightarrow> 'v line res" where
  "stack_intersection st = sweep_loop (int (st_size st)) 0 (st_list st)"

definition stack_union :: "'v line_stack \<Rightarrow> 'v line res" where
  "stack_union st = sweep_loop 1 0 (st_list st)"

text \<open>\<open>createSegmentForComparator\<close> stores \<open>null\<close> for an operation code it does not know.\<close>

datatype 'v bound = Seg "'v segment" | Line "'v line" | NullBound

definition createSegmentForComparator :: "nat option \<Rightarrow> ('v::linorder) jsval \<Rightarrow> 'v bound res" where
  "createSegmentForComparator operator v =
     (let ep = (\<lambda>incl. Endpoint (Simple v) incl None); seg = (\<lambda>r. rbind r (\<lambda>s. Inr (Seg s))) in
      if operator = Some 0 then seg (Segment negInfNonNull (ep True))
      else if operator = Some 1 then seg (Segment negInfNonNull (ep False))
      else if operator = Some 2 then seg (Segment (ep True) posInf)
      else if operator = Some 3 then seg (Segment (ep False) posInf)
      else if operator = Some 4 then seg (Segment (ep True) (ep True))
      else if operator = Some 5 then
        rbind (Segment (ep True) (ep True)) (\<lambda>s.
          rbind (seg_complement s) (\<lambda>l. Inr (Line (line_nonNull l))))
      else Inr NullBound)"

definition bound_toNumberLine :: "'v bound \<Rightarrow> 'v line res" where
  "bound_toNumberLine b = (case b of Seg s \<Rightarrow> Inr (seg_toNumberLine s) | Line l \<Rightarrow> Inr l
     | NullBound \<Rightarrow> Inl TypeError)"

definition bound_complement :: "'v bound \<Rightarrow> 'v line res" where
  "bound_complement b = (case b of Seg s \<Rightarrow> seg_complement s | Line l \<Rightarrow> line_complement l
     | NullBound \<Rightarrow> Inl TypeError)"

definition bound_toIndexValues :: "('v::linorder) bound \<Rightarrow> 'v bound res" where
  "bound_toIndexValues b = (case b of Seg s \<Rightarrow> rbind (seg_toIndexValues s) (\<lambda>s'. Inr (Seg s'))
     | Line l \<Rightarrow> Inr (Line (line_toIndexValues l)) | NullBound \<Rightarrow> Inl TypeError)"

section \<open>Positions\<close>

text \<open>
  Merging needs of the comparison only that it returns and agrees with a position. The comparison
  never answers 0 for equal endpoints, so it is not an order itself.
\<close>

locale positioned =
  fixes compare :: "'e \<Rightarrow> 'e \<Rightarrow> int res"
    and position :: "'e \<Rightarrow> 'p::linorder"
    and ok :: "'e \<Rightarrow> bool"
  assumes compare_returns: "ok a \<Longrightarrow> ok b \<Longrightarrow> \<exists>c. compare a b = Inr c"
    and compare_before: "ok a \<Longrightarrow> ok b \<Longrightarrow> compare a b = Inr c \<Longrightarrow> c < 1 \<Longrightarrow> position a \<le> position b"
    and compare_after: "ok a \<Longrightarrow> ok b \<Longrightarrow> compare a b = Inr c \<Longrightarrow> \<not> c < 1 \<Longrightarrow> position b \<le> position a"
begin

lemma merge_correct:
  assumes "cmp = compare" "list_all ok as" "list_all ok bs" "sorted (map position as)" "sorted (map position bs)"
  shows "\<exists>r. merge_with cmp as bs = Inr r \<and> mset r = mset as + mset bs \<and> sorted (map position r)"
  using assms
proof (induction cmp as bs rule: merge_with.induct)
  case (1 cmp a as b bs)
  from "1.prems" obtain c where c: "compare a b = Inr c" using compare_returns by fastforce
  show ?case
  proof (cases "c < 1")
    case True
    with 1 c obtain r where r: "merge_with cmp as (b # bs) = Inr r" "mset r = mset as + mset (b # bs)"
        "sorted (map position r)" by auto
    have "position a \<le> position y" if "y \<in> set r" for y
    proof -
      have "y \<in> set as \<union> set (b # bs)" using r(2) that by (metis set_mset_mset set_mset_union)
      then show ?thesis using "1.prems" compare_before[OF _ _ c True] by (fastforce intro: order_trans)
    qed
    with r c True "1.prems"(1) show ?thesis by auto
  next
    case False
    with 1 c obtain r where r: "merge_with cmp (a # as) bs = Inr r" "mset r = mset (a # as) + mset bs"
        "sorted (map position r)" by auto
    have "position b \<le> position y" if "y \<in> set r" for y
    proof -
      have "y \<in> set (a # as) \<union> set bs" using r(2) that by (metis set_mset_mset set_mset_union)
      then show ?thesis using "1.prems" compare_after[OF _ _ c False] by (fastforce intro: order_trans)
    qed
    with r c False "1.prems"(1) show ?thesis by auto
  qed
qed simp_all

end

definition ep_key :: "'v endpoint \<Rightarrow> 'v jsval" where
  "ep_key e = (case ep_value e of Simple v \<Rightarrow> v | Index vs \<Rightarrow> hd vs)"

text \<open>
  An endpoint lies just before its value (\<open>False\<close>) when it is an inclusive low or an exclusive high
  end, and just after it otherwise.
\<close>

definition pos :: "'v endpoint \<Rightarrow> 'v jsval \<times> bool" where
  "pos e = (ep_key e, (isLow e = Some True) \<noteq> inclusive e)"

text \<open>
  The endpoints of the lines the code builds for finite operands: an infinity is an inclusive end on
  its own side.
\<close>

definition infinite_ok :: "'v endpoint \<Rightarrow> bool" where
  "infinite_ok e \<longleftrightarrow> (ep_key e = NegInf \<longrightarrow> inclusive e \<and> isLow e = Some True) \<and>
     (ep_key e = PosInf \<longrightarrow> inclusive e \<and> isLow e = Some False)"

definition simple_ep :: "'v endpoint \<Rightarrow> bool" where
  "simple_ep e \<longleftrightarrow> ep_value e = Simple (ep_key e) \<and> isLow e \<noteq> None \<and> isFinite e = isFinite_value (ep_key e)
     \<and> infinite_ok e"

definition index_ep :: "'v endpoint \<Rightarrow> bool" where
  "index_ep e \<longleftrightarrow> ep_value e = Index [ep_key e] \<and> isLow e \<noteq> None \<and> isFinite e = isFinite_value (ep_key e)
     \<and> infinite_ok e"

lemma compareValues_cases:
  "compareValues a b = -1 \<Longrightarrow> a \<le> b"
  "compareValues a b = 1 \<Longrightarrow> b \<le> a"
  "compareValues a b = 0 \<Longrightarrow> a = b"
  "compareValues a b \<in> {-1, 0, 1}"
  by (cases a; cases b; auto simp: compareValues_def split: if_splits)+

lemma compareValues_strict: "compareValues a b \<noteq> 0 \<Longrightarrow> a = b \<Longrightarrow> a = NegInf \<or> a = PosInf"
  by (cases a; cases b; auto simp: compareValues_def split: if_splits)

text \<open>What a comparison of two endpoints on the line, both plain or both one-part index values, says.\<close>

lemma ep_compare_pos:
  assumes "simple_ep a \<and> simple_ep b \<or> index_ep a \<and> index_ep b"
  shows "\<exists>c. ep_compare a b = Inr c \<and> (c = -1 \<and> pos a \<le> pos b \<or> c = 1 \<and> (pos b \<le> pos a))"
proof -
  let ?c = "compareValues (ep_key a) (ep_key b)"
  have v: "value_compare (ep_value a) (ep_value b) = Inr ?c"
    using assms by (auto simp: value_compare_def simple_ep_def index_ep_def Let_def split: epval.splits)
  have lows: "isLow a \<noteq> None" "isLow b \<noteq> None" using assms by (auto simp: simple_ep_def index_ep_def)
  consider "?c = -1" | "?c = 1" | "?c = 0" using compareValues_cases(4)[of "ep_key a" "ep_key b"] by auto
  then show ?thesis
  proof cases
    case 1
    show ?thesis
    proof (cases "ep_key a = ep_key b")
      case False
      with 1 v compareValues_cases(1)[OF 1] show ?thesis by (auto simp: ep_compare_def pos_def less_eq_prod_def)
    next
      case True
      then show ?thesis using 1 v assms compareValues_strict[of "ep_key a" "ep_key b"]
        by (auto simp: ep_compare_def simple_ep_def index_ep_def infinite_ok_def pos_def)
    qed
  next
    case 2
    show ?thesis
    proof (cases "ep_key a = ep_key b")
      case False
      with 2 v compareValues_cases(2)[OF 2] show ?thesis by (auto simp: ep_compare_def pos_def less_eq_prod_def)
    next
      case True
      then show ?thesis using 2 by (cases "ep_key b") (auto simp: compareValues_def)
    qed
  next
    case 3
    then have "ep_key a = ep_key b" by (rule compareValues_cases(3))
    then show ?thesis using 3 v lows
      by (auto simp: ep_compare_def pos_def less_eq_prod_def)
  qed
qed

interpretation simple_line: positioned ep_compare pos simple_ep
proof unfold_locales
  fix a b :: "'a endpoint" and c
  assume ok: "simple_ep a" "simple_ep b"
  show "\<exists>c. ep_compare a b = Inr c" using ep_compare_pos[of a b] ok by auto
  show "pos a \<le> pos b" if "ep_compare a b = Inr c" "c < 1" using ep_compare_pos[of a b] ok that by auto
  show "pos b \<le> pos a" if "ep_compare a b = Inr c" "\<not> c < 1" using ep_compare_pos[of a b] ok that by auto
qed

interpretation index_line: positioned ep_compare pos index_ep
proof unfold_locales
  fix a b :: "'a endpoint" and c
  assume ok: "index_ep a" "index_ep b"
  show "\<exists>c. ep_compare a b = Inr c" using ep_compare_pos[of a b] ok by auto
  show "pos a \<le> pos b" if "ep_compare a b = Inr c" "c < 1" using ep_compare_pos[of a b] ok that by auto
  show "pos b \<le> pos a" if "ep_compare a b = Inr c" "\<not> c < 1" using ep_compare_pos[of a b] ok that by auto
qed

section \<open>The set of values on a line\<close>

definition passed :: "('v::linorder) endpoint \<Rightarrow> 'v jsval \<Rightarrow> bool" where
  "passed e x \<longleftrightarrow> pos e \<le> (x, False)"

definition seg_set :: "('v::linorder) segment \<Rightarrow> 'v jsval set" where
  "seg_set s = {x. passed (fst s) x \<and> \<not> passed (snd s) x}"

fun line_set :: "('v::linorder) line \<Rightarrow> 'v jsval set" where
  "line_set (p # q # ts) = seg_set (p, q) \<union> line_set ts"
| "line_set _ = {}"

text \<open>\<open>alt b c ts\<close>: low and high ends take turns in \<open>ts\<close>, from inside (\<open>b\<close>) or outside to \<open>c\<close>.\<close>

fun alt :: "bool \<Rightarrow> bool \<Rightarrow> 'v line \<Rightarrow> bool" where
  "alt b c [] = (b = c)"
| "alt b c (p # ps) = (isLow p = Some (\<not> b) \<and> alt (\<not> b) c ps)"

definition wf_line :: "('v::linorder) line \<Rightarrow> bool" where
  "wf_line ts \<longleftrightarrow> list_all simple_ep ts \<and> sorted (map pos ts) \<and> alt False False ts"

definition sgn_ep :: "'v endpoint \<Rightarrow> int" where
  "sgn_ep e = (if isLow e = Some True then 1 else -1)"

definition depth :: "('v::linorder) line \<Rightarrow> 'v jsval \<Rightarrow> int" where
  "depth ts x = (\<Sum>e\<leftarrow>ts. if passed e x then sgn_ep e else 0)"

lemma depth_simps [simp]:
  "depth [] x = 0"
  "depth (e # ts) x = (if passed e x then sgn_ep e else 0) + depth ts x"
  "depth (ts @ us) x = depth ts x + depth us x"
  by (simp_all add: depth_def)

lemma depth_mset: "mset ts = mset us \<Longrightarrow> depth ts x = depth us x"
  unfolding depth_def sum_mset_sum_list[symmetric] mset_map by simp

lemma depth_not_passed: "(\<And>e. e \<in> set ts \<Longrightarrow> \<not> passed e x) \<Longrightarrow> depth ts x = 0"
  by (induction ts) auto

lemma passed_mono: "pos a \<le> pos b \<Longrightarrow> passed b x \<Longrightarrow> passed a x"
  unfolding passed_def by (rule order_trans)

lemma line_set_passed: "x \<in> line_set ts \<Longrightarrow> \<exists>e\<in>set ts. passed e x"
  by (induction ts rule: line_set.induct) (auto simp: seg_set_def)

lemma depth_line_set:
  assumes "sorted (map pos ts)" "alt False False ts"
  shows "depth ts x = (if x \<in> line_set ts then 1 else 0)"
  using assms
proof (induction ts rule: line_set.induct)
  case (1 p q ts)
  then have IH: "depth ts x = (if x \<in> line_set ts then 1 else 0)" by simp
  have "pos p \<le> pos q" and later: "\<And>e. e \<in> set ts \<Longrightarrow> pos q \<le> pos e" using "1.prems" by auto
  then have "passed q x \<Longrightarrow> passed p x" using passed_mono[of p q x] by blast
  moreover have "x \<notin> line_set ts" if "\<not> passed q x"
  proof
    assume "x \<in> line_set ts"
    then obtain e where "e \<in> set ts" "passed e x" using line_set_passed by blast
    with later[of e] that passed_mono[of q e x] show False by blast
  qed
  moreover have "sgn_ep p = 1" "sgn_ep q = -1" using "1.prems" by (auto simp: sgn_ep_def)
  ultimately show ?case by (auto simp: IH seg_set_def)
qed auto

text \<open>The sweep: the part of the sorted points at which the depth reaches or leaves the target.\<close>

lemma sweep_loop_correct:
  assumes "list_all (\<lambda>p. isLow p \<noteq> None) l" "sorted (map pos l)"
  shows "\<exists>r. sweep_loop k d l = Inr r \<and> set r \<subseteq> set l \<and> sorted (map pos r) \<and>
    (\<forall>x. depth r x = of_bool (k \<le> d + depth l x) - of_bool (k \<le> d)) \<and>
    alt (k \<le> d) (k \<le> d + (\<Sum>e\<leftarrow>l. sgn_ep e)) r"
  using assms
proof (induction l arbitrary: d)
  case (Cons p ps)
  obtain low where low: "isLow p = Some low" using Cons.prems by auto
  let ?d = "d + sgn_ep p"
  obtain r where r: "sweep_loop k ?d ps = Inr r" "set r \<subseteq> set ps" "sorted (map pos r)"
      "\<And>x. depth r x = of_bool (k \<le> ?d + depth ps x) - of_bool (k \<le> ?d)"
      "alt (k \<le> ?d) (k \<le> ?d + (\<Sum>e\<leftarrow>ps. sgn_ep e)) r"
    using Cons.IH[of ?d] Cons.prems by auto
  let ?keep = "if low then d + 1 = k else d = k"
  have eq: "sweep_loop k d (p # ps) = Inr (if ?keep then p # r else r)"
    using r(1) low by (auto simp: sgn_ep_def)
  have "depth ps x = 0" if "\<not> passed p x" for x
  proof (rule depth_not_passed)
    fix e assume "e \<in> set ps"
    then show "\<not> passed e x" using Cons.prems that passed_mono[of p e] by auto
  qed
  then have "depth (if ?keep then p # r else r) x =
      of_bool (k \<le> d + depth (p # ps) x) - of_bool (k \<le> d)" for x
    using r(4)[of x] low by (auto simp: sgn_ep_def)
  moreover have "alt (k \<le> d) (k \<le> d + (\<Sum>e\<leftarrow>p # ps. sgn_ep e)) (if ?keep then p # r else r)"
  proof -
    have "isLow p = Some (\<not> k \<le> d) \<and> (k \<le> ?d) = (\<not> k \<le> d)" if "?keep"
      using that low by (auto simp: sgn_ep_def)
    moreover have "(k \<le> ?d) = (k \<le> d)" if "\<not> ?keep" using that low by (auto simp: sgn_ep_def)
    ultimately show ?thesis using r(5) by (cases ?keep) (simp_all add: add.assoc)
  qed
  moreover have "sorted (map pos (if ?keep then p # r else r))" using r(2,3) Cons.prems by auto
  ultimately show ?case using eq r(2) by (auto split: if_splits)
qed simp

lemma alt_balance: "alt b c ts \<Longrightarrow> (\<Sum>e\<leftarrow>ts. sgn_ep e) = of_bool c - of_bool b"
  by (induction ts arbitrary: b) (auto simp: sgn_ep_def)

lemma merge_lines_correct:
  assumes "list_all simple_ep acc" "sorted (map pos acc)"
    "\<forall>l\<in>set ls. list_all simple_ep l \<and> sorted (map pos l)"
  shows "\<exists>r. merge_lines acc ls = Inr r \<and> mset r = mset acc + (\<Sum>l\<leftarrow>ls. mset l) \<and>
    list_all simple_ep r \<and> sorted (map pos r)"
  using assms
proof (induction ls arbitrary: acc)
  case (Cons l ls)
  then obtain r where r: "mergeSortEndpoints acc l = Inr r" "mset r = mset acc + mset l" "sorted (map pos r)"
    using simple_line.merge_correct[of ep_compare acc l] by (auto simp: mergeSortEndpoints_def)
  have "set r = set acc \<union> set l" using r(2) by (metis set_mset_mset set_mset_union)
  then have "list_all simple_ep r" using Cons.prems by (auto simp: list_all_iff)
  with Cons.IH[OF this r(3)] Cons.prems r show ?case by (auto simp: add.assoc)
qed simp

text \<open>A stack of well formed lines: how deep a value lies is the number of lines it is on.\<close>

lemma NumberLineStack_correct:
  assumes "ls \<noteq> []" "\<forall>l\<in>set ls. wf_line l"
  shows "\<exists>st. NumberLineStack ls = Inr st \<and> st_size st = length ls \<and>
    list_all simple_ep (st_list st) \<and> sorted (map pos (st_list st)) \<and> (\<Sum>e\<leftarrow>st_list st. sgn_ep e) = 0 \<and>
    (\<forall>x. depth (st_list st) x = int (length (filter (\<lambda>l. x \<in> line_set l) ls))) \<and>
    set (st_list st) = (\<Union>l\<in>set ls. set l)"
proof -
  have "last ls \<in> set ls" using assms(1) by simp
  moreover have sub: "set (rev (butlast ls)) \<subseteq> set ls" by (auto dest: in_set_butlastD)
  ultimately obtain r where r: "merge_lines (last ls) (rev (butlast ls)) = Inr r"
      "mset r = mset (last ls) + (\<Sum>l\<leftarrow>rev (butlast ls). mset l)" "list_all simple_ep r" "sorted (map pos r)"
    using merge_lines_correct[of "last ls" "rev (butlast ls)"] assms(2) by (auto simp: wf_line_def)
  have "mset r = (\<Sum>l\<leftarrow>butlast ls @ [last ls]. mset l)"
    using r(2) by (simp add: rev_map[symmetric] sum_list_rev add.commute)
  then have m: "mset r = mset (concat ls)"
    using assms(1) by (simp add: mset_concat)
  have "depth r x = int (length (filter (\<lambda>l. x \<in> line_set l) ls))" for x
  proof -
    have "depth r x = depth (concat ls) x" by (rule depth_mset[OF m])
    also have "\<dots> = int (length (filter (\<lambda>l. x \<in> line_set l) ls))"
      using assms(2) by (induction ls) (auto simp: wf_line_def depth_line_set)
    finally show ?thesis .
  qed
  moreover have "(\<Sum>e\<leftarrow>r. sgn_ep e) = 0"
  proof -
    have "(\<Sum>e\<leftarrow>r. sgn_ep e) = (\<Sum>e\<leftarrow>concat ls. sgn_ep e)"
      using m by (metis mset_map sum_mset_sum_list)
    also have "\<dots> = 0"
      using assms(2) by (induction ls) (auto simp: wf_line_def dest!: alt_balance)
    finally show ?thesis .
  qed
  moreover have "set r = (\<Union>l\<in>set ls. set l)" using mset_eq_setD[OF m] by simp
  ultimately show ?thesis using r assms(1) by (simp add: NumberLineStack_def)
qed

lemma sweep_wf:
  assumes "list_all simple_ep l" "sorted (map pos l)" "(\<Sum>e\<leftarrow>l. sgn_ep e) = 0" "0 < k"
  shows "\<exists>r. sweep_loop k 0 l = Inr r \<and> set r \<subseteq> set l \<and> wf_line r \<and> line_set r = {x. k \<le> depth l x}"
proof -
  have "list_all (\<lambda>p. isLow p \<noteq> None) l" using assms(1) by (auto simp: list_all_iff simple_ep_def)
  then obtain r where r: "sweep_loop k 0 l = Inr r" "set r \<subseteq> set l" "sorted (map pos r)"
      "\<And>x. depth r x = of_bool (k \<le> depth l x)" "alt False False r"
    using sweep_loop_correct[of l k 0] assms by auto
  moreover have "x \<in> line_set r \<longleftrightarrow> k \<le> depth l x" for x
    using depth_line_set[OF r(3,5), of x] r(4)[of x] by (auto split: if_splits)
  ultimately show ?thesis using assms(1) by (auto simp: wf_line_def list_all_iff)
qed

definition line_union :: "('v::linorder) line list \<Rightarrow> 'v line res" where
  "line_union ls = rbind (NumberLineStack ls) stack_union"

definition line_intersection :: "('v::linorder) line list \<Rightarrow> 'v line res" where
  "line_intersection ls = rbind (NumberLineStack ls) stack_intersection"

lemma filter_length_eq: "length (filter P xs) = length xs \<longleftrightarrow> (\<forall>x\<in>set xs. P x)"
  by (metis (no_types) filter_True filter_id_conv length_filter_less order_less_irrefl)

lemma line_ops_points:
  assumes "ls \<noteq> []" "\<forall>l\<in>set ls. wf_line l"
  shows "\<exists>u. line_union ls = Inr u \<and> wf_line u \<and> line_set u = (\<Union>l\<in>set ls. line_set l) \<and>
      set u \<subseteq> (\<Union>l\<in>set ls. set l)"
    and "\<exists>i. line_intersection ls = Inr i \<and> wf_line i \<and> line_set i = (\<Inter>l\<in>set ls. line_set l) \<and>
      set i \<subseteq> (\<Union>l\<in>set ls. set l)"
proof -
  obtain st where st: "NumberLineStack ls = Inr st" "st_size st = length ls" "list_all simple_ep (st_list st)"
      "sorted (map pos (st_list st))" "(\<Sum>e\<leftarrow>st_list st. sgn_ep e) = 0"
      "\<And>x. depth (st_list st) x = int (length (filter (\<lambda>l. x \<in> line_set l) ls))"
      "set (st_list st) = (\<Union>l\<in>set ls. set l)"
    using NumberLineStack_correct[OF assms] by auto
  have all: "int (length ls) \<le> int (length (filter P ls)) \<longleftrightarrow> (\<forall>l\<in>set ls. P l)" for P
    using length_filter_le[of P ls] filter_length_eq[of P ls] by linarith
  have some: "1 \<le> int (length (filter P ls)) \<longleftrightarrow> (\<exists>l\<in>set ls. P l)" for P
    by (induction ls) auto
  have U: "{x. 1 \<le> depth (st_list st) x} = (\<Union>l\<in>set ls. line_set l)" by (simp only: st(6) some) auto
  have I: "{x. int (length ls) \<le> depth (st_list st) x} = (\<Inter>l\<in>set ls. line_set l)"
    by (simp only: st(6) all) auto
  obtain u where "sweep_loop 1 0 (st_list st) = Inr u" "set u \<subseteq> set (st_list st)" "wf_line u"
      "line_set u = {x. 1 \<le> depth (st_list st) x}"
    using sweep_wf[OF st(3-5), of 1] by auto
  then show "\<exists>u. line_union ls = Inr u \<and> wf_line u \<and> line_set u = (\<Union>l\<in>set ls. line_set l) \<and>
      set u \<subseteq> (\<Union>l\<in>set ls. set l)"
    unfolding U by (auto simp: line_union_def st(1,7) stack_union_def)
  have "0 < int (length ls)" using assms(1) by simp
  then obtain i where "sweep_loop (int (length ls)) 0 (st_list st) = Inr i" "set i \<subseteq> set (st_list st)"
      "wf_line i" "line_set i = {x. int (length ls) \<le> depth (st_list st) x}"
    using sweep_wf[OF st(3-5)] by blast
  then show "\<exists>i. line_intersection ls = Inr i \<and> wf_line i \<and> line_set i = (\<Inter>l\<in>set ls. line_set l) \<and>
      set i \<subseteq> (\<Union>l\<in>set ls. set l)"
    unfolding I by (auto simp: line_intersection_def st(1,2,7) stack_intersection_def)
qed

section \<open>Complement\<close>

text \<open>
  The lines that come from finite operands: a high end is finite or \<open>PosInf\<close>, a low end is not
  \<open>PosInf\<close>. Only the first low end and the last high end can then be infinite or null.
\<close>

definition proper_ep :: "('v::linorder) endpoint \<Rightarrow> bool" where
  "proper_ep e \<longleftrightarrow> (if isLow e = Some True then ep_key e \<noteq> PosInf
     else (\<exists>v. ep_key e = Fin v) \<or> ep_key e = PosInf)"

definition proper_line :: "('v::linorder) line \<Rightarrow> bool" where
  "proper_line ts \<longleftrightarrow> wf_line ts \<and> list_all proper_ep ts"

lemma alt_nth: "alt b c ts \<Longrightarrow> i < length ts \<Longrightarrow> isLow (ts ! i) = Some (even i \<noteq> b)"
  by (induction ts arbitrary: b i) (auto simp: nth_Cons split: nat.splits)

lemma alt_even: "alt b c ts \<Longrightarrow> even (length ts) \<longleftrightarrow> b = c"
  by (induction ts arbitrary: b) auto

lemma alt_append: "alt b c (xs @ ys) \<longleftrightarrow> (\<exists>d. alt b d xs \<and> alt d c ys)"
  by (induction xs arbitrary: b) auto

lemma pos_fst_mono: "pos a \<le> pos b \<Longrightarrow> ep_key a \<le> ep_key b"
  by (auto simp: pos_def less_eq_prod_def)

lemma proper_inner_finite:
  assumes "proper_line ts" "0 < i" "Suc i < length ts"
  shows "isFinite (ts ! i)"
proof -
  have wf: "wf_line ts" and pr: "\<And>k. k < length ts \<Longrightarrow> proper_ep (ts ! k)"
    using assms(1) by (auto simp: proper_line_def list_all_length)
  then have alt: "\<And>k. k < length ts \<Longrightarrow> isLow (ts ! k) = Some (even k)"
    and srt: "\<And>j k. j \<le> k \<Longrightarrow> k < length ts \<Longrightarrow> pos (ts ! j) \<le> pos (ts ! k)"
    and simple: "\<And>k. k < length ts \<Longrightarrow> simple_ep (ts ! k)"
    using alt_nth[of False False ts] by (auto simp: wf_line_def list_all_length sorted_iff_nth_mono)
  have "\<exists>v. ep_key (ts ! i) = Fin v"
  proof (cases "even i")
    case True
    have "\<not> even (i - 1)" using True assms(2) by simp
    then have "(\<exists>v. ep_key (ts ! (i - 1)) = Fin v) \<or> ep_key (ts ! (i - 1)) = PosInf"
      using pr[of "i - 1"] alt[of "i - 1"] assms by (auto simp: proper_ep_def split: if_splits)
    moreover have "ep_key (ts ! (i - 1)) \<le> ep_key (ts ! i)"
      using srt[of "i - 1" i] assms by (intro pos_fst_mono) auto
    moreover have "ep_key (ts ! i) \<noteq> PosInf"
      using pr[of i] alt[of i] assms True by (auto simp: proper_ep_def)
    ultimately show ?thesis by (cases "ep_key (ts ! i)") auto
  next
    case False
    have "ep_key (ts ! Suc i) \<noteq> PosInf"
      using pr[of "Suc i"] alt[of "Suc i"] assms False by (auto simp: proper_ep_def)
    moreover have "ep_key (ts ! i) \<le> ep_key (ts ! Suc i)"
      using srt[of i "Suc i"] assms by (intro pos_fst_mono) auto
    moreover have "(\<exists>v. ep_key (ts ! i) = Fin v) \<or> ep_key (ts ! i) = PosInf"
      using pr[of i] alt[of i] assms False by (auto simp: proper_ep_def split: if_splits)
    ultimately show ?thesis by (cases "ep_key (ts ! Suc i)") auto
  qed
  then show ?thesis using simple[of i] assms by (auto simp: simple_ep_def isFinite_value_def)
qed

lemma proper_line_parts:
  assumes "proper_line ts" "ts \<noteq> []"
  obtains lo mid hi where "ts = lo # mid @ [hi]" "isLow lo = Some True" "isLow hi = Some False"
    "alt True True mid" "\<forall>e\<in>set mid. isFinite e"
proof -
  have alt: "alt False False ts" using assms(1) by (simp add: proper_line_def wf_line_def)
  with assms(2) obtain lo rest where ts: "ts = lo # rest" by (cases ts) auto
  with alt have "rest \<noteq> []" by auto
  then obtain mid hi where rest: "rest = mid @ [hi]" by (cases rest rule: rev_cases) auto
  show thesis
  proof
    show "ts = lo # mid @ [hi]" by (simp add: ts rest)
    show "isLow lo = Some True" "isLow hi = Some False" "alt True True mid"
      using alt by (auto simp: ts rest alt_append)
    show "\<forall>e\<in>set mid. isFinite e"
    proof
      fix e assume "e \<in> set mid"
      then obtain i where "i < length mid" "mid ! i = e" by (auto simp: in_set_conv_nth)
      then show "isFinite e"
        using proper_inner_finite[OF assms(1), of "Suc i"] by (simp add: ts rest nth_append)
    qed
  qed
qed

lemma ep_complement_simps [simp]:
  "isFinite (ep_complement e) = isFinite e" "ep_key (ep_complement e) = ep_key e"
  "ep_value (ep_complement e) = ep_value e"
  "isLow (ep_complement e) = map_option Not (isLow e)"
  by (simp_all add: ep_complement_def ep_key_def Let_def split: option.split)

lemma ep_complement_finite:
  assumes "isFinite e" "simple_ep e"
  shows "pos (ep_complement e) = pos e" "simple_ep (ep_complement e)" "proper_ep (ep_complement e)"
    "sgn_ep (ep_complement e) = - sgn_ep e"
proof -
  obtain b where b: "isLow e = Some b" using assms(2) by (auto simp: simple_ep_def)
  have i: "inclusive (ep_complement e) = (\<not> inclusive e)"
    using assms(1) b by (simp add: ep_complement_def)
  have k: "\<exists>v. ep_key e = Fin v"
    using assms by (auto simp: simple_ep_def isFinite_value_def split: jsval.splits)
  show "pos (ep_complement e) = pos e" "sgn_ep (ep_complement e) = - sgn_ep e"
    by (auto simp: pos_def i b sgn_ep_def)
  show "simple_ep (ep_complement e)" "proper_ep (ep_complement e)"
    using assms k b by (auto simp: simple_ep_def infinite_ok_def proper_ep_def isFinite_value_def)
qed

lemma passed_complement: "isFinite e \<Longrightarrow> simple_ep e \<Longrightarrow> passed (ep_complement e) = passed e"
  by (simp add: fun_eq_iff passed_def ep_complement_finite)

lemma alt_complement: "alt b c ts \<Longrightarrow> b' = (\<not> b) \<Longrightarrow> c' = (\<not> c) \<Longrightarrow> alt b' c' (map ep_complement ts)"
proof (induction ts arbitrary: b b')
  case (Cons p ps)
  then show ?case using Cons.IH[of "\<not> b" b] by simp
qed simp

lemma depth_complement:
  assumes "\<forall>e\<in>set ts. isFinite e \<and> simple_ep e"
  shows "depth (map ep_complement ts) x = - depth ts x"
  using assms by (induction ts) (auto simp: ep_complement_finite passed_def)

lemma infinite_ends:
  "simple_ep negInf" "simple_ep posInf" "proper_ep negInf" "proper_ep posInf"
  "isLow negInf = Some True" "isLow posInf = Some False"
  "pos negInf = (NegInf, False)" "pos posInf = (PosInf, True)"
  "passed negInf (Fin v)" "\<not> passed posInf (Fin v)" "sgn_ep negInf = 1"
  by (simp_all add: negInf_def posInf_def ep_low_def ep_high_def Endpoint_def simple_ep_def ep_key_def
      infinite_ok_def isFinite_value_def proper_ep_def pos_def passed_def less_eq_prod_def less_jsval_def sgn_ep_def)

lemma pos_bounds: "(NegInf, False) \<le> pos e" "pos e \<le> (PosInf, True)"
  by (cases "ep_key e"; auto simp: pos_def less_eq_prod_def less_jsval_def)+

text \<open>One end of a complemented line: the end moves outwards when it is finite and goes away otherwise.\<close>

lemma low_end:
  assumes "simple_ep lo" "isLow lo = Some True" "proper_ep lo"
  defines "A \<equiv> if isFinite lo then [negInf, ep_complement lo] else []"
  shows "alt False False A" "list_all simple_ep A" "list_all proper_ep A" "sorted (map pos A)"
    "set (map pos A) \<subseteq> {(NegInf, False), pos lo}"
    "depth A (Fin v) = 1 - (if passed lo (Fin v) then 1 else 0)"
proof -
  have k: "ep_key lo \<noteq> PosInf" using assms by (simp add: proper_ep_def)
  have "passed lo (Fin v)" if "\<not> isFinite lo"
    using that assms(1) k by (cases "ep_key lo")
      (auto simp: simple_ep_def isFinite_value_def passed_def pos_def less_eq_prod_def less_jsval_def)
  then show "depth A (Fin v) = 1 - (if passed lo (Fin v) then 1 else 0)"
    using assms(1,2) by (auto simp: A_def infinite_ends ep_complement_finite sgn_ep_def passed_complement)
  show "alt False False A" "list_all simple_ep A" "list_all proper_ep A" "sorted (map pos A)"
    "set (map pos A) \<subseteq> {(NegInf, False), pos lo}"
    using assms by (auto simp: A_def infinite_ends ep_complement_finite pos_bounds)
qed

lemma high_end:
  assumes "simple_ep hi" "isLow hi = Some False" "proper_ep hi"
  defines "B \<equiv> if isFinite hi then [ep_complement hi, posInf] else []"
  shows "alt False False B" "list_all simple_ep B" "list_all proper_ep B" "sorted (map pos B)"
    "set (map pos B) \<subseteq> {(PosInf, True), pos hi}"
    "depth B (Fin v) = (if passed hi (Fin v) then 1 else 0)"
proof -
  have k: "(\<exists>v. ep_key hi = Fin v) \<or> ep_key hi = PosInf" using assms by (auto simp: proper_ep_def)
  have "\<not> passed hi (Fin v)" if "\<not> isFinite hi"
    using that assms(1) k
    by (auto simp: simple_ep_def isFinite_value_def passed_def pos_def less_eq_prod_def less_jsval_def)
  then show "depth B (Fin v) = (if passed hi (Fin v) then 1 else 0)"
    using assms(1,2) by (auto simp: B_def infinite_ends ep_complement_finite sgn_ep_def passed_complement)
  show "alt False False B" "list_all simple_ep B" "list_all proper_ep B" "sorted (map pos B)"
    "set (map pos B) \<subseteq> {(PosInf, True), pos hi}"
    using assms by (auto simp: B_def infinite_ends ep_complement_finite pos_bounds)
qed

lemma line_complement_ends:
  assumes "ts = lo # mid @ [hi]" "alt False False ts" "isLow hi \<noteq> None"
  shows "line_complement ts = Inr ((if isFinite lo then [negInf, ep_complement lo] else []) @
     map ep_complement mid @ (if isFinite hi then [ep_complement hi, posInf] else []))"
  using alt_even[OF assms(2)] assms(1)
  by (simp add: line_complement_def lowerBound_def upperBound_def Let_def butlast_append)

lemma line_complement_correct:
  assumes "proper_line ts" "ts \<noteq> []"
  shows "\<exists>r. line_complement ts = Inr r \<and> proper_line r \<and>
    (\<forall>v. Fin v \<in> line_set r \<longleftrightarrow> Fin v \<notin> line_set ts)"
proof -
  obtain lo mid hi where ts: "ts = lo # mid @ [hi]" and lo: "isLow lo = Some True"
    and hi: "isLow hi = Some False" and mid: "alt True True mid" "\<forall>e\<in>set mid. isFinite e"
    by (rule proper_line_parts[OF assms])
  have wf: "list_all simple_ep ts" "sorted (map pos ts)" "alt False False ts" "list_all proper_ep ts"
    using assms(1) by (auto simp: proper_line_def wf_line_def)
  define A where "A = (if isFinite lo then [negInf, ep_complement lo] else [])"
  define B where "B = (if isFinite hi then [ep_complement hi, posInf] else [])"
  let ?r = "A @ map ep_complement mid @ B"
  have sm: "\<forall>e\<in>set mid. isFinite e \<and> simple_ep e" using wf(1) mid(2) by (auto simp: ts list_all_iff)
  have ends: "simple_ep lo" "isLow lo = Some True" "proper_ep lo"
    "simple_ep hi" "isLow hi = Some False" "proper_ep hi"
    using wf lo hi by (auto simp: ts)
  note a = low_end[OF ends(1-3), folded A_def] and b = high_end[OF ends(4-6), folded B_def]
  have eq: "line_complement ts = Inr ?r" using line_complement_ends[OF ts wf(3)] hi by (simp add: A_def B_def)
  have mp: "map pos (map ep_complement mid) = map pos mid"
    using sm by (simp add: ep_complement_finite)
  have sorted: "sorted (map pos mid)" "\<And>e. e \<in> set mid \<Longrightarrow> pos lo \<le> pos e \<and> pos e \<le> pos hi" "pos lo \<le> pos hi"
    using wf(2) by (auto simp: ts sorted_append)
  have A5: "p = (NegInf, False) \<or> p = pos lo" if "p \<in> set (map pos A)" for p using a(5) that by blast
  have B5: "p = (PosInf, True) \<or> p = pos hi" if "p \<in> set (map pos B)" for p using b(5) that by blast
  have srt: "sorted (map pos ?r)"
    unfolding map_append mp sorted_append
  proof (intro conjI ballI)
    fix p q assume "p \<in> set (map pos A)" "q \<in> set (map pos mid @ map pos B)"
    then consider "q \<in> set (map pos mid)" | "q \<in> set (map pos B)" by auto
    then show "p \<le> q"
      using A5[OF \<open>p \<in> set (map pos A)\<close>] B5[of q] sorted(2,3) pos_bounds by cases auto
  next
    fix p q assume "p \<in> set (map pos mid)" "q \<in> set (map pos B)"
    then show "p \<le> q" using B5[of q] sorted(2) pos_bounds by auto
  qed (use a(4) b(4) sorted(1) in simp_all)
  have al: "alt False False ?r"
    using a(1) b(1) alt_complement[OF mid(1), of False False] by (auto simp: alt_append)
  have la: "list_all simple_ep ?r" "list_all proper_ep ?r"
    using a(2,3) b(2,3) sm by (auto simp: list_all_iff ep_complement_finite)
  have dep: "depth ?r (Fin v) = 1 - depth ts (Fin v)" for v
    using a(6)[of v] b(6)[of v] lo hi by (simp add: depth_complement[OF sm] ts sgn_ep_def)
  moreover have "Fin v \<in> line_set ?r \<longleftrightarrow> Fin v \<notin> line_set ts" for v
    using dep[of v] depth_line_set[OF srt al, of "Fin v"] depth_line_set[OF wf(2,3), of "Fin v"]
    by (simp split: if_splits)
  ultimately show ?thesis
    using eq srt al la unfolding proper_line_def wf_line_def by blast
qed

lemma proper_line_ops:
  assumes "ls \<noteq> []" "\<forall>l\<in>set ls. proper_line l"
  shows "\<exists>u. line_union ls = Inr u \<and> proper_line u \<and> line_set u = (\<Union>l\<in>set ls. line_set l)"
    and "\<exists>i. line_intersection ls = Inr i \<and> proper_line i \<and> line_set i = (\<Inter>l\<in>set ls. line_set l)"
proof -
  have pr: "list_all proper_ep r" if "set r \<subseteq> (\<Union>l\<in>set ls. set l)" for r
    using assms(2) that by (auto simp: proper_line_def list_all_iff)
  from assms(2) have wf: "\<forall>l\<in>set ls. wf_line l" by (simp add: proper_line_def)
  show "\<exists>u. line_union ls = Inr u \<and> proper_line u \<and> line_set u = (\<Union>l\<in>set ls. line_set l)"
    using line_ops_points(1)[OF assms(1) wf] pr by (auto simp: proper_line_def)
  show "\<exists>i. line_intersection ls = Inr i \<and> proper_line i \<and> line_set i = (\<Inter>l\<in>set ls. line_set l)"
    using line_ops_points(2)[OF assms(1) wf] pr by (auto simp: proper_line_def)
qed

section \<open>Properties of lines\<close>

text \<open>
  C10: Over any number of well formed lines, merging and sweeping returns: the union and the
  intersection are well formed lines again, for exactly the union and the intersection of the sets
  of values of the operands.
\<close>

theorem line_ops_correct:
  assumes "ls \<noteq> []" "\<forall>l\<in>set ls. wf_line l"
  shows "(\<exists>u. line_union ls = Inr u \<and> wf_line u \<and> line_set u = (\<Union>l\<in>set ls. line_set l)) \<and>
    (\<exists>i. line_intersection ls = Inr i \<and> wf_line i \<and> line_set i = (\<Inter>l\<in>set ls. line_set l))"
  using line_ops_points[OF assms] by blast

definition demo_line :: "int \<Rightarrow> int \<Rightarrow> int line" where
  "demo_line a b = [Endpoint (Simple (Fin a)) True (Some True), Endpoint (Simple (Fin b)) False (Some False)]"

lemma demo_line_proper: "a \<le> b \<Longrightarrow> proper_line (demo_line a b)"
  by (auto simp: demo_line_def proper_line_def wf_line_def simple_ep_def infinite_ok_def Endpoint_def
      isFinite_value_def ep_key_def pos_def less_eq_prod_def less_jsval_def proper_ep_def)

lemma demo_line_set: "Fin v \<in> line_set (demo_line a b) \<longleftrightarrow> a \<le> v \<and> v < b"
  by (auto simp: demo_line_def Endpoint_def seg_set_def passed_def pos_def ep_key_def less_eq_prod_def less_jsval_def)

theorem line_ops_correct_witness:
  "\<exists>i. line_intersection [demo_line 1 5, demo_line 3 9] = Inr i \<and>
     Fin 4 \<in> line_set i \<and> Fin 2 \<notin> line_set i \<and> Fin 5 \<notin> line_set i"
  using line_ops_correct[of "[demo_line 1 5, demo_line 3 9]"] demo_line_proper[of 1 5] demo_line_proper[of 3 9]
  by (fastforce simp: proper_line_def demo_line_set)

text \<open>
  The complement of a line over finite operands is a line that holds exactly the finite values
  the original does not hold; but the complement of the empty line, which a contradiction such as
  \<open>a < 1 AND a > 2\<close> leaves, throws a TypeError.
\<close>

theorem complement_correct:
  assumes "proper_line ts"
  shows "(ts \<noteq> [] \<longrightarrow> (\<exists>r. line_complement ts = Inr r \<and> proper_line r \<and>
      (\<forall>v. Fin v \<in> line_set r \<longleftrightarrow> Fin v \<notin> line_set ts))) \<and>
    (ts = [] \<longrightarrow> line_complement ts = Inl TypeError)"
  using line_complement_correct[OF assms] by (auto simp: line_complement_def lowerBound_def)

theorem complement_correct_witness:
  "\<exists>r. line_complement (demo_line 1 5) = Inr r \<and> Fin 0 \<in> line_set r \<and> Fin 1 \<notin> line_set r \<and> Fin 5 \<in> line_set r"
  using complement_correct[OF demo_line_proper[of 1 5]]
  by (auto simp: demo_line_set) (auto simp: demo_line_def)

end
