(* ===== verification/BitMask.thy ===== *)
theory BitMask
  imports Prelude
begin

text \<open>
  \<^verbatim>\<open>Adapter/common/BitMask.js\<close>: a set of small numbers (column numbers) kept as an array of
  24-bit parts. The parts are JavaScript numbers on which the code uses the 32-bit operators
  \<open>&\<close>, \<open>|\<close> and \<open>^\<close>, so a part is a \<open>32 word\<close>. The set a mask stands for is
  \<open>bits\<close>; \<open>bm_wf\<close> is the invariant of the class. The operations are proved to be
  the set operations wherever the invariant holds, and \<open>set\<close> is shown to break it at
  the first bit of a new part.
\<close>

section \<open>The class\<close>

abbreviation radix :: nat where "radix \<equiv> 24"

record bitmask =
  bm_mask :: "32 word list"
  bm_size :: nat
  bm_displaySize :: nat

function grow_loop :: "int \<Rightarrow> bitmask \<Rightarrow> bitmask" where
  "grow_loop sz m =
     (if 0 < sz
      then grow_loop (sz - int radix)
             (m\<lparr>bm_mask := bm_mask m @ [0], bm_size := bm_size m + radix\<rparr>)
      else m)"
  by pat_completeness auto
termination
  by (relation "measure (\<lambda>(sz, m). nat sz)") auto

declare grow_loop.simps [simp del]

definition grow :: "bitmask \<Rightarrow> nat \<Rightarrow> bitmask" where
  "grow m sz =
     (let m' = m\<lparr>bm_size := length (bm_mask m) * radix\<rparr>
      in grow_loop (int sz - int (bm_size m')) m')"

text \<open>
  The constructor: its argument \<open>size\<close> is a number (\<open>Some\<close>) or absent (\<open>None\<close>);
  \<open>size || this.size\<close> takes the second operand when \<open>size\<close> is absent or 0.
\<close>

definition new_BitMask :: "nat option \<Rightarrow> bitmask" where
  "new_BitMask sz =
     (let m = grow \<lparr>bm_mask = [], bm_size = 0, bm_displaySize = 0\<rparr>
                (case sz of Some n \<Rightarrow> n | None \<Rightarrow> radix)
      in m\<lparr>bm_displaySize :=
             (case sz of Some n \<Rightarrow> if n = 0 then bm_size m else n | None \<Rightarrow> bm_size m)\<rparr>)"

definition bm_offset :: "nat \<Rightarrow> nat" where "bm_offset b = b mod radix"

definition bm_loc :: "nat \<Rightarrow> nat" where "bm_loc b = (b - bm_offset b) div radix"

definition bm_set :: "bitmask \<Rightarrow> nat \<Rightarrow> bitmask" where
  "bm_set m b =
     (let m1 = (if bm_size m \<le> b then grow m b else m);
          part = (case js_get (bm_mask m1) (bm_loc b) of Some w \<Rightarrow> w | None \<Rightarrow> 0)
      in m1\<lparr>bm_mask := js_set 0 (bm_mask m1) (bm_loc b) (part OR 2 ^ bm_offset b)\<rparr>)"

definition bm_bitIsSet :: "bitmask \<Rightarrow> nat \<Rightarrow> bool \<times> bitmask" where
  "bm_bitIsSet m b =
     (let m1 = (if bm_size m \<le> b then grow m b else m);
          part = (case js_get (bm_mask m1) (bm_loc b) of Some w \<Rightarrow> w | None \<Rightarrow> 0)
      in (part AND 2 ^ bm_offset b \<noteq> 0, m1))"

definition bm_getPart :: "bitmask \<Rightarrow> nat \<Rightarrow> 32 word" where
  "bm_getPart m n = (if n < length (bm_mask m) then bm_mask m ! n else 0)"

definition bm_part_op :: "nat \<Rightarrow> 32 word \<Rightarrow> 32 word \<Rightarrow> 32 word \<Rightarrow> 32 word" where
  "bm_part_op op old a b =
     (if op = 1 then a AND b else if op = 2 then a OR b else if op = 3 then a XOR b else old)"

definition bm_binaryOp :: "nat \<Rightarrow> bitmask \<Rightarrow> bitmask \<Rightarrow> bitmask" where
  "bm_binaryOp op this that =
     (let m = new_BitMask (Some (max (bm_size this) (bm_size that)))
      in m\<lparr>bm_mask := map (\<lambda>i. bm_part_op op (bm_mask m ! i) (bm_getPart this i) (bm_getPart that i))
                          [0..<length (bm_mask m)]\<rparr>)"

definition bm_and :: "bitmask \<Rightarrow> bitmask \<Rightarrow> bitmask" where "bm_and = bm_binaryOp 1"
definition bm_or :: "bitmask \<Rightarrow> bitmask \<Rightarrow> bitmask" where "bm_or = bm_binaryOp 2"
definition bm_xor :: "bitmask \<Rightarrow> bitmask \<Rightarrow> bitmask" where "bm_xor = bm_binaryOp 3"

definition bm_orWith :: "bitmask \<Rightarrow> bitmask \<Rightarrow> bitmask" where
  "bm_orWith this that =
     (let m = bm_or this that in this\<lparr>bm_size := bm_size m, bm_mask := bm_mask m\<rparr>)"

definition bm_isNonZero :: "bitmask \<Rightarrow> bool" where
  "bm_isNonZero m = list_ex (\<lambda>w. w \<noteq> 0) (bm_mask m)"

definition bm_isEqualTo :: "bitmask \<Rightarrow> bitmask \<Rightarrow> bool" where
  "bm_isEqualTo this that =
     list_all (\<lambda>i. bm_getPart this i = bm_getPart that i)
       [0..<max (length (bm_mask this)) (length (bm_mask that))]"

text \<open>
  \<open>maskToIntArray\<close> loops until every bit of its part is cleared; nothing in the code bounds
  \<open>i\<close>, so a part with a bit below the current \<open>i\<close> would never return.
\<close>

partial_function (option) maskToIntArray ::
  "32 word \<Rightarrow> nat \<Rightarrow> nat \<Rightarrow> nat list \<Rightarrow> nat list option" where
  "maskToIntArray part i offset array =
     (if part \<noteq> 0
      then (let v = 2 ^ i in
            if part AND v \<noteq> 0
            then maskToIntArray (part XOR v) (Suc i) offset (array @ [i + offset])
            else maskToIntArray part (Suc i) offset array)
      else Some array)"

fun toArray_loop :: "32 word list \<Rightarrow> nat \<Rightarrow> nat list \<Rightarrow> nat list option" where
  "toArray_loop [] offset array = Some array"
| "toArray_loop (p # ps) offset array =
     Option.bind (maskToIntArray p 0 offset array) (toArray_loop ps (offset + radix))"

definition bm_toArray :: "bitmask \<Rightarrow> nat list option" where
  "bm_toArray m = toArray_loop (bm_mask m) 0 []"

fun inspect_loop :: "nat \<Rightarrow> nat \<Rightarrow> bitmask \<Rightarrow> string \<Rightarrow> string \<times> bitmask" where
  "inspect_loop i 0 m str = (str, m)"
| "inspect_loop i (Suc n) m str =
     (let (b, m') = bm_bitIsSet m i
      in inspect_loop (Suc i) n m' (str @ (if b then ''1'' else ''0'')))"

definition bm_inspect :: "bitmask \<Rightarrow> string \<times> bitmask" where
  "bm_inspect m = inspect_loop 0 (bm_displaySize m) m []"


section \<open>The set a mask stands for, and the invariant\<close>

definition bm_bits :: "bitmask \<Rightarrow> nat set" where
  "bm_bits m = {b. bit (bm_getPart m (b div radix)) (b mod radix)}"

definition bm_wf :: "bitmask \<Rightarrow> bool" where
  "bm_wf m \<longleftrightarrow> bm_size m = radix * length (bm_mask m) \<and>
     (\<forall>w \<in> set (bm_mask m). \<forall>j. bit w j \<longrightarrow> j < radix)"

lemma bm_wfD:
  assumes "bm_wf m"
  shows "bm_size m = radix * length (bm_mask m)"
    and "\<And>i j. i < length (bm_mask m) \<Longrightarrow> bit (bm_mask m ! i) j \<Longrightarrow> j < radix"
  using assms unfolding bm_wf_def by (blast, metis nth_mem)

lemma bm_loc_div [simp]: "bm_loc b = b div radix"
  by (simp add: bm_loc_def bm_offset_def minus_mod_eq_mult_div)

lemma bm_offset_mod [simp]: "bm_offset b = b mod radix"
  by (simp add: bm_offset_def)

lemma bm_getPart_out: "length (bm_mask m) \<le> i \<Longrightarrow> bm_getPart m i = 0"
  by (simp add: bm_getPart_def)

lemma mem_bm_bits: "b \<in> bm_bits m \<longleftrightarrow> bit (bm_getPart m (b div radix)) (b mod radix)"
  by (simp add: bm_bits_def)

lemma bm_bits_nth:
  "i < length (bm_mask m) \<Longrightarrow> j < radix \<Longrightarrow> i * radix + j \<in> bm_bits m \<longleftrightarrow> bit (bm_mask m ! i) j"
  by (simp add: mem_bm_bits bm_getPart_def)

section \<open>Growing\<close>

lemma grow_loop_eq:
  "grow_loop sz m =
     m\<lparr>bm_mask := bm_mask m @ replicate (nat ((sz + 23) div 24)) 0,
       bm_size := bm_size m + radix * nat ((sz + 23) div 24)\<rparr>"
proof (induction sz m rule: grow_loop.induct)
  case (1 sz m)
  show ?case
  proof (cases "0 < sz")
    case True
    have "(sz + 23) div 24 = (sz - 24 + 23) div 24 + 1" by simp
    moreover have "0 \<le> (sz - 24 + 23) div 24" using True by simp
    ultimately have "nat ((sz + 23) div 24) = Suc (nat ((sz - 24 + 23) div 24))" by simp
    with True "1.IH" show ?thesis by (simp add: grow_loop.simps [of sz m])
  next
    case False
    then have "nat ((sz + 23) div 24) = 0" by simp
    with False show ?thesis by (simp add: grow_loop.simps [of sz m])
  qed
qed

lemma grow_parts_eq:
  "nat ((int n - int (l * radix) + 23) div 24) = (n + 23) div radix - l"
proof -
  have "(int n - int (l * radix) + 23) div 24 = (int n + 23) div 24 - int l" by simp
  also have "\<dots> = int ((n + 23) div 24) - int l" by (simp add: zdiv_int)
  finally show ?thesis by simp
qed

lemma grow_mask [simp]:
  "bm_mask (grow m n) = bm_mask m @ replicate ((n + 23) div radix - length (bm_mask m)) 0"
  using grow_parts_eq [of n "length (bm_mask m)"] by (simp add: grow_def Let_def grow_loop_eq)

lemma grow_size [simp]: "bm_size (grow m n) = radix * length (bm_mask (grow m n))"
  using grow_parts_eq [of n "length (bm_mask m)"]
  by (simp add: grow_def Let_def grow_loop_eq algebra_simps)

lemma nth_append_zeros: "i < length xs + k \<Longrightarrow> (xs @ replicate k 0) ! i = (if i < length xs then xs ! i else 0)"
  by (simp add: nth_append)

lemma grow_getPart [simp]: "bm_getPart (grow m n) i = bm_getPart m i"
  by (simp add: bm_getPart_def nth_append_zeros)

lemma grow_bits [simp]: "bm_bits (grow m n) = bm_bits m"
  by (simp add: bm_bits_def)

lemma grow_wf [simp]: "bm_wf m \<Longrightarrow> bm_wf (grow m n)"
  unfolding bm_wf_def [of "grow m n"]
  by (auto simp: bm_wf_def)

lemma length_mask_grow: "n \<le> bm_size (grow m n)"
proof -
  have "n \<le> radix * ((n + 23) div radix)" by simp
  also have "\<dots> \<le> radix * length (bm_mask (grow m n))" by simp
  finally show ?thesis by simp
qed

lemma new_BitMask_mask [simp]:
  "bm_mask (new_BitMask n) = replicate (((case n of Some k \<Rightarrow> k | None \<Rightarrow> radix) + 23) div radix) 0"
  by (simp add: new_BitMask_def Let_def split: option.split)

lemma new_BitMask_size [simp]:
  "bm_size (new_BitMask n) = radix * length (bm_mask (new_BitMask n))"
  by (simp add: new_BitMask_def Let_def split: option.split)

lemma new_BitMask_getPart [simp]: "bm_getPart (new_BitMask n) i = 0"
  by (simp add: bm_getPart_def)

lemma new_BitMask_empty [simp]: "bm_bits (new_BitMask n) = {}"
  by (simp add: bm_bits_def)

lemma new_BitMask_wf [simp]: "bm_wf (new_BitMask n)"
  by (auto simp: bm_wf_def)

lemma new_BitMask_capacity: "n \<le> bm_size (new_BitMask (Some n))"
  by simp

section \<open>Setting and testing one bit\<close>

lemma bit_or_exp32: "k < radix \<Longrightarrow> bit (w OR 2 ^ k :: 32 word) j \<longleftrightarrow> bit w j \<or> j = k"
  by (auto simp: bit_simps)

lemma and_exp32: "(w AND 2 ^ k :: 32 word) \<noteq> 0 \<longleftrightarrow> bit w k"
  by (simp add: and_exp_eq_0_iff_not_bit)

lemma parts_not_dvd: "\<not> radix dvd b \<Longrightarrow> (b + 23) div radix = Suc (b div radix)"
proof -
  assume "\<not> radix dvd b"
  then have pos: "0 < b mod radix" by (simp add: dvd_eq_mod_eq_0)
  define q r where "q = b div radix" and "r = b mod radix"
  have "b = radix * q + r" "r < radix" "0 < r" using pos by (simp_all add: q_def r_def)
  then have "(b + 23) div radix = Suc q" by (intro div_nat_eqI) auto
  then show ?thesis by (simp add: q_def)
qed

lemma parts_dvd: "radix dvd b \<Longrightarrow> (b + 23) div radix = b div radix"
  by (elim dvdE) simp

definition bm_room :: "bitmask \<Rightarrow> nat \<Rightarrow> bitmask" where
  "bm_room m b = (if bm_size m \<le> b then grow m b else m)"

lemma bm_room_facts:
  assumes "bm_wf m"
  shows "bm_bits (bm_room m b) = bm_bits m" and "bm_wf (bm_room m b)"
    and "b div radix \<le> length (bm_mask (bm_room m b))"
    and "b < bm_size m \<or> \<not> radix dvd b \<Longrightarrow> b div radix < length (bm_mask (bm_room m b))"
    and "bm_size m \<le> b \<Longrightarrow> radix dvd b \<Longrightarrow> b div radix = length (bm_mask (bm_room m b))"
proof -
  note sz = bm_wfD(1) [OF assms]
  show "bm_bits (bm_room m b) = bm_bits m" "bm_wf (bm_room m b)"
    using assms by (simp_all add: bm_room_def)
  show "b div radix \<le> length (bm_mask (bm_room m b))"
    using sz by (auto simp: bm_room_def)
  show "b div radix < length (bm_mask (bm_room m b))" if "b < bm_size m \<or> \<not> radix dvd b"
  proof (cases "b < bm_size m")
    case True
    with sz show ?thesis by (simp add: bm_room_def less_mult_imp_div_less mult.commute)
  next
    case False
    with that have "\<not> radix dvd b" by simp
    then have "(b + 23) div radix = Suc (b div radix)" by (rule parts_not_dvd)
    with False show ?thesis by (simp add: bm_room_def)
  qed
  show "b div radix = length (bm_mask (bm_room m b))" if "bm_size m \<le> b" "radix dvd b"
  proof -
    have "(b + 23) div radix = b div radix" using that(2) by (rule parts_dvd)
    moreover have "length (bm_mask m) \<le> b div radix" using that(1) sz by simp
    ultimately show ?thesis using that(1) by (simp add: bm_room_def)
  qed
qed

lemma bm_set_mask:
  fixes m :: bitmask and b :: nat
  assumes "bm_wf m"
  defines "r \<equiv> bm_room m b"
  shows "bm_mask (bm_set m b) =
    (if b div radix < length (bm_mask r)
     then (bm_mask r)[b div radix := bm_mask r ! (b div radix) OR 2 ^ (b mod radix)]
     else bm_mask r @ [2 ^ (b mod radix)])"
    and "bm_size (bm_set m b) = bm_size r"
proof -
  have le: "b div radix \<le> length (bm_mask r)" unfolding r_def by (rule bm_room_facts(3) [OF assms(1)])
  show "bm_mask (bm_set m b) =
    (if b div radix < length (bm_mask r)
     then (bm_mask r)[b div radix := bm_mask r ! (b div radix) OR 2 ^ (b mod radix)]
     else bm_mask r @ [2 ^ (b mod radix)])"
  proof (cases "b div radix < length (bm_mask r)")
    case True
    then show ?thesis
      unfolding bm_set_def Let_def bm_room_def [symmetric] r_def [symmetric]
      by (simp add: js_simps)
  next
    case False
    with le have eq: "b div radix = length (bm_mask r)" by simp
    show ?thesis
      unfolding bm_set_def Let_def bm_room_def [symmetric] r_def [symmetric]
      by (simp add: eq js_simps)
  qed
  show "bm_size (bm_set m b) = bm_size r"
    by (simp add: bm_set_def Let_def bm_room_def r_def)
qed

lemma bm_set_getPart:
  assumes wf: "bm_wf m"
  shows "bm_getPart (bm_set m b) i =
    (if i = b div radix then bm_getPart m i OR 2 ^ (b mod radix) else bm_getPart m i)"
proof -
  define r where "r = bm_room m b"
  define l where "l = b div radix"
  have room: "bm_getPart m k = bm_getPart r k" for k by (simp add: r_def bm_room_def)
  note mask = bm_set_mask(1) [OF wf, of b, folded r_def l_def]
  have "l \<le> length (bm_mask r)"
    using bm_room_facts(3) [OF wf, of b] unfolding r_def l_def .
  then consider "l < length (bm_mask r)" | "l = length (bm_mask r)" by linarith
  then have "bm_getPart (bm_set m b) i =
    (if i = l then bm_getPart r i OR 2 ^ (b mod radix) else bm_getPart r i)"
  proof cases
    case 1
    then show ?thesis by (simp add: bm_getPart_def mask nth_list_update)
  next
    case 2
    then show ?thesis by (simp add: bm_getPart_def mask nth_append less_Suc_eq)
  qed
  then show ?thesis by (simp add: room l_def)
qed

lemma bm_set_bits:
  assumes wf: "bm_wf m"
  shows "bm_bits (bm_set m b) = insert b (bm_bits m)"
proof -
  have "c \<in> bm_bits (bm_set m b) \<longleftrightarrow> c = b \<or> c \<in> bm_bits m" for c
  proof (cases "c div radix = b div radix")
    case True
    then have "c = b \<longleftrightarrow> c mod radix = b mod radix"
      by (metis div_mult_mod_eq)
    with True show ?thesis
      by (auto simp: mem_bm_bits bm_set_getPart [OF wf] bit_or_exp32)
  next
    case False
    then show ?thesis by (auto simp: mem_bm_bits bm_set_getPart [OF wf])
  qed
  then show ?thesis by auto
qed

lemma bm_set_wf:
  assumes wf: "bm_wf m" and b: "b < bm_size m \<or> \<not> radix dvd b"
  shows "bm_wf (bm_set m b)"
proof -
  define r where "r = bm_room m b"
  note room = bm_room_facts [OF wf, of b, folded r_def]
  note mask = bm_set_mask [OF wf, of b, folded r_def]
  have lt: "b div radix < length (bm_mask r)" using b by (rule room(4))
  have "j < radix" if "w \<in> set (bm_mask (bm_set m b))" "bit w j" for w j
  proof -
    from that(1) lt consider "w \<in> set (bm_mask r)"
      | "w = bm_mask r ! (b div radix) OR 2 ^ (b mod radix)"
      by (auto simp: mask dest: set_update_subset_insert [THEN subsetD])
    then show ?thesis
    proof cases
      case 1 with room(2) that(2) show ?thesis by (auto simp: bm_wf_def)
    next
      case 2 with room(2) that(2) lt show ?thesis
        by (auto simp: bit_or_exp32 dest: bm_wfD(2))
    qed
  qed
  moreover have "bm_size (bm_set m b) = radix * length (bm_mask (bm_set m b))"
    using bm_wfD(1) [OF room(2)] lt by (simp add: mask)
  ultimately show ?thesis by (auto simp: bm_wf_def)
qed

lemma bm_bitIsSet_room:
  "bm_bitIsSet m b =
     (b div radix < length (bm_mask (bm_room m b)) \<and>
      bit (bm_mask (bm_room m b) ! (b div radix)) (b mod radix), bm_room m b)"
  by (simp add: bm_bitIsSet_def Let_def bm_room_def and_exp32 js_get_def)

lemma bm_bitIsSet_bits:
  assumes "bm_wf m"
  shows "fst (bm_bitIsSet m b) \<longleftrightarrow> b \<in> bm_bits m"
    and "bm_bits (snd (bm_bitIsSet m b)) = bm_bits m"
    and "bm_wf (snd (bm_bitIsSet m b))"
  using bm_room_facts(1,2) [OF assms, of b]
  by (simp_all add: bm_bitIsSet_room mem_bm_bits bm_room_def bm_getPart_def nth_append_zeros)


section \<open>The binary operations\<close>

lemma bm_wf_getPart: "bm_wf m \<Longrightarrow> bit (bm_getPart m i) j \<Longrightarrow> j < radix"
  by (auto simp: bm_getPart_def bm_wfD(2) split: if_splits)

lemma bm_wfI:
  assumes "bm_size m = radix * length (bm_mask m)"
    and "\<And>i j. bit (bm_getPart m i) j \<Longrightarrow> j < radix"
  shows "bm_wf m"
proof -
  have "j < radix" if "w \<in> set (bm_mask m)" "bit w j" for w j
  proof -
    from that(1) obtain i where "i < length (bm_mask m)" "bm_mask m ! i = w"
      by (auto simp: in_set_conv_nth)
    with that(2) assms(2) [of i j] show ?thesis by (simp add: bm_getPart_def)
  qed
  with assms(1) show ?thesis by (auto simp: bm_wf_def)
qed

lemma bm_mask_eqI:
  assumes "bm_wf a" "bm_wf b" "bm_bits a = bm_bits b"
  shows "bm_getPart a i = bm_getPart b i"
proof (rule bit_eqI)
  fix j
  have out: "\<not> bit (bm_getPart m i) j" if "bm_wf m" "\<not> j < radix" for m
    using that bm_wf_getPart by blast
  show "bit (bm_getPart a i) j = bit (bm_getPart b i) j"
  proof (cases "j < radix")
    case True
    then have "bit (bm_getPart m i) j \<longleftrightarrow> i * radix + j \<in> bm_bits m" for m
      by (simp add: mem_bm_bits)
    with assms(3) show ?thesis by simp
  next
    case False
    with out assms(1,2) show ?thesis by blast
  qed
qed

lemma bm_binaryOp_length:
  assumes "bm_wf a" "bm_wf b"
  shows "length (bm_mask (bm_binaryOp op a b)) = max (length (bm_mask a)) (length (bm_mask b))"
proof -
  have "max (bm_size a) (bm_size b) = radix * max (length (bm_mask a)) (length (bm_mask b))"
    using assms by (simp add: bm_wfD(1) max_def)
  then show ?thesis
    by (simp add: bm_binaryOp_def Let_def)
qed

lemma bm_binaryOp_size: "bm_size (bm_binaryOp op a b) = radix * length (bm_mask (bm_binaryOp op a b))"
  by (simp add: bm_binaryOp_def Let_def)

lemma bm_binaryOp_getPart:
  assumes wf: "bm_wf a" "bm_wf b"
  shows "bm_getPart (bm_binaryOp op a b) i = bm_part_op op 0 (bm_getPart a i) (bm_getPart b i)"
proof (cases "i < length (bm_mask (bm_binaryOp op a b))")
  case True
  then show ?thesis
    by (simp add: bm_getPart_def [of "bm_binaryOp op a b"]) (simp add: bm_binaryOp_def Let_def)
next
  case False
  then show ?thesis
    using bm_binaryOp_length [OF wf, of op]
    by (simp add: bm_getPart_out less_max_iff_disj not_less bm_part_op_def)
qed

lemma bm_binaryOp_wf:
  assumes wf: "bm_wf a" "bm_wf b"
  shows "bm_wf (bm_binaryOp op a b)"
proof (rule bm_wfI)
  show "bm_size (bm_binaryOp op a b) = radix * length (bm_mask (bm_binaryOp op a b))"
    by (rule bm_binaryOp_size)
  show "j < radix" if "bit (bm_getPart (bm_binaryOp op a b) i) j" for i j
    using that bm_wf_getPart [OF wf(1)] bm_wf_getPart [OF wf(2)]
    by (auto simp: bm_binaryOp_getPart [OF wf] bm_part_op_def bit_simps split: if_splits)
qed

lemma bm_ops_wf:
  assumes "bm_wf a" "bm_wf b"
  shows "bm_wf (bm_and a b)" "bm_wf (bm_or a b)" "bm_wf (bm_xor a b)"
  using assms by (simp_all add: bm_and_def bm_or_def bm_xor_def bm_binaryOp_wf)

lemma bm_and_bits: "bm_wf a \<Longrightarrow> bm_wf b \<Longrightarrow> bm_bits (bm_and a b) = bm_bits a \<inter> bm_bits b"
  by (auto simp: bm_and_def mem_bm_bits bm_binaryOp_getPart bm_part_op_def bit_simps)

lemma bm_or_bits: "bm_wf a \<Longrightarrow> bm_wf b \<Longrightarrow> bm_bits (bm_or a b) = bm_bits a \<union> bm_bits b"
  by (auto simp: bm_or_def mem_bm_bits bm_binaryOp_getPart bm_part_op_def bit_simps)

lemma bm_xor_bits:
  "bm_wf a \<Longrightarrow> bm_wf b \<Longrightarrow> bm_bits (bm_xor a b) = (bm_bits a - bm_bits b) \<union> (bm_bits b - bm_bits a)"
  by (auto simp: bm_xor_def mem_bm_bits bm_binaryOp_getPart bm_part_op_def bit_simps)

lemma bm_orWith_getPart: "bm_getPart (bm_orWith a b) i = bm_getPart (bm_or a b) i"
  by (simp add: bm_orWith_def bm_getPart_def Let_def)

lemma bm_orWith_bits: "bm_wf a \<Longrightarrow> bm_wf b \<Longrightarrow> bm_bits (bm_orWith a b) = bm_bits a \<union> bm_bits b"
  using bm_or_bits [of a b] by (simp add: mem_bm_bits bm_orWith_getPart set_eq_iff)

lemma bm_orWith_wf: "bm_wf a \<Longrightarrow> bm_wf b \<Longrightarrow> bm_wf (bm_orWith a b)"
  using bm_binaryOp_wf [of a b 2] by (simp add: bm_wf_def bm_orWith_def bm_or_def Let_def)

lemma bm_orWith_size:
  "bm_wf a \<Longrightarrow> bm_wf b \<Longrightarrow> bm_size (bm_orWith a b) = max (bm_size a) (bm_size b)"
  using bm_binaryOp_length [of a b 2] bm_binaryOp_size [of 2 a b]
  by (auto simp: bm_orWith_def bm_or_def Let_def bm_wfD(1) max_def)

lemma bm_isEqualTo_bits:
  assumes wf: "bm_wf a" "bm_wf b"
  shows "bm_isEqualTo a b \<longleftrightarrow> bm_bits a = bm_bits b"
proof
  assume eq: "bm_isEqualTo a b"
  have "bm_getPart a i = bm_getPart b i" for i
  proof (cases "i < max (length (bm_mask a)) (length (bm_mask b))")
    case True
    with eq show ?thesis by (simp add: bm_isEqualTo_def list_all_iff)
  next
    case False
    then show ?thesis by (simp add: bm_getPart_out less_max_iff_disj not_less)
  qed
  then show "bm_bits a = bm_bits b" by (simp add: bm_bits_def)
next
  assume "bm_bits a = bm_bits b"
  then show "bm_isEqualTo a b"
    by (simp add: bm_isEqualTo_def list_all_iff bm_mask_eqI [OF wf])
qed

lemma bm_isNonZero_bits:
  assumes wf: "bm_wf m"
  shows "bm_isNonZero m \<longleftrightarrow> bm_bits m \<noteq> {}"
proof
  assume "bm_isNonZero m"
  then obtain i where i: "i < length (bm_mask m)" "bm_mask m ! i \<noteq> 0"
    by (auto simp: bm_isNonZero_def list_ex_iff in_set_conv_nth)
  then obtain j where "bit (bm_mask m ! i) j" by (auto simp: bit_eq_iff)
  with i bm_bits_nth [of i m j] bm_wfD(2) [OF wf] show "bm_bits m \<noteq> {}" by blast
next
  assume "bm_bits m \<noteq> {}"
  then obtain b where "bit (bm_getPart m (b div radix)) (b mod radix)"
    by (auto simp: mem_bm_bits)
  then show "bm_isNonZero m"
    by (auto simp: bm_isNonZero_def list_ex_iff bm_getPart_def split: if_splits intro!: bexI [OF _ nth_mem])
qed

lemmas bm_bits_simps = bm_set_bits bm_and_bits bm_or_bits bm_xor_bits bm_orWith_bits
  bm_isEqualTo_bits bm_isNonZero_bits bm_bitIsSet_bits

section \<open>Enumerating the set\<close>

definition part_elems :: "32 word \<Rightarrow> nat \<Rightarrow> nat \<Rightarrow> nat list" where
  "part_elems w i offset = map (\<lambda>j. j + offset) (filter (bit w) [i..<32])"

lemma maskToIntArray_eq:
  assumes "\<And>j. j < i \<Longrightarrow> \<not> bit w j" and "i \<le> 32"
  shows "maskToIntArray w i offset array = Some (array @ part_elems w i offset)"
  using assms
proof (induction "32 - i" arbitrary: i w array)
  case 0
  have "\<not> bit w j" for j
  proof
    assume b: "bit w j"
    then have "j < 32" using bit_imp_le_length [of w j] by simp
    with "0" have "j < i" by linarith
    with "0.prems"(1) b show False by blast
  qed
  then have "w = 0" by (simp add: bit_eq_iff)
  then show ?case by (simp add: maskToIntArray.simps part_elems_def)
next
  case (Suc n)
  then have i: "i < 32" "n = 32 - Suc i" by simp_all
  show ?case
  proof (cases "w = 0")
    case True
    then show ?thesis by (simp add: maskToIntArray.simps part_elems_def)
  next
    case False
    have split: "[i..<32] = i # [Suc i..<32]" using i(1) by (simp add: upt_conv_Cons)
    show ?thesis
    proof (cases "bit w i")
      case True
      let ?w = "w XOR 2 ^ i"
      have bits: "bit ?w j \<longleftrightarrow> bit w j \<and> j \<noteq> i" for j
        using True i(1) by (auto simp: bit_simps)
      have "maskToIntArray ?w (Suc i) offset (array @ [i + offset])
          = Some ((array @ [i + offset]) @ part_elems ?w (Suc i) offset)"
        using Suc.prems(1) i by (intro Suc.hyps(1)) (auto simp: bits less_Suc_eq)
      moreover have "part_elems w i offset = (i + offset) # part_elems ?w (Suc i) offset"
        using True by (auto simp: part_elems_def split bits intro!: filter_cong)
      ultimately show ?thesis
        using True False by (simp add: maskToIntArray.simps [of w] and_exp32 Let_def)
    next
      case nb: False
      have "maskToIntArray w (Suc i) offset array = Some (array @ part_elems w (Suc i) offset)"
        using Suc.prems(1) i nb by (intro Suc.hyps(1)) (auto simp: less_Suc_eq)
      moreover have "part_elems w i offset = part_elems w (Suc i) offset"
        using nb by (simp add: part_elems_def split)
      ultimately show ?thesis
        using nb False by (simp add: maskToIntArray.simps [of w] and_exp32 Let_def)
    qed
  qed
qed

fun parts_elems :: "32 word list \<Rightarrow> nat \<Rightarrow> nat list" where
  "parts_elems [] offset = []"
| "parts_elems (p # ps) offset = part_elems p 0 offset @ parts_elems ps (offset + radix)"

lemma toArray_loop_eq: "toArray_loop ps offset array = Some (array @ parts_elems ps offset)"
  by (induction ps offset array rule: toArray_loop.induct) (simp_all add: maskToIntArray_eq)

lemma set_parts_elems:
  assumes "\<forall>w \<in> set ps. \<forall>j. bit w j \<longrightarrow> j < radix"
  shows "sorted_wrt (<) (parts_elems ps offset) \<and>
    set (parts_elems ps offset) =
      {offset + b |b. b div radix < length ps \<and> bit (ps ! (b div radix)) (b mod radix)}"
  using assms
proof (induction ps offset rule: parts_elems.induct)
  case (1 offset)
  then show ?case by simp
next
  case (2 p ps offset)
  have p: "bit p j \<Longrightarrow> j < radix" for j using "2.prems" by simp
  note IH = "2.IH" [OF "2.prems" [simplified, THEN conjunct2]]
  have tail: "set (parts_elems ps (offset + radix)) =
    {offset + b |b. radix \<le> b \<and> b div radix < length (p # ps) \<and> bit ((p # ps) ! (b div radix)) (b mod radix)}"
    (is "_ = ?T")
  proof -
    have "{offset + radix + b |b. b div radix < length ps \<and> bit (ps ! (b div radix)) (b mod radix)} = ?T"
    proof (intro set_eqI iffI)
      fix x assume "x \<in> {offset + radix + b |b. b div radix < length ps \<and> bit (ps ! (b div radix)) (b mod radix)}"
      then obtain b where "x = offset + (radix + b)" "b div radix < length ps" "bit (ps ! (b div radix)) (b mod radix)"
        by auto
      moreover have "(radix + b) div radix = Suc (b div radix)" by simp
      ultimately show "x \<in> ?T" by (intro CollectI exI [of _ "radix + b"]) simp
    next
      fix x assume "x \<in> ?T"
      then obtain b where b: "x = offset + b" "radix \<le> b" "b div radix < length (p # ps)"
        "bit ((p # ps) ! (b div radix)) (b mod radix)" by blast
      then obtain c where "b = radix + c" using le_iff_add by blast
      moreover have "(radix + c) div radix = Suc (c div radix)" for c :: nat by simp
      ultimately show "x \<in> {offset + radix + b |b. b div radix < length ps \<and> bit (ps ! (b div radix)) (b mod radix)}"
        using b by (intro CollectI exI [of _ c]) simp
    qed
    with IH show ?thesis by simp
  qed
  have head: "set (part_elems p 0 offset) =
    {offset + b |b. b < radix \<and> b div radix < length (p # ps) \<and> bit ((p # ps) ! (b div radix)) (b mod radix)}"
    using p by (force simp: part_elems_def)
  have "sorted_wrt (<) (part_elems p 0 offset)"
    unfolding part_elems_def sorted_wrt_map
    by (rule sorted_wrt_filter) (simp add: sorted_wrt_upt [unfolded sorted_wrt_iff_nth_less] sorted_wrt_iff_nth_less)
  moreover have "x < y" if "x \<in> set (part_elems p 0 offset)" "y \<in> set (parts_elems ps (offset + radix))" for x y
    using that unfolding head tail by auto
  moreover have "set (parts_elems (p # ps) offset) =
    {offset + b |b. b div radix < length (p # ps) \<and> bit ((p # ps) ! (b div radix)) (b mod radix)}"
    unfolding parts_elems.simps set_append head tail by (auto simp: not_le)
  ultimately show ?case using IH by (simp add: sorted_wrt_append)
qed

lemma bm_toArray_elems:
  assumes wf: "bm_wf m"
  shows "\<exists>xs. bm_toArray m = Some xs \<and> sorted xs \<and> distinct xs \<and> set xs = bm_bits m"
proof -
  have "bm_bits m = {0 + b |b. b div radix < length (bm_mask m) \<and> bit (bm_mask m ! (b div radix)) (b mod radix)}"
    by (auto simp: bm_bits_def bm_getPart_def split: if_splits)
  then show ?thesis
    using set_parts_elems [of "bm_mask m" 0] wf
    by (auto simp: bm_wf_def bm_toArray_def toArray_loop_eq strict_sorted_iff)
qed


section \<open>The interface the index-selection code uses\<close>

text \<open>
  \<^verbatim>\<open>DBTableHandler.js\<close> and \<^verbatim>\<open>Query.js\<close> use a mask as a set of column numbers below a
  capacity given to the constructor. The laws below are what they rely on; the lemmas are
  proved from the laws alone.
\<close>

locale column_mask =
  fixes new_mask :: "nat \<Rightarrow> 'm"
    and add :: "'m \<Rightarrow> nat \<Rightarrow> 'm"
    and meet :: "'m \<Rightarrow> 'm \<Rightarrow> 'm"
    and join :: "'m \<Rightarrow> 'm \<Rightarrow> 'm"
    and same :: "'m \<Rightarrow> 'm \<Rightarrow> bool"
    and cols :: "'m \<Rightarrow> nat set"
    and cap :: "'m \<Rightarrow> nat"
    and inv :: "'m \<Rightarrow> bool"
  assumes new_cols: "cols (new_mask n) = {}"
    and new_inv: "inv (new_mask n)"
    and new_cap: "n \<le> cap (new_mask n)"
    and add_cols: "inv m \<Longrightarrow> cols (add m b) = insert b (cols m)"
    and add_inv: "inv m \<Longrightarrow> b < cap m \<Longrightarrow> inv (add m b)"
    and add_cap: "inv m \<Longrightarrow> b < cap m \<Longrightarrow> cap (add m b) = cap m"
    and meet_cols: "inv m \<Longrightarrow> inv k \<Longrightarrow> cols (meet m k) = cols m \<inter> cols k"
    and meet_inv: "inv m \<Longrightarrow> inv k \<Longrightarrow> inv (meet m k)"
    and join_cols: "inv m \<Longrightarrow> inv k \<Longrightarrow> cols (join m k) = cols m \<union> cols k"
    and join_inv: "inv m \<Longrightarrow> inv k \<Longrightarrow> inv (join m k)"
    and join_cap: "inv m \<Longrightarrow> inv k \<Longrightarrow> cap (join m k) = max (cap m) (cap k)"
    and same_iff: "inv m \<Longrightarrow> inv k \<Longrightarrow> same m k \<longleftrightarrow> cols m = cols k"
begin

lemma add_all:
  assumes "inv m" and "\<forall>b \<in> set bs. b < cap m"
  shows "inv (foldl add m bs) \<and> cols (foldl add m bs) = cols m \<union> set bs \<and>
    cap (foldl add m bs) = cap m"
  using assms
  by (induction bs arbitrary: m) (auto simp: add_cols add_inv add_cap)

lemma join_all:
  assumes "inv m" and "\<forall>k \<in> set ks. inv k"
  shows "inv (foldl join m ks) \<and> cols (foldl join m ks) = cols m \<union> (\<Union>k \<in> set ks. cols k)"
  using assms
  by (induction ks arbitrary: m) (auto simp: join_cols join_inv)

lemma covers_iff:
  assumes "inv m" "inv k"
  shows "same (meet m k) k \<longleftrightarrow> cols k \<subseteq> cols m"
  using assms by (auto simp: same_iff meet_inv meet_cols)

end

interpretation bm: column_mask "\<lambda>n. new_BitMask (Some n)" bm_set bm_and bm_orWith bm_isEqualTo
  bm_bits bm_size bm_wf
proof unfold_locales
  show "n \<le> bm_size (new_BitMask (Some n))" for n by (rule new_BitMask_capacity)
  show "bm_size (bm_set m b) = bm_size m" if "bm_wf m" "b < bm_size m" for m b
    using bm_set_mask(2) [OF that(1), of b] that(2) by (simp add: bm_room_def)
qed (auto simp: bm_set_bits bm_set_wf bm_and_bits bm_orWith_bits bm_orWith_wf bm_orWith_size
       bm_isEqualTo_bits bm_ops_wf)

section \<open>Properties\<close>

text \<open>
  C2: On a well-formed mask \<open>set(bit)\<close> adds exactly that bit to the set; the invariant of the
  class survives exactly when the bit is below the current size or is not the first bit of a
  24-bit part, because \<open>_grow(bit)\<close> makes room for \<open>bit\<close> bits and not for \<open>bit + 1\<close>.
\<close>

theorem bm_set_correct:
  assumes wf: "bm_wf m"
  shows "bm_bits (bm_set m b) = insert b (bm_bits m) \<and>
    (bm_wf (bm_set m b) \<longleftrightarrow> b < bm_size m \<or> \<not> radix dvd b)"
proof -
  have "\<not> bm_wf (bm_set m b)" if b: "bm_size m \<le> b" "radix dvd b"
  proof -
    have "b div radix = length (bm_mask (bm_room m b))" by (rule bm_room_facts(5) [OF wf b])
    then show ?thesis
      using bm_wfD(1) [OF bm_room_facts(2) [OF wf, of b]] bm_set_mask [OF wf, of b]
      by (auto simp: bm_wf_def)
  qed
  then show ?thesis
    using bm_set_bits [OF wf] bm_set_wf [OF wf, of b] by (auto simp: not_less)
qed

theorem bm_set_correct_witness:
  "bm_bits (bm_set (new_BitMask None) 24) = {24} \<and> \<not> bm_wf (bm_set (new_BitMask None) 24)"
  using bm_set_correct [OF new_BitMask_wf [of None], of 24] by simp

text \<open>
  C1: On well-formed masks \<open>and\<close>, \<open>or\<close>, \<open>xor\<close> and \<open>orWith\<close> compute intersection, union,
  symmetric difference and union of the sets the masks stand for, and return well-formed masks;
  \<open>isEqualTo\<close> and \<open>isNonZero\<close> decide equality and non-emptiness of the sets, also for
  masks of different lengths.
\<close>

theorem bm_ops_refine_sets:
  assumes "bm_wf a" and "bm_wf b"
  shows "bm_bits (bm_and a b) = bm_bits a \<inter> bm_bits b \<and> bm_wf (bm_and a b) \<and>
    bm_bits (bm_or a b) = bm_bits a \<union> bm_bits b \<and> bm_wf (bm_or a b) \<and>
    bm_bits (bm_xor a b) = (bm_bits a - bm_bits b) \<union> (bm_bits b - bm_bits a) \<and> bm_wf (bm_xor a b) \<and>
    bm_bits (bm_orWith a b) = bm_bits a \<union> bm_bits b \<and> bm_wf (bm_orWith a b) \<and>
    (bm_isEqualTo a b \<longleftrightarrow> bm_bits a = bm_bits b) \<and> (bm_isNonZero a \<longleftrightarrow> bm_bits a \<noteq> {})"
  using assms by (simp add: bm_bits_simps bm_ops_wf bm_orWith_wf)

theorem bm_ops_refine_sets_witness:
  "bm_bits (bm_or (bm_set (new_BitMask None) 3) (bm_set (new_BitMask (Some 30)) 25)) = {3, 25}"
proof -
  have "bm_wf (bm_set (new_BitMask None) 3)" "bm_wf (bm_set (new_BitMask (Some 30)) 25)"
    by (simp_all add: bm_set_wf)
  from bm_ops_refine_sets [OF this] show ?thesis by (auto simp: bm_set_bits)
qed

text \<open>
  C3: On a well-formed mask \<open>toArray\<close> returns (its bit-clearing loop ends), and what it
  returns is the set as an increasing list.
\<close>

theorem bm_toArray_correct:
  assumes "bm_wf m"
  shows "\<exists>xs. bm_toArray m = Some xs \<and> sorted xs \<and> distinct xs \<and> set xs = bm_bits m"
  using assms by (rule bm_toArray_elems)

theorem bm_toArray_correct_witness: "bm_toArray (bm_set (bm_set (new_BitMask None) 23) 2) = Some [2, 23]"
proof -
  have wf: "bm_wf (bm_set (new_BitMask None) 23)" by (simp add: bm_set_wf)
  moreover have "bm_size (bm_set (new_BitMask None) 23) = 24"
    using bm.add_cap [of "new_BitMask None" 23] by simp
  ultimately have "bm_wf (bm_set (bm_set (new_BitMask None) 23) 2)" by (simp add: bm_set_wf)
  then obtain xs where xs: "bm_toArray (bm_set (bm_set (new_BitMask None) 23) 2) = Some xs"
    "sorted xs" "distinct xs" "set xs = bm_bits (bm_set (bm_set (new_BitMask None) 23) 2)"
    using bm_toArray_correct by blast
  then have "xs = [2, 23]"
    by (intro distinct_sorted_eqI) (auto simp: bm_set_bits wf)
  with xs(1) show ?thesis by simp
qed

text \<open>
  Setting the first bit of a part that is not yet allocated leaves the mask's size behind its
  array, and the next \<open>or\<close> with a mask that is no larger loses that bit: column 24 of a table
  whose mask was created with the default size is dropped when masks are combined.
\<close>

theorem bm_or_drops_boundary_bit:
  assumes wf: "bm_wf m" and b: "bm_size m \<le> b" "radix dvd b"
  shows "b \<in> bm_bits (bm_set m b) \<and> b \<notin> bm_bits (bm_or (bm_set m b) m)"
proof -
  have "b div radix = length (bm_mask (bm_room m b))" by (rule bm_room_facts(5) [OF wf b])
  then have "bm_size (bm_set m b) = b"
    using bm_set_mask(2) [OF wf, of b] bm_wfD(1) [OF bm_room_facts(2) [OF wf, of b]] b(2)
    by (metis dvd_mult_div_cancel)
  then have "length (bm_mask (bm_or (bm_set m b) m)) = b div radix"
    using b by (simp add: bm_or_def bm_binaryOp_def Let_def parts_dvd max_absorb1)
  then have "bm_getPart (bm_or (bm_set m b) m) (b div radix) = 0"
    by (simp add: bm_getPart_out)
  then show ?thesis by (simp add: bm_set_bits [OF wf]) (simp add: mem_bm_bits)
qed

theorem bm_or_drops_boundary_bit_witness:
  "24 \<in> bm_bits (bm_set (new_BitMask None) 24) \<and>
   24 \<notin> bm_bits (bm_or (bm_set (new_BitMask None) 24) (new_BitMask None))"
  using bm_or_drops_boundary_bit [OF new_BitMask_wf [of None], of 24] by simp

end
