(* ===== verification/Query.thy ===== *)
theory Query
  imports BitMask
begin

text \<open>
  \<^verbatim>\<open>Adapter/api/Query.js\<close>: the queryable fields, the tree of query predicates an application
  builds with them, and the three visitors that walk the tree: the marker of constants, the
  marker of column masks, and the SQL generator. The visitors write into the nodes; here a tree
  carries in every node the fields they write (\<open>marks\<close>). The \<open>sql\<close> object of a node is not
  its own: it is inherited from the prototype of its class, and only the root gets one of its own,
  so the generator keeps one text per class (\<open>sqlst\<close>) and writes over it, as the code does.
  The index choice of \<open>QueryHandler\<close> is in the theory \<open>IndexChoice\<close>.
\<close>

section \<open>Fields and parameters\<close>

record field_mapping =
  fm_fieldName :: string
  fm_columnName :: string
  fm_columnNumber :: nat

record query_field =
  qf_field :: field_mapping
  qf_columnName :: string
  qf_alias :: string

definition QueryField :: "field_mapping \<Rightarrow> nat option \<Rightarrow> query_field" where
  "QueryField f aliasIndex =
     \<lparr>qf_field = f, qf_columnName = fm_columnName f,
      qf_alias = (case aliasIndex of Some i \<Rightarrow> ''t'' @ nat_str i @ ''.'' | None \<Rightarrow> [])\<rparr>"

text \<open>
  A literal operand is a string, a number (whole numbers here), a boolean, \<open>null\<close> or
  \<open>undefined\<close>; a \<open>QueryParameter\<close> is named and gets its value when the query is executed.
\<close>

datatype jslit = LStr string | LInt int | LBool bool | LNull | LUndef

datatype qarg = QParam string | QLit jslit

definition isQueryParameter :: "qarg \<Rightarrow> bool res" where
  "isQueryParameter a = (case a of QParam n \<Rightarrow> Inr True
     | QLit LNull \<Rightarrow> Inl TypeError
     | QLit l \<Rightarrow> Inr False)"

definition getEscapedValue :: "qarg \<Rightarrow> string res" where
  "getEscapedValue a = (case a of
       QLit (LStr s) \<Rightarrow> Inr ([CHR 0x27] @ s @ [CHR 0x27])
     | QLit (LInt i) \<Rightarrow> Inr (int_str i)
     | QLit (LBool b) \<Rightarrow> Inr (if b then ''true'' else ''false'')
     | QLit LNull \<Rightarrow> Inl TypeError
     | QLit LUndef \<Rightarrow> Inl TypeError
     | QParam n \<Rightarrow> Inr ''[object Object]'')"

section \<open>Predicates\<close>

datatype cmpop = Le | Lt | Ge | Gt | Eq | Ne | In

definition operationCode :: "cmpop \<Rightarrow> nat option" where
  "operationCode c = (case c of Le \<Rightarrow> Some 0 | Lt \<Rightarrow> Some 1 | Ge \<Rightarrow> Some 2 | Gt \<Rightarrow> Some 3
     | Eq \<Rightarrow> Some 4 | Ne \<Rightarrow> Some 5 | In \<Rightarrow> None)"

definition comparator :: "cmpop \<Rightarrow> string" where
  "comparator c = (case c of Le \<Rightarrow> '' <= '' | Lt \<Rightarrow> '' < '' | Ge \<Rightarrow> '' >= '' | Gt \<Rightarrow> '' > ''
     | Eq \<Rightarrow> '' = '' | Ne \<Rightarrow> '' != '' | In \<Rightarrow> '' IN '')"

datatype unop = IsNull | IsNotNull

definition unoperator :: "unop \<Rightarrow> string" where
  "unoperator u = (case u of IsNull \<Rightarrow> '' IS NULL'' | IsNotNull \<Rightarrow> '' IS NOT NULL'')"

datatype naryop = AND_op | OR_op

definition nary_operator :: "naryop \<Rightarrow> string" where
  "nary_operator n = (case n of AND_op \<Rightarrow> '' AND '' | OR_op \<Rightarrow> '' OR '')"

text \<open>The fields that the visitors write into a node.\<close>

record marks =
  constants :: nat
  usedColumnMask :: "bitmask option"
  equalColumnMask :: "bitmask option"

definition new_marks :: "nat \<Rightarrow> marks" where
  "new_marks c = \<lparr>constants = c, usedColumnMask = None, equalColumnMask = None\<rparr>"

datatype qpred =
    Comparator (pmarks: marks) cmpop query_field qarg
  | Between (pmarks: marks) query_field qarg qarg
  | UnaryOp (pmarks: marks) unop query_field
  | Nary (pmarks: marks) naryop "qpred list"
  | Unary (pmarks: marks) qpred

text \<open>The constructors: \<open>constants\<close> is inherited, 1 for IS NULL and IS NOT NULL and 0 for the others.\<close>

definition QueryComparator :: "cmpop \<Rightarrow> query_field \<Rightarrow> qarg \<Rightarrow> qpred" where
  "QueryComparator c f a = Comparator (new_marks 0) c f a"

definition QueryEq where "QueryEq = QueryComparator Eq"
definition QueryLe where "QueryLe = QueryComparator Le"
definition QueryGe where "QueryGe = QueryComparator Ge"
definition QueryLt where "QueryLt = QueryComparator Lt"
definition QueryGt where "QueryGt = QueryComparator Gt"
definition QueryNe where "QueryNe = QueryComparator Ne"
definition QueryIn where "QueryIn = QueryComparator In"

definition QueryBetween :: "query_field \<Rightarrow> qarg \<Rightarrow> qarg \<Rightarrow> qpred" where
  "QueryBetween f a b = Between (new_marks 0) f a b"

definition QueryIsNull :: "query_field \<Rightarrow> qpred" where
  "QueryIsNull f = UnaryOp (new_marks 1) IsNull f"

definition QueryIsNotNull :: "query_field \<Rightarrow> qpred" where
  "QueryIsNotNull f = UnaryOp (new_marks 1) IsNotNull f"

definition QueryAnd :: "qpred \<Rightarrow> qpred \<Rightarrow> qpred" where
  "QueryAnd l r = Nary (new_marks 0) AND_op [l, r]"

definition QueryOr :: "qpred \<Rightarrow> qpred \<Rightarrow> qpred" where
  "QueryOr l r = Nary (new_marks 0) OR_op [l, r]"

definition QueryNot :: "qpred \<Rightarrow> qpred" where
  "QueryNot p = Unary (new_marks 0) p"

text \<open>
  \<open>and\<close> of an AND and \<open>or\<close> of an OR push the operand into the receiver and return it; the
  functions give the value of the object returned.
\<close>

definition q_and :: "qpred \<Rightarrow> qpred \<Rightarrow> qpred" where
  "q_and this p = (case this of Nary m AND_op ps \<Rightarrow> Nary m AND_op (ps @ [p]) | _ \<Rightarrow> QueryAnd this p)"

definition q_or :: "qpred \<Rightarrow> qpred \<Rightarrow> qpred" where
  "q_or this p = (case this of Nary m OR_op ps \<Rightarrow> Nary m OR_op (ps @ [p]) | _ \<Rightarrow> QueryOr this p)"

text \<open>\<open>andNot\<close> and \<open>orNot\<close> are not overridden: they always make a new node.\<close>

definition q_andNot :: "qpred \<Rightarrow> qpred \<Rightarrow> qpred" where "q_andNot this p = QueryAnd this (QueryNot p)"
definition q_orNot :: "qpred \<Rightarrow> qpred \<Rightarrow> qpred" where "q_orNot this p = QueryOr this (QueryNot p)"
definition q_not :: "qpred \<Rightarrow> qpred" where "q_not this = QueryNot this"

definition getTopLevelPredicates :: "qpred \<Rightarrow> qpred list" where
  "getTopLevelPredicates p = (case p of Nary m AND_op ps \<Rightarrow> ps | Nary m OR_op ps \<Rightarrow> [] | _ \<Rightarrow> [p])"

text \<open>
  A query field, and a relationship of a projection, which stands for the first primary key column
  of the related table and allows only the null tests.
\<close>

datatype queryable = QField query_field | QRelationship query_field

definition QueryRelationship :: "nat \<Rightarrow> string \<Rightarrow> field_mapping \<Rightarrow> queryable" where
  "QueryRelationship childSectorIndex childRelationshipName pkField =
     QRelationship \<lparr>qf_field = pkField, qf_columnName = childRelationshipName,
       qf_alias = ''t'' @ nat_str childSectorIndex @ ''.''\<rparr>"

definition cmp_method :: "cmpop \<Rightarrow> string" where
  "cmp_method c = (case c of Le \<Rightarrow> ''le'' | Lt \<Rightarrow> ''lt'' | Ge \<Rightarrow> ''ge'' | Gt \<Rightarrow> ''gt''
     | Eq \<Rightarrow> ''eq'' | Ne \<Rightarrow> ''ne'' | In \<Rightarrow> ''in'')"

definition illegal_op :: "string \<Rightarrow> query_field \<Rightarrow> js_error" where
  "illegal_op name f =
     ErrorMsg (''illegal operation '' @ name @ '' for relationship '' @ fm_fieldName (qf_field f))"

definition field_cmp :: "cmpop \<Rightarrow> queryable \<Rightarrow> qarg \<Rightarrow> qpred res" where
  "field_cmp c q a = (case q of
       QField f \<Rightarrow> Inr (QueryComparator c f a)
     | QRelationship f \<Rightarrow> Inl (illegal_op (cmp_method c) f))"

definition field_between :: "queryable \<Rightarrow> qarg \<Rightarrow> qarg \<Rightarrow> qpred res" where
  "field_between q a b = (case q of
       QField f \<Rightarrow> Inr (QueryBetween f a b)
     | QRelationship f \<Rightarrow> Inl (illegal_op ''between'' f))"

definition field_null :: "unop \<Rightarrow> queryable \<Rightarrow> qpred" where
  "field_null u q = (case q of
       QField f \<Rightarrow> (case u of IsNull \<Rightarrow> QueryIsNull f | IsNotNull \<Rightarrow> QueryIsNotNull f)
     | QRelationship f \<Rightarrow> (case u of IsNull \<Rightarrow> QueryIsNull f | IsNotNull \<Rightarrow> QueryIsNotNull f))"

section \<open>The constant marker\<close>

definition set_constants :: "nat \<Rightarrow> qpred \<Rightarrow> qpred" where
  "set_constants k p = (case p of
       Comparator m c f a \<Rightarrow> Comparator (m\<lparr>constants := k\<rparr>) c f a
     | Between m f a b \<Rightarrow> Between (m\<lparr>constants := k\<rparr>) f a b
     | UnaryOp m u f \<Rightarrow> UnaryOp (m\<lparr>constants := k\<rparr>) u f
     | Nary m n ps \<Rightarrow> Nary (m\<lparr>constants := k\<rparr>) n ps
     | Unary m q \<Rightarrow> Unary (m\<lparr>constants := k\<rparr>) q)"

abbreviation p_constants :: "qpred \<Rightarrow> nat" where
  "p_constants p \<equiv> constants (pmarks p)"

definition mark_comparator :: "qpred \<Rightarrow> qarg \<Rightarrow> qpred res" where
  "mark_comparator node a =
     rbind (isQueryParameter a) (\<lambda>q. Inr (if q then node else set_constants 1 node))"

definition mark_between :: "qpred \<Rightarrow> qarg \<Rightarrow> qarg \<Rightarrow> qpred res" where
  "mark_between node a b =
     rbind (isQueryParameter a) (\<lambda>qa.
       let node1 = (if qa then node else set_constants 1 node)
       in rbind (isQueryParameter b) (\<lambda>qb.
            Inr (if qb then node1 else set_constants (p_constants node1 + 2) node1)))"

text \<open>\<open>visitQueryUnaryOperator\<close> is not a method of this visitor, so IS NULL nodes are left alone.\<close>

fun visitConst :: "qpred \<Rightarrow> qpred res" where
  "visitConst (Comparator m c f a) = mark_comparator (Comparator m c f a) a"
| "visitConst (Between m f a b) = mark_between (Between m f a b) a b"
| "visitConst (UnaryOp m u f) = Inr (UnaryOp m u f)"
| "visitConst (Unary m q) =
     rbind (visitConst q) (\<lambda>q'.
       Inr (Unary (if p_constants q' \<noteq> 0 then m\<lparr>constants := 1\<rparr> else m) q'))"
| "visitConst (Nary m n ps) =
     rbind (rmap visitConst ps) (\<lambda>ps'.
       Inr (Nary (if list_ex (\<lambda>q. p_constants q \<noteq> 0) ps' then m\<lparr>constants := 1\<rparr> else m) n ps'))"

section \<open>The marker of column masks\<close>

definition qf_column :: "query_field \<Rightarrow> nat" where
  "qf_column f = fm_columnNumber (qf_field f)"

definition markUsed :: "query_field \<Rightarrow> marks \<Rightarrow> marks" where
  "markUsed f m = m\<lparr>usedColumnMask := Some (bm_set (new_BitMask None) (qf_column f)),
                     equalColumnMask := Some (new_BitMask None)\<rparr>"

text \<open>
  The masks of a node that has been visited; a node without masks cannot reach the uses below.
\<close>

definition used_mask :: "qpred \<Rightarrow> bitmask" where
  "used_mask p = (case usedColumnMask (pmarks p) of Some b \<Rightarrow> b | None \<Rightarrow> new_BitMask None)"

definition equal_mask :: "qpred \<Rightarrow> bitmask" where
  "equal_mask p = (case equalColumnMask (pmarks p) of Some b \<Rightarrow> b | None \<Rightarrow> new_BitMask None)"

text \<open>
  In the n-ary visit the code tests \<open>this.operationCode === 1\<close>, where \<open>this\<close> is the visitor:
  the parameter \<open>this_operationCode\<close> is what that expression reads, and \<open>MaskMarkerVisitor\<close>
  has no such property.
\<close>

fun visitMaskWith :: "nat option \<Rightarrow> qpred \<Rightarrow> qpred" where
  "visitMaskWith this_operationCode (Comparator m c f a) =
     (let m1 = markUsed f m in
      Comparator (if operationCode c = Some 4
                  then m1\<lparr>equalColumnMask := Some (bm_set (new_BitMask None) (qf_column f))\<rparr>
                  else m1) c f a)"
| "visitMaskWith this_operationCode (Between m f a b) = Between (markUsed f m) f a b"
| "visitMaskWith this_operationCode (UnaryOp m u f) = UnaryOp (markUsed f m) u f"
| "visitMaskWith this_operationCode (Unary m q) =
     (let q' = visitMaskWith this_operationCode q in
      Unary (m\<lparr>equalColumnMask := Some (new_BitMask None), usedColumnMask := Some (used_mask q')\<rparr>) q')"
| "visitMaskWith this_operationCode (Nary m n ps) =
     (let ps' = map (visitMaskWith this_operationCode) ps;
          used = foldl (\<lambda>b q. bm_orWith b (used_mask q)) (new_BitMask None) ps';
          equal = (if this_operationCode = Some 1
                   then foldl (\<lambda>b q. bm_orWith b (equal_mask q)) (new_BitMask None) ps'
                   else new_BitMask None)
      in Nary (m\<lparr>usedColumnMask := Some used, equalColumnMask := Some equal\<rparr>) n ps')"

definition MaskMarkerVisitor_operationCode :: "nat option" where
  "MaskMarkerVisitor_operationCode = None"

definition visitMask :: "qpred \<Rightarrow> qpred" where
  "visitMask = visitMaskWith MaskMarkerVisitor_operationCode"

section \<open>The SQL generator\<close>

text \<open>
  The \<open>sql\<close> objects: the root's own, and one on the prototype of each class of nodes (AND and OR
  share \<open>NarySql\<close>; the comparators, BETWEEN and IN share \<open>CmpSql\<close>). The texts that the shared
  objects hold when a visit starts are left over from earlier visits.
\<close>

datatype sql_object = RootSql | CmpSql | NullSql | NarySql | NotSql

record sqlst =
  sqlText :: "sql_object \<Rightarrow> string"
  formalParameters :: "qarg list"
  parameterIndex :: nat

definition sql_of_node :: "bool \<Rightarrow> qpred \<Rightarrow> sql_object" where
  "sql_of_node isRoot p = (if isRoot then RootSql else
     (case p of Comparator _ _ _ _ \<Rightarrow> CmpSql | Between _ _ _ _ \<Rightarrow> CmpSql | UnaryOp _ _ _ \<Rightarrow> NullSql
      | Nary _ _ _ \<Rightarrow> NarySql | Unary _ _ \<Rightarrow> NotSql))"

definition put_text :: "sql_object \<Rightarrow> string \<Rightarrow> sqlst \<Rightarrow> sqlst" where
  "put_text slot t s = s\<lparr>sqlText := (sqlText s)(slot := t)\<rparr>"

definition add_formal :: "qarg \<Rightarrow> sqlst \<Rightarrow> sqlst" where
  "add_formal a s =
     s\<lparr>formalParameters := js_set (QLit LUndef) (formalParameters s) (parameterIndex s) a,
       parameterIndex := parameterIndex s + 1\<rparr>"

text \<open>The text of one operand: a literal, or \<open>?\<close> and a new formal parameter.\<close>

definition operand :: "bool \<Rightarrow> qarg \<Rightarrow> sqlst \<Rightarrow> (string \<times> sqlst) res" where
  "operand isConstant a s =
     (if isConstant then rbind (getEscapedValue a) (\<lambda>t. Inr (t, s)) else Inr (''?'', add_formal a s))"

fun visitSQL :: "bool \<Rightarrow> qpred \<Rightarrow> sqlst \<Rightarrow> sqlst res"
and visitSQL_rest :: "sql_object \<Rightarrow> naryop \<Rightarrow> qpred list \<Rightarrow> sqlst \<Rightarrow> sqlst res" where
  "visitSQL isRoot (Comparator m c f a) s =
     rbind (operand (constants m \<noteq> 0) a s) (\<lambda>(t, s1).
       Inr (put_text (sql_of_node isRoot (Comparator m c f a))
              (qf_alias f @ qf_columnName f @ comparator c @ t) s1))"
| "visitSQL isRoot (Between m f a b) s =
     rbind (operand (constants m AND 1 \<noteq> 0) a s) (\<lambda>(t1, s1).
     rbind (operand (constants m AND 2 \<noteq> 0) b s1) (\<lambda>(t2, s2).
       Inr (put_text (sql_of_node isRoot (Between m f a b))
              (qf_alias f @ fm_columnName (qf_field f) @ '' BETWEEN '' @ t1 @ '' AND '' @ t2) s2)))"
| "visitSQL isRoot (UnaryOp m u f) s =
     Inr (put_text (sql_of_node isRoot (UnaryOp m u f))
            (qf_alias f @ fm_columnName (qf_field f) @ unoperator u) s)"
| "visitSQL isRoot (Unary m q) s =
     rbind (visitSQL False q s) (\<lambda>s1.
       Inr (put_text (sql_of_node isRoot (Unary m q))
              ('' NOT '' @ ''('' @ sqlText s1 (sql_of_node False q) @ '')'') s1))"
| "visitSQL isRoot (Nary m n []) s = Inl TypeError"
| "visitSQL isRoot (Nary m n (p # ps)) s =
     (let slot = sql_of_node isRoot (Nary m n (p # ps)) in
      rbind (visitSQL False p s) (\<lambda>s1.
        visitSQL_rest slot n ps
          (put_text slot (''('' @ sqlText s1 (sql_of_node False p) @ '')'') s1)))"
| "visitSQL_rest slot n [] s = Inr s"
| "visitSQL_rest slot n (p # ps) s =
     rbind (visitSQL False p (put_text slot (sqlText s slot @ nary_operator n) s)) (\<lambda>s1.
       visitSQL_rest slot n ps
         (put_text slot (sqlText s1 slot @ ''('' @ sqlText s1 (sql_of_node False p) @ '')'') s1))"

definition SQLVisitor :: "(sql_object \<Rightarrow> string) \<Rightarrow> sqlst" where
  "SQLVisitor texts =
     \<lparr>sqlText = texts(RootSql := ''initialized''), formalParameters = [], parameterIndex = 0\<rparr>"

definition getSQL :: "qpred \<Rightarrow> (sql_object \<Rightarrow> string) \<Rightarrow> (string \<times> qarg list) res" where
  "getSQL p texts =
     rbind (visitSQL True p (SQLVisitor texts)) (\<lambda>s. Inr (sqlText s RootSql, formalParameters s))"

section \<open>What the SQL text should be\<close>

definition arg_text :: "qarg \<Rightarrow> string" where
  "arg_text a = (case a of QParam n \<Rightarrow> ''?''
     | QLit l \<Rightarrow> (case getEscapedValue (QLit l) of Inr t \<Rightarrow> t | Inl e \<Rightarrow> []))"

definition arg_params :: "qarg \<Rightarrow> qarg list" where
  "arg_params a = (case a of QParam n \<Rightarrow> [a] | QLit l \<Rightarrow> [])"

definition arg_ok :: "qarg \<Rightarrow> bool" where
  "arg_ok a \<longleftrightarrow> a \<noteq> QLit LNull \<and> a \<noteq> QLit LUndef"

fun join_with :: "string \<Rightarrow> string list \<Rightarrow> string" where
  "join_with sep [] = []"
| "join_with sep [x] = x"
| "join_with sep (x # xs) = x @ sep @ join_with sep xs"

definition parens :: "string \<Rightarrow> string" where
  "parens t = ''('' @ t @ '')''"

fun sql_spec :: "qpred \<Rightarrow> string" where
  "sql_spec (Comparator m c f a) = qf_alias f @ qf_columnName f @ comparator c @ arg_text a"
| "sql_spec (Between m f a b) =
     qf_alias f @ fm_columnName (qf_field f) @ '' BETWEEN '' @ arg_text a @ '' AND '' @ arg_text b"
| "sql_spec (UnaryOp m u f) = qf_alias f @ fm_columnName (qf_field f) @ unoperator u"
| "sql_spec (Unary m q) = '' NOT '' @ parens (sql_spec q)"
| "sql_spec (Nary m n ps) = join_with (nary_operator n) (map (\<lambda>q. parens (sql_spec q)) ps)"

fun params_spec :: "qpred \<Rightarrow> qarg list" where
  "params_spec (Comparator m c f a) = arg_params a"
| "params_spec (Between m f a b) = arg_params a @ arg_params b"
| "params_spec (UnaryOp m u f) = []"
| "params_spec (Unary m q) = params_spec q"
| "params_spec (Nary m n ps) = concat (map params_spec ps)"

text \<open>
  A predicate that an application can build and execute: no operand is \<open>null\<close> or \<open>undefined\<close>
  and an n-ary node has operands (the constructors give it two).
\<close>

fun pred_ok :: "qpred \<Rightarrow> bool" where
  "pred_ok (Comparator m c f a) = arg_ok a"
| "pred_ok (Between m f a b) = (arg_ok a \<and> arg_ok b)"
| "pred_ok (UnaryOp m u f) = True"
| "pred_ok (Unary m q) = pred_ok q"
| "pred_ok (Nary m n ps) = (ps \<noteq> [] \<and> list_all pred_ok ps)"

text \<open>A predicate that has not been visited yet.\<close>

fun unvisited :: "qpred \<Rightarrow> bool" where
  "unvisited (Comparator m c f a) = (constants m = 0)"
| "unvisited (Between m f a b) = (constants m = 0)"
| "unvisited (UnaryOp m u f) = True"
| "unvisited (Unary m q) = unvisited q"
| "unvisited (Nary m n ps) = list_all unvisited ps"

text \<open>
  The shapes for which the shared text of the n-ary nodes is not written over while it is in use:
  below the root, an n-ary node may hold another one only inside its first operand.
\<close>

fun nary_free :: "qpred \<Rightarrow> bool" where
  "nary_free (Unary m q) = nary_free q"
| "nary_free (Nary m n ps) = False"
| "nary_free _ = True"

fun inner_safe :: "qpred \<Rightarrow> bool" where
  "inner_safe (Unary m q) = inner_safe q"
| "inner_safe (Nary m n (p # ps)) = (inner_safe p \<and> list_all nary_free ps)"
| "inner_safe _ = True"

definition sql_safe :: "qpred \<Rightarrow> bool" where
  "sql_safe p = (case p of Nary m n ps \<Rightarrow> list_all inner_safe ps | _ \<Rightarrow> inner_safe p)"

text \<open>The constants the marker leaves in a tree.\<close>

definition is_lit :: "qarg \<Rightarrow> bool" where
  "is_lit a = (case a of QParam n \<Rightarrow> False | QLit l \<Rightarrow> True)"

fun const_marked :: "qpred \<Rightarrow> bool" where
  "const_marked (Comparator m c f a) = (constants m = (if is_lit a then 1 else 0))"
| "const_marked (Between m f a b) =
     (constants m = (if is_lit a then 1 else 0) + (if is_lit b then 2 else 0))"
| "const_marked (UnaryOp m u f) = True"
| "const_marked (Unary m q) = const_marked q"
| "const_marked (Nary m n ps) = list_all const_marked ps"

fun strip :: "qpred \<Rightarrow> qpred" where
  "strip (Comparator m c f a) = Comparator (new_marks 0) c f a"
| "strip (Between m f a b) = Between (new_marks 0) f a b"
| "strip (UnaryOp m u f) = UnaryOp (new_marks 0) u f"
| "strip (Unary m q) = Unary (new_marks 0) (strip q)"
| "strip (Nary m n ps) = Nary (new_marks 0) n (map strip ps)"

section \<open>Lemmas on the visitors\<close>

lemma sql_spec_strip: "sql_spec (strip p) = sql_spec p"
  by (induction p) (auto simp: o_def cong: map_cong)

lemma params_spec_strip: "params_spec (strip p) = params_spec p"
  by (induction p) (auto simp: o_def cong: map_cong)

lemma pred_ok_strip: "pred_ok (strip p) = pred_ok p"
  by (induction p) (auto simp: list_all_iff)

lemma nary_free_strip: "nary_free (strip p) = nary_free p"
  by (induction p) auto

lemma inner_safe_strip: "inner_safe (strip p) = inner_safe p"
proof (induction p rule: inner_safe.induct)
  case (2 m n p ps)
  then show ?case by (simp add: list_all_iff nary_free_strip)
qed simp_all

lemma sql_safe_strip: "sql_safe (strip p) = sql_safe p"
  by (cases p) (auto simp: sql_safe_def list_all_iff inner_safe_strip)

lemma strip_eq_simps:
  assumes "strip p = strip q"
  shows "sql_spec p = sql_spec q" "params_spec p = params_spec q"
    "pred_ok p = pred_ok q" "sql_safe p = sql_safe q"
  using assms by (metis sql_spec_strip, metis params_spec_strip, metis pred_ok_strip, metis sql_safe_strip)

lemma isQueryParameter_ok: "arg_ok a \<Longrightarrow> isQueryParameter a = Inr (\<not> is_lit a)"
  by (auto simp: isQueryParameter_def arg_ok_def is_lit_def split: qarg.splits jslit.splits)

lemma set_constants_simps [simp]:
  "set_constants k (Comparator m c f a) = Comparator (m\<lparr>constants := k\<rparr>) c f a"
  "set_constants k (Between m f a b) = Between (m\<lparr>constants := k\<rparr>) f a b"
  by (simp_all add: set_constants_def)

lemma visitConst_ok:
  "unvisited p \<Longrightarrow> pred_ok p \<Longrightarrow>
     \<exists>p'. visitConst p = Inr p' \<and> strip p' = strip p \<and> const_marked p'"
proof (induction p)
  case (Nary m n ps)
  have "\<exists>ps'. rmap visitConst ps = Inr ps' \<and> list_all2 (\<lambda>p p'. strip p' = strip p \<and> const_marked p') ps ps'"
    by (rule rmap_total) (use Nary in \<open>auto simp: list_all_iff\<close>)
  then obtain ps' where "rmap visitConst ps = Inr ps'"
    and l: "list_all2 (\<lambda>p p'. strip p' = strip p \<and> const_marked p') ps ps'" by blast
  moreover from l have "map strip ps' = map strip ps" "list_all const_marked ps'"
    by (induction rule: list_all2_induct) auto
  ultimately show ?case by auto
qed (auto simp: mark_comparator_def mark_between_def isQueryParameter_ok Let_def)

lemma visitMaskWith_keeps:
  "strip (visitMaskWith k p) = strip p"
  "constants (pmarks (visitMaskWith k p)) = constants (pmarks p)"
  "const_marked (visitMaskWith k p) = const_marked p"
  by (induction p) (auto simp: Let_def markUsed_def list_all_iff)

section \<open>Lemmas on the generator\<close>

definition params_inv :: "sqlst \<Rightarrow> bool" where
  "params_inv s \<longleftrightarrow> parameterIndex s = length (formalParameters s)"

text \<open>
  \<open>generates keep p\<close>: a visit of the inner node \<open>p\<close> returns, leaves the text of \<open>p\<close> in the object
  of its class, appends the parameters of \<open>p\<close>, and does not touch the objects in \<open>keep\<close>.
\<close>

definition generates :: "sql_object set \<Rightarrow> qpred \<Rightarrow> bool" where
  "generates keep p \<longleftrightarrow> (\<forall>s. params_inv s \<longrightarrow> (\<exists>s'. visitSQL False p s = Inr s' \<and> params_inv s' \<and>
     formalParameters s' = formalParameters s @ params_spec p \<and>
     sqlText s' (sql_of_node False p) = sql_spec p \<and> (\<forall>k\<in>keep. sqlText s' k = sqlText s k)))"

lemma generatesE:
  assumes "generates keep p" "params_inv s"
  obtains s' where "visitSQL False p s = Inr s'" "params_inv s'"
    "formalParameters s' = formalParameters s @ params_spec p"
    "sqlText s' (sql_of_node False p) = sql_spec p" "\<And>k. k \<in> keep \<Longrightarrow> sqlText s' k = sqlText s k"
  using assms unfolding generates_def by blast

lemma put_text_simps [simp]:
  "sqlText (put_text k t s) = (sqlText s)(k := t)"
  "formalParameters (put_text k t s) = formalParameters s"
  "params_inv (put_text k t s) = params_inv s"
  by (simp_all add: put_text_def params_inv_def)

lemma operand_ok:
  assumes "arg_ok a" "c = is_lit a" "params_inv s"
  shows "\<exists>s'. operand c a s = Inr (arg_text a, s') \<and> params_inv s' \<and> sqlText s' = sqlText s \<and>
    formalParameters s' = formalParameters s @ arg_params a"
proof (cases a)
  case (QLit l)
  with assms show ?thesis
    by (cases l) (auto simp: operand_def arg_ok_def is_lit_def getEscapedValue_def arg_text_def arg_params_def)
qed (use assms in \<open>simp add: operand_def is_lit_def add_formal_def arg_text_def arg_params_def
        params_inv_def js_simps\<close>)

lemma between_constants:
  "((if a then 1 else 0) + (if b then 2 else 0) AND 1 \<noteq> (0::nat)) = a"
  "((if a then 1 else 0) + (if b then 2 else 0) AND 2 \<noteq> (0::nat)) = b"
  by (cases a; cases b; simp only: if_True if_False add_0 add_0_right; code_simp)+

lemma visitSQL_Comparator:
  assumes "const_marked (Comparator m c f a)" "pred_ok (Comparator m c f a)" "params_inv s"
  shows "\<exists>s'. visitSQL r (Comparator m c f a) s = Inr (put_text (sql_of_node r (Comparator m c f a))
      (sql_spec (Comparator m c f a)) s') \<and> params_inv s' \<and> sqlText s' = sqlText s \<and>
      formalParameters s' = formalParameters s @ arg_params a"
  using operand_ok[of a "is_lit a" s] assms by auto

lemma visitSQL_Between:
  assumes "const_marked (Between m f a b)" "pred_ok (Between m f a b)" "params_inv s"
  shows "\<exists>s'. visitSQL r (Between m f a b) s = Inr (put_text (sql_of_node r (Between m f a b))
      (sql_spec (Between m f a b)) s') \<and> params_inv s' \<and> sqlText s' = sqlText s \<and>
      formalParameters s' = formalParameters s @ arg_params a @ arg_params b"
proof -
  have k: "(constants m AND 1 \<noteq> 0) = is_lit a" "(constants m AND 2 \<noteq> 0) = is_lit b"
    using assms(1) between_constants[of "is_lit a" "is_lit b"] by simp_all
  from assms obtain s1 where s1: "operand (is_lit a) a s = Inr (arg_text a, s1)" "params_inv s1"
      "sqlText s1 = sqlText s" "formalParameters s1 = formalParameters s @ arg_params a"
    using operand_ok[of a "is_lit a" s] by auto
  moreover from assms s1(2) obtain s2 where "operand (is_lit b) b s1 = Inr (arg_text b, s2)" "params_inv s2"
      "sqlText s2 = sqlText s1" "formalParameters s2 = formalParameters s1 @ arg_params b"
    using operand_ok[of b "is_lit b" s1] by auto
  ultimately show ?thesis by (simp only: visitSQL.simps k) (rule exI[of _ s2], simp)
qed

lemma visitSQL_rest_ok:
  assumes "\<And>p. p \<in> set ps \<Longrightarrow> generates keep p" "slot \<in> keep" "params_inv s"
  shows "\<exists>s'. visitSQL_rest slot n ps s = Inr s' \<and> params_inv s' \<and>
     formalParameters s' = formalParameters s @ concat (map params_spec ps) \<and>
     sqlText s' slot = sqlText s slot @ concat (map (\<lambda>q. nary_operator n @ parens (sql_spec q)) ps) \<and>
     (\<forall>k\<in>keep - {slot}. sqlText s' k = sqlText s k)"
  using assms
proof (induction ps arbitrary: s)
  case (Cons p ps)
  let ?s0 = "put_text slot (sqlText s slot @ nary_operator n) s"
  obtain s1 where s1: "visitSQL False p ?s0 = Inr s1" "params_inv s1"
      "formalParameters s1 = formalParameters ?s0 @ params_spec p"
      "sqlText s1 (sql_of_node False p) = sql_spec p" "\<And>k. k \<in> keep \<Longrightarrow> sqlText s1 k = sqlText ?s0 k"
    by (rule generatesE[of keep p ?s0]) (use Cons.prems in auto)
  let ?s2 = "put_text slot (sqlText s1 slot @ ''('' @ sqlText s1 (sql_of_node False p) @ '')'') s1"
  obtain s3 where "visitSQL_rest slot n ps ?s2 = Inr s3" "params_inv s3"
      "formalParameters s3 = formalParameters ?s2 @ concat (map params_spec ps)"
      "sqlText s3 slot = sqlText ?s2 slot @ concat (map (\<lambda>q. nary_operator n @ parens (sql_spec q)) ps)"
      "\<And>k. k \<in> keep - {slot} \<Longrightarrow> sqlText s3 k = sqlText ?s2 k"
    using Cons.IH[of ?s2] Cons.prems s1(2) by auto
  with s1 Cons.prems(2) show ?case by (auto simp: parens_def)
qed simp

lemma join_with_Cons: "join_with sep (x # xs) = x @ concat (map (\<lambda>y. sep @ y) xs)"
  by (induction xs arbitrary: x) auto

lemma sql_spec_Nary_Cons:
  "sql_spec (Nary m n (p # ps)) =
     parens (sql_spec p) @ concat (map (\<lambda>q. nary_operator n @ parens (sql_spec q)) ps)"
  by (simp add: join_with_Cons o_def)

lemma generates_nary_free:
  "nary_free p \<Longrightarrow> const_marked p \<Longrightarrow> pred_ok p \<Longrightarrow> generates {NarySql, RootSql} p"
proof (induction p)
  case (Comparator m c f a)
  then show ?case unfolding generates_def
    using visitSQL_Comparator[of m c f a _ False] by (fastforce simp: sql_of_node_def)
next
  case (Between m f a b)
  then show ?case unfolding generates_def
    using visitSQL_Between[of m f a b _ False] by (fastforce simp: sql_of_node_def)
next
  case (Unary m q)
  then have g: "generates {NarySql, RootSql} q" by simp
  show ?case unfolding generates_def
    by (intro allI impI, erule generatesE[OF g]) (auto simp: sql_of_node_def parens_def)
qed (auto simp: generates_def sql_of_node_def)

lemma generates_weaken: "generates {NarySql, RootSql} p \<Longrightarrow> generates {RootSql} p"
  unfolding generates_def by fastforce

lemma generates_inner:
  "inner_safe p \<Longrightarrow> const_marked p \<Longrightarrow> pred_ok p \<Longrightarrow> generates {RootSql} p"
proof (induction p)
  case (Unary m q)
  then have g: "generates {RootSql} q" by simp
  show ?case unfolding generates_def
    by (intro allI impI, erule generatesE[OF g]) (auto simp: sql_of_node_def parens_def)
next
  case (Nary m n ps)
  from Nary.prems obtain p qs where ps: "ps = p # qs" by (cases ps) auto
  with Nary have g: "generates {RootSql} p" by simp
  have gs: "\<And>q. q \<in> set qs \<Longrightarrow> generates {NarySql, RootSql} q"
    using Nary.prems ps generates_nary_free by (auto simp: list_all_iff)
  show ?case unfolding generates_def
  proof (intro allI impI)
    fix s assume "params_inv s"
    with g obtain s1 where s1: "visitSQL False p s = Inr s1" "params_inv s1"
      "formalParameters s1 = formalParameters s @ params_spec p"
      "sqlText s1 (sql_of_node False p) = sql_spec p" "sqlText s1 RootSql = sqlText s RootSql"
      by (rule generatesE) auto
    then show "\<exists>s'. visitSQL False (Nary m n ps) s = Inr s' \<and> params_inv s' \<and>
        formalParameters s' = formalParameters s @ params_spec (Nary m n ps) \<and>
        sqlText s' (sql_of_node False (Nary m n ps)) = sql_spec (Nary m n ps) \<and>
        (\<forall>k\<in>{RootSql}. sqlText s' k = sqlText s k)"
      using visitSQL_rest_ok[where ps = qs and keep = "{NarySql, RootSql}" and slot = NarySql and n = n
          and s = "put_text NarySql (parens (sql_spec p)) s1", OF gs]
      by (auto simp: ps sql_of_node_def parens_def sql_spec_Nary_Cons simp del: sql_spec.simps(5))
  qed
qed (rule generates_nary_free[THEN generates_weaken], simp_all)+

lemma visitSQL_root:
  assumes "sql_safe p" "const_marked p" "pred_ok p" "params_inv s"
  shows "\<exists>s'. visitSQL True p s = Inr s' \<and> sqlText s' RootSql = sql_spec p \<and>
    formalParameters s' = formalParameters s @ params_spec p"
proof (cases p)
  case (Comparator m c f a)
  then show ?thesis using visitSQL_Comparator[of m c f a s True] assms by (fastforce simp: sql_of_node_def)
next
  case (Between m f a b)
  then show ?thesis using visitSQL_Between[of m f a b s True] assms by (fastforce simp: sql_of_node_def)
next
  case (UnaryOp m u f)
  then show ?thesis by (simp add: sql_of_node_def)
next
  case (Unary m q)
  with assms have g: "generates {RootSql} q" by (auto simp: sql_safe_def intro: generates_inner)
  show ?thesis
    by (rule generatesE[OF g assms(4)]) (auto simp: Unary sql_of_node_def parens_def)
next
  case (Nary m n ps)
  from assms Nary obtain p1 qs where ps: "ps = p1 # qs" by (cases ps) auto
  from assms Nary ps have g: "generates {RootSql} p1"
    and gs: "\<And>q. q \<in> set qs \<Longrightarrow> generates {RootSql} q"
    by (auto simp: sql_safe_def list_all_iff intro: generates_inner)
  obtain s1 where s1: "visitSQL False p1 s = Inr s1" "params_inv s1"
      "formalParameters s1 = formalParameters s @ params_spec p1"
      "sqlText s1 (sql_of_node False p1) = sql_spec p1"
    by (rule generatesE[OF g assms(4)]) auto
  then show ?thesis
    using visitSQL_rest_ok[where ps = qs and keep = "{RootSql}" and slot = RootSql and n = n
        and s = "put_text RootSql (parens (sql_spec p1)) s1", OF gs]
    by (auto simp: Nary ps sql_of_node_def parens_def sql_spec_Nary_Cons simp del: sql_spec.simps(5))
qed

section \<open>Properties of the generator\<close>


definition demo_field :: "string \<Rightarrow> nat \<Rightarrow> query_field" where
  "demo_field name k =
     QueryField \<lparr>fm_fieldName = name, fm_columnName = name, fm_columnNumber = k\<rparr> None"


lemma nary_free_inner_safe: "nary_free p \<Longrightarrow> inner_safe p"
  by (induction p) auto

lemma generates_comparator_pair:
  assumes "nary_free b" "nary_free c" "const_marked b" "const_marked c" "pred_ok b" "pred_ok c" "params_inv s"
  shows "\<exists>s'. visitSQL False (Nary m n [b, c]) s = Inr s' \<and> params_inv s' \<and>
    formalParameters s' = formalParameters s @ params_spec b @ params_spec c \<and>
    sqlText s' NarySql = sql_spec (Nary m n [b, c]) \<and> sqlText s' RootSql = sqlText s RootSql"
proof -
  have "generates {RootSql} (Nary m n [b, c])"
    using assms by (intro generates_inner) (auto intro: nary_free_inner_safe)
  then show ?thesis by (rule generatesE[OF _ assms(7)]) (auto simp: sql_of_node_def)
qed

text \<open>
  Outside \<open>sql_safe\<close> the text can be wrong. When a node below the root combines \<open>a\<close> with a
  combination of \<open>b\<close> and \<open>c\<close>, the text of the inner node overwrites the text of the outer one,
  because both live in the \<open>sql\<close> object of the common prototype: \<open>a\<close> and the operator after it are
  lost from the condition, although the parameters of \<open>a\<close> are still passed.
\<close>

theorem shared_sql_loses_operand:
  fixes m0 m1 m2 n0 n1 n2 x a b c
  defines "p \<equiv> Nary m0 n0 [x, Nary m1 n1 [a, Nary m2 n2 [b, c]]]"
    and "inner \<equiv> sql_spec (Nary m2 n2 [b, c])"
  assumes "list_all nary_free [x, a, b, c]" "list_all const_marked [x, a, b, c]"
    "list_all pred_ok [x, a, b, c]"
  shows "getSQL p texts = Inr (parens (sql_spec x) @ nary_operator n0 @ parens (inner @ parens inner),
    params_spec x @ params_spec a @ params_spec b @ params_spec c)"
proof -
  let ?s0 = "SQLVisitor texts"
  have g: "generates {NarySql, RootSql} x" "generates {NarySql, RootSql} a"
    using assms by (auto intro: generates_nary_free)
  obtain s1 where s1: "visitSQL False x ?s0 = Inr s1" "params_inv s1"
      "formalParameters s1 = params_spec x" "sqlText s1 (sql_of_node False x) = sql_spec x"
    by (rule generatesE[OF g(1), of ?s0]) (auto simp: SQLVisitor_def params_inv_def)
  let ?s2 = "put_text RootSql (parens (sql_spec x) @ nary_operator n0) s1"
  obtain s3 where s3: "visitSQL False a ?s2 = Inr s3" "params_inv s3"
      "formalParameters s3 = formalParameters ?s2 @ params_spec a"
      "sqlText s3 (sql_of_node False a) = sql_spec a" "sqlText s3 RootSql = sqlText ?s2 RootSql"
    by (rule generatesE[OF g(2), of ?s2]) (use s1 in auto)
  let ?s4 = "put_text NarySql (parens (sql_spec a) @ nary_operator n1) s3"
  obtain s5 where s5: "visitSQL False (Nary m2 n2 [b, c]) ?s4 = Inr s5" "params_inv s5"
      "formalParameters s5 = formalParameters ?s4 @ params_spec b @ params_spec c"
      "sqlText s5 NarySql = inner" "sqlText s5 RootSql = sqlText ?s4 RootSql"
    using generates_comparator_pair[of b c ?s4 m2 n2] s3(2) assms by auto
  have slots: "sql_of_node False (Nary m n ps) = NarySql" "sql_of_node True (Nary m n ps) = RootSql"
    for m n ps by (simp_all add: sql_of_node_def)
  show ?thesis
    using s1 s3 s5 by (simp add: getSQL_def p_def slots parens_def put_text_def)
qed

theorem shared_sql_loses_operand_witness:
  "let eq = (\<lambda>n k. Comparator (new_marks 1) Eq (demo_field n k) (QLit (LInt 1)))
   in getSQL (Nary (new_marks 1) OR_op [eq ''x'' 0, Nary (new_marks 1) AND_op
        [eq ''a'' 1, Nary (new_marks 1) OR_op [eq ''b'' 2, eq ''c'' 3]]]) (\<lambda>_. [])
      = Inr (''(x = 1) OR ((b = 1) OR (c = 1)((b = 1) OR (c = 1)))'', [])"
proof -
  let ?eq = "\<lambda>n k. Comparator (new_marks 1) Eq (demo_field n k) (QLit (LInt 1))"
  have "list_all nary_free [?eq ''x'' 0, ?eq ''a'' 1, ?eq ''b'' 2, ?eq ''c'' 3]"
    "list_all const_marked [?eq ''x'' 0, ?eq ''a'' 1, ?eq ''b'' 2, ?eq ''c'' 3]"
    "list_all pred_ok [?eq ''x'' 0, ?eq ''a'' 1, ?eq ''b'' 2, ?eq ''c'' 3]"
    by (simp_all add: new_marks_def is_lit_def arg_ok_def)
  note r = shared_sql_loses_operand[OF this, of "new_marks 1" OR_op "new_marks 1" AND_op "new_marks 1" OR_op
    "\<lambda>_. []"]
  have one: "int_str 1 = ''1''" by code_simp
  show ?thesis
    unfolding Let_def r
    by (simp add: demo_field_def QueryField_def comparator_def arg_text_def getEscapedValue_def
        arg_params_def nary_operator_def parens_def one)
qed

section \<open>The column masks\<close>

fun pred_columns :: "qpred \<Rightarrow> nat set" where
  "pred_columns (Comparator m c f a) = {qf_column f}"
| "pred_columns (Between m f a b) = {qf_column f}"
| "pred_columns (UnaryOp m u f) = {qf_column f}"
| "pred_columns (Unary m q) = pred_columns q"
| "pred_columns (Nary m n ps) = (\<Union>q \<in> set ps. pred_columns q)"

text \<open>
  The columns that the masks made by \<open>markUsed\<close> can hold for a later \<open>orWith\<close>: all but the
  multiples of 24 from 24 on (see \<open>bm_or_drops_boundary_bit\<close> in \<open>BitMask\<close>).
\<close>

definition maskable :: "nat set \<Rightarrow> bool" where
  "maskable cs \<longleftrightarrow> (\<forall>c\<in>cs. c < radix \<or> \<not> radix dvd c)"

lemma new_mask_set:
  assumes "c < radix \<or> \<not> radix dvd c"
  shows "bm_wf (bm_set (new_BitMask None) c) \<and> bm_bits (bm_set (new_BitMask None) c) = {c}"
  using assms by (auto simp: bm_set_bits intro!: bm_set_wf)

lemma fold_orWith_masks:
  assumes "\<forall>q\<in>set ps. bm_wf (g q)"
  shows "bm_wf (foldl (\<lambda>b q. bm_orWith b (g q)) (new_BitMask None) ps) \<and>
    bm_bits (foldl (\<lambda>b q. bm_orWith b (g q)) (new_BitMask None) ps) = (\<Union>q \<in> set ps. bm_bits (g q))"
proof -
  have "foldl (\<lambda>b q. bm_orWith b (g q)) b ps = foldl bm_orWith b (map g ps)" for b
    by (simp add: foldl_map)
  then show ?thesis using bm.join_all[of "new_BitMask None" "map g ps"] assms by simp
qed

lemma visitMaskWith_used:
  "maskable (pred_columns p) \<Longrightarrow>
     bm_wf (used_mask (visitMaskWith k p)) \<and> bm_bits (used_mask (visitMaskWith k p)) = pred_columns p"
proof (induction p)
  case (Nary m n ps)
  have "maskable (pred_columns q)" if "q \<in> set ps" for q
    using Nary.prems that by (auto simp: maskable_def)
  with Nary.IH show ?case
    using fold_orWith_masks[of ps "\<lambda>q. used_mask (visitMaskWith k q)"]
    by (auto simp: used_mask_def Let_def foldl_map)
qed (simp_all add: used_mask_def markUsed_def Let_def new_mask_set maskable_def)

lemma visitMask_facts:
  assumes "maskable (pred_columns p)"
  shows "bm_wf (used_mask (visitMask p))" "bm_bits (used_mask (visitMask p)) = pred_columns p"
    "bm_wf (equal_mask (visitMask p))"
    "bm_bits (equal_mask (visitMask p)) =
      (case p of Comparator m c f a \<Rightarrow> if c = Eq then {qf_column f} else {} | _ \<Rightarrow> {})"
proof -
  have "operationCode c = Some 4 \<longleftrightarrow> c = Eq" for c by (cases c) (simp_all add: operationCode_def)
  then show "bm_wf (used_mask (visitMask p))" "bm_bits (used_mask (visitMask p)) = pred_columns p"
    "bm_wf (equal_mask (visitMask p))"
    "bm_bits (equal_mask (visitMask p)) =
      (case p of Comparator m c f a \<Rightarrow> if c = Eq then {qf_column f} else {} | _ \<Rightarrow> {})"
    using visitMaskWith_used[OF assms, of MaskMarkerVisitor_operationCode] assms
    by (cases p; simp add: visitMask_def equal_mask_def markUsed_def Let_def new_mask_set
      maskable_def MaskMarkerVisitor_operationCode_def)+
qed

text \<open>
  C5: When no column used by a predicate is a multiple of 24 from 24 on, the marker of masks leaves in
  every node a well formed mask of exactly the columns used below it. (For those columns it may not:
  a union of masks drops such a bit, see \<open>bm_or_drops_boundary_bit\<close>.) The mask of columns compared for
  equality is then that of the column in an equality node, and empty in every other node: also in a
  conjunction, where it should hold the columns of the equality operands, because the test for AND
  reads the operation code of the visitor and not of the node.
\<close>

theorem visitMask_masks:
  assumes "maskable (pred_columns p)"
  shows "bm_wf (used_mask (visitMask p)) \<and> bm_bits (used_mask (visitMask p)) = pred_columns p \<and>
    bm_wf (equal_mask (visitMask p)) \<and>
    bm_bits (equal_mask (visitMask p)) =
      (case p of Comparator m c f a \<Rightarrow> if c = Eq then {qf_column f} else {} | _ \<Rightarrow> {})"
  using visitMask_facts[OF assms] by simp

theorem visitMask_masks_witness:
  "bm_bits (used_mask (visitMask (QueryAnd (QueryEq (demo_field ''a'' 0) (QParam ''p''))
      (QueryEq (demo_field ''b'' 7) (QParam ''q''))))) = {0, 7} \<and>
   bm_bits (equal_mask (visitMask (QueryAnd (QueryEq (demo_field ''a'' 0) (QParam ''p''))
      (QueryEq (demo_field ''b'' 7) (QParam ''q''))))) = {}"
  using visitMask_masks[of "QueryAnd (QueryEq (demo_field ''a'' 0) (QParam ''p''))
      (QueryEq (demo_field ''b'' 7) (QParam ''q''))"]
  by (simp add: QueryAnd_def QueryEq_def QueryComparator_def demo_field_def QueryField_def
      qf_column_def maskable_def insert_commute)

section \<open>Query domain types\<close>

text \<open>
  The object returned by \<open>createQuery\<close>: its properties, and its \<open>field\<close> object. A field whose
  name is a keyword is reached through \<open>qdt.field\<close>; the property of that name stays the
  function. The function objects \<open>where\<close>, \<open>param\<close> and \<open>execute\<close> are shared by all query domain
  types, and the code stores the field in the function: that store is the second component of the
  state (function name to its \<open>field\<close> property).
\<close>

datatype qprop = QdFunction string | QdField query_field

record qdt =
  qd_props :: "string \<Rightarrow> qprop option"
  qd_field :: "string \<Rightarrow> query_field option"

definition query_keywords :: "string list" where
  "query_keywords = [''param'', ''where'', ''field'', ''execute'']"

definition new_qdt :: qdt where
  "new_qdt = \<lparr>qd_props = [''where'' \<mapsto> QdFunction ''where'', ''param'' \<mapsto> QdFunction ''param'',
      ''execute'' \<mapsto> QdFunction ''execute''], qd_field = Map.empty\<rparr>"

definition add_query_field ::
  "field_mapping \<Rightarrow> qdt \<times> (string \<Rightarrow> field_mapping option) \<Rightarrow> qdt \<times> (string \<Rightarrow> field_mapping option)" where
  "add_query_field f = (\<lambda>(q, fns).
     let name = fm_fieldName f; qf = QueryField f None in
     if name \<notin> set query_keywords then (q\<lparr>qd_props := (qd_props q)(name \<mapsto> QdField qf)\<rparr>, fns)
     else let q1 = (if name \<noteq> ''field''
                    then q\<lparr>qd_props := (qd_props q)(name \<mapsto> QdFunction name)\<rparr> else q);
              fns1 = (if name \<noteq> ''field'' then fns(name \<mapsto> f) else fns)
          in (q1\<lparr>qd_field := (qd_field q1)(name \<mapsto> qf)\<rparr>, fns1))"

definition QueryDomainType ::
  "field_mapping list \<Rightarrow> (string \<Rightarrow> field_mapping option) \<Rightarrow> qdt \<times> (string \<Rightarrow> field_mapping option)" where
  "QueryDomainType flds fns = fold add_query_field flds (new_qdt, fns)"

text \<open>Reading \<open>qdt[name]\<close>, \<open>qdt.field[name]\<close> and \<open>qdt[name].field\<close>.\<close>

definition qdt_lookup :: "qdt \<Rightarrow> string \<Rightarrow> query_field option" where
  "qdt_lookup q name = (if name \<in> set query_keywords then qd_field q name
     else case qd_props q name of Some (QdField qf) \<Rightarrow> Some qf | _ \<Rightarrow> None)"

definition qdt_prop_field ::
  "qdt \<Rightarrow> (string \<Rightarrow> field_mapping option) \<Rightarrow> string \<Rightarrow> field_mapping option" where
  "qdt_prop_field q fns name = (case qd_props q name of
       Some (QdFunction n) \<Rightarrow> fns n | Some (QdField qf) \<Rightarrow> Some (qf_field qf) | None \<Rightarrow> None)"

lemma add_query_field_lookup:
  "qdt_lookup (fst (add_query_field f s)) n =
     (if n = fm_fieldName f then Some (QueryField f None) else qdt_lookup (fst s) n)"
  by (cases s) (auto simp: add_query_field_def qdt_lookup_def Let_def)

lemma fold_query_field_lookup:
  assumes "distinct (map fm_fieldName fs)"
  shows "qdt_lookup (fst (fold add_query_field fs s)) n =
    (case find (\<lambda>f. fm_fieldName f = n) fs of Some f \<Rightarrow> Some (QueryField f None)
     | None \<Rightarrow> qdt_lookup (fst s) n)"
  using assms
proof (induction fs arbitrary: s)
  case (Cons f fs)
  have "fm_fieldName f = n \<Longrightarrow> find (\<lambda>f. fm_fieldName f = n) fs = None"
    using Cons.prems by (auto simp: find_None_iff image_iff)
  with Cons show ?case by (auto simp: add_query_field_lookup split: option.splits)
qed simp

lemma find_by_name:
  assumes "distinct (map fm_fieldName fs)" "f \<in> set fs"
  shows "find (\<lambda>g. fm_fieldName g = fm_fieldName f) fs = Some f"
  using assms by (induction fs) (auto simp: image_iff)

definition functions_kept :: "qdt \<Rightarrow> bool" where
  "functions_kept q \<longleftrightarrow>
     (\<forall>k\<in>{''where'', ''param'', ''execute''}. qd_props q k = Some (QdFunction k))"

lemma add_query_field_keeps:
  "functions_kept (fst s) \<Longrightarrow> functions_kept (fst (add_query_field f s))"
  by (cases s) (auto simp: functions_kept_def add_query_field_def Let_def query_keywords_def)

lemma fold_query_field_keeps:
  "functions_kept (fst s) \<Longrightarrow> functions_kept (fst (fold add_query_field fs s))"
  by (induction fs arbitrary: s) (simp_all add: add_query_field_keeps)

lemma QueryDomainType_functions_kept: "functions_kept (fst (QueryDomainType flds fns))"
  unfolding QueryDomainType_def by (rule fold_query_field_keeps) (simp add: functions_kept_def new_qdt_def)

lemma add_query_field_functions:
  "name \<in> {''where'', ''param'', ''execute''} \<Longrightarrow>
   snd (add_query_field f s) name = (if fm_fieldName f = name then Some f else snd s name)"
  by (cases s) (auto simp: add_query_field_def Let_def query_keywords_def)

lemma fold_query_field_functions:
  "name \<in> {''where'', ''param'', ''execute''} \<Longrightarrow>
   snd (fold add_query_field fs s) name =
     (case find (\<lambda>f. fm_fieldName f = name) (rev fs) of Some f \<Rightarrow> Some f | None \<Rightarrow> snd s name)"
  by (induction fs rule: rev_induct) (simp_all add: add_query_field_functions)

text \<open>
  Every field of a query domain type can be reached, under its own name or, when the name is a
  keyword, under \<open>qdt.field\<close>, and \<open>where\<close>, \<open>param\<close> and \<open>execute\<close> stay functions whatever the fields
  are called.
\<close>

theorem QueryDomainType_fields:
  assumes "distinct (map fm_fieldName flds)" "f \<in> set flds"
  shows "qdt_lookup (fst (QueryDomainType flds fns)) (fm_fieldName f) = Some (QueryField f None)
    \<and> functions_kept (fst (QueryDomainType flds fns))"
  by (simp add: QueryDomainType_functions_kept)
    (simp add: QueryDomainType_def fold_query_field_lookup[OF assms(1)] find_by_name[OF assms])

theorem QueryDomainType_fields_witness:
  "qdt_lookup (fst (QueryDomainType [\<lparr>fm_fieldName = ''where'', fm_columnName = ''w'', fm_columnNumber = 0\<rparr>]
      Map.empty)) ''where'' = Some (QueryField \<lparr>fm_fieldName = ''where'', fm_columnName = ''w'', fm_columnNumber = 0\<rparr> None)"
  using QueryDomainType_fields[of "[\<lparr>fm_fieldName = ''where'', fm_columnName = ''w'', fm_columnNumber = 0\<rparr>]"]
  by simp

text \<open>
  The property that a keyword field leaves on the shared function is the one of the type built
  last: after a second type with a field called \<open>where\<close>, \<open>qdt.where.field\<close> of the first type is the
  second type's field.
\<close>

theorem keyword_field_is_shared:
  assumes "f1 \<in> set flds1" "f2 \<in> set flds2" "fm_fieldName f1 = ''where''" "fm_fieldName f2 = ''where''"
    "distinct (map fm_fieldName flds1)" "distinct (map fm_fieldName flds2)"
  shows "let (q1, fns1) = QueryDomainType flds1 fns; (q2, fns2) = QueryDomainType flds2 fns1
    in qdt_prop_field q1 fns1 ''where'' = Some f1 \<and> qdt_prop_field q1 fns2 ''where'' = Some f2"
proof -
  have "qd_props (fst (QueryDomainType flds1 fns)) ''where'' = Some (QdFunction ''where'')"
    using QueryDomainType_functions_kept[of flds1 fns] by (simp add: functions_kept_def)
  moreover have "snd (QueryDomainType flds1 fns) ''where'' = Some f1"
    "snd (QueryDomainType flds2 fns') ''where'' = Some f2" for fns'
    using assms find_by_name[of "rev flds1" f1] find_by_name[of "rev flds2" f2]
    by (simp_all add: QueryDomainType_def fold_query_field_functions rev_map[symmetric])
  ultimately show ?thesis by (simp add: qdt_prop_field_def case_prod_unfold)
qed

theorem keyword_field_is_shared_witness:
  "let f1 = \<lparr>fm_fieldName = ''where'', fm_columnName = ''a'', fm_columnNumber = 0\<rparr>;
       f2 = \<lparr>fm_fieldName = ''where'', fm_columnName = ''b'', fm_columnNumber = 3\<rparr>;
       (q1, fns1) = QueryDomainType [f1] Map.empty; (q2, fns2) = QueryDomainType [f2] fns1
   in qdt_prop_field q1 fns1 ''where'' = Some f1 \<and> qdt_prop_field q1 fns2 ''where'' = Some f2"
  unfolding Let_def
  using keyword_field_is_shared[of "\<lparr>fm_fieldName = ''where'', fm_columnName = ''a'', fm_columnNumber = 0\<rparr>"
    _ "\<lparr>fm_fieldName = ''where'', fm_columnName = ''b'', fm_columnNumber = 3\<rparr>" _ Map.empty]
  by (simp add: Let_def)

end
