(* ===== verification/IndexChoice.thy ===== *)
theory IndexChoice
  imports Query
begin

text \<open>
  The choice of an access path: \<open>isUsable\<close> and \<open>score\<close> of \<open>DBIndexHandler\<close>, \<open>chooseIndex\<close>,
  \<open>chooseUniqueIndexForPredicate\<close> and \<open>chooseOrderedIndexForPredicate\<close> of
  \<^verbatim>\<open>Adapter/common/DBTableHandler.js\<close>, and \<open>QueryHandler\<close> of \<^verbatim>\<open>Adapter/api/Query.js\<close>, which
  marks a predicate and decides between primary key, unique key, index scan and table scan.
\<close>

section \<open>Index handlers\<close>

record index_handler =
  ih_name :: string
  ih_isPrimaryKey :: bool
  ih_isUnique :: bool
  ih_isOrdered :: bool
  indexColumnNumbers :: "nat list"
  ih_columnMask :: bitmask

text \<open>The two masks of a query predicate or of the keys of a find.\<close>

record predicate_masks =
  pm_used :: bitmask
  pm_equal :: bitmask

definition isUsable :: "index_handler \<Rightarrow> predicate_masks \<Rightarrow> bool" where
  "isUsable h p =
     (if ih_isUnique h then bm_isEqualTo (bm_and (pm_equal p) (ih_columnMask h)) (ih_columnMask h)
      else if ih_isOrdered h then fst (bm_bitIsSet (pm_used p) (hd (indexColumnNumbers h)))
      else False)"

text \<open>
  \<open>bitIsSet\<close> may grow the mask it tests; \<open>score\<close> passes the grown masks on, as the code tests the
  same objects again.
\<close>

fun score_loop :: "nat list \<Rightarrow> nat \<Rightarrow> predicate_masks \<Rightarrow> nat \<times> predicate_masks" where
  "score_loop [] score p = (score, p)"
| "score_loop (colNo # cols) score p =
     (let (point, used) = bm_bitIsSet (pm_used p) colNo; p1 = p\<lparr>pm_used := used\<rparr> in
      if point then
        let (e, equal) = bm_bitIsSet (pm_equal p1) colNo; p2 = p1\<lparr>pm_equal := equal\<rparr>
        in score_loop cols (if e then score + 2 else score + 1) p2
      else (score, p1))"

definition score :: "index_handler \<Rightarrow> predicate_masks \<Rightarrow> nat \<times> predicate_masks" where
  "score h p = score_loop (indexColumnNumbers h) 0 p"

fun chooseUniqueIndexForPredicate :: "index_handler list \<Rightarrow> predicate_masks \<Rightarrow> index_handler option" where
  "chooseUniqueIndexForPredicate [] p = None"
| "chooseUniqueIndexForPredicate (h # hs) p =
     (if ih_isUnique h \<and> bm_isEqualTo (bm_and (pm_equal p) (ih_columnMask h)) (ih_columnMask h)
      then Some h else chooseUniqueIndexForPredicate hs p)"

fun chooseOrdered_loop ::
  "index_handler list \<Rightarrow> predicate_masks \<Rightarrow> nat \<Rightarrow> index_handler option \<Rightarrow> index_handler option" where
  "chooseOrdered_loop [] p highScore highScorer = highScorer"
| "chooseOrdered_loop (h # hs) p highScore highScorer =
     (if ih_isOrdered h then
        let (s, p1) = score h p in
        if highScore < s then chooseOrdered_loop hs p1 s (Some h)
        else chooseOrdered_loop hs p1 highScore highScorer
      else chooseOrdered_loop hs p highScore highScorer)"

definition chooseOrderedIndexForPredicate :: "index_handler list \<Rightarrow> predicate_masks \<Rightarrow> index_handler option" where
  "chooseOrderedIndexForPredicate hs p = chooseOrdered_loop hs p 0 None"

text \<open>What these operations use of a \<open>DBTableHandler\<close>.\<close>

record table_handler =
  th_numberOfColumns :: nat
  th_columnMaskForField :: "string \<Rightarrow> bitmask option"
  dbIndexHandlers :: "index_handler list"

definition key_masks_step ::
  "table_handler \<Rightarrow> string \<times> js \<Rightarrow> predicate_masks \<Rightarrow> predicate_masks" where
  "key_masks_step th = (\<lambda>(fieldName, v) p.
     if v = JUndef then p else
     (case th_columnMaskForField th fieldName of
        None \<Rightarrow> p
      | Some m \<Rightarrow>
          let p1 = p\<lparr>pm_used := bm_orWith (pm_used p) m\<rparr>
          in if v \<noteq> JNull then p1\<lparr>pm_equal := bm_orWith (pm_equal p1) m\<rparr> else p1))"

definition key_masks :: "table_handler \<Rightarrow> js \<Rightarrow> predicate_masks res" where
  "key_masks th keys =
     (let p = \<lparr>pm_used = new_BitMask (Some (th_numberOfColumns th)),
               pm_equal = new_BitMask (Some (th_numberOfColumns th))\<rparr> in
      if js_typeof keys = ''number'' \<or> js_typeof keys = ''string'' then
        (case dbIndexHandlers th of
           [] \<Rightarrow> Inl TypeError
         | h # _ \<Rightarrow>
             let pkcol0 = hd (indexColumnNumbers h)
             in Inr (p\<lparr>pm_used := bm_set (pm_used p) pkcol0, pm_equal := bm_set (pm_equal p) pkcol0\<rparr>))
      else Inr (fold (key_masks_step th) (own_props keys) p))"

definition chooseIndex :: "table_handler \<Rightarrow> js \<Rightarrow> bool \<Rightarrow> bool \<Rightarrow> index_handler option res" where
  "chooseIndex th keys allowUnique allowScan =
     rbind (key_masks th keys) (\<lambda>p.
       let h = (if allowUnique then chooseUniqueIndexForPredicate (dbIndexHandlers th) p else None)
       in Inr (if allowScan \<and> h = None then chooseOrderedIndexForPredicate (dbIndexHandlers th) p else h))"

definition getIndexHandler where "getIndexHandler th keys = chooseIndex th keys True True"
definition getUniqueIndexHandler where "getUniqueIndexHandler th keys = chooseIndex th keys True False"
definition getOrderedIndexHandler where "getOrderedIndexHandler th keys = chooseIndex th keys False True"

section \<open>The query handler\<close>

datatype query_type = PrimaryKey | UniqueKey | IndexScan | TableScan

definition queryTypeCode :: "query_type \<Rightarrow> nat" where
  "queryTypeCode t = (case t of PrimaryKey \<Rightarrow> 0 | UniqueKey \<Rightarrow> 1 | IndexScan \<Rightarrow> 2 | TableScan \<Rightarrow> 3)"

record query_handler =
  qh_predicate :: "qpred option"
  qh_dbIndexHandler :: "index_handler option"
  qh_queryType :: query_type

definition masks_of :: "qpred \<Rightarrow> predicate_masks" where
  "masks_of p = \<lparr>pm_used = used_mask p, pm_equal = equal_mask p\<rparr>"

definition QueryHandler :: "index_handler list \<Rightarrow> qpred option \<Rightarrow> query_handler res" where
  "QueryHandler hs predicate = (case predicate of
       None \<Rightarrow> Inr \<lparr>qh_predicate = None, qh_dbIndexHandler = None, qh_queryType = TableScan\<rparr>
     | Some p0 \<Rightarrow>
         rbind (visitConst p0) (\<lambda>p1.
           let p = visitMask p1 in
           (case chooseUniqueIndexForPredicate hs (masks_of p) of
              Some h \<Rightarrow> Inr \<lparr>qh_predicate = Some p, qh_dbIndexHandler = Some h,
                            qh_queryType = (if ih_isPrimaryKey h then PrimaryKey else UniqueKey)\<rparr>
            | None \<Rightarrow>
                (case chooseOrderedIndexForPredicate hs (masks_of p) of
                   Some h \<Rightarrow> Inr \<lparr>qh_predicate = Some p, qh_dbIndexHandler = Some h, qh_queryType = IndexScan\<rparr>
                 | None \<Rightarrow> Inr \<lparr>qh_predicate = Some p, qh_dbIndexHandler = None, qh_queryType = TableScan\<rparr>))))"

text \<open>
  \<open>getValueForColumn\<close>: its loop over the operands calls it again with the same node, so the
  recursion need not end. The last argument is \<open>None\<close> on entry and \<open>Some i\<close> in the loop. The vals
  of the parameters of a query are given by name.
\<close>

definition node_field :: "qpred \<Rightarrow> (query_field \<times> qarg) option" where
  "node_field p = (case p of Comparator m c f a \<Rightarrow> Some (f, a)
     | Between m f a b \<Rightarrow> Some (f, QLit LUndef) | UnaryOp m u f \<Rightarrow> Some (f, QLit LUndef) | _ \<Rightarrow> None)"

definition node_predicates :: "qpred \<Rightarrow> qpred list" where
  "node_predicates p = (case p of Nary m n ps \<Rightarrow> ps | Unary m q \<Rightarrow> [q] | _ \<Rightarrow> [])"

definition argument_value :: "qarg \<Rightarrow> (string \<Rightarrow> js) \<Rightarrow> js res" where
  "argument_value a vals = rbind (isQueryParameter a) (\<lambda>q.
     case a of QParam n \<Rightarrow> Inr (vals n) | QLit l \<Rightarrow> rbind (getEscapedValue a) (\<lambda>t. Inr (JStr t)))"

partial_function (option) getValueForColumn ::
  "qpred \<Rightarrow> nat \<Rightarrow> (string \<Rightarrow> js) \<Rightarrow> nat option \<Rightarrow> js res option" where
  "getValueForColumn node columnNumber vals i =
     (if i = None then
          (if fst (bm_bitIsSet (equal_mask node) columnNumber) then
             (case node_field node of
                Some fa \<Rightarrow>
                  if qf_column (fst fa) = columnNumber then Some (argument_value (snd fa) vals) else Some (Inr JNull)
              | None \<Rightarrow> getValueForColumn node columnNumber vals (Some 0))
           else Some (Inr JNull))
      else
          (if the i < length (node_predicates node) then
             Option.bind (getValueForColumn node columnNumber vals None) (\<lambda>v.
               if v \<noteq> Inr JNull then Some v
               else getValueForColumn node columnNumber vals (Some (Suc (the i))))
           else Some (Inr JNull)))"

fun getKeys_loop :: "nat list \<Rightarrow> qpred \<Rightarrow> (string \<Rightarrow> js) \<Rightarrow> js list res option" where
  "getKeys_loop [] p vals = Some (Inr [])"
| "getKeys_loop (c # cs) p vals =
     Option.bind (getValueForColumn p c vals None) (\<lambda>v.
       case v of Inl e \<Rightarrow> Some (Inl e)
       | Inr x \<Rightarrow> map_option (\<lambda>r. rbind r (\<lambda>xs. Inr (x # xs))) (getKeys_loop cs p vals))"

definition getKeys :: "query_handler \<Rightarrow> (string \<Rightarrow> js) \<Rightarrow> js list res option" where
  "getKeys q vals = (case (qh_dbIndexHandler q, qh_predicate q) of
       (Some h, Some p) \<Rightarrow> getKeys_loop (indexColumnNumbers h) p vals
     | _ \<Rightarrow> Some (Inl TypeError))"

section \<open>Lemmas on the choice\<close>

definition ih_wf :: "index_handler \<Rightarrow> bool" where
  "ih_wf h \<longleftrightarrow> bm_wf (ih_columnMask h) \<and> bm_bits (ih_columnMask h) = set (indexColumnNumbers h) \<and>
     indexColumnNumbers h \<noteq> []"

definition pm_wf :: "predicate_masks \<Rightarrow> bool" where
  "pm_wf p \<longleftrightarrow> bm_wf (pm_used p) \<and> bm_wf (pm_equal p)"

definition covers :: "predicate_masks \<Rightarrow> index_handler \<Rightarrow> bool" where
  "covers p h \<longleftrightarrow> set (indexColumnNumbers h) \<subseteq> bm_bits (pm_equal p)"

lemma unique_test:
  assumes "ih_wf h" "pm_wf p"
  shows "bm_isEqualTo (bm_and (pm_equal p) (ih_columnMask h)) (ih_columnMask h) \<longleftrightarrow> covers p h"
  using bm.covers_iff[of "pm_equal p" "ih_columnMask h"] assms
  by (simp add: ih_wf_def pm_wf_def covers_def)

lemma chooseUnique_find:
  assumes "list_all ih_wf hs" "pm_wf p"
  shows "chooseUniqueIndexForPredicate hs p = find (\<lambda>h. ih_isUnique h \<and> covers p h) hs"
  using assms by (induction hs) (simp_all add: unique_test)

text \<open>The score as a function of the two sets of columns.\<close>

definition points :: "nat set \<Rightarrow> nat set \<Rightarrow> nat list \<Rightarrow> nat" where
  "points used equal cols = (\<Sum>c\<leftarrow>takeWhile (\<lambda>c. c \<in> used) cols. if c \<in> equal then 2 else 1)"

lemma score_loop_eq:
  assumes "pm_wf p"
  shows "\<exists>p'. score_loop cols s p = (s + points (bm_bits (pm_used p)) (bm_bits (pm_equal p)) cols, p') \<and>
     pm_wf p' \<and> bm_bits (pm_used p') = bm_bits (pm_used p) \<and> bm_bits (pm_equal p') = bm_bits (pm_equal p)"
  using assms
proof (induction cols arbitrary: s p)
  case Nil
  then show ?case by (simp add: points_def)
next
  case (Cons c cols)
  from Cons.prems have wf: "bm_wf (pm_used p)" "bm_wf (pm_equal p)" by (auto simp: pm_wf_def)
  note u = bm_bitIsSet_bits[OF wf(1), of c] and e = bm_bitIsSet_bits[OF wf(2), of c]
  show ?case
  proof (cases "c \<in> bm_bits (pm_used p)")
    case True
    let ?p2 = "p\<lparr>pm_used := snd (bm_bitIsSet (pm_used p) c), pm_equal := snd (bm_bitIsSet (pm_equal p) c)\<rparr>"
    have "pm_wf ?p2" using u e by (simp add: pm_wf_def)
    note IH = Cons.IH[OF this, of "if c \<in> bm_bits (pm_equal p) then s + 2 else s + 1"]
    have "score_loop (c # cols) s p = score_loop cols (if c \<in> bm_bits (pm_equal p) then s + 2 else s + 1) ?p2"
      using True u e by (simp add: case_prod_unfold Let_def)
    moreover have "points (bm_bits (pm_used p)) (bm_bits (pm_equal p)) (c # cols) =
        (if c \<in> bm_bits (pm_equal p) then 2 else 1) + points (bm_bits (pm_used p)) (bm_bits (pm_equal p)) cols"
      using True by (simp add: points_def)
    ultimately show ?thesis using IH u e by (simp split: if_splits)
  next
    case False
    with u wf show ?thesis by (auto simp: case_prod_unfold Let_def points_def pm_wf_def)
  qed
qed

lemma score_eq:
  assumes "pm_wf p"
  shows "\<exists>p'. score h p =
      (points (bm_bits (pm_used p)) (bm_bits (pm_equal p)) (indexColumnNumbers h), p') \<and>
     pm_wf p' \<and> bm_bits (pm_used p') = bm_bits (pm_used p) \<and> bm_bits (pm_equal p') = bm_bits (pm_equal p)"
  unfolding score_def using score_loop_eq[OF assms, of "indexColumnNumbers h" 0] by simp

text \<open>The index with the highest score, the first one among equals; a score of 0 does not count.\<close>

fun best_index :: "(index_handler \<Rightarrow> nat) \<Rightarrow> index_handler list \<Rightarrow> nat \<Rightarrow> index_handler option \<Rightarrow> index_handler option" where
  "best_index f [] m r = r"
| "best_index f (h # hs) m r =
     (if ih_isOrdered h \<and> m < f h then best_index f hs (f h) (Some h) else best_index f hs m r)"

lemma chooseOrdered_loop_best:
  assumes "pm_wf p"
  shows "chooseOrdered_loop hs p m r =
    best_index (\<lambda>h. points (bm_bits (pm_used p)) (bm_bits (pm_equal p)) (indexColumnNumbers h)) hs m r"
  using assms
proof (induction hs arbitrary: p m r)
  case (Cons h hs)
  from score_eq[OF Cons.prems, of h] Cons show ?case by (auto simp: Let_def)
qed simp

lemma best_index_max:
  "best_index f hs m r = (case find (\<lambda>h. ih_isOrdered h \<and> m < f h \<and>
       (\<forall>h'\<in>set hs. ih_isOrdered h' \<longrightarrow> f h' \<le> f h)) hs of Some h \<Rightarrow> Some h | None \<Rightarrow> r)"
proof (induction hs arbitrary: m r)
  case (Cons h hs)
  consider (better) "ih_isOrdered h" "m < f h" "\<forall>h'\<in>set hs. ih_isOrdered h' \<longrightarrow> f h' \<le> f h"
    | (beaten) "ih_isOrdered h" "m < f h" "\<exists>h'\<in>set hs. ih_isOrdered h' \<and> f h < f h'"
    | (skip) "\<not> (ih_isOrdered h \<and> m < f h)" by (meson not_le)
  then show ?case
  proof cases
    case better
    then have "find (\<lambda>ha. ih_isOrdered ha \<and> f h < f ha \<and>
        (\<forall>h'\<in>set hs. ih_isOrdered h' \<longrightarrow> f h' \<le> f ha)) hs = None"
      by (auto simp: find_None_iff)
    with better Cons show ?thesis by simp
  next
    case beaten
    have "find (\<lambda>ha. ih_isOrdered ha \<and> f h < f ha \<and> (\<forall>h'\<in>set hs. ih_isOrdered h' \<longrightarrow> f h' \<le> f ha)) hs =
        find (\<lambda>ha. ih_isOrdered ha \<and> m < f ha \<and> (\<forall>h'\<in>set (h # hs). ih_isOrdered h' \<longrightarrow> f h' \<le> f ha)) hs"
    proof (rule find_cong[OF refl])
      fix x assume "x \<in> set hs"
      from beaten obtain g where "g \<in> set hs" "ih_isOrdered g" "f h < f g" by blast
      with beaten show "(ih_isOrdered x \<and> f h < f x \<and> (\<forall>h'\<in>set hs. ih_isOrdered h' \<longrightarrow> f h' \<le> f x)) =
          (ih_isOrdered x \<and> m < f x \<and> (\<forall>h'\<in>set (h # hs). ih_isOrdered h' \<longrightarrow> f h' \<le> f x))"
        by fastforce
    qed
    moreover have "find (\<lambda>ha. ih_isOrdered ha \<and> f h < f ha \<and>
        (\<forall>h'\<in>set hs. ih_isOrdered h' \<longrightarrow> f h' \<le> f ha)) hs \<noteq> None"
    proof -
      let ?S = "{h'\<in>set hs. ih_isOrdered h'}"
      have ne: "finite (f ` ?S)" "f ` ?S \<noteq> {}" using beaten(3) by auto
      obtain g where g: "g \<in> ?S" "f g = Max (f ` ?S)" using Max_in[OF ne] by force
      have "\<forall>h'\<in>?S. f h' \<le> f g" using ne g(2) by simp
      moreover from this beaten(3) have "f h < f g" by fastforce
      ultimately show ?thesis unfolding find_None_iff using g by blast
    qed
    ultimately show ?thesis using beaten Cons by (auto split: option.splits)
  next
    case skip
    then have "find (\<lambda>ha. ih_isOrdered ha \<and> m < f ha \<and> (\<forall>h'\<in>set hs. ih_isOrdered h' \<longrightarrow> f h' \<le> f ha)) hs =
        find (\<lambda>ha. ih_isOrdered ha \<and> m < f ha \<and> (\<forall>h'\<in>set (h # hs). ih_isOrdered h' \<longrightarrow> f h' \<le> f ha)) hs"
      by (intro find_cong) auto
    with skip Cons show ?thesis by auto
  qed
qed simp

section \<open>Properties of the choice\<close>

text \<open>
  C7: The unique index chosen is the first one all of whose columns are compared for equality; none
  is chosen exactly when there is no such index. The ordered index chosen is the first one with the
  highest score, one point for each leading column that is used and one more when it is compared
  for equality; none is chosen exactly when no ordered index has its first column used.
\<close>

theorem choose_index_correct:
  assumes "list_all ih_wf hs" "pm_wf p"
  defines "f \<equiv> \<lambda>h. points (bm_bits (pm_used p)) (bm_bits (pm_equal p)) (indexColumnNumbers h)"
  shows "chooseUniqueIndexForPredicate hs p =
      find (\<lambda>h. ih_isUnique h \<and> set (indexColumnNumbers h) \<subseteq> bm_bits (pm_equal p)) hs \<and>
    chooseOrderedIndexForPredicate hs p =
      find (\<lambda>h. ih_isOrdered h \<and> hd (indexColumnNumbers h) \<in> bm_bits (pm_used p) \<and>
        (\<forall>h'\<in>set hs. ih_isOrdered h' \<longrightarrow> f h' \<le> f h)) hs"
proof -
  have "0 < f h \<longleftrightarrow> hd (indexColumnNumbers h) \<in> bm_bits (pm_used p)" if "h \<in> set hs" for h
    using that assms(1) by (cases "indexColumnNumbers h") (auto simp: list_all_iff ih_wf_def f_def points_def)
  then have "find (\<lambda>h. ih_isOrdered h \<and> 0 < f h \<and> (\<forall>h'\<in>set hs. ih_isOrdered h' \<longrightarrow> f h' \<le> f h)) hs =
      find (\<lambda>h. ih_isOrdered h \<and> hd (indexColumnNumbers h) \<in> bm_bits (pm_used p) \<and>
        (\<forall>h'\<in>set hs. ih_isOrdered h' \<longrightarrow> f h' \<le> f h)) hs"
    by (intro find_cong) auto
  then show ?thesis
    using assms(1,2) by (simp add: chooseUnique_find covers_def chooseOrderedIndexForPredicate_def
        chooseOrdered_loop_best best_index_max f_def split: option.split)
qed

definition demo_index :: "string \<Rightarrow> bool \<Rightarrow> bool \<Rightarrow> bool \<Rightarrow> nat list \<Rightarrow> index_handler" where
  "demo_index name pk unique ordered cols =
     \<lparr>ih_name = name, ih_isPrimaryKey = pk, ih_isUnique = unique, ih_isOrdered = ordered,
      indexColumnNumbers = cols, ih_columnMask = foldl bm_set (new_BitMask (Some 8)) cols\<rparr>"

lemma demo_index_wf:
  assumes "\<forall>c\<in>set cols. c < 8" "cols \<noteq> []"
  shows "ih_wf (demo_index name pk unique ordered cols)"
  using bm.add_all[of "new_BitMask (Some 8)" cols] assms
  by (fastforce simp: ih_wf_def demo_index_def)

lemma demo_index_simps [simp]:
  "indexColumnNumbers (demo_index name pk unique ordered cols) = cols"
  "ih_isUnique (demo_index name pk unique ordered cols) = unique"
  "ih_isOrdered (demo_index name pk unique ordered cols) = ordered"
  "ih_isPrimaryKey (demo_index name pk unique ordered cols) = pk"
  by (simp_all add: demo_index_def)

theorem choose_index_correct_witness:
  "chooseUniqueIndexForPredicate [demo_index ''pk'' True True False [0], demo_index ''uk'' False True False [2, 1]]
     \<lparr>pm_used = foldl bm_set (new_BitMask (Some 8)) [1, 2],
      pm_equal = foldl bm_set (new_BitMask (Some 8)) [1, 2]\<rparr>
   = Some (demo_index ''uk'' False True False [2, 1])"
proof -
  have m: "bm_wf (foldl bm_set (new_BitMask (Some 8)) [1, 2]) \<and>
      bm_bits (foldl bm_set (new_BitMask (Some 8)) [1, 2]) = {1, 2}"
    using bm.add_all[of "new_BitMask (Some 8)" "[1, 2]"] by auto
  show ?thesis
    using choose_index_correct[of "[demo_index ''pk'' True True False [0], demo_index ''uk'' False True False [2, 1]]"
        "\<lparr>pm_used = foldl bm_set (new_BitMask (Some 8)) [1, 2], pm_equal = foldl bm_set (new_BitMask (Some 8)) [1, 2]\<rparr>"] m
    by (simp add: demo_index_wf pm_wf_def del: foldl_Cons)
qed

section \<open>Keys\<close>

definition th_wf :: "table_handler \<Rightarrow> bool" where
  "th_wf th \<longleftrightarrow> list_all ih_wf (dbIndexHandlers th) \<and>
     (\<forall>n m. th_columnMaskForField th n = Some m \<longrightarrow> bm_wf m) \<and>
     (\<forall>h\<in>set (dbIndexHandlers th). \<forall>c\<in>set (indexColumnNumbers h). c < th_numberOfColumns th)"

text \<open>The columns of the mapped fields whose value satisfies \<open>P\<close>.\<close>

definition given_columns :: "table_handler \<Rightarrow> (js \<Rightarrow> bool) \<Rightarrow> (string \<times> js) list \<Rightarrow> nat set" where
  "given_columns th P ps =
     (\<Union>(n, v) \<in> set ps. if v \<noteq> JUndef \<and> P v
        then (case th_columnMaskForField th n of Some m \<Rightarrow> bm_bits m | None \<Rightarrow> {}) else {})"

lemma key_masks_step_correct:
  assumes "th_wf th" "pm_wf p"
  shows "pm_wf (key_masks_step th (n, v) p) \<and>
    bm_bits (pm_used (key_masks_step th (n, v) p)) =
      bm_bits (pm_used p) \<union> given_columns th (\<lambda>v. True) [(n, v)] \<and>
    bm_bits (pm_equal (key_masks_step th (n, v) p)) =
      bm_bits (pm_equal p) \<union> given_columns th (\<lambda>v. v \<noteq> JNull) [(n, v)]"
  using assms
  by (auto simp: key_masks_step_def th_wf_def pm_wf_def given_columns_def Let_def bm_orWith_bits bm_orWith_wf
      split: option.split)

lemma given_columns_Cons: "given_columns th P (x # xs) = given_columns th P [x] \<union> given_columns th P xs"
  by (auto simp: given_columns_def)

lemma given_columns_Nil [simp]: "given_columns th P [] = {}"
  by (simp add: given_columns_def)

lemma key_masks_fold:
  assumes "th_wf th" "pm_wf p"
  shows "pm_wf (fold (key_masks_step th) ps p) \<and>
    bm_bits (pm_used (fold (key_masks_step th) ps p)) =
      bm_bits (pm_used p) \<union> given_columns th (\<lambda>v. True) ps \<and>
    bm_bits (pm_equal (fold (key_masks_step th) ps p)) =
      bm_bits (pm_equal p) \<union> given_columns th (\<lambda>v. v \<noteq> JNull) ps"
  using assms(2)
proof (induction ps arbitrary: p)
  case (Cons x ps)
  obtain n v where x: "x = (n, v)" by (cases x)
  note step = key_masks_step_correct[OF assms(1) Cons.prems, of n v]
  from Cons.IH[of "key_masks_step th x p"] step show ?case
    by (simp add: x given_columns_Cons[of th _ "(n, v)" ps] Un_assoc)
qed simp

text \<open>The columns for which a find gives a value that is not null.\<close>

definition key_columns :: "table_handler \<Rightarrow> js \<Rightarrow> nat set" where
  "key_columns th keys = (case keys of
       JNum _ \<Rightarrow> {hd (indexColumnNumbers (hd (dbIndexHandlers th)))}
     | JStr _ \<Rightarrow> {hd (indexColumnNumbers (hd (dbIndexHandlers th)))}
     | _ \<Rightarrow> given_columns th (\<lambda>v. v \<noteq> JNull) (own_props keys))"

lemma key_masks_correct:
  assumes wf: "th_wf th" and ne: "dbIndexHandlers th \<noteq> []"
  shows "\<exists>p. key_masks th keys = Inr p \<and> pm_wf p \<and> bm_bits (pm_equal p) = key_columns th keys"
proof (cases "js_typeof keys = ''number'' \<or> js_typeof keys = ''string''")
  case True
  from ne obtain h hs where hs: "dbIndexHandlers th = h # hs" by (cases "dbIndexHandlers th") auto
  with wf have "hd (indexColumnNumbers h) < th_numberOfColumns th"
    by (auto simp: th_wf_def ih_wf_def)
  then have "hd (indexColumnNumbers h) < bm_size (new_BitMask (Some (th_numberOfColumns th)))"
    using new_BitMask_capacity[of "th_numberOfColumns th"] by linarith
  then have "bm_wf (bm_set (new_BitMask (Some (th_numberOfColumns th))) (hd (indexColumnNumbers h)))"
    by (intro bm_set_wf) simp_all
  moreover have "key_columns th keys = {hd (indexColumnNumbers h)}"
    using True hs by (auto simp: key_columns_def js_typeof_def split: js.splits)
  ultimately show ?thesis
    using True hs by (auto simp: key_masks_def pm_wf_def Let_def bm_set_bits)
next
  case False
  let ?p = "\<lparr>pm_used = new_BitMask (Some (th_numberOfColumns th)),
             pm_equal = new_BitMask (Some (th_numberOfColumns th))\<rparr>"
  have "key_columns th keys = given_columns th (\<lambda>v. v \<noteq> JNull) (own_props keys)"
    using False by (auto simp: key_columns_def js_typeof_def split: js.splits)
  with False key_masks_fold[OF wf, of ?p "own_props keys"] show ?thesis
    by (simp add: key_masks_def pm_wf_def Let_def)
qed

text \<open>
  C8: A find by keys uses the first unique index all of whose columns belong to mapped fields with a
  value other than \<open>null\<close> and \<open>undefined\<close>, or, for a number or a string, all of whose columns are the
  first column of the first index; it never uses a unique index with a column left open.
\<close>

theorem getUniqueIndexHandler_correct:
  assumes "th_wf th" "dbIndexHandlers th \<noteq> []"
  shows "getUniqueIndexHandler th keys =
    Inr (find (\<lambda>h. ih_isUnique h \<and> set (indexColumnNumbers h) \<subseteq> key_columns th keys) (dbIndexHandlers th))"
proof -
  obtain p where p: "key_masks th keys = Inr p" "pm_wf p" "bm_bits (pm_equal p) = key_columns th keys"
    using key_masks_correct[OF assms] by blast
  with assms(1) show ?thesis
    by (simp add: getUniqueIndexHandler_def chooseIndex_def chooseUnique_find th_wf_def covers_def)
qed

theorem getUniqueIndexHandler_correct_witness:
  "let th = \<lparr>th_numberOfColumns = 3,
        th_columnMaskForField = [''id'' \<mapsto> bm_set (new_BitMask (Some 3)) 0, ''name'' \<mapsto> bm_set (new_BitMask (Some 3)) 2],
        dbIndexHandlers = [demo_index ''pk'' True True False [0], demo_index ''uk'' False True False [2]]\<rparr>
   in getUniqueIndexHandler th (JObj [(''name'', JStr ''x''), (''id'', JNull)])
      = Inr (Some (demo_index ''uk'' False True False [2]))"
proof -
  let ?th = "\<lparr>th_numberOfColumns = 3,
        th_columnMaskForField = [''id'' \<mapsto> bm_set (new_BitMask (Some 3)) 0, ''name'' \<mapsto> bm_set (new_BitMask (Some 3)) 2],
        dbIndexHandlers = [demo_index ''pk'' True True False [0], demo_index ''uk'' False True False [2]]\<rparr>"
  have "th_wf ?th" by (auto simp: th_wf_def demo_index_wf bm_set_wf)
  then show ?thesis
    using getUniqueIndexHandler_correct[of ?th "JObj [(''name'', JStr ''x''), (''id'', JNull)]"]
    by (simp add: key_columns_def given_columns_def own_props_def bm_set_bits)
qed

section \<open>Properties of the query handler\<close>

definition eq_columns :: "qpred \<Rightarrow> nat set" where
  "eq_columns p = (case p of Comparator m c f a \<Rightarrow> if c = Eq then {qf_column f} else {} | _ \<Rightarrow> {})"

lemma pred_columns_strip: "pred_columns (strip p) = pred_columns p"
  by (induction p) auto

lemma eq_columns_strip: "eq_columns (strip p) = eq_columns p"
  by (cases p) (auto simp: eq_columns_def)

lemma visited_masks:
  assumes "unvisited p" "pred_ok p" "maskable (pred_columns p)"
  shows "\<exists>p'. visitConst p = Inr p' \<and> strip p' = strip p \<and> pm_wf (masks_of (visitMask p')) \<and>
    bm_bits (pm_used (masks_of (visitMask p'))) = pred_columns p \<and>
    bm_bits (pm_equal (masks_of (visitMask p'))) = eq_columns p"
proof -
  obtain p' where p': "visitConst p = Inr p'" "strip p' = strip p"
    using visitConst_ok assms by blast
  then have c: "pred_columns p' = pred_columns p" "eq_columns p' = eq_columns p"
    by (metis pred_columns_strip, metis eq_columns_strip)
  show ?thesis
    using p' visitMask_facts[of p'] c assms(3)
    by (auto simp: pm_wf_def masks_of_def eq_columns_def)
qed

lemma find_Some_ex: "find P xs = Some y \<Longrightarrow> y \<in> set xs \<and> P y"
  by (induction xs) (auto split: if_splits)

lemma find_None_ex: "(find P xs = None) \<longleftrightarrow> (\<forall>x\<in>set xs. \<not> P x)"
  by (induction xs) auto

definition unique_plan :: "index_handler list \<Rightarrow> qpred \<Rightarrow> index_handler option" where
  "unique_plan hs p = find (\<lambda>h. ih_isUnique h \<and> set (indexColumnNumbers h) \<subseteq> eq_columns p) hs"

lemma QueryHandler_eq:
  assumes "unvisited p" "pred_ok p" "maskable (pred_columns p)" "list_all ih_wf hs"
  shows "\<exists>p'. strip p' = strip p \<and> bm_wf (equal_mask p') \<and> bm_bits (equal_mask p') = eq_columns p \<and>
    QueryHandler hs (Some p) = Inr
      (case unique_plan hs p of
         Some h \<Rightarrow> \<lparr>qh_predicate = Some p', qh_dbIndexHandler = Some h,
                    qh_queryType = (if ih_isPrimaryKey h then PrimaryKey else UniqueKey)\<rparr>
       | None \<Rightarrow>
           (case best_index (\<lambda>h. points (pred_columns p) (eq_columns p) (indexColumnNumbers h)) hs 0 None of
              Some h \<Rightarrow> \<lparr>qh_predicate = Some p', qh_dbIndexHandler = Some h, qh_queryType = IndexScan\<rparr>
            | None \<Rightarrow> \<lparr>qh_predicate = Some p', qh_dbIndexHandler = None, qh_queryType = TableScan\<rparr>))"
proof -
  obtain p1 where p1: "visitConst p = Inr p1" "strip p1 = strip p" and wf: "pm_wf (masks_of (visitMask p1))"
    and b: "bm_bits (pm_used (masks_of (visitMask p1))) = pred_columns p"
      "bm_bits (pm_equal (masks_of (visitMask p1))) = eq_columns p"
    using visited_masks[OF assms(1-3)] by blast
  have "strip (visitMask p1) = strip p" by (simp add: visitMask_def visitMaskWith_keeps p1)
  moreover have "bm_wf (equal_mask (visitMask p1))" "bm_bits (equal_mask (visitMask p1)) = eq_columns p"
    using wf b by (simp_all add: pm_wf_def masks_of_def)
  ultimately show ?thesis
    using p1 b by (intro exI[of _ "visitMask p1"])
      (simp add: QueryHandler_def chooseUnique_find[OF assms(4) wf] covers_def unique_plan_def
        chooseOrderedIndexForPredicate_def chooseOrdered_loop_best[OF wf] split: option.split)
qed

lemma best_index_none: "best_index f hs 0 None = None \<longleftrightarrow> (\<forall>h\<in>set hs. ih_isOrdered h \<longrightarrow> f h = 0)"
proof -
  have "best_index f hs m r = None \<longleftrightarrow> r = None \<and> (\<forall>h\<in>set hs. ih_isOrdered h \<longrightarrow> f h \<le> m)" for m r
    by (induction hs arbitrary: m r) auto
  then show ?thesis by simp
qed

lemma best_index_some:
  assumes pos: "\<And>h. h \<in> set hs \<Longrightarrow> 0 < f h \<longleftrightarrow> P h"
  shows "best_index f hs 0 None = (if \<exists>h\<in>set hs. ih_isOrdered h \<and> P h
      then find (\<lambda>h. ih_isOrdered h \<and> (\<forall>h'\<in>set hs. ih_isOrdered h' \<longrightarrow> f h' \<le> f h)) hs else None)"
proof (cases "\<exists>h\<in>set hs. ih_isOrdered h \<and> P h")
  case True
  then obtain g where g: "g \<in> set hs" "ih_isOrdered g" "0 < f g" using pos by blast
  have "find (\<lambda>h. ih_isOrdered h \<and> 0 < f h \<and> (\<forall>h'\<in>set hs. ih_isOrdered h' \<longrightarrow> f h' \<le> f h)) hs =
      find (\<lambda>h. ih_isOrdered h \<and> (\<forall>h'\<in>set hs. ih_isOrdered h' \<longrightarrow> f h' \<le> f h)) hs"
    by (rule find_cong[OF refl]) (use g in fastforce)
  then show ?thesis using True by (simp add: best_index_max split: option.split)
next
  case False
  then have "best_index f hs 0 None = None" unfolding best_index_none using pos by force
  then show ?thesis by (simp only: if_not_P[OF False])
qed

text \<open>
  C6: The plan of a query whose predicate has not been visited before, has no operand that is null
  and uses no column that is a multiple of 24 from 24 on, for handlers of indexes that have columns. The
  first unique index whose only column is that of the predicate, when the predicate is one
  equality, is looked up, as primary or as unique key. When there is none, and always for a
  conjunction, so that the columns of a composite key given by AND are read with a scan, the plan is
  an index scan exactly when the predicate uses the first column of an ordered index: with the
  first of the ordered indexes whose score is the highest. Otherwise the table is scanned.
\<close>

theorem QueryHandler_plan:
  assumes "unvisited p" "pred_ok p" "maskable (pred_columns p)" "list_all ih_wf hs"
  shows "\<exists>q. QueryHandler hs (Some p) = Inr q \<and>
    (case find (\<lambda>h. ih_isUnique h \<and> (\<exists>m f a. p = Comparator m Eq f a \<and>
            set (indexColumnNumbers h) = {qf_column f})) hs of
       Some h \<Rightarrow> qh_dbIndexHandler q = Some h \<and>
         qh_queryType q = (if ih_isPrimaryKey h then PrimaryKey else UniqueKey)
     | None \<Rightarrow>
         if \<exists>h\<in>set hs. ih_isOrdered h \<and> hd (indexColumnNumbers h) \<in> pred_columns p
         then qh_queryType q = IndexScan \<and> qh_dbIndexHandler q =
           find (\<lambda>h. ih_isOrdered h \<and> (\<forall>h'\<in>set hs. ih_isOrdered h' \<longrightarrow>
               points (pred_columns p) (eq_columns p) (indexColumnNumbers h') \<le>
               points (pred_columns p) (eq_columns p) (indexColumnNumbers h))) hs
         else qh_queryType q = TableScan \<and> qh_dbIndexHandler q = None)"
proof -
  let ?f = "\<lambda>h. points (pred_columns p) (eq_columns p) (indexColumnNumbers h)"
  have ne: "indexColumnNumbers h \<noteq> []" if "h \<in> set hs" for h
    using that assms(4) by (auto simp: list_all_iff ih_wf_def)
  have u: "unique_plan hs p = find (\<lambda>h. ih_isUnique h \<and> (\<exists>m f a. p = Comparator m Eq f a \<and>
      set (indexColumnNumbers h) = {qf_column f})) hs"
    unfolding unique_plan_def
  proof (rule find_cong[OF refl])
    fix h assume "h \<in> set hs"
    then show "(ih_isUnique h \<and> set (indexColumnNumbers h) \<subseteq> eq_columns p) = (ih_isUnique h \<and>
        (\<exists>m f a. p = Comparator m Eq f a \<and> set (indexColumnNumbers h) = {qf_column f}))"
      using ne[of h] by (cases p; cases "indexColumnNumbers h") (auto simp: eq_columns_def)
  qed
  have pos: "0 < ?f h \<longleftrightarrow> hd (indexColumnNumbers h) \<in> pred_columns p" if "h \<in> set hs" for h
    using ne[OF that] by (cases "indexColumnNumbers h") (auto simp: points_def)
  have best: "best_index ?f hs 0 None = (if \<exists>h\<in>set hs. ih_isOrdered h \<and> hd (indexColumnNumbers h) \<in> pred_columns p
      then find (\<lambda>h. ih_isOrdered h \<and> (\<forall>h'\<in>set hs. ih_isOrdered h' \<longrightarrow> ?f h' \<le> ?f h)) hs else None)"
    by (rule best_index_some[OF pos])
  have some: "best_index ?f hs 0 None \<noteq> None"
    if "\<exists>h\<in>set hs. ih_isOrdered h \<and> hd (indexColumnNumbers h) \<in> pred_columns p"
    using best_index_none[of ?f hs] pos that by fastforce
  obtain p' where q: "QueryHandler hs (Some p) = Inr
      (case unique_plan hs p of
         Some h \<Rightarrow> \<lparr>qh_predicate = Some p', qh_dbIndexHandler = Some h,
                    qh_queryType = (if ih_isPrimaryKey h then PrimaryKey else UniqueKey)\<rparr>
       | None \<Rightarrow>
           (case best_index ?f hs 0 None of
              Some h \<Rightarrow> \<lparr>qh_predicate = Some p', qh_dbIndexHandler = Some h, qh_queryType = IndexScan\<rparr>
            | None \<Rightarrow> \<lparr>qh_predicate = Some p', qh_dbIndexHandler = None, qh_queryType = TableScan\<rparr>))"
    using QueryHandler_eq[OF assms] by blast
  show ?thesis
  proof (cases "unique_plan hs p")
    case (Some h)
    then show ?thesis using q unfolding u by simp
  next
    case None
    show ?thesis
    proof (cases "\<exists>h\<in>set hs. ih_isOrdered h \<and> hd (indexColumnNumbers h) \<in> pred_columns p")
      case True
      obtain g where g: "best_index ?f hs 0 None = Some g" using some[OF True] by blast
      with q None have "QueryHandler hs (Some p) = Inr \<lparr>qh_predicate = Some p', qh_dbIndexHandler = Some g, qh_queryType = IndexScan\<rparr>"
        by simp
      moreover note best[unfolded if_P[OF True] g]
      ultimately show ?thesis using None unfolding u if_P[OF True] by simp
    next
      case False
      then have "best_index ?f hs 0 None = None" unfolding best by (rule if_not_P)
      with q None have "QueryHandler hs (Some p) = Inr \<lparr>qh_predicate = Some p', qh_dbIndexHandler = None, qh_queryType = TableScan\<rparr>"
        by simp
      then show ?thesis using None unfolding u if_not_P[OF False] by simp
    qed
  qed
qed

theorem QueryHandler_plan_witness:
  "\<exists>q. QueryHandler [demo_index ''pk'' True True True [0, 1]]
      (Some (QueryAnd (QueryEq (demo_field ''a'' 0) (QParam ''p'')) (QueryEq (demo_field ''b'' 1) (QParam ''q'')))) = Inr q \<and>
    qh_queryType q \<notin> {PrimaryKey, UniqueKey}"
  using QueryHandler_plan[of "QueryAnd (QueryEq (demo_field ''a'' 0) (QParam ''p'')) (QueryEq (demo_field ''b'' 1) (QParam ''q''))"
      "[demo_index ''pk'' True True True [0, 1]]"]
  by (auto simp: QueryAnd_def QueryEq_def QueryComparator_def demo_field_def QueryField_def qf_column_def
      maskable_def demo_index_wf new_marks_def arg_ok_def)

lemma getValueForColumn_Comparator:
  assumes "bm_wf (equal_mask (Comparator m c f a))" "qf_column f \<in> bm_bits (equal_mask (Comparator m c f a))"
  shows "getValueForColumn (Comparator m c f a) (qf_column f) vals None = Some (argument_value a vals)"
  using assms by (subst getValueForColumn.simps) (simp add: bm_bitIsSet_bits node_field_def)

lemma getValueForColumn_loops:
  assumes "node_predicates node \<noteq> []" "node_field node = None" "fst (bm_bitIsSet (equal_mask node) col)"
  shows "getValueForColumn node col vals None = None"
proof -
  have "nd = node \<longrightarrow> c = col \<longrightarrow> i \<noteq> None \<and> i \<noteq> Some 0"
    if "getValueForColumn nd c vs i = Some v" for nd c vs i v
  proof (rule getValueForColumn.raw_induct[where
        P = "\<lambda>nd c vs i v. nd = node \<longrightarrow> c = col \<longrightarrow> i \<noteq> None \<and> i \<noteq> Some 0", OF _ that], goal_cases)
    case (1 g nd c vs i v)
    note IH = 1(1) and step = 1(2)
    show ?case
    proof (intro impI)
      assume eq: "nd = node" "c = col"
      show "i \<noteq> None \<and> i \<noteq> Some 0"
        using step assms IH[of nd c vs "Some 0"] IH[of nd c vs None] eq
        by (auto split: if_splits simp: bind_eq_Some_conv) (metis gr0I length_greater_0_conv)
    qed
  qed
  then show ?thesis by (cases "getValueForColumn node col vals None") blast+
qed

text \<open>
  C9: For a primary or unique key lookup planned for a predicate, \<open>getKeys\<close> returns one value for
  every column of the index: the value of the named parameter, or, for a literal, its SQL text, which
  for a string has the quotes of SQL around it although the key is not used in SQL.
\<close>

theorem getKeys_correct:
  assumes "unvisited p" "pred_ok p" "maskable (pred_columns p)" "list_all ih_wf hs"
    "QueryHandler hs (Some p) = Inr q" "qh_queryType q \<in> {PrimaryKey, UniqueKey}"
  shows "\<exists>m f a h. p = Comparator m Eq f a \<and> qh_dbIndexHandler q = Some h \<and>
    getKeys q vals = Some (Inr (map (\<lambda>_. case a of QParam n \<Rightarrow> vals n
        | QLit l \<Rightarrow> JStr (arg_text a)) (indexColumnNumbers h)))"
proof -
  obtain p' where p': "strip p' = strip p" "bm_wf (equal_mask p')" "bm_bits (equal_mask p') = eq_columns p"
    and q: "QueryHandler hs (Some p) = Inr
      (case unique_plan hs p of
         Some h \<Rightarrow> \<lparr>qh_predicate = Some p', qh_dbIndexHandler = Some h,
                    qh_queryType = (if ih_isPrimaryKey h then PrimaryKey else UniqueKey)\<rparr>
       | None \<Rightarrow>
           (case best_index (\<lambda>h. points (pred_columns p) (eq_columns p) (indexColumnNumbers h)) hs 0 None of
              Some h \<Rightarrow> \<lparr>qh_predicate = Some p', qh_dbIndexHandler = Some h, qh_queryType = IndexScan\<rparr>
            | None \<Rightarrow> \<lparr>qh_predicate = Some p', qh_dbIndexHandler = None, qh_queryType = TableScan\<rparr>))"
    using QueryHandler_eq[OF assms(1-4)] by blast
  from assms(5,6) q obtain h where h: "unique_plan hs p = Some h" "qh_dbIndexHandler q = Some h"
    "qh_predicate q = Some p'"
    by (auto split: option.splits)
  from h(1) have hh: "h \<in> set hs" "set (indexColumnNumbers h) \<subseteq> eq_columns p"
    by (auto simp: unique_plan_def dest: find_Some_ex)
  with assms(4) have "indexColumnNumbers h \<noteq> []" by (auto simp: list_all_iff ih_wf_def)
  with hh obtain m f a where p: "p = Comparator m Eq f a"
    by (cases p) (auto simp: eq_columns_def split: if_splits)
  with p'(1) obtain m' where pp: "p' = Comparator m' Eq f a" by (cases p') auto
  have v: "argument_value a vals = Inr (case a of QParam n \<Rightarrow> vals n | QLit l \<Rightarrow> JStr (arg_text a))"
    using assms(2) p by (auto simp: argument_value_def isQueryParameter_ok arg_ok_def arg_text_def
        getEscapedValue_def isQueryParameter_def split: qarg.splits jslit.splits)
  have g: "getValueForColumn p' (qf_column f) vals None = Some (argument_value a vals)"
    unfolding pp by (rule getValueForColumn_Comparator) (use p' p pp in \<open>simp_all add: eq_columns_def\<close>)
  have "getKeys_loop cs p' vals = Some (Inr (map (\<lambda>_. case a of QParam n \<Rightarrow> vals n
        | QLit l \<Rightarrow> JStr (arg_text a)) cs))" if "set cs \<subseteq> {qf_column f}" for cs
    using that by (induction cs) (auto simp: g v)
  moreover have "set (indexColumnNumbers h) \<subseteq> {qf_column f}" using hh p by (simp add: eq_columns_def)
  ultimately show ?thesis using p h by (simp add: getKeys_def)
qed

theorem getKeys_correct_witness:
  "\<exists>q. QueryHandler [demo_index ''pk'' True True False [0]]
      (Some (QueryEq (demo_field ''a'' 0) (QLit (LStr ''x'')))) = Inr q \<and>
    getKeys q (\<lambda>_. JUndef) = Some (Inr [JStr ([CHR 0x27] @ ''x'' @ [CHR 0x27])])"
proof -
  let ?p = "QueryEq (demo_field ''a'' 0) (QLit (LStr ''x''))"
  let ?hs = "[demo_index ''pk'' True True False [0]]"
  have ok: "unvisited ?p" "pred_ok ?p" "maskable (pred_columns ?p)" "list_all ih_wf ?hs"
    and u: "unique_plan ?hs ?p = Some (hd ?hs)"
    by (simp_all add: QueryEq_def QueryComparator_def new_marks_def arg_ok_def maskable_def demo_field_def
        QueryField_def qf_column_def demo_index_wf unique_plan_def eq_columns_def)
  obtain p' where q: "QueryHandler ?hs (Some ?p) = Inr \<lparr>qh_predicate = Some p',
      qh_dbIndexHandler = Some (hd ?hs), qh_queryType = PrimaryKey\<rparr>"
    using QueryHandler_eq[OF ok] u by auto
  from getKeys_correct[OF ok q, of "\<lambda>_. JUndef"] q show ?thesis
    by (auto simp: QueryEq_def QueryComparator_def arg_text_def getEscapedValue_def)
qed

text \<open>
  \<open>getKeys\<close> never returns for a compound predicate whose mask of equality columns holds a column
  of the index: the loop over the operands calls itself with the compound node again. It is only
  because such masks are empty that the planner never gets there.
\<close>

theorem getKeys_compound_diverges:
  assumes "bm_wf (equal_mask p)" "c \<in> bm_bits (equal_mask p)" "qh_predicate q = Some p"
    "qh_dbIndexHandler q = Some h" "indexColumnNumbers h = c # cs" "p = Nary m n (p1 # ps)"
  shows "getKeys q vals = None"
proof -
  have "getValueForColumn p c vals None = None"
    by (rule getValueForColumn_loops)
      (use assms in \<open>simp_all add: node_predicates_def node_field_def bm_bitIsSet_bits\<close>)
  with assms show ?thesis by (simp add: getKeys_def)
qed

theorem getKeys_compound_diverges_witness:
  "let p = Nary \<lparr>constants = 0, usedColumnMask = None,
                 equalColumnMask = Some (bm_set (new_BitMask None) 0)\<rparr> AND_op
             [QueryEq (demo_field ''a'' 0) (QParam ''x''), QueryIsNull (demo_field ''b'' 1)]
   in getKeys \<lparr>qh_predicate = Some p, qh_dbIndexHandler = Some (demo_index ''pk'' True True False [0]),
        qh_queryType = PrimaryKey\<rparr> (\<lambda>_. JNum 1) = None"
  unfolding Let_def
  by (rule getKeys_compound_diverges[where c = 0 and cs = "[]" and h = "demo_index ''pk'' True True False [0]"])
     (simp_all add: equal_mask_def bm_set_bits bm_set_wf)

end
