(* ===== verification/IndexBounds.thy ===== *)
theory IndexBounds
  imports NumberLine IndexChoice
begin

text \<open>
  \<^verbatim>\<open>Adapter/common/IndexBounds.js\<close>: the visitor that evaluates a query tree to the bounds of every
  column it uses, and \<open>getIndexBounds\<close> for an index on one column. The bounds are proved to lose no
  row: a row for which the predicate is true, in the three-valued logic of SQL, has its key in one
  of the ranges to be scanned, for the predicates in which NOT is applied as the code supports it.
  The assembling of bounds over several index columns is not modelled.
\<close>

section \<open>The visitor of column bounds\<close>

text \<open>
  The value of an operand is \<open>vals True a\<close> when the node says the operand is a constant and
  \<open>vals False a\<close>, the value of the parameter named by \<open>a\<close>, otherwise; \<open>None\<close> is \<open>undefined\<close>, of which
  no endpoint can be made.
\<close>

type_synonym 'v operands = "bool \<Rightarrow> qarg \<Rightarrow> 'v jsval option"
type_synonym 'v column_bounds = "nat \<Rightarrow> 'v bound option"

definition endpoint_value :: "'v operands \<Rightarrow> bool \<Rightarrow> qarg \<Rightarrow> 'v jsval res" where
  "endpoint_value vals c a = (case vals c a of Some v \<Rightarrow> Inr v | None \<Rightarrow> Inl TypeError)"

definition evaluateNodeForColumn :: "('v::linorder) column_bounds \<Rightarrow> nat \<Rightarrow> 'v bound res" where
  "evaluateNodeForColumn columnBound c = (case columnBound c of
       None \<Rightarrow> rbind unboundedSegment (\<lambda>s. Inr (Seg s)) | Some b \<Rightarrow> Inr b)"

definition lines_for_column :: "('v::linorder) column_bounds list \<Rightarrow> nat \<Rightarrow> 'v line list res" where
  "lines_for_column bs c = rmap (\<lambda>b. rbind (evaluateNodeForColumn b c) bound_toNumberLine) bs"

definition intersectionForColumn :: "('v::linorder) column_bounds list \<Rightarrow> nat \<Rightarrow> 'v line res" where
  "intersectionForColumn bs c = rbind (lines_for_column bs c) line_intersection"

definition unionForColumn :: "('v::linorder) column_bounds list \<Rightarrow> nat \<Rightarrow> 'v line res" where
  "unionForColumn bs c = rbind (lines_for_column bs c) line_union"

definition queryNaryFunctions :: "naryop \<Rightarrow> ('v::linorder) column_bounds list \<Rightarrow> nat \<Rightarrow> 'v line res" where
  "queryNaryFunctions n = (case n of AND_op \<Rightarrow> intersectionForColumn | OR_op \<Rightarrow> unionForColumn)"

text \<open>
  \<open>usedColumnMask.toArray()\<close> always returns (\<open>toArray_loop_eq\<close> in \<open>BitMask\<close>); the columns are taken
  from its end.
\<close>

definition doColumns :: "qpred \<Rightarrow> nat list" where
  "doColumns p = rev (case bm_toArray (used_mask p) of Some cs \<Rightarrow> cs | None \<Rightarrow> [])"

definition store_lines :: "(nat \<Rightarrow> 'v line res) \<Rightarrow> nat list \<Rightarrow> 'v column_bounds res" where
  "store_lines f cs = rbind (rmap (\<lambda>c. rbind (f c) (\<lambda>l. Inr (c, Line l))) cs) (\<lambda>ps. Inr (map_of ps))"

fun visitColumns :: "('v::linorder) operands \<Rightarrow> qpred \<Rightarrow> 'v column_bounds res" where
  "visitColumns vals (Comparator m c f a) =
     rbind (if c = In then Inr NullBound
            else rbind (endpoint_value vals (constants m \<noteq> 0) a) (createSegmentForComparator (operationCode c)))
       (\<lambda>b. Inr [qf_column f \<mapsto> b])"
| "visitColumns vals (Between m f a b) =
     rbind (endpoint_value vals (constants m AND 1 \<noteq> 0) a) (\<lambda>v1.
     rbind (endpoint_value vals (constants m AND 2 \<noteq> 0) b) (\<lambda>v2.
     rbind (createSegmentBetween v1 v2) (\<lambda>s. Inr [qf_column f \<mapsto> Seg s])))"
| "visitColumns vals (UnaryOp m u f) =
     rbind (case u of IsNull \<Rightarrow> Segment nullInc nullInc | IsNotNull \<Rightarrow> Segment nullExc posInf)
       (\<lambda>s. Inr [qf_column f \<mapsto> Seg s])"
| "visitColumns vals (Unary m q) =
     rbind (visitColumns vals q) (\<lambda>b.
       store_lines (\<lambda>c. case b c of None \<Rightarrow> Inl TypeError | Some x \<Rightarrow> bound_complement x) (doColumns (Unary m q)))"
| "visitColumns vals (Nary m n ps) =
     rbind (rmap (visitColumns vals) ps) (\<lambda>bs.
       store_lines (queryNaryFunctions n bs) (doColumns (Nary m n ps)))"

section \<open>Bounds of an index on one column\<close>

record 'v index_bound_endpoint =
  ib_inclusive :: bool
  ib_key :: "'v jsval list"

type_synonym 'v index_bound = "'v index_bound_endpoint \<times> 'v index_bound_endpoint"

definition IndexBoundEndpoint :: "'v endpoint \<Rightarrow> 'v index_bound_endpoint" where
  "IndexBoundEndpoint e =
     \<lparr>ib_inclusive = inclusive e, ib_key = (case ep_value e of Index vs \<Rightarrow> vs | Simple v \<Rightarrow> [])\<rparr>"

definition IndexBound :: "'v segment \<Rightarrow> 'v index_bound" where
  "IndexBound s = (IndexBoundEndpoint (fst s), IndexBoundEndpoint (snd s))"

definition getIndexBounds :: "('v::linorder) operands \<Rightarrow> qpred \<Rightarrow> nat \<Rightarrow> 'v index_bound list res" where
  "getIndexBounds vals topNode column =
     rbind (visitColumns vals topNode) (\<lambda>columnBound.
     rbind (evaluateNodeForColumn columnBound column) (\<lambda>b.
     rbind (bound_toIndexValues b) (\<lambda>range.
     rbind (bound_toNumberLine range) (\<lambda>l.
     rbind (line_segments l) (\<lambda>ss. Inr (map IndexBound ss))))))"

section \<open>What a bound and a predicate mean\<close>

definition in_index_bound :: "('v::linorder) jsval \<Rightarrow> 'v index_bound \<Rightarrow> bool" where
  "in_index_bound x = (\<lambda>(low, high).
     (if ib_inclusive low then hd (ib_key low) \<le> x else hd (ib_key low) < x) \<and>
     (if ib_inclusive high then x \<le> hd (ib_key high) else x < hd (ib_key high)))"

definition bound_set :: "('v::linorder) bound \<Rightarrow> 'v jsval set" where
  "bound_set b = (case b of Seg s \<Rightarrow> seg_set s | Line l \<Rightarrow> line_set l | NullBound \<Rightarrow> UNIV)"

definition column_set :: "('v::linorder) column_bounds \<Rightarrow> nat \<Rightarrow> 'v jsval set" where
  "column_set b c = (case b c of Some x \<Rightarrow> bound_set x | None \<Rightarrow> UNIV)"

definition sql_and :: "bool option \<Rightarrow> bool option \<Rightarrow> bool option" where
  "sql_and a b = (if a = Some False \<or> b = Some False then Some False
     else if a = None \<or> b = None then None else Some True)"

definition sql_or :: "bool option \<Rightarrow> bool option \<Rightarrow> bool option" where
  "sql_or a b = (if a = Some True \<or> b = Some True then Some True
     else if a = None \<or> b = None then None else Some False)"

definition sql_compare :: "cmpop \<Rightarrow> ('v::linorder) jsval \<Rightarrow> 'v jsval option \<Rightarrow> bool option" where
  "sql_compare c x y = (case (x, y) of
       (Fin a, Some (Fin b)) \<Rightarrow> (case c of Le \<Rightarrow> Some (a \<le> b) | Lt \<Rightarrow> Some (a < b) | Ge \<Rightarrow> Some (b \<le> a)
          | Gt \<Rightarrow> Some (b < a) | Eq \<Rightarrow> Some (a = b) | Ne \<Rightarrow> Some (a \<noteq> b) | In \<Rightarrow> None)
     | _ \<Rightarrow> None)"

text \<open>The truth value of a predicate in a row, given by its values per column.\<close>

fun sql_eval :: "('v::linorder) operands \<Rightarrow> (nat \<Rightarrow> 'v jsval) \<Rightarrow> qpred \<Rightarrow> bool option" where
  "sql_eval vals row (Comparator m c f a) = sql_compare c (row (qf_column f)) (vals (is_lit a) a)"
| "sql_eval vals row (Between m f a b) =
     sql_and (sql_compare Ge (row (qf_column f)) (vals (is_lit a) a))
             (sql_compare Le (row (qf_column f)) (vals (is_lit b) b))"
| "sql_eval vals row (UnaryOp m u f) =
     (case u of IsNull \<Rightarrow> Some (row (qf_column f) = Null) | IsNotNull \<Rightarrow> Some (row (qf_column f) \<noteq> Null))"
| "sql_eval vals row (Unary m q) = map_option Not (sql_eval vals row q)"
| "sql_eval vals row (Nary m n ps) =
     (case n of AND_op \<Rightarrow> foldr sql_and (map (sql_eval vals row) ps) (Some True)
      | OR_op \<Rightarrow> foldr sql_or (map (sql_eval vals row) ps) (Some False))"

definition finite_operand :: "'v operands \<Rightarrow> qarg \<Rightarrow> bool" where
  "finite_operand vals a \<longleftrightarrow> (\<exists>v. vals (is_lit a) a = Some (Fin v))"

text \<open>Every operand has a finite value and IN is not used.\<close>

fun operands_ok :: "'v operands \<Rightarrow> qpred \<Rightarrow> bool" where
  "operands_ok vals (Comparator m c f a) = (c \<noteq> In \<and> finite_operand vals a)"
| "operands_ok vals (Between m f a b) = (finite_operand vals a \<and> finite_operand vals b)"
| "operands_ok vals (UnaryOp m u f) = True"
| "operands_ok vals (Unary m q) = operands_ok vals q"
| "operands_ok vals (Nary m n ps) = (ps \<noteq> [] \<and> list_all (operands_ok vals) ps)"

text \<open>
  The operands that NOT is evaluated exactly for: they use one column, no test for null, and no
  BETWEEN with its limits the wrong way around.
\<close>

fun exactable :: "('v::linorder) operands \<Rightarrow> nat \<Rightarrow> qpred \<Rightarrow> bool" where
  "exactable vals k (Comparator m c f a) = (qf_column f = k)"
| "exactable vals k (Between m f a b) = (qf_column f = k \<and> (\<exists>u v. vals (is_lit a) a = Some (Fin u) \<and>
     vals (is_lit b) b = Some (Fin v) \<and> u \<le> v))"
| "exactable vals k (UnaryOp m u f) = False"
| "exactable vals k (Unary m q) = exactable vals k q"
| "exactable vals k (Nary m n ps) = list_all (exactable vals k) ps"

fun not_supported :: "('v::linorder) operands \<Rightarrow> qpred \<Rightarrow> bool" where
  "not_supported vals (Unary m q) = (\<exists>k. exactable vals k q)"
| "not_supported vals (Nary m n ps) = list_all (not_supported vals) ps"
| "not_supported vals _ = True"

fun not_free :: "qpred \<Rightarrow> bool" where
  "not_free (Unary m q) = False"
| "not_free (Nary m n ps) = list_all not_free ps"
| "not_free _ = True"

fun masks_ok :: "qpred \<Rightarrow> bool" where
  "masks_ok (Unary m q) = (bm_wf (used_mask (Unary m q)) \<and>
     bm_bits (used_mask (Unary m q)) = pred_columns (Unary m q) \<and> masks_ok q)"
| "masks_ok (Nary m n ps) = (bm_wf (used_mask (Nary m n ps)) \<and>
     bm_bits (used_mask (Nary m n ps)) = pred_columns (Nary m n ps) \<and> list_all masks_ok ps)"
| "masks_ok _ = True"

section \<open>The bounds of the leaves\<close>

definition bound_ok :: "('v::linorder) bound \<Rightarrow> bool" where
  "bound_ok b \<longleftrightarrow> (\<exists>l. bound_toNumberLine b = Inr l \<and> wf_line l \<and> line_set l = bound_set b)"

definition bound_proper :: "('v::linorder) bound \<Rightarrow> bool" where
  "bound_proper b \<longleftrightarrow> (\<exists>l. bound_toNumberLine b = Inr l \<and> proper_line l \<and> line_set l = bound_set b)"

lemmas ep_defs = Endpoint_def ep_low_def ep_high_def negInf_def posInf_def negInfNonNull_def nullInc_def
  nullExc_def ep_key_def isFinite_value_def

lemmas point_defs = ep_defs pos_def passed_def seg_set_def less_eq_prod_def less_jsval_def

lemmas line_defs = point_defs proper_line_def wf_line_def simple_ep_def infinite_ok_def proper_ep_def

lemma bound_proper_ok: "bound_proper b \<Longrightarrow> bound_ok b"
  by (auto simp: bound_proper_def bound_ok_def proper_line_def)

lemma bound_Line [simp]:
  "bound_ok (Line l) \<longleftrightarrow> wf_line l" "bound_proper (Line l) \<longleftrightarrow> proper_line l" "bound_set (Line l) = line_set l"
  by (simp_all add: bound_ok_def bound_proper_def bound_toNumberLine_def bound_set_def)

lemma bound_Seg:
  "bound_ok (Seg s) \<longleftrightarrow> wf_line [fst s, snd s]" "bound_proper (Seg s) \<longleftrightarrow> proper_line [fst s, snd s]"
  by (simp_all add: bound_ok_def bound_proper_def bound_toNumberLine_def bound_set_def seg_toNumberLine_def)

lemma ep_compare_simple:
  "ep_compare \<lparr>ep_value = Simple x, inclusive = i, isLow = l, isFinite = f\<rparr>
      \<lparr>ep_value = Simple y, inclusive = j, isLow = k, isFinite = g\<rparr> =
   (let cmp = compareValues x y in
    Inr (if cmp \<noteq> 0 then cmp else if l = Some True \<and> k = Some True \<and> i \<noteq> j then (if i then -1 else 1)
      else if l = k \<and> i \<noteq> j then (if i then 1 else -1)
      else if i \<and> j then (if l = Some True then -1 else 1) else (if l = Some True then 1 else -1)))"
  by (simp add: ep_compare_def value_compare_def)

lemmas segment_simps = Segment_def ep_compare_simple compareValues_def Let_def

text \<open>A comparison with a finite value: the segment exists and holds the values that compare true.\<close>

lemma comparator_bound:
  fixes v :: "'v::linorder"
  assumes "c \<noteq> In"
  shows "\<exists>b. createSegmentForComparator (operationCode c) (Fin v) = Inr b \<and> bound_proper b \<and>
    (\<forall>x\<in>insert Null (range Fin). x \<in> bound_set b \<longleftrightarrow> sql_compare c x (Some (Fin v)) = Some True)"
proof (cases "c = Ne")
  case False
  have order: "(v \<le> x \<longrightarrow> x = v) = (x \<le> v)" "((v \<le> x \<longrightarrow> x = v) \<and> \<not> v \<le> x) = (x < v)"
    "(v \<le> x \<and> \<not> x \<le> v) = (v < x)" for x :: 'v by auto
  have bools: "(\<exists>y. y) \<and> Ex Not" by auto
  from False have "\<exists>s. createSegmentForComparator (operationCode c) (Fin v) = Inr (Seg s) \<and>
    proper_line [fst s, snd s] \<and>
    (\<forall>x\<in>insert Null (range Fin). x \<in> seg_set s \<longleftrightarrow> sql_compare c x (Some (Fin v)) = Some True)"
    using assms bools
    by (cases c) (simp_all add: createSegmentForComparator_def operationCode_def segment_simps line_defs
        sql_compare_def order, auto)
  then show ?thesis by (auto simp: bound_Seg bound_set_def)
next
  case True
  then show ?thesis
    by (auto simp: createSegmentForComparator_def operationCode_def segment_simps line_defs sql_compare_def
        seg_complement_def line_complement_def seg_toNumberLine_def ep_complement_def lowerBound_def
        upperBound_def line_nonNull_def)
qed

lemma between_bound:
  fixes u v :: "'v::linorder"
  shows "\<exists>s. createSegmentBetween (Fin u) (Fin v) = Inr s \<and> bound_proper (Seg s) \<and>
    (\<forall>x. x \<in> seg_set s \<longleftrightarrow> (\<exists>y. x = Fin y \<and> min u v \<le> y \<and> y \<le> max u v))"
proof -
  have "(x \<in> seg_set s) = (\<exists>y. x = Fin y \<and> min u v \<le> y \<and> y \<le> max u v)"
    if "createSegmentBetween (Fin u) (Fin v) = Inr s" for x s
    using that by (cases x) (auto simp: createSegmentBetween_def segment_simps point_defs min_def max_def split: if_splits)
  moreover have "\<exists>s. createSegmentBetween (Fin u) (Fin v) = Inr s \<and> bound_proper (Seg s)"
    by (auto simp: createSegmentBetween_def segment_simps bound_Seg line_defs)
  ultimately show ?thesis by blast
qed

lemma null_bounds:
  shows "\<exists>s. Segment nullInc nullInc = Inr s \<and> bound_ok (Seg s) \<and> Null \<in> seg_set s"
    and "\<exists>s. Segment nullExc posInf = Inr s \<and> bound_ok (Seg s) \<and> range Fin \<subseteq> seg_set s"
    and "\<exists>s. unboundedSegment = Inr s \<and> bound_proper (Seg s) \<and> insert Null (range Fin) \<subseteq> seg_set s"
  by (auto simp: unboundedSegment_def segment_simps bound_Seg line_defs)

section \<open>The bounds of the inner nodes\<close>

abbreviation row_values :: "('v::linorder) jsval set" where
  "row_values \<equiv> insert Null (range Fin)"

definition bounds_inv :: "qpred \<Rightarrow> ('v::linorder) column_bounds \<Rightarrow> bool" where
  "bounds_inv p cb \<longleftrightarrow> (\<forall>c. (cb c \<noteq> None) = (c \<in> pred_columns p)) \<and> (\<forall>c b. cb c = Some b \<longrightarrow> bound_ok b)"

lemma rmap_pairs:
  "rmap (\<lambda>c. rbind (f c) (\<lambda>l. Inr (c, g l))) cs = Inr ps \<Longrightarrow>
     (\<forall>c\<in>set cs. \<exists>l. f c = Inr l \<and> map_of ps c = Some (g l)) \<and> (\<forall>c. c \<notin> set cs \<longrightarrow> map_of ps c = None)"
proof (induction cs arbitrary: ps)
  case (Cons a cs)
  from Cons.prems obtain l ps' where l: "f a = Inr l" "ps = (a, g l) # ps'"
    and r: "rmap (\<lambda>c. rbind (f c) (\<lambda>l. Inr (c, g l))) cs = Inr ps'"
    by (cases "f a") (auto simp: rbind_Inr_iff)
  with Cons.IH[OF r] show ?case by simp
qed simp

lemma store_lines_Inr:
  assumes "store_lines f cs = Inr cb"
  shows "c \<in> set cs \<Longrightarrow> \<exists>l. f c = Inr l \<and> cb c = Some (Line l)" "c \<notin> set cs \<Longrightarrow> cb c = None"
proof -
  from assms obtain ps where ps: "rmap (\<lambda>c. rbind (f c) (\<lambda>l. Inr (c, Line l))) cs = Inr ps" "cb = map_of ps"
    by (auto simp: store_lines_def rbind_Inr_iff)
  note r = rmap_pairs[OF ps(1)]
  show "c \<in> set cs \<Longrightarrow> \<exists>l. f c = Inr l \<and> cb c = Some (Line l)" using r ps(2) by blast
  show "c \<notin> set cs \<Longrightarrow> cb c = None" using r ps(2) by simp
qed

lemma store_lines_returns:
  assumes "\<And>c. c \<in> set cs \<Longrightarrow> \<exists>l. f c = Inr l"
  shows "\<exists>cb. store_lines f cs = Inr cb"
proof -
  have "\<exists>ps. rmap (\<lambda>c. rbind (f c) (\<lambda>l. Inr (c, Line l))) cs = Inr ps \<and> list_all2 (\<lambda>_ _. True) cs ps"
  proof (rule rmap_total)
    fix c assume "c \<in> set cs"
    with assms obtain l where "f c = Inr l" by blast
    then show "\<exists>y. rbind (f c) (\<lambda>l. Inr (c, Line l)) = Inr y \<and> True" by simp
  qed
  then show ?thesis by (auto simp: store_lines_def)
qed

lemma doColumns_set: "bm_wf (used_mask p) \<Longrightarrow> set (doColumns p) = bm_bits (used_mask p)"
proof -
  assume "bm_wf (used_mask p)"
  then obtain xs where "bm_toArray (used_mask p) = Some xs" "set xs = bm_bits (used_mask p)"
    using bm_toArray_elems by blast
  then show ?thesis by (simp add: doColumns_def)
qed

lemma evaluate_line:
  fixes cb :: "('v::linorder) column_bounds"
  assumes "\<And>b. cb c = Some b \<Longrightarrow> bound_ok b"
  shows "\<exists>l. rbind (evaluateNodeForColumn cb c) bound_toNumberLine = Inr l \<and> wf_line l \<and>
    (\<forall>x\<in>row_values. x \<in> line_set l \<longleftrightarrow> x \<in> column_set cb c) \<and>
    (\<forall>b. cb c = Some b \<longrightarrow> bound_proper b \<longrightarrow> proper_line l)"
proof (cases "cb c")
  case None
  obtain s :: "'v segment" where u: "unboundedSegment = Inr s"
    and "bound_proper (Seg s)" "row_values \<subseteq> seg_set s"
    using null_bounds(3) by blast
  have "rbind (evaluateNodeForColumn cb c) bound_toNumberLine = Inr [fst s, snd s]"
    using None by (simp add: evaluateNodeForColumn_def bound_toNumberLine_def seg_toNumberLine_def u)
  with \<open>bound_proper (Seg s)\<close> \<open>row_values \<subseteq> seg_set s\<close> None show ?thesis
    by (intro exI[of _ "[fst s, snd s]"]) (auto simp: column_set_def bound_Seg proper_line_def)
next
  case (Some b)
  with assms show ?thesis
    by (auto simp: evaluateNodeForColumn_def column_set_def bound_ok_def bound_proper_def)
qed

lemma lines_for_column_correct:
  assumes "\<And>cb b. cb \<in> set bs \<Longrightarrow> cb c = Some b \<Longrightarrow> bound_ok b"
  shows "\<exists>ls. lines_for_column bs c = Inr ls \<and> list_all2 (\<lambda>cb l. wf_line l \<and>
    (\<forall>x\<in>row_values. x \<in> line_set l \<longleftrightarrow> x \<in> column_set cb c) \<and>
    (\<forall>b. cb c = Some b \<longrightarrow> bound_proper b \<longrightarrow> proper_line l)) bs ls"
  unfolding lines_for_column_def by (rule rmap_total) (use evaluate_line assms in blast)

lemma nary_line:
  assumes "bs \<noteq> []" "\<And>cb b. cb \<in> set bs \<Longrightarrow> cb c = Some b \<Longrightarrow> bound_ok b"
  shows "\<exists>l. queryNaryFunctions n bs c = Inr l \<and> wf_line l \<and>
    (\<forall>x\<in>row_values. x \<in> line_set l \<longleftrightarrow> (case n of AND_op \<Rightarrow> \<forall>cb\<in>set bs. x \<in> column_set cb c
       | OR_op \<Rightarrow> \<exists>cb\<in>set bs. x \<in> column_set cb c)) \<and>
    ((\<forall>cb\<in>set bs. \<exists>b. cb c = Some b \<and> bound_proper b) \<longrightarrow> proper_line l)"
proof -
  obtain ls where ls: "lines_for_column bs c = Inr ls"
    and l2: "list_all2 (\<lambda>cb l. wf_line l \<and> (\<forall>x\<in>row_values. x \<in> line_set l \<longleftrightarrow> x \<in> column_set cb c) \<and>
      (\<forall>b. cb c = Some b \<longrightarrow> bound_proper b \<longrightarrow> proper_line l)) bs ls"
    using lines_for_column_correct[of bs c] assms(2) by blast
  have ne: "ls \<noteq> []" using l2 assms(1) by auto
  have wf: "\<forall>l\<in>set ls. wf_line l" and proper: "(\<forall>cb\<in>set bs. \<exists>b. cb c = Some b \<and> bound_proper b) \<Longrightarrow>
      \<forall>l\<in>set ls. proper_line l"
    using l2 by (induction rule: list_all2_induct) auto
  have all: "(\<forall>l\<in>set ls. x \<in> line_set l) = (\<forall>cb\<in>set bs. x \<in> column_set cb c)"
    and ex: "(\<exists>l\<in>set ls. x \<in> line_set l) = (\<exists>cb\<in>set bs. x \<in> column_set cb c)" if "x \<in> row_values" for x
    using l2 that by (induction rule: list_all2_induct) auto
  show ?thesis
  proof (cases n)
    case AND_op
    obtain i where i: "line_intersection ls = Inr i" "wf_line i" "line_set i = (\<Inter>l\<in>set ls. line_set l)"
      using line_ops_points(2)[OF ne wf] by blast
    moreover have "(\<forall>l\<in>set ls. proper_line l) \<Longrightarrow> proper_line i"
      using proper_line_ops(2)[OF ne] i(1) by auto
    ultimately show ?thesis
      using AND_op ls all proper by (auto simp: queryNaryFunctions_def intersectionForColumn_def)
  next
    case OR_op
    obtain i where i: "line_union ls = Inr i" "wf_line i" "line_set i = (\<Union>l\<in>set ls. line_set l)"
      using line_ops_points(1)[OF ne wf] by blast
    moreover have "(\<forall>l\<in>set ls. proper_line l) \<Longrightarrow> proper_line i"
      using proper_line_ops(1)[OF ne] i(1) by auto
    ultimately show ?thesis
      using OR_op ls ex proper by (auto simp: queryNaryFunctions_def unionForColumn_def)
  qed
qed

lemma sql_and_True: "foldr sql_and vs (Some True) = Some True \<longleftrightarrow> (\<forall>v\<in>set vs. v = Some True)"
  by (induction vs) (auto simp: sql_and_def)

lemma sql_or_True: "foldr sql_or vs (Some False) = Some True \<longleftrightarrow> (\<exists>v\<in>set vs. v = Some True)"
  by (induction vs) (auto simp: sql_or_def)

lemma sql_eval_nary:
  "sql_eval vals row (Nary m n ps) = Some True \<longleftrightarrow>
     (case n of AND_op \<Rightarrow> \<forall>p\<in>set ps. sql_eval vals row p = Some True
      | OR_op \<Rightarrow> \<exists>p\<in>set ps. sql_eval vals row p = Some True)"
  by (cases n) (simp_all add: sql_and_True sql_or_True, metis imageE image_eqI)

lemma sql_fold_decided:
  "\<forall>v\<in>set vs. v \<noteq> None \<Longrightarrow> foldr sql_and vs (Some True) \<noteq> None \<and> foldr sql_or vs (Some False) \<noteq> None"
  by (induction vs) (auto simp: sql_and_def sql_or_def)

lemma sql_fold_null:
  "vs \<noteq> [] \<Longrightarrow> \<forall>v\<in>set vs. v = None \<Longrightarrow>
    foldr sql_and vs (Some True) = None \<and> foldr sql_or vs (Some False) = None"
proof (induction vs)
  case (Cons v vs)
  then show ?case by (cases vs) (auto simp: sql_and_def sql_or_def)
qed simp

lemma exactable_null:
  "exactable vals k p \<Longrightarrow> operands_ok vals p \<Longrightarrow> row k = Null \<Longrightarrow> sql_eval vals row p = None"
proof (induction p)
  case (Nary m n ps)
  then have "map (sql_eval vals row) ps \<noteq> []" "\<forall>v\<in>set (map (sql_eval vals row) ps). v = None"
    by (auto simp: list_all_iff)
  from sql_fold_null[OF this] show ?case by (cases n) auto
qed (auto simp: sql_compare_def sql_and_def)

lemma exactable_decided:
  "exactable vals k p \<Longrightarrow> operands_ok vals p \<Longrightarrow> row k = Fin v \<Longrightarrow> sql_eval vals row p \<noteq> None"
proof (induction p)
  case (Comparator m c f a)
  then show ?case by (cases c) (auto simp: sql_compare_def finite_operand_def)
next
  case (Nary m n ps)
  then have "\<forall>v\<in>set (map (sql_eval vals row) ps). v \<noteq> None" by (auto simp: list_all_iff)
  from sql_fold_decided[OF this] show ?case by (cases n) auto
qed (auto simp: sql_compare_def sql_and_def)

lemma exactable_columns:
  "exactable vals k p \<Longrightarrow> operands_ok vals p \<Longrightarrow> pred_columns p = {k}"
  by (induction p) (auto simp: list_all_iff)

section \<open>The visitor is sound\<close>

definition exact_at :: "('v::linorder) operands \<Rightarrow> qpred \<Rightarrow> 'v column_bounds \<Rightarrow> nat \<Rightarrow> bool" where
  "exact_at vals p cb k \<longleftrightarrow> (\<exists>b. cb k = Some b \<and> bound_proper b) \<and>
     (\<forall>row v. row k = Fin v \<longrightarrow> (Fin v \<in> column_set cb k \<longleftrightarrow> sql_eval vals row p = Some True))"

definition sound_for :: "('v::linorder) operands \<Rightarrow> qpred \<Rightarrow> 'v column_bounds \<Rightarrow> bool" where
  "sound_for vals p cb \<longleftrightarrow> (\<forall>row. (\<forall>c. row c \<in> row_values) \<longrightarrow> sql_eval vals row p = Some True \<longrightarrow>
     (\<forall>c. row c \<in> column_set cb c))"

text \<open>What holds of the bounds stored in a node.\<close>

definition node_correct :: "('v::linorder) operands \<Rightarrow> qpred \<Rightarrow> 'v column_bounds \<Rightarrow> bool" where
  "node_correct vals p cb \<longleftrightarrow> bounds_inv p cb \<and> (\<forall>k. exactable vals k p \<longrightarrow> exact_at vals p cb k) \<and>
     (not_supported vals p \<longrightarrow> sound_for vals p cb)"

lemma node_correctI:
  assumes "bounds_inv p cb" "\<And>k. exactable vals k p \<Longrightarrow> exact_at vals p cb k"
    "not_supported vals p \<Longrightarrow> sound_for vals p cb"
  shows "node_correct vals p cb"
  using assms by (simp add: node_correct_def)

lemma leaf_correct:
  assumes "bound_proper b" "pred_columns p = {k}" "\<And>j. exactable vals j p \<Longrightarrow> j = k"
    "\<And>row. row k \<in> row_values \<Longrightarrow> row k \<in> bound_set b \<longleftrightarrow> sql_eval vals row p = Some True"
  shows "node_correct vals p [k \<mapsto> b]"
proof (rule node_correctI)
  show "bounds_inv p [k \<mapsto> b]"
    using assms(1,2) by (auto simp: bounds_inv_def intro: bound_proper_ok split: if_splits)
  show "exact_at vals p [k \<mapsto> b] j" if "exactable vals j p" for j
    unfolding exact_at_def assms(3)[OF that]
  proof (intro conjI allI impI)
    show "\<exists>ba. [k \<mapsto> b] k = Some ba \<and> bound_proper ba" using assms(1) by simp
    show "Fin v \<in> column_set [k \<mapsto> b] k \<longleftrightarrow> sql_eval vals row p = Some True" if "row k = Fin v" for row v
      using assms(4)[of row] that by (simp add: column_set_def)
  qed
  show "sound_for vals p [k \<mapsto> b]"
    using assms(4) by (auto simp: sound_for_def column_set_def)
qed

lemma comparator_correct:
  assumes "const_marked (Comparator m c f a)" "operands_ok vals (Comparator m c f a)"
  shows "\<exists>cb. visitColumns vals (Comparator m c f a) = Inr cb \<and> node_correct vals (Comparator m c f a) cb"
proof -
  from assms(2) obtain v where v: "vals (is_lit a) a = Some (Fin v)" and c: "c \<noteq> In"
    by (auto simp: finite_operand_def)
  from comparator_bound[OF c, of v] obtain b where
    b: "createSegmentForComparator (operationCode c) (Fin v) = Inr b" "bound_proper b"
    "\<And>x. x \<in> row_values \<Longrightarrow> x \<in> bound_set b \<longleftrightarrow> sql_compare c x (Some (Fin v)) = Some True" by blast
  have "(constants m \<noteq> 0) = is_lit a" using assms(1) by simp
  then have "visitColumns vals (Comparator m c f a) = Inr [qf_column f \<mapsto> b]"
    using b(1) v c by (simp add: endpoint_value_def)
  moreover have "node_correct vals (Comparator m c f a) [qf_column f \<mapsto> b]"
    by (rule leaf_correct) (use b v in auto)
  ultimately show ?thesis by blast
qed

lemma between_correct:
  assumes "const_marked (Between m f a b)" "operands_ok vals (Between m f a b)"
  shows "\<exists>cb. visitColumns vals (Between m f a b) = Inr cb \<and> node_correct vals (Between m f a b) cb"
proof -
  from assms(2) obtain u v where uv: "vals (is_lit a) a = Some (Fin u)" "vals (is_lit b) b = Some (Fin v)"
    by (auto simp: finite_operand_def)
  obtain s where s: "createSegmentBetween (Fin u) (Fin v) = Inr s" "bound_proper (Seg s)"
    "\<And>x. x \<in> seg_set s \<longleftrightarrow> (\<exists>y. x = Fin y \<and> min u v \<le> y \<and> y \<le> max u v)"
    using between_bound[of u v] by blast
  have k: "(constants m AND 1 \<noteq> 0) = is_lit a" "(constants m AND 2 \<noteq> 0) = is_lit b"
    using assms(1) between_constants[of "is_lit a" "is_lit b"] by simp_all
  have eq: "visitColumns vals (Between m f a b) = Inr [qf_column f \<mapsto> Seg s]"
    unfolding visitColumns.simps k by (simp add: endpoint_value_def uv s(1))
  have ev: "sql_eval vals row (Between m f a b) = Some True \<longleftrightarrow>
      (\<exists>y. row (qf_column f) = Fin y \<and> u \<le> y \<and> y \<le> v)" for row
    by (cases "row (qf_column f)") (auto simp: sql_compare_def sql_and_def uv)
  have "node_correct vals (Between m f a b) [qf_column f \<mapsto> Seg s]"
  proof (rule node_correctI)
    show "bounds_inv (Between m f a b) [qf_column f \<mapsto> Seg s]"
      using s(2) by (auto simp: bounds_inv_def intro: bound_proper_ok split: if_splits)
    show "exact_at vals (Between m f a b) [qf_column f \<mapsto> Seg s] k" if "exactable vals k (Between m f a b)" for k
      unfolding exact_at_def ev using that s(2,3) uv by (auto simp: column_set_def bound_set_def)
    show "sound_for vals (Between m f a b) [qf_column f \<mapsto> Seg s]"
      unfolding sound_for_def ev using s(3)
      by (auto simp: column_set_def bound_set_def min_def max_def)
  qed
  with eq show ?thesis by blast
qed

lemma unary_operator_correct:
  fixes vals :: "('v::linorder) operands"
  shows "\<exists>cb. visitColumns vals (UnaryOp m u f) = Inr cb \<and> node_correct vals (UnaryOp m u f) cb"
proof -
  obtain s :: "'v segment" where s: "(case u of IsNull \<Rightarrow> Segment nullInc nullInc | IsNotNull \<Rightarrow> Segment nullExc posInf) = Inr s"
    "bound_ok (Seg s)" "case u of IsNull \<Rightarrow> Null \<in> seg_set s | IsNotNull \<Rightarrow> range Fin \<subseteq> seg_set s"
    using null_bounds(1,2) by (cases u) (simp, blast)+
  then have "visitColumns vals (UnaryOp m u f) = Inr [qf_column f \<mapsto> Seg s]" by simp
  moreover have "node_correct vals (UnaryOp m u f) [qf_column f \<mapsto> Seg s]"
  proof (rule node_correctI)
    show "bounds_inv (UnaryOp m u f) [qf_column f \<mapsto> Seg s]"
      using s(2) by (auto simp: bounds_inv_def split: if_splits)
    show "sound_for vals (UnaryOp m u f) [qf_column f \<mapsto> Seg s]"
      using s(3) by (cases u) (force simp: sound_for_def column_set_def bound_set_def)+
  qed simp
  ultimately show ?thesis by blast
qed

lemma not_exact:
  assumes cq: "visitColumns vals q = Inr cq" "node_correct vals q cq"
    and st: "store_lines (\<lambda>c. case cq c of None \<Rightarrow> Inl TypeError | Some x \<Rightarrow> bound_complement x) cs = Inr cb"
    and ex: "exactable vals k q" "operands_ok vals q" "k \<in> set cs"
  shows "exact_at vals (Unary m q) cb k"
proof -
  have "exact_at vals q cq k" using cq(2) ex(1) by (simp add: node_correct_def)
  then obtain b where b: "cq k = Some b" "bound_proper b"
    and e: "\<And>row v. row k = Fin v \<Longrightarrow> Fin v \<in> column_set cq k \<longleftrightarrow> sql_eval vals row q = Some True"
    unfolding exact_at_def by blast
  obtain l where l: "bound_complement b = Inr l" "cb k = Some (Line l)"
    using store_lines_Inr(1)[OF st, of k] b(1) ex(3) by auto
  obtain lb where lb: "bound_toNumberLine b = Inr lb" "proper_line lb" "line_set lb = bound_set b"
    using b(2) by (auto simp: bound_proper_def)
  have eq: "line_complement lb = Inr l"
    using lb(1) l(1)
    by (auto simp: bound_complement_def bound_toNumberLine_def seg_complement_def split: bound.splits)
  then have "lb \<noteq> []" by (auto simp: line_complement_def lowerBound_def)
  from line_complement_correct[OF lb(2) this] eq
  have r: "proper_line l" "\<And>v. Fin v \<in> line_set l \<longleftrightarrow> Fin v \<notin> line_set lb" by simp_all
  have n: "sql_eval vals row (Unary m q) = Some True \<longleftrightarrow> sql_eval vals row q \<noteq> Some True"
    if "row k = Fin v" for row v
    using exactable_decided[where row = row and v = v, OF ex(1,2)] that by (auto split: option.splits)
  show ?thesis unfolding exact_at_def
  proof (intro conjI allI impI)
    show "\<exists>b. cb k = Some b \<and> bound_proper b" using l(2) r(1) by simp
    show "Fin v \<in> column_set cb k \<longleftrightarrow> sql_eval vals row (Unary m q) = Some True" if "row k = Fin v" for row v
      using e[where row = row and v = v] n[where row = row and v = v] that b(1) l(2) lb(3) r(2) by (simp add: column_set_def)
  qed
qed

lemma not_correct:
  assumes "visitColumns vals (Unary m q) = Inr cb" "operands_ok vals (Unary m q)" "masks_ok (Unary m q)"
    "not_supported vals (Unary m q)" "\<And>cb. visitColumns vals q = Inr cb \<Longrightarrow> node_correct vals q cb"
  shows "node_correct vals (Unary m q) cb"
proof -
  obtain cq where cq: "visitColumns vals q = Inr cq" and
    st: "store_lines (\<lambda>c. case cq c of None \<Rightarrow> Inl TypeError | Some x \<Rightarrow> bound_complement x) (doColumns (Unary m q)) = Inr cb"
    using assms(1) by (auto simp: rbind_Inr_iff)
  from assms(4) obtain k where ex: "exactable vals k q" by auto
  have pc: "pred_columns q = {k}" using exactable_columns[OF ex] assms(2) by simp
  have cols: "set (doColumns (Unary m q)) = {k}" using assms(3) pc by (simp add: doColumns_set)
  have exact: "exact_at vals (Unary m q) cb j" if "exactable vals j q" for j
    using not_exact[OF cq assms(5)[OF cq] st that] assms(2) exactable_columns[OF that] pc cols by simp
  have others: "cb c = None" if "c \<noteq> k" for c using store_lines_Inr(2)[OF st] that cols by simp
  show ?thesis
  proof (rule node_correctI)
    obtain b where b: "cb k = Some b" "bound_proper b"
      using exact[OF ex] unfolding exact_at_def by blast
    show "bounds_inv (Unary m q) cb" unfolding bounds_inv_def
    proof (intro conjI allI impI)
      show "(cb c \<noteq> None) = (c \<in> pred_columns (Unary m q))" for c
        using others[of c] b(1) pc by (cases "c = k") simp_all
      show "bound_ok x" if "cb c = Some x" for c x
        using others[of c] b that by (cases "c = k") (simp_all add: bound_proper_ok)
    qed
    show "exact_at vals (Unary m q) cb k" if "exactable vals k (Unary m q)" for k
      using exact that by simp
    show "sound_for vals (Unary m q) cb" unfolding sound_for_def
    proof (intro allI impI)
      fix row c assume rv: "\<forall>c. row c \<in> row_values" and t: "sql_eval vals row (Unary m q) = Some True"
      show "row c \<in> column_set cb c"
      proof (cases "c = k")
        case False
        then show ?thesis using others by (simp add: column_set_def)
      next
        case True
        have "row k \<noteq> Null" using exactable_null[OF ex, of row] assms(2) t by auto
        then obtain v where "row k = Fin v" using rv by (metis insertE imageE)
        then show ?thesis using exact[OF ex] t True unfolding exact_at_def by metis
      qed
    qed
  qed
qed

lemma nary_correct:
  assumes bs: "list_all2 (\<lambda>p cb. node_correct vals p cb) ps bs" and ne: "ps \<noteq> []"
    and mk: "masks_ok (Nary m n ps)" and sup: "list_all (not_supported vals) ps"
  shows "\<exists>cb. store_lines (queryNaryFunctions n bs) (doColumns (Nary m n ps)) = Inr cb \<and>
    node_correct vals (Nary m n ps) cb"
proof -
  have cols: "set (doColumns (Nary m n ps)) = pred_columns (Nary m n ps)"
    using mk by (simp add: doColumns_set)
  have ne': "bs \<noteq> []" using bs ne by auto
  have inv: "\<And>cb. cb \<in> set bs \<Longrightarrow> \<forall>c b. cb c = Some b \<longrightarrow> bound_ok b"
    using bs by (induction rule: list_all2_induct) (auto simp: node_correct_def bounds_inv_def)
  have line: "\<exists>l. queryNaryFunctions n bs c = Inr l \<and> wf_line l \<and>
    (\<forall>x\<in>row_values. x \<in> line_set l \<longleftrightarrow> (case n of AND_op \<Rightarrow> \<forall>cb\<in>set bs. x \<in> column_set cb c
       | OR_op \<Rightarrow> \<exists>cb\<in>set bs. x \<in> column_set cb c)) \<and>
    ((\<forall>cb\<in>set bs. \<exists>b. cb c = Some b \<and> bound_proper b) \<longrightarrow> proper_line l)" for c
    using nary_line[OF ne', of c n] inv by blast
  obtain cb where cb: "store_lines (queryNaryFunctions n bs) (doColumns (Nary m n ps)) = Inr cb"
    using store_lines_returns[of "doColumns (Nary m n ps)" "queryNaryFunctions n bs"] line by blast
  have stored: "\<exists>l. cb c = Some (Line l) \<and> wf_line l \<and>
    (\<forall>x\<in>row_values. x \<in> line_set l \<longleftrightarrow> (case n of AND_op \<Rightarrow> \<forall>cb\<in>set bs. x \<in> column_set cb c
       | OR_op \<Rightarrow> \<exists>cb\<in>set bs. x \<in> column_set cb c)) \<and>
    ((\<forall>cb\<in>set bs. \<exists>b. cb c = Some b \<and> bound_proper b) \<longrightarrow> proper_line l)"
    if "c \<in> pred_columns (Nary m n ps)" for c
    using store_lines_Inr(1)[OF cb, of c] line[of c] that cols by auto
  have others: "cb c = None" if "c \<notin> pred_columns (Nary m n ps)" for c
    using store_lines_Inr(2)[OF cb, of c] that cols by blast
  have mem: "x \<in> column_set cb c \<longleftrightarrow> c \<notin> pred_columns (Nary m n ps) \<or>
      (case n of AND_op \<Rightarrow> \<forall>cb\<in>set bs. x \<in> column_set cb c | OR_op \<Rightarrow> \<exists>cb\<in>set bs. x \<in> column_set cb c)"
    if "x \<in> row_values" for x c
    using stored[of c] others[of c] that by (cases "c \<in> pred_columns (Nary m n ps)") (auto simp: column_set_def)
  have "node_correct vals (Nary m n ps) cb"
  proof (rule node_correctI)
    show "bounds_inv (Nary m n ps) cb" unfolding bounds_inv_def
    proof (intro conjI allI impI)
      show "(cb c \<noteq> None) = (c \<in> pred_columns (Nary m n ps))" for c
        using stored[of c] others[of c] by (cases "c \<in> pred_columns (Nary m n ps)") auto
      show "bound_ok b" if "cb c = Some b" for c b
        using stored[of c] others[of c] that by (cases "c \<in> pred_columns (Nary m n ps)") auto
    qed
    show "exact_at vals (Nary m n ps) cb k" if "exactable vals k (Nary m n ps)" for k
    proof -
      from that have exs: "list_all (exactable vals k) ps" by simp
      have ea: "list_all2 (\<lambda>p cb. exact_at vals p cb k \<and> k \<in> pred_columns p) ps bs"
        using bs exs
      proof (induction rule: list_all2_induct)
        case (Cons p ps cb bs)
        then have ex: "exact_at vals p cb k" "bounds_inv p cb" by (simp_all add: node_correct_def)
        then have "k \<in> pred_columns p" unfolding exact_at_def bounds_inv_def by (metis option.distinct(1))
        with ex Cons show ?case by simp
      qed simp
      have k: "k \<in> pred_columns (Nary m n ps)"
        using ea ne by (cases ps) (auto simp: list_all2_Cons1)
      have pr: "\<forall>cb\<in>set bs. \<exists>b. cb k = Some b \<and> bound_proper b"
        using ea by (induction rule: list_all2_induct) (auto simp: exact_at_def)
      have ev: "(\<forall>cb\<in>set bs. Fin v \<in> column_set cb k) = (\<forall>p\<in>set ps. sql_eval vals row p = Some True) \<and>
          (\<exists>cb\<in>set bs. Fin v \<in> column_set cb k) = (\<exists>p\<in>set ps. sql_eval vals row p = Some True)"
        if "row k = Fin v" for row v
      proof -
        have "list_all2 (\<lambda>p cb. Fin v \<in> column_set cb k \<longleftrightarrow> sql_eval vals row p = Some True) ps bs"
          using ea by (rule list_all2_mono) (use that in \<open>unfold exact_at_def, blast\<close>)
        then show ?thesis by (induction rule: list_all2_induct) auto
      qed
      show ?thesis unfolding exact_at_def
      proof (intro conjI allI impI)
        show "\<exists>b. cb k = Some b \<and> bound_proper b" using stored[OF k] pr by auto
        show "Fin v \<in> column_set cb k \<longleftrightarrow> sql_eval vals row (Nary m n ps) = Some True" if "row k = Fin v" for row v
          using mem[of "Fin v" k] ev[where row = row and v = v] that k
          unfolding sql_eval_nary by (cases n) (simp_all only: naryop.case insertI2 rangeI refl, blast+)
      qed
    qed
    show "sound_for vals (Nary m n ps) cb" unfolding sound_for_def
    proof (intro allI impI)
      fix row c assume rv: "\<forall>c. row c \<in> row_values" and t: "sql_eval vals row (Nary m n ps) = Some True"
      have sd: "list_all2 (\<lambda>p cb. sql_eval vals row p = Some True \<longrightarrow> row c \<in> column_set cb c) ps bs"
        using bs sup by (induction rule: list_all2_induct) (use rv in \<open>auto simp: node_correct_def sound_for_def\<close>)
      have all: "(\<forall>p\<in>set ps. sql_eval vals row p = Some True) \<Longrightarrow> \<forall>cb\<in>set bs. row c \<in> column_set cb c"
        and ex: "(\<exists>p\<in>set ps. sql_eval vals row p = Some True) \<Longrightarrow> \<exists>cb\<in>set bs. row c \<in> column_set cb c"
        using sd by (induction rule: list_all2_induct) auto
      show "row c \<in> column_set cb c"
        using t mem[of "row c" c] rv all ex unfolding sql_eval_nary by (cases n) auto
    qed
  qed
  with cb show ?thesis by blast
qed

lemma exactable_not_supported: "exactable vals k p \<Longrightarrow> not_supported vals p"
  by (induction p) (auto simp: list_all_iff)

lemma not_free_supported: "not_free p \<Longrightarrow> not_supported vals p"
  by (induction p) (auto simp: list_all_iff)

lemma visitColumns_correct:
  "visitColumns vals p = Inr cb \<Longrightarrow> const_marked p \<Longrightarrow> operands_ok vals p \<Longrightarrow> masks_ok p \<Longrightarrow>
   not_supported vals p \<Longrightarrow> node_correct vals p cb"
proof (induction p arbitrary: cb)
  case (Comparator m c f a)
  then show ?case using comparator_correct[of m c f a vals] by simp
next
  case (Between m f a b)
  then show ?case using between_correct[of m f a b vals] by (auto simp del: visitColumns.simps)
next
  case (UnaryOp m u f)
  then show ?case using unary_operator_correct[of vals m u f] by (auto simp del: visitColumns.simps)
next
  case (Unary m q)
  have "node_correct vals q cq" if "visitColumns vals q = Inr cq" for cq
    by (rule Unary.IH[OF that]) (use Unary.prems in \<open>auto dest: exactable_not_supported\<close>)
  then show ?case using not_correct Unary.prems by blast
next
  case (Nary m n ps)
  from Nary.prems(1) obtain bs where bs: "rmap (visitColumns vals) ps = Inr bs"
    and st: "store_lines (queryNaryFunctions n bs) (doColumns (Nary m n ps)) = Inr cb"
    by (auto simp: rbind_Inr_iff)
  have "list_all2 (\<lambda>p cb. node_correct vals p cb) ps bs"
    using bs unfolding rmap_Inr_iff
    by (rule list.rel_mono_strong) (use Nary in \<open>auto simp: list_all_iff\<close>)
  with nary_correct[OF this, of m n] Nary.prems st show ?case by auto
qed

lemma visitColumns_returns:
  "const_marked p \<Longrightarrow> operands_ok vals p \<Longrightarrow> masks_ok p \<Longrightarrow> not_free p \<Longrightarrow>
   \<exists>cb. visitColumns vals p = Inr cb"
proof (induction p)
  case (Comparator m c f a)
  then show ?case using comparator_correct[of m c f a vals] by blast
next
  case (Between m f a b)
  then show ?case using between_correct[of m f a b vals] by blast
next
  case (UnaryOp m u f)
  then show ?case using unary_operator_correct[of vals m u f] by blast
next
  case (Nary m n ps)
  have sup: "list_all (not_supported vals) ps"
    using Nary.prems by (auto simp: list_all_iff intro: not_free_supported)
  have "\<exists>bs. rmap (visitColumns vals) ps = Inr bs \<and> list_all2 (\<lambda>p cb. node_correct vals p cb) ps bs"
  proof (rule rmap_total)
    fix p assume p: "p \<in> set ps"
    have "\<exists>cb. visitColumns vals p = Inr cb"
      using Nary.IH[OF p] Nary.prems p by (simp add: list_all_iff)
    then obtain cb where "visitColumns vals p = Inr cb" by blast
    with p Nary.prems sup show "\<exists>cb. visitColumns vals p = Inr cb \<and> node_correct vals p cb"
      by (auto simp: list_all_iff intro: visitColumns_correct)
  qed
  then obtain bs where "rmap (visitColumns vals) ps = Inr bs" "list_all2 (\<lambda>p cb. node_correct vals p cb) ps bs"
    by blast
  with nary_correct[OF this(2), of m n] Nary.prems sup show ?case by auto
qed simp

section \<open>The visited tree\<close>

lemma const_marked_visitMask: "const_marked (visitMask p) = const_marked p"
  by (simp add: visitMask_def visitMaskWith_keeps)

lemma visitMaskWith_masks_ok: "maskable (pred_columns p) \<Longrightarrow> masks_ok (visitMaskWith k p)"
proof (induction p)
  case (Unary m q)
  have "pred_columns (visitMaskWith k q) = pred_columns q"
    by (metis pred_columns_strip visitMaskWith_keeps(1))
  with Unary visitMaskWith_used[of "Unary m q" k] show ?case by (simp add: Let_def)
next
  case (Nary m n ps)
  have c: "pred_columns (visitMaskWith k q) = pred_columns q" for q
    by (metis pred_columns_strip visitMaskWith_keeps(1))
  have "\<forall>q\<in>set ps. masks_ok (visitMaskWith k q)"
    using Nary by (auto simp: maskable_def)
  with Nary.prems visitMaskWith_used[of "Nary m n ps" k] c show ?case by (simp add: Let_def list_all_iff)
qed (simp_all add: Let_def)

lemma sql_eval_strip: "sql_eval vals row (strip p) = sql_eval vals row p"
proof (induction p)
  case (Nary m n ps)
  then have "map (sql_eval vals row) (map strip ps) = map (sql_eval vals row) ps" by simp
  then show ?case by (simp only: strip.simps sql_eval.simps)
qed simp_all

lemma operands_ok_strip: "operands_ok vals (strip p) = operands_ok vals p"
  by (induction p) (auto simp: list_all_iff)

lemma exactable_strip: "exactable vals k (strip p) = exactable vals k p"
  by (induction p) (auto simp: list_all_iff)

lemma not_supported_strip: "not_supported vals (strip p) = not_supported vals p"
  by (induction p) (auto simp: list_all_iff exactable_strip)

lemma not_free_strip: "not_free (strip p) = not_free p"
  by (induction p) (auto simp: list_all_iff)

lemma strip_eq_bounds:
  assumes "strip p = strip q"
  shows "sql_eval vals row p = sql_eval vals row q" "operands_ok vals p = operands_ok vals q"
    "not_supported vals p = not_supported vals q" "not_free p = not_free q" "pred_columns p = pred_columns q"
  using assms by (metis sql_eval_strip, metis operands_ok_strip, metis not_supported_strip,
      metis not_free_strip, metis pred_columns_strip)

section \<open>From lines to the bounds of the index\<close>

lemma toIndexValueEndpoint_facts:
  assumes "simple_ep e"
  shows "index_ep (toIndexValueEndpoint e)" "pos (toIndexValueEndpoint e) = pos e"
    "isLow (toIndexValueEndpoint e) = isLow e" "inclusive (toIndexValueEndpoint e) = inclusive e"
    "ep_key (toIndexValueEndpoint e) = ep_key e"
proof -
  have k: "ep_key (toIndexValueEndpoint e) = ep_key e"
    using assms by (cases "ep_value e") (auto simp: toIndexValueEndpoint_def Endpoint_def ep_key_def simple_ep_def)
  show "ep_key (toIndexValueEndpoint e) = ep_key e" by (rule k)
  show "index_ep (toIndexValueEndpoint e)" "pos (toIndexValueEndpoint e) = pos e"
    "isLow (toIndexValueEndpoint e) = isLow e" "inclusive (toIndexValueEndpoint e) = inclusive e"
    using assms k by (auto simp: toIndexValueEndpoint_def index_ep_def simple_ep_def infinite_ok_def pos_def
        Endpoint_def IndexValue_isFinite_def ep_key_def split: epval.splits)
qed

text \<open>
  \<open>Segment\<close> keeps two ends that are in order, or swaps two ends at the same position, which leaves the
  segment empty.
\<close>

lemma Segment_index:
  assumes "index_ep p" "index_ep q" "isLow p = Some True" "isLow q = Some False" "pos p \<le> pos q"
  shows "\<exists>s. Segment p q = Inr s \<and> (\<forall>x. in_index_bound x (IndexBound s) \<longleftrightarrow> x \<in> seg_set (p, q))"
proof -
  obtain c where c: "ep_compare p q = Inr c" "c = -1 \<or> c = 1 \<and> pos q \<le> pos p"
    using ep_compare_pos[of p q] assms by auto
  have m: "in_index_bound x (IndexBound (ep_low a, ep_high b)) \<longleftrightarrow>
      (if inclusive a then ep_key a \<le> x else ep_key a < x) \<and> (if inclusive b then x \<le> ep_key b else x < ep_key b)"
    if "index_ep a" "index_ep b" for a b x
    using that by (simp add: in_index_bound_def IndexBound_def IndexBoundEndpoint_def ep_low_def ep_high_def
        index_ep_def split: epval.splits)
  have st: "x \<in> seg_set (p, q) \<longleftrightarrow>
      (if inclusive p then ep_key p \<le> x else ep_key p < x) \<and> (if inclusive q then x \<le> ep_key q else x < ep_key q)" for x
    using assms(3,4) by (auto simp: seg_set_def passed_def pos_def less_eq_prod_def)
  from c(2) show ?thesis
  proof
    assume "c = -1"
    then show ?thesis using c(1) m[OF assms(1,2)] st by (simp add: Segment_def)
  next
    assume eq: "c = 1 \<and> pos q \<le> pos p"
    with assms(5) have "pos p = pos q" by auto
    then have "ep_key p = ep_key q" "inclusive p \<noteq> inclusive q"
      using assms(3,4) by (auto simp: pos_def)
    then show ?thesis using eq c(1) m[OF assms(2,1)] st by (auto simp: Segment_def)
  qed
qed

lemma line_segments_index:
  assumes "list_all simple_ep l" "sorted (map pos l)" "alt False False l"
  shows "\<exists>ss. line_segments (line_toIndexValues l) = Inr ss \<and>
    (\<forall>x. (\<exists>s\<in>set ss. in_index_bound x (IndexBound s)) \<longleftrightarrow> x \<in> line_set l)"
  using assms
proof (induction l rule: line_set.induct)
  case (1 p q ts)
  let ?p = "toIndexValueEndpoint p" and ?q = "toIndexValueEndpoint q"
  obtain ss where ss: "line_segments (line_toIndexValues ts) = Inr ss"
    "\<And>x. (\<exists>s\<in>set ss. in_index_bound x (IndexBound s)) \<longleftrightarrow> x \<in> line_set ts"
    using 1 by auto
  have pq: "simple_ep p" "simple_ep q" "isLow p = Some True" "isLow q = Some False" "pos p \<le> pos q"
    using "1.prems" by auto
  then obtain s where s: "Segment ?p ?q = Inr s" "\<And>x. in_index_bound x (IndexBound s) \<longleftrightarrow> x \<in> seg_set (?p, ?q)"
    using Segment_index[of ?p ?q] by (auto simp: toIndexValueEndpoint_facts)
  have "seg_set (?p, ?q) = seg_set (p, q)"
    using pq by (simp add: seg_set_def passed_def toIndexValueEndpoint_facts)
  with s ss show ?case by (auto simp: line_toIndexValues_def)
qed (auto simp: line_toIndexValues_def)

lemma Segment_again:
  assumes "index_ep p" "index_ep q" "isLow p = Some True" "isLow q = Some False" "pos p \<le> pos q"
    "Segment p q = Inr s"
  shows "index_ep (fst s)" "index_ep (snd s)" "isLow (fst s) = Some True" "isLow (snd s) = Some False"
    "pos (fst s) \<le> pos (snd s)" "seg_set s = seg_set (p, q)"
proof -
  obtain c where c: "ep_compare p q = Inr c" "c = -1 \<or> c = 1 \<and> pos q \<le> pos p"
    using ep_compare_pos[of p q] assms by auto
  have self: "ep_low p = p" "ep_high q = q" using assms(3,4) by (simp_all add: ep_low_def ep_high_def)
  have "index_ep (fst s) \<and> index_ep (snd s) \<and> isLow (fst s) = Some True \<and> isLow (snd s) = Some False \<and>
    pos (fst s) \<le> pos (snd s) \<and> seg_set s = seg_set (p, q)"
    using c(2)
  proof
    assume "c = -1"
    then have "s = (p, q)" using assms(6) c(1) self by (simp add: Segment_def)
    then show ?thesis using assms by simp
  next
    assume eq: "c = 1 \<and> pos q \<le> pos p"
    with assms(5) have pe: "pos p = pos q" by auto
    then have k: "ep_key p = ep_key q" "inclusive q = (\<not> inclusive p)"
      using assms(3,4) by (auto simp: pos_def)
    have ni: "ep_key q \<noteq> PosInf" "ep_key p \<noteq> NegInf"
      using assms k by (auto simp: index_ep_def infinite_ok_def)
    have s: "s = (ep_low q, ep_high p)" using eq assms(6) c(1) by (simp add: Segment_def)
    have key: "ep_key (ep_low q) = ep_key q" "ep_key (ep_high p) = ep_key p"
      by (simp_all add: ep_low_def ep_high_def ep_key_def)
    have "pos (ep_low q) = pos (ep_high p)" using k key assms(3,4)
      by (simp add: pos_def) (simp add: ep_low_def ep_high_def)
    moreover have "index_ep (ep_low q)" "index_ep (ep_high p)"
      using assms(1,2) k ni key by (auto simp: index_ep_def infinite_ok_def) (auto simp: ep_low_def ep_high_def)
    ultimately show ?thesis using pe
      by (simp add: s seg_set_def passed_def) (simp add: ep_low_def ep_high_def)
  qed
  then show "index_ep (fst s)" "index_ep (snd s)" "isLow (fst s) = Some True" "isLow (snd s) = Some False"
    "pos (fst s) \<le> pos (snd s)" "seg_set s = seg_set (p, q)" by simp_all
qed

lemma bound_segments:
  assumes "bound_ok b"
  shows "\<exists>ss. rbind (bound_toIndexValues b) (\<lambda>range. rbind (bound_toNumberLine range) line_segments) = Inr ss \<and>
    (\<forall>x. (\<exists>s\<in>set ss. in_index_bound x (IndexBound s)) \<longleftrightarrow> x \<in> bound_set b)"
proof (cases b)
  case (Line l)
  then show ?thesis using assms line_segments_index[of l]
    by (auto simp: bound_toIndexValues_def bound_toNumberLine_def wf_line_def)
next
  case NullBound
  then show ?thesis using assms by (simp add: bound_ok_def bound_toNumberLine_def)
next
  case (Seg s)
  then have wf: "wf_line [fst s, snd s]" using assms by (simp add: bound_Seg)
  let ?p = "toIndexValueEndpoint (fst s)" and ?q = "toIndexValueEndpoint (snd s)"
  have pq: "index_ep ?p" "index_ep ?q" "isLow ?p = Some True" "isLow ?q = Some False" "pos ?p \<le> pos ?q"
    using wf by (auto simp: wf_line_def toIndexValueEndpoint_facts)
  obtain t where t: "Segment ?p ?q = Inr t" using Segment_index[OF pq] by blast
  note again = Segment_again[OF pq t]
  obtain u where u: "Segment (fst t) (snd t) = Inr u"
    "\<And>x. in_index_bound x (IndexBound u) \<longleftrightarrow> x \<in> seg_set (fst t, snd t)"
    using Segment_index[OF again(1-5)] by blast
  have "seg_set (fst t, snd t) = seg_set s"
    using again(6) wf by (simp add: seg_set_def passed_def toIndexValueEndpoint_facts wf_line_def)
  then show ?thesis
    using t u by (simp add: Seg bound_toIndexValues_def seg_toIndexValues_def bound_toNumberLine_def
        seg_toNumberLine_def bound_set_def)
qed

lemma getIndexBounds_eq:
  assumes "visitColumns vals p = Inr cb" "\<And>b. cb c = Some b \<Longrightarrow> bound_ok b"
  shows "\<exists>bs. getIndexBounds vals p c = Inr bs \<and>
    (\<forall>x\<in>row_values. (\<exists>ib\<in>set bs. in_index_bound x ib) \<longleftrightarrow> x \<in> column_set cb c)"
proof -
  obtain b where b: "evaluateNodeForColumn cb c = Inr b" "bound_ok b"
    "\<And>x. x \<in> row_values \<Longrightarrow> x \<in> bound_set b \<longleftrightarrow> x \<in> column_set cb c"
  proof (cases "cb c")
    case None
    obtain s :: "'a segment" where u: "unboundedSegment = Inr s" "bound_proper (Seg s)" "row_values \<subseteq> seg_set s"
      using null_bounds(3) by blast
    show ?thesis
    proof (rule that[of "Seg s"])
      show "evaluateNodeForColumn cb c = Inr (Seg s)" using None by (simp add: evaluateNodeForColumn_def u(1))
      show "bound_ok (Seg s)" using u(2) by (rule bound_proper_ok)
      show "x \<in> bound_set (Seg s) \<longleftrightarrow> x \<in> column_set cb c" if "x \<in> row_values" for x
        using u(3) that None by (auto simp: bound_set_def column_set_def)
    qed
  next
    case (Some b)
    then show ?thesis using that[of b] assms(2) by (simp add: evaluateNodeForColumn_def column_set_def)
  qed
  obtain ss where ss: "rbind (bound_toIndexValues b) (\<lambda>range. rbind (bound_toNumberLine range) line_segments) = Inr ss"
    "\<And>x. (\<exists>s\<in>set ss. in_index_bound x (IndexBound s)) \<longleftrightarrow> x \<in> bound_set b"
    using bound_segments[OF b(2)] by blast
  from ss(1) obtain range l where "bound_toIndexValues b = Inr range" "bound_toNumberLine range = Inr l"
    "line_segments l = Inr ss" unfolding rbind_Inr_iff by blast
  then have "getIndexBounds vals p c = Inr (map IndexBound ss)"
    by (simp add: getIndexBounds_def assms(1) b(1))
  with ss(2) b(3) show ?thesis by auto
qed

section \<open>Properties of index bounds\<close>


definition int_operands :: "int operands" where
  "int_operands b a = (case a of QLit (LInt i) \<Rightarrow> Some (Fin i) | QParam n \<Rightarrow> Some (Fin 7) | _ \<Rightarrow> None)"


lemma not_bounds:
  fixes u v :: "'v::linorder"
  assumes "u < v" "vals (constants m2 \<noteq> 0) x = Some (Fin u)" "vals (constants m3 \<noteq> 0) y = Some (Fin v)"
    and "p = Unary m0 (UnaryOp m4 t f)"
    and "q = Unary m (Nary m1 AND_op [Comparator m2 Lt f x, Comparator m3 Gt f y])"
    and "doColumns p = [qf_column f]" "doColumns q = [qf_column f]"
    and "doColumns (Nary m1 AND_op [Comparator m2 Lt f x, Comparator m3 Gt f y]) = [qf_column f]"
  shows "getIndexBounds vals p (qf_column f) = Inr [] \<and>
    getIndexBounds vals q (qf_column f) = Inl TypeError"
proof
  show "getIndexBounds vals p (qf_column f) = Inr []"
    using assms(4,6) by (cases t) (auto simp: getIndexBounds_def segment_simps ep_defs store_lines_def bound_complement_def
        seg_complement_def line_complement_def seg_toNumberLine_def ep_complement_def lowerBound_def upperBound_def
        evaluateNodeForColumn_def bound_toIndexValues_def line_toIndexValues_def bound_toNumberLine_def)
  have "line_intersection [[ep_low negInfNonNull, ep_high (Endpoint (Simple (Fin u)) False None)],
      [ep_low (Endpoint (Simple (Fin v)) False None), posInf]] = Inr []"
    using assms(1) by (auto simp: line_intersection_def NumberLineStack_def mergeSortEndpoints_def
        stack_intersection_def segment_simps ep_defs)
  then have "visitColumns vals (Nary m1 AND_op [Comparator m2 Lt f x, Comparator m3 Gt f y]) =
      Inr [qf_column f \<mapsto> Line []]"
    using assms(1,2,3,8)
    by (auto simp: endpoint_value_def createSegmentForComparator_def operationCode_def segment_simps ep_defs
        store_lines_def queryNaryFunctions_def intersectionForColumn_def lines_for_column_def
        evaluateNodeForColumn_def bound_toNumberLine_def seg_toNumberLine_def)
  then show "getIndexBounds vals q (qf_column f) = Inl TypeError"
    using assms(5,7) by (simp add: getIndexBounds_def store_lines_def bound_complement_def line_complement_def
        lowerBound_def)
qed

lemma doColumns_single:
  assumes "bm_wf (used_mask p)" "bm_bits (used_mask p) = {k}"
  shows "doColumns p = [k]"
proof -
  obtain xs where xs: "bm_toArray (used_mask p) = Some xs" "distinct xs" "set xs = {k}"
    using bm_toArray_elems[OF assms(1)] assms(2) by auto
  then have "xs = [k]" by (cases xs; cases "tl xs") auto
  with xs show ?thesis by (simp add: doColumns_def)
qed

text \<open>
  What NOT gets wrong. The bounds for the negation of a null test are empty, so an index scan
  returns no row at all, although the predicate is true for some rows; and the negation of a
  contradiction throws a TypeError, although it is true for every row whose column is not null.
\<close>

theorem not_loses_rows:
  fixes u v :: "'v::linorder"
  assumes "u < v" "vals False (QParam x) = Some (Fin u)" "vals False (QParam y) = Some (Fin v)"
    and "maskable {qf_column f}" and "t = IsNull \<or> t = IsNotNull"
  defines "null_test \<equiv> QueryNot (UnaryOp (new_marks 1) t f)"
    and "contradiction \<equiv> QueryNot (QueryAnd (QueryLt f (QParam x)) (QueryGt f (QParam y)))"
  shows "getIndexBounds vals (visitMask null_test) (qf_column f) = Inr [] \<and>
    sql_eval vals (\<lambda>_. if t = IsNull then Fin u else Null) null_test = Some True \<and>
    getIndexBounds vals (visitMask contradiction) (qf_column f) = Inl TypeError \<and>
    sql_eval vals (\<lambda>_. Fin u) contradiction = Some True"
proof -
  have col: "doColumns (visitMask p) = [qf_column f]" if "pred_columns p = {qf_column f}" for p
    using visitMask_facts[of p] assms(4) that by (intro doColumns_single) simp_all
  have n: "doColumns (visitMask null_test) = [qf_column f]" by (rule col) (simp add: null_test_def QueryNot_def)
  have c: "doColumns (visitMask contradiction) = [qf_column f]"
    by (rule col) (simp add: contradiction_def QueryNot_def QueryAnd_def QueryLt_def QueryGt_def QueryComparator_def)
  have a: "doColumns (visitMask (QueryAnd (QueryLt f (QParam x)) (QueryGt f (QParam y)))) = [qf_column f]"
    by (rule col) (simp add: QueryAnd_def QueryLt_def QueryGt_def QueryComparator_def)
  obtain m0 m4 where p: "visitMask null_test = Unary m0 (UnaryOp m4 t f)"
    by (simp add: null_test_def QueryNot_def visitMask_def Let_def)
  obtain m m1 m2 m3 where q: "visitMask contradiction = Unary m (Nary m1 AND_op
      [Comparator m2 Lt f (QParam x), Comparator m3 Gt f (QParam y)])" "constants m2 = 0" "constants m3 = 0"
    and q1: "visitMask (QueryAnd (QueryLt f (QParam x)) (QueryGt f (QParam y))) =
      Nary m1 AND_op [Comparator m2 Lt f (QParam x), Comparator m3 Gt f (QParam y)]"
    by (simp add: contradiction_def QueryNot_def QueryAnd_def QueryLt_def QueryGt_def QueryComparator_def
        visitMask_def Let_def new_marks_def markUsed_def operationCode_def)
  have "getIndexBounds vals (visitMask null_test) (qf_column f) = Inr [] \<and>
      getIndexBounds vals (visitMask contradiction) (qf_column f) = Inl TypeError"
    using not_bounds[OF assms(1) _ _ p q(1)] n c a assms(2,3) q(2,3) by (simp add: q1)
  moreover have "sql_eval vals (\<lambda>_. if t = IsNull then Fin u else Null) null_test = Some True"
    using assms(5) by (auto simp: null_test_def QueryNot_def)
  moreover have "sql_eval vals (\<lambda>_. Fin u) contradiction = Some True"
    using assms(1-3) by (simp add: contradiction_def QueryNot_def QueryAnd_def QueryLt_def QueryGt_def
        QueryComparator_def sql_compare_def is_lit_def sql_and_def)
  ultimately show ?thesis by blast
qed

theorem not_loses_rows_witness:
  "getIndexBounds (\<lambda>b a. if a = QParam ''x'' then Some (Fin (1::int)) else Some (Fin 2))
     (visitMask (QueryNot (QueryAnd (QueryLt (demo_field ''a'' 0) (QParam ''x''))
        (QueryGt (demo_field ''a'' 0) (QParam ''y''))))) 0 = Inl TypeError"
  using not_loses_rows[of 1 2 "\<lambda>b a. if a = QParam ''x'' then Some (Fin (1::int)) else Some (Fin 2)"
      "''x''" "''y''" "demo_field ''a'' 0" IsNull]
  by (simp add: demo_field_def QueryField_def qf_column_def maskable_def)

text \<open>
  An IN condition has no operation code, so the visitor stores \<open>null\<close> as its bound, and computing
  the bounds of an index on its column throws a TypeError, alone or as an operand of AND or OR.
\<close>

theorem in_predicate_throws:
  assumes "maskable {qf_column f}"
  shows "getIndexBounds vals (visitMask (QueryIn f a)) (qf_column f) = Inl TypeError \<and>
    getIndexBounds vals (visitMask (Nary m n [QueryIn f a, QueryIsNotNull f])) (qf_column f) = Inl TypeError"
proof -
  let ?q = "Nary m n [QueryIn f a, QueryIsNotNull f]"
  have pc: "pred_columns ?q = {qf_column f}"
    by (simp add: QueryIn_def QueryComparator_def QueryIsNotNull_def)
  then have d: "doColumns (visitMask ?q) = [qf_column f]"
    using visitMask_facts[of ?q] assms by (intro doColumns_single) simp_all
  obtain m1 m2 m3 where q: "visitMask ?q = Nary m1 n [Comparator m2 In f a, UnaryOp m3 IsNotNull f]"
    by (simp add: visitMask_def QueryIn_def QueryComparator_def QueryIsNotNull_def Let_def)
  obtain s :: "'a segment" where s: "Segment nullExc posInf = Inr s" using null_bounds(2) by blast
  have "queryNaryFunctions n [[qf_column f \<mapsto> NullBound], [qf_column f \<mapsto> Seg s]] (qf_column f) = Inl TypeError"
    by (cases n) (simp_all add: queryNaryFunctions_def intersectionForColumn_def unionForColumn_def
        lines_for_column_def evaluateNodeForColumn_def bound_toNumberLine_def)
  then have "getIndexBounds vals (visitMask ?q) (qf_column f) = Inl TypeError"
    using d by (simp add: q getIndexBounds_def s store_lines_def)
  moreover have "getIndexBounds vals (visitMask (QueryIn f a)) (qf_column f) = Inl TypeError"
    by (simp add: visitMask_def QueryIn_def QueryComparator_def Let_def getIndexBounds_def
        evaluateNodeForColumn_def bound_toIndexValues_def)
  ultimately show ?thesis by blast
qed

theorem in_predicate_throws_witness:
  "getIndexBounds int_operands (visitMask (QueryIn (demo_field ''a'' 0) (QParam ''xs''))) 0 = Inl TypeError"
  using in_predicate_throws[of "demo_field ''a'' 0" int_operands "QParam ''xs''"]
  by (simp add: demo_field_def QueryField_def qf_column_def maskable_def)

end
