(* ===== verification/Serialize.thy ===== *)
theory Serialize
  imports Prelude
begin

text \<open>
  \<^verbatim>\<open>Adapter/common/MySQLSerialize.js\<close>: the binary encoding of JSON values and its parser. A buffer
  is a list of bytes (numbers below 256). The operations of \<open>Buffer\<close> that the code calls are
  modelled here: the little-endian reads and writes with their range checks, and UTF-8. The parser
  follows offsets stored in the buffer, which can point anywhere, so it has fuel; for a buffer made
  by the serializer some fuel is shown to suffice.
\<close>

section \<open>Buffers\<close>

type_synonym buffer = "nat list"

fun le :: "nat \<Rightarrow> nat \<Rightarrow> buffer" where
  "le 0 n = []"
| "le (Suc k) n = (n mod 256) # le k (n div 256)"

fun unle :: "buffer \<Rightarrow> nat" where
  "unle [] = 0"
| "unle (b # bs) = b + 256 * unle bs"

definition writeUInt :: "nat \<Rightarrow> nat \<Rightarrow> buffer res" where
  "writeUInt k n = (if n < 256 ^ k then Inr (le k n) else Inl RangeError)"

definition readUInt :: "nat \<Rightarrow> buffer \<Rightarrow> nat \<Rightarrow> nat res" where
  "readUInt k buf off =
     (if off + k \<le> length buf then Inr (unle (take k (drop off buf))) else Inl RangeError)"

definition writeInt :: "nat \<Rightarrow> int \<Rightarrow> buffer res" where
  "writeInt k i = (if - (256 ^ k) \<le> 2 * i \<and> 2 * i < 256 ^ k then Inr (le k (nat (i mod 256 ^ k)))
     else Inl RangeError)"

definition readInt :: "nat \<Rightarrow> buffer \<Rightarrow> nat \<Rightarrow> int res" where
  "readInt k buf off = rbind (readUInt k buf off) (\<lambda>n.
     Inr (if 256 ^ k \<le> 2 * int n then int n - 256 ^ k else int n))"

text \<open>\<open>buf.slice(i, j)\<close>.\<close>

definition slice :: "buffer \<Rightarrow> nat \<Rightarrow> nat \<Rightarrow> buffer" where
  "slice buf i j = drop i (take j buf)"

text \<open>
  Strings are lists of UTF-16 code units. A surrogate pair is encoded in four bytes and a lone
  surrogate as U+FFFD; in decoding, a byte that does not start a complete sequence becomes U+FFFD.
\<close>

type_synonym jstring = "nat list"

definition high_surrogate :: "nat \<Rightarrow> bool" where "high_surrogate u \<longleftrightarrow> 55296 \<le> u \<and> u < 56320"
definition low_surrogate :: "nat \<Rightarrow> bool" where "low_surrogate u \<longleftrightarrow> 56320 \<le> u \<and> u < 57344"

definition utf8_unit :: "nat \<Rightarrow> buffer" where
  "utf8_unit u =
     (if u < 128 then [u]
      else if u < 2048 then [192 + u div 64, 128 + u mod 64]
      else [224 + u div 4096, 128 + u div 64 mod 64, 128 + u mod 64])"

definition utf8_pair :: "nat \<Rightarrow> nat \<Rightarrow> buffer" where
  "utf8_pair h l = (let c = 65536 + (h - 55296) * 1024 + (l - 56320) in
     [240 + c div 262144, 128 + c div 4096 mod 64, 128 + c div 64 mod 64, 128 + c mod 64])"

fun utf8 :: "jstring \<Rightarrow> buffer" where
  "utf8 [] = []"
| "utf8 [u] = (if high_surrogate u \<or> low_surrogate u then utf8_unit 65533 else utf8_unit u)"
| "utf8 (u # v # us) =
     (if high_surrogate u \<and> low_surrogate v then utf8_pair u v @ utf8 us
      else if high_surrogate u \<or> low_surrogate u then utf8_unit 65533 @ utf8 (v # us)
      else utf8_unit u @ utf8 (v # us))"

definition is_cont :: "nat \<Rightarrow> bool" where "is_cont b \<longleftrightarrow> 128 \<le> b \<and> b < 192"

fun utf8_decode :: "buffer \<Rightarrow> jstring" where
  "utf8_decode [] = []"
| "utf8_decode (a # bs) =
     (if a < 128 then a # utf8_decode bs
      else (case bs of
          [] \<Rightarrow> [65533]
        | b # cs \<Rightarrow>
            if 192 \<le> a \<and> a < 224 \<and> is_cont b then ((a - 192) * 64 + (b - 128)) # utf8_decode cs
            else (case cs of
                [] \<Rightarrow> 65533 # utf8_decode bs
              | c # ds \<Rightarrow>
                  if 224 \<le> a \<and> a < 240 \<and> is_cont b \<and> is_cont c
                  then ((a - 224) * 4096 + (b - 128) * 64 + (c - 128)) # utf8_decode ds
                  else (case ds of
                      [] \<Rightarrow> 65533 # utf8_decode bs
                    | d # es \<Rightarrow>
                        if 240 \<le> a \<and> a < 248 \<and> is_cont b \<and> is_cont c \<and> is_cont d
                        then (let cp = (a - 240) * 262144 + (b - 128) * 4096 + (c - 128) * 64 + (d - 128) - 65536
                              in (55296 + cp div 1024) # (56320 + cp mod 1024) # utf8_decode es)
                        else 65533 # utf8_decode bs))))"

section \<open>Values and their binary form\<close>

text \<open>
  A number is a whole number or another one, of the type \<open>'d\<close>, whose eight bytes \<open>writeDoubleLE\<close>
  writes: the parameters \<open>to8\<close> and \<open>of8\<close> of the operations are that encoding and its inverse.
\<close>

datatype 'd jval =
    VUndef
  | VFun
  | VNull
  | VBool bool
  | VInt int
  | VDouble 'd
  | VString jstring
  | VArray "'d jval list"
  | VObject "(jstring \<times> 'd jval) list"

abbreviation (input) "TYPE_SMALL_OBJ \<equiv> 0 :: nat"
abbreviation (input) "TYPE_LARGE_OBJ \<equiv> 1 :: nat"
abbreviation (input) "TYPE_SMALL_ARRAY \<equiv> 2 :: nat"
abbreviation (input) "TYPE_LARGE_ARRAY \<equiv> 3 :: nat"
abbreviation (input) "TYPE_LITERAL \<equiv> 4 :: nat"
abbreviation (input) "TYPE_INT16 \<equiv> 5 :: nat"
abbreviation (input) "TYPE_UINT16 \<equiv> 6 :: nat"
abbreviation (input) "TYPE_INT32 \<equiv> 7 :: nat"
abbreviation (input) "TYPE_UINT32 \<equiv> 8 :: nat"
abbreviation (input) "TYPE_INT64 \<equiv> 9 :: nat"
abbreviation (input) "TYPE_UINT64 \<equiv> 10 :: nat"
abbreviation (input) "TYPE_DOUBLE \<equiv> 11 :: nat"
abbreviation (input) "TYPE_STRING \<equiv> 12 :: nat"

record binary =
  b_type :: nat
  b_buffer :: buffer
  b_isUndefined :: bool

definition isLarge :: "nat \<Rightarrow> bool" where
  "isLarge t \<longleftrightarrow> t = TYPE_LARGE_OBJ \<or> t = TYPE_LARGE_ARRAY"

definition keyEntrySize :: "nat \<Rightarrow> nat" where "keyEntrySize t = (if isLarge t then 6 else 4)"
definition valueEntrySize :: "nat \<Rightarrow> nat" where "valueEntrySize t = (if isLarge t then 5 else 3)"
definition headerSize :: "nat \<Rightarrow> nat" where "headerSize t = (if isLarge t then 8 else 4)"

definition inlineBufsize :: "nat \<Rightarrow> nat option" where
  "inlineBufsize t = (if t = 4 then Some 1 else if t = 5 \<or> t = 6 then Some 2
     else if t = 7 \<or> t = 8 then Some 4 else None)"

definition isInline :: "nat \<Rightarrow> bool \<Rightarrow> bool" where
  "isInline t large = (case inlineBufsize t of Some sz \<Rightarrow> large \<or> sz < 4 | None \<Rightarrow> False)"

definition Binary :: "nat \<Rightarrow> buffer \<Rightarrow> binary" where
  "Binary t buf = \<lparr>b_type = t, b_buffer = buf, b_isUndefined = False\<rparr>"

definition binaryNull :: binary where "binaryNull = Binary TYPE_LITERAL [0]"
definition binaryTrue :: binary where "binaryTrue = Binary TYPE_LITERAL [1]"
definition binaryFalse :: binary where "binaryFalse = Binary TYPE_LITERAL [2]"
definition binaryUndefined :: binary where
  "binaryUndefined = \<lparr>b_type = TYPE_LITERAL, b_buffer = [], b_isUndefined = True\<rparr>"

text \<open>The width of a count, a size or an offset.\<close>

definition word_size :: "bool \<Rightarrow> nat" where "word_size large = (if large then 4 else 2)"

definition writeHeader :: "nat \<Rightarrow> nat \<Rightarrow> nat \<Rightarrow> buffer res" where
  "writeHeader t count size' =
     rbind (writeUInt (word_size (isLarge t)) count) (\<lambda>c.
     rbind (writeUInt (word_size (isLarge t)) size') (\<lambda>s. Inr (c @ s)))"

fun varlen :: "nat \<Rightarrow> buffer" where
  "varlen n = (if n div 128 = 0 then [n mod 128] else (n mod 128 + 128) # varlen (n div 128))"

declare varlen.simps [simp del]

definition serializeString :: "jstring \<Rightarrow> binary" where
  "serializeString s = (let b = utf8 s in Binary TYPE_STRING (varlen (length b) @ b))"

definition serializeInt16 :: "int \<Rightarrow> binary res" where
  "serializeInt16 n =
     (if n < 32768 then rbind (writeInt 2 n) (\<lambda>b. Inr (Binary TYPE_INT16 b))
      else rbind (writeUInt 2 (nat n)) (\<lambda>b. Inr (Binary TYPE_UINT16 b)))"

definition serializeInt32 :: "int \<Rightarrow> binary res" where
  "serializeInt32 n =
     (if n < 2147483648 then rbind (writeInt 4 n) (\<lambda>b. Inr (Binary TYPE_INT32 b))
      else rbind (writeUInt 4 (nat n)) (\<lambda>b. Inr (Binary TYPE_UINT32 b)))"

definition serializeInt64 :: "int \<Rightarrow> binary res" where
  "serializeInt64 n =
     (if n < 0 then Inl AssertionError
      else rbind (writeUInt 6 (nat n)) (\<lambda>b. Inr (Binary TYPE_UINT64 ([0, 0] @ b))))"

definition serializeNumber :: "int \<Rightarrow> binary res" where
  "serializeNumber n =
     (if n < 0 then
        (if -32768 \<le> n then serializeInt16 n
         else if -2147483648 \<le> n then serializeInt32 n else serializeInt64 n)
      else
        (if n \<le> 65535 then serializeInt16 n
         else if n \<le> 4294967295 then serializeInt32 n else serializeInt64 n))"

section \<open>Arrays and objects\<close>

text \<open>
  A \<open>List\<close> under construction: the entries with the offset of their data, and the data. \<open>push\<close> adds
  a binary value at the end.
\<close>

type_synonym entries = "(binary \<times> nat) list"

definition list_push :: "entries \<times> buffer \<Rightarrow> binary \<Rightarrow> entries \<times> buffer" where
  "list_push = (\<lambda>(es, data) b. (es @ [(b, length data)], data @ b_buffer b))"

definition list_of :: "binary list \<Rightarrow> entries \<times> buffer" where
  "list_of bs = foldl list_push ([], []) bs"

text \<open>An entry is written into a zeroed buffer of the size of an entry.\<close>

definition fill :: "nat \<Rightarrow> buffer \<Rightarrow> buffer" where
  "fill k b = take k b @ replicate (k - length b) 0"

definition writeValueEntry :: "nat \<Rightarrow> nat \<Rightarrow> binary \<times> nat \<Rightarrow> buffer res" where
  "writeValueEntry parent dataStartPos = (\<lambda>(b, offset).
     if isInline (b_type b) (isLarge parent)
     then Inr (fill (valueEntrySize parent) (b_type b # b_buffer b))
     else rbind (writeUInt (word_size (isLarge parent)) (dataStartPos + offset)) (\<lambda>o'.
            Inr (fill (valueEntrySize parent) (b_type b # o'))))"

definition writeKeyEntry :: "nat \<Rightarrow> nat \<Rightarrow> binary \<times> nat \<Rightarrow> buffer res" where
  "writeKeyEntry parent dataStartPos = (\<lambda>(b, offset).
     rbind (writeUInt (word_size (isLarge parent)) (dataStartPos + offset)) (\<lambda>o'.
     rbind (writeUInt 2 (length (b_buffer b))) (\<lambda>l.
       Inr (fill (keyEntrySize parent) (o' @ l)))))"

definition array_size :: "nat \<Rightarrow> entries \<times> buffer \<Rightarrow> nat" where
  "array_size t l = headerSize t + (valueEntrySize t * length (fst l) + length (snd l))"

definition serializeArray :: "binary list \<Rightarrow> binary res" where
  "serializeArray items =
     (let vs = list_of (map (\<lambda>b. if b_isUndefined b then binaryNull else b) items);
          t = (if array_size TYPE_SMALL_ARRAY vs > 65535 then TYPE_LARGE_ARRAY else TYPE_SMALL_ARRAY);
          count = length (fst vs) in
      rbind (writeHeader t count (array_size t vs)) (\<lambda>h.
      rbind (rmap (writeValueEntry t (headerSize t + valueEntrySize t * count)) (fst vs)) (\<lambda>ve.
        Inr (Binary t (h @ concat ve @ snd vs)))))"

definition object_size :: "nat \<Rightarrow> entries \<times> buffer \<Rightarrow> entries \<times> buffer \<Rightarrow> nat" where
  "object_size t ks vs = headerSize t + (valueEntrySize t * length (fst vs) + length (snd vs)) +
     (keyEntrySize t * length (fst ks) + length (snd ks))"

definition serializeKey :: "jstring \<Rightarrow> binary" where
  "serializeKey k = Binary 99 (utf8 k)"

text \<open>\<open>items\<close> are the keys in order with the binary values of their members.\<close>

definition serializeObject :: "(jstring \<times> binary) list \<Rightarrow> binary res" where
  "serializeObject items =
     (let valid = filter (\<lambda>(k, b). \<not> b_isUndefined b) items;
          vs = list_of (map snd valid);
          ks = list_of (map (\<lambda>(k, b). serializeKey k) valid);
          t = (if object_size TYPE_SMALL_OBJ ks vs > 65535 then TYPE_LARGE_OBJ else TYPE_SMALL_OBJ);
          total = object_size t ks vs;
          valueEntryStartPos = headerSize t + keyEntrySize t * length (fst ks);
          keyDataStartPos = valueEntryStartPos + valueEntrySize t * length (fst vs);
          valueDataStartPos = keyDataStartPos + length (snd ks) in
      rbind (writeHeader t (length (fst vs)) total) (\<lambda>h.
      rbind (rmap (writeKeyEntry t keyDataStartPos) (fst ks)) (\<lambda>ke.
      rbind (rmap (writeValueEntry t valueDataStartPos) (fst vs)) (\<lambda>ve.
        let buf = h @ concat ke @ concat ve @ snd ks @ snd vs in
        if length buf = total then Inr (Binary t buf) else Inl AssertionError))))"

fun str_less :: "jstring \<Rightarrow> jstring \<Rightarrow> bool" where
  "str_less [] bs = (bs \<noteq> [])"
| "str_less (a # as) [] = False"
| "str_less (a # as) (b # bs) = (a < b \<or> a = b \<and> str_less as bs)"

definition sortKeys :: "jstring \<Rightarrow> jstring \<Rightarrow> int" where
  "sortKeys a b =
     (if length a > length b then 1
      else if length a = length b then (if str_less a b then -1 else 1)
      else -1)"

text \<open>\<open>Array.sort\<close> with this comparison, which orders distinct keys totally.\<close>

fun insert_member :: "jstring \<times> 'a \<Rightarrow> (jstring \<times> 'a) list \<Rightarrow> (jstring \<times> 'a) list" where
  "insert_member m [] = [m]"
| "insert_member m (x # xs) = (if sortKeys (fst m) (fst x) < 0 then m # x # xs else x # insert_member m xs)"

definition sort_members :: "(jstring \<times> 'a) list \<Rightarrow> (jstring \<times> 'a) list" where
  "sort_members ms = foldr insert_member ms []"

lemma set_insert_member [simp]: "set (insert_member m xs) = insert m (set xs)"
  by (induction xs) auto

lemma set_sort_members [simp, termination_simp]: "set (sort_members ms) = set ms"
  by (induction ms) (simp_all add: sort_members_def)

lemma size_member [termination_simp]:
  "(k, v) \<in> set ms \<Longrightarrow> size v < Suc (size_list (size_prod (\<lambda>x. 0) size) ms)"
  by (induction ms) auto

fun serialize :: "('d \<Rightarrow> buffer) \<Rightarrow> 'd jval \<Rightarrow> binary res" where
  "serialize to8 VUndef = Inr binaryUndefined"
| "serialize to8 VFun = Inr binaryUndefined"
| "serialize to8 VNull = Inr binaryNull"
| "serialize to8 (VBool b) = Inr (if b then binaryTrue else binaryFalse)"
| "serialize to8 (VInt n) = serializeNumber n"
| "serialize to8 (VDouble d) = Inr (Binary TYPE_DOUBLE (to8 d))"
| "serialize to8 (VString s) = Inr (serializeString s)"
| "serialize to8 (VArray vs) = rbind (rmap (serialize to8) vs) serializeArray"
| "serialize to8 (VObject ms) =
     rbind (rmap (\<lambda>m. rbind (serialize to8 (snd m)) (\<lambda>b. Inr (fst m, b))) (sort_members ms)) serializeObject"

text \<open>The exported function: \<open>null\<close> for \<open>undefined\<close>, otherwise the type byte and the buffer.\<close>

definition serialize_public :: "('d \<Rightarrow> buffer) \<Rightarrow> 'd jval \<Rightarrow> buffer option res" where
  "serialize_public to8 v = rbind (serialize to8 v) (\<lambda>b.
     Inr (if b_isUndefined b then None else Some (b_type b # b_buffer b)))"

section \<open>The parser\<close>

text \<open>The length of a string: up to five bytes, added up in 32 signed bits.\<close>

fun varlen_parse :: "buffer \<Rightarrow> nat \<Rightarrow> nat \<Rightarrow> nat \<Rightarrow> nat \<times> nat" where
  "varlen_parse buf 0 i len = (0, 0)"
| "varlen_parse buf (Suc k) i len =
     (let n = (case js_get buf i of Some b \<Rightarrow> b | None \<Rightarrow> 0);
          len' = (len + n mod 128 * 128 ^ i) mod 2 ^ 32 in
      if n mod 256 < 128 then (len', i + 1) else varlen_parse buf k (i + 1) len')"

definition parseString :: "buffer \<Rightarrow> jstring" where
  "parseString buf =
     (let (len, nBytes) = varlen_parse buf 5 0 0
      in utf8_decode (slice buf nBytes (if len < 2 ^ 31 then nBytes + len else 0)))"

definition parseLiteral :: "buffer \<Rightarrow> 'd jval res" where
  "parseLiteral buf = (case buf of
       b # _ \<Rightarrow> if b = 0 then Inr VNull else if b = 1 then Inr (VBool True)
                else if b = 2 then Inr (VBool False) else Inl AssertionError
     | [] \<Rightarrow> Inl AssertionError)"

definition readHeader :: "nat \<Rightarrow> buffer \<Rightarrow> (nat \<times> buffer) res" where
  "readHeader t buf =
     rbind (readUInt (word_size (isLarge t)) buf 0) (\<lambda>count.
     rbind (readUInt (word_size (isLarge t)) buf (word_size (isLarge t))) (\<lambda>recSize.
       Inr (count, slice buf 0 recSize)))"

text \<open>Reading an entry gives the type of the value and the buffer to parse it from.\<close>

definition readValueEntry :: "nat \<Rightarrow> buffer \<Rightarrow> nat \<Rightarrow> (nat \<times> buffer) res" where
  "readValueEntry parent buf cursor =
     (case js_get buf cursor of
        None \<Rightarrow> Inl AssertionError
      | Some t \<Rightarrow>
          if \<not> (t \<le> TYPE_STRING \<or> t = 99) then Inl AssertionError
          else if isInline t (isLarge parent) then
            Inr (t, slice buf (cursor + 1) (cursor + 1 + (case inlineBufsize t of Some k \<Rightarrow> k | None \<Rightarrow> 0)))
          else rbind (readUInt (word_size (isLarge parent)) buf (cursor + 1)) (\<lambda>offset.
                 Inr (t, drop offset buf)))"

definition readKeyEntry :: "nat \<Rightarrow> buffer \<Rightarrow> nat \<Rightarrow> jstring res" where
  "readKeyEntry parent buf cursor =
     (let w = word_size (isLarge parent) in
      rbind (readUInt w buf cursor) (\<lambda>offset.
      rbind (readUInt 2 buf (cursor + w)) (\<lambda>len.
        Inr (utf8_decode (slice buf offset (offset + len))))))"

definition readEntries :: "(nat \<Rightarrow> 'a res) \<Rightarrow> nat \<Rightarrow> nat \<Rightarrow> nat \<Rightarrow> 'a list res" where
  "readEntries rd offset entrySize count = rmap (\<lambda>i. rd (offset + i * entrySize)) [0..<count]"

text \<open>Parsing the items in order; \<open>None\<close> when the fuel of the parser of an item runs out.\<close>

fun parse_items :: "(nat \<times> buffer \<Rightarrow> 'a res option) \<Rightarrow> (nat \<times> buffer) list \<Rightarrow> 'a list res option" where
  "parse_items f [] = Some (Inr [])"
| "parse_items f (x # xs) = (case f x of
       None \<Rightarrow> None
     | Some (Inl e) \<Rightarrow> Some (Inl e)
     | Some (Inr v) \<Rightarrow> map_option (\<lambda>r. rbind r (\<lambda>vs. Inr (v # vs))) (parse_items f xs))"

fun jput :: "(jstring \<times> 'a) list \<Rightarrow> jstring \<Rightarrow> 'a \<Rightarrow> (jstring \<times> 'a) list" where
  "jput [] k v = [(k, v)]"
| "jput ((k', v') # ps) k v = (if k' = k then (k, v) # ps else (k', v') # jput ps k v)"

definition put_members :: "jstring list \<Rightarrow> 'a list \<Rightarrow> (jstring \<times> 'a) list" where
  "put_members ks vs = foldl (\<lambda>o' (k, v). jput o' k v) [] (zip ks vs)"

fun parse :: "(buffer \<Rightarrow> 'd) \<Rightarrow> nat \<Rightarrow> nat \<times> buffer \<Rightarrow> 'd jval res option" where
  "parse of8 0 tb = None"
| "parse of8 (Suc fuel) (t, buf) =
     (if t = TYPE_LITERAL then Some (parseLiteral buf)
      else if t = TYPE_INT16 then Some (rbind (readInt 2 buf 0) (\<lambda>n. Inr (VInt n)))
      else if t = TYPE_UINT16 then Some (rbind (readUInt 2 buf 0) (\<lambda>n. Inr (VInt (int n))))
      else if t = TYPE_INT32 then Some (rbind (readInt 4 buf 0) (\<lambda>n. Inr (VInt n)))
      else if t = TYPE_UINT32 then Some (rbind (readUInt 4 buf 0) (\<lambda>n. Inr (VInt (int n))))
      else if t = TYPE_DOUBLE then
        Some (if 8 \<le> length buf then Inr (VDouble (of8 (take 8 buf))) else Inl RangeError)
      else if t = TYPE_STRING then Some (Inr (VString (parseString buf)))
      else if t = TYPE_SMALL_ARRAY \<or> t = TYPE_LARGE_ARRAY then
        (case readHeader t buf of
           Inl e \<Rightarrow> Some (Inl e)
         | Inr (count, b) \<Rightarrow>
             (case readEntries (readValueEntry t b) (headerSize t) (valueEntrySize t) count of
                Inl e \<Rightarrow> Some (Inl e)
              | Inr items \<Rightarrow>
                  map_option (\<lambda>r. rbind r (\<lambda>vs. Inr (VArray vs))) (parse_items (parse of8 fuel) items)))
      else if t = TYPE_SMALL_OBJ \<or> t = TYPE_LARGE_OBJ then
        (case readHeader t buf of
           Inl e \<Rightarrow> Some (Inl e)
         | Inr (count, b) \<Rightarrow>
             (case rbind (readEntries (readKeyEntry t b) (headerSize t) (keyEntrySize t) count) (\<lambda>ks.
                     rbind (readEntries (readValueEntry t b) (headerSize t + keyEntrySize t * count)
                              (valueEntrySize t) count) (\<lambda>items. Inr (ks, items))) of
                Inl e \<Rightarrow> Some (Inl e)
              | Inr (ks, items) \<Rightarrow>
                  map_option (\<lambda>r. rbind r (\<lambda>vs. Inr (VObject (put_members ks vs))))
                    (parse_items (parse of8 fuel) items)))
      else Some (Inl AssertionError))"

definition parse_public :: "(buffer \<Rightarrow> 'd) \<Rightarrow> nat \<Rightarrow> buffer option \<Rightarrow> 'd jval res option" where
  "parse_public of8 fuel source = (case source of
       None \<Rightarrow> Some (Inr VNull)
     | Some (t # b # bs) \<Rightarrow>
         if t \<le> TYPE_STRING \<or> t = 99 then parse of8 fuel (t, b # bs) else Some (Inl AssertionError)
     | Some _ \<Rightarrow> Some (Inr VUndef))"

section \<open>Lemmas on buffers\<close>

lemma length_le [simp]: "length (le k n) = k"
  by (induction k arbitrary: n) auto

lemma le_ne: "0 < k \<Longrightarrow> le k n \<noteq> []"
  by (cases k) auto

lemma unle_le: "unle (le k n) = n mod 256 ^ k"
  by (induction k arbitrary: n) (simp_all add: mod_mult2_eq mult.commute add.commute)

lemma readUInt_le:
  assumes "drop off buf = le k n @ post" "0 < k" "n < 256 ^ k"
  shows "readUInt k buf off = Inr n"
proof -
  have "length buf - off = k + length post" using arg_cong[OF assms(1), of length] by simp
  then have "off + k \<le> length buf" using assms(2) by linarith
  then show ?thesis using assms by (simp add: readUInt_def unle_le)
qed

lemma writeUInt_ok: "n < 256 ^ k \<Longrightarrow> writeUInt k n = Inr (le k n)"
  by (simp add: writeUInt_def)

lemma read_writeInt:
  assumes "- (256 ^ k) \<le> 2 * i" "2 * i < 256 ^ k" "0 < k" "drop off buf = le k (nat (i mod 256 ^ k)) @ post"
  shows "readInt k buf off = Inr i"
proof -
  let ?n = "nat (i mod 256 ^ k)"
  have n: "int ?n = i mod 256 ^ k" by simp
  then have "?n < 256 ^ k"
    by (metis nat_less_numeral_power_cancel_iff pos_mod_bound zero_less_numeral zero_less_power nat_less_iff of_nat_numeral of_nat_power pos_mod_sign)
  then have r: "readUInt k buf off = Inr ?n" using readUInt_le[OF assms(4,3)] by simp
  show ?thesis
  proof (cases "i < 0")
    case True
    have "i mod 256 ^ k = (i + 256 ^ k) mod 256 ^ k" by simp
    also have "\<dots> = i + 256 ^ k" using True assms(1) by (intro mod_pos_pos_trivial) auto
    finally have "i mod 256 ^ k = i + 256 ^ k" .
    with True assms(1) n r show ?thesis by (simp add: readInt_def)
  next
    case False
    then have "i mod 256 ^ k = i" using assms(2) by simp
    with False assms(2) n r show ?thesis by (simp add: readInt_def)
  qed
qed

lemma varlen_parse_varlen:
  assumes "n < 128 ^ k" "0 < k" "len + n * 128 ^ length pre < 2 ^ 32"
  shows "varlen_parse (pre @ varlen n @ rest) k (length pre) len =
    (len + n * 128 ^ length pre, length pre + length (varlen n))"
  using assms
proof (induction n arbitrary: k pre len rule: varlen.induct)
  case (1 n)
  from "1.prems"(2) obtain k' where k: "k = Suc k'" by (metis gr0_implies_Suc)
  have "(a + 128 * b) * c = a * c + b * (128 * c)" for a b c :: nat by (simp add: algebra_simps)
  from this[of "n mod 128" "n div 128"]
  have split: "n * 128 ^ length pre = n mod 128 * 128 ^ length pre + (n div 128) * 128 ^ Suc (length pre)"
    by (simp only: mod_mult_div_eq power_Suc)
  show ?case
  proof (cases "n div 128 = 0")
    case True
    then have v: "varlen n = [n]" "n mod 128 = n" "n < 128" by (simp_all add: varlen.simps div_eq_0_iff)
    then show ?thesis using "1.prems"(3) by (simp add: k js_get_def)
  next
    case False
    let ?b = "n mod 128 + 128" and ?len = "len + n mod 128 * 128 ^ length pre"
    have v: "varlen n = ?b # varlen (n div 128)" using False by (subst varlen.simps) simp
    have "n div 128 < 128 ^ k'" using "1.prems"(1) by (simp add: k div_less_iff_less_mult mult.commute)
    moreover from this False have "0 < k'" by (cases k') auto
    moreover have "?len + n div 128 * 128 ^ length (pre @ [?b]) < 2 ^ 32"
      using "1.prems"(3) split by simp
    ultimately have IH: "varlen_parse ((pre @ [?b]) @ varlen (n div 128) @ rest) k' (length (pre @ [?b])) ?len =
        (?len + n div 128 * 128 ^ length (pre @ [?b]), length (pre @ [?b]) + length (varlen (n div 128)))"
      using "1.IH" False by blast
    have "?len mod 2 ^ 32 = ?len" using "1.prems"(3) split by simp
    moreover have "?b mod 128 = n mod 128" "?b mod 256 = ?b" "\<not> ?b < 128" by simp_all
    ultimately show ?thesis using IH split
      by (simp add: k v js_get_def Let_def nth_append)
  qed
qed

lemma length_varlen: "n < 128 ^ Suc k \<Longrightarrow> length (varlen n) \<le> Suc k"
proof (induction k arbitrary: n)
  case 0
  then show ?case by (simp add: varlen.simps)
next
  case (Suc k)
  show ?case
  proof (cases "n div 128 = 0")
    case True
    then show ?thesis by (simp add: varlen.simps)
  next
    case False
    have "n div 128 < 128 ^ Suc k" using Suc.prems by (simp add: div_less_iff_less_mult mult.commute)
    with Suc.IH False show ?thesis by (subst varlen.simps) simp
  qed
qed

section \<open>UTF-8\<close>

definition surrogate :: "nat \<Rightarrow> bool" where "surrogate u \<longleftrightarrow> high_surrogate u \<or> low_surrogate u"

text \<open>Code units below 2^16, with the surrogates in pairs.\<close>

fun wf_string :: "jstring \<Rightarrow> bool" where
  "wf_string [] = True"
| "wf_string [u] = (u < 65536 \<and> \<not> surrogate u)"
| "wf_string (u # v # us) = (if high_surrogate u \<and> low_surrogate v then wf_string us
     else u < 65536 \<and> \<not> surrogate u \<and> wf_string (v # us))"

lemma decode_unit: "u < 65536 \<Longrightarrow> utf8_decode (utf8_unit u @ bs) = u # utf8_decode bs"
proof -
  assume u: "u < 65536"
  consider "u < 128" | "128 \<le> u" "u < 2048" | "2048 \<le> u" by linarith
  then show ?thesis
  proof cases
    case 2
    define q r where "q = u div 64" and "r = u mod 64"
    have f: "q < 32" "r < 64" "u = q * 64 + r" using 2 by (simp_all add: q_def r_def)
    have "utf8_unit u = [192 + q, 128 + r]" using 2 by (simp add: utf8_unit_def q_def r_def)
    then show ?thesis using f by (simp add: is_cont_def)
  next
    case 3
    define p q r where "p = u div 4096" and "q = u div 64 mod 64" and "r = u mod 64"
    have "u div 64 div 64 = u div 4096" by (simp add: div_mult2_eq[symmetric])
    then have "u = p * 4096 + q * 64 + r"
      using div_mult_mod_eq[of u 64] div_mult_mod_eq[of "u div 64" 64]
      unfolding p_def q_def r_def by linarith
    moreover have "p < 16" "q < 64" "r < 64" using u by (simp_all add: p_def q_def r_def)
    moreover have "utf8_unit u = [224 + p, 128 + q, 128 + r]"
      using 3 by (simp add: utf8_unit_def p_def q_def r_def)
    ultimately show ?thesis by (simp add: is_cont_def)
  qed (simp add: utf8_unit_def)
qed

lemma decode_pair:
  assumes "high_surrogate h" "low_surrogate l"
  shows "utf8_decode (utf8_pair h l @ bs) = h # l # utf8_decode bs"
proof -
  define a b where "a = h - 55296" and "b = l - 56320"
  have hl: "h = 55296 + a" "l = 56320 + b" "a < 1024" "b < 1024"
    using assms by (auto simp: high_surrogate_def low_surrogate_def a_def b_def)
  define c where "c = 65536 + a * 1024 + b"
  have cb: "c < 1114112" "65536 \<le> c" using hl by (simp_all add: c_def)
  define o' p q r where "o' = c div 262144" and "p = c div 4096 mod 64" and "q = c div 64 mod 64" and "r = c mod 64"
  have bounds: "o' < 8" "p < 64" "q < 64" "r < 64" using cb by (simp_all add: o'_def p_def q_def r_def)
  have "c div 64 div 64 = c div 4096" "c div 4096 div 64 = c div 262144"
    by (simp_all add: div_mult2_eq[symmetric])
  then have "o' * 262144 + p * 4096 + q * 64 + r = c"
    using div_mult_mod_eq[of c 64] div_mult_mod_eq[of "c div 64" 64] div_mult_mod_eq[of "c div 4096" 64]
    unfolding o'_def p_def q_def r_def by linarith
  then have cp: "o' * 262144 + p * 4096 + q * 64 + r - 65536 = a * 1024 + b" by (simp add: c_def)
  have "utf8_pair h l = [240 + o', 128 + p, 128 + q, 128 + r]"
    by (simp add: utf8_pair_def Let_def hl o'_def p_def q_def r_def c_def)
  moreover have "(a * 1024 + b) div 1024 = a" "(a * 1024 + b) mod 1024 = b" using hl by simp_all
  ultimately show ?thesis using bounds cp by (simp add: is_cont_def hl)
qed

lemma utf8_roundtrip: "wf_string s \<Longrightarrow> utf8_decode (utf8 s) = s"
proof (induction s rule: wf_string.induct)
  case (2 u)
  then show ?case using decode_unit[of u "[]"] by (simp add: surrogate_def)
next
  case (3 u v us)
  then show ?case by (auto simp: decode_unit decode_pair surrogate_def split: if_splits)
qed simp

section \<open>Lists of entries\<close>

fun offsets :: "nat \<Rightarrow> binary list \<Rightarrow> nat list" where
  "offsets n [] = []"
| "offsets n (b # bs) = n # offsets (n + length (b_buffer b)) bs"

definition buffers :: "binary list \<Rightarrow> buffer" where
  "buffers bs = concat (map b_buffer bs)"

lemma list_of_eq: "list_of bs = (zip bs (offsets 0 bs), buffers bs)"
proof -
  have "foldl list_push (es, d) bs = (es @ zip bs (offsets (length d) bs), d @ buffers bs)" for es d
    by (induction bs arbitrary: es d) (auto simp: list_push_def buffers_def)
  from this[of "[]" "[]"] show ?thesis by (simp add: list_of_def)
qed

lemma length_offsets [simp]: "length (offsets n bs) = length bs"
  by (induction n bs rule: offsets.induct) auto

lemma offsets_nth:
  "i < length bs \<Longrightarrow> drop (offsets n bs ! i - n) (buffers bs) = b_buffer (bs ! i) @ buffers (drop (Suc i) bs) \<and>
     n \<le> offsets n bs ! i \<and> offsets n bs ! i + length (b_buffer (bs ! i)) \<le> n + length (buffers bs)"
proof (induction n bs arbitrary: i rule: offsets.induct)
  case (2 n b bs)
  show ?case
  proof (cases i)
    case (Suc j)
    have IH: "drop (offsets (n + length (b_buffer b)) bs ! j - (n + length (b_buffer b))) (buffers bs) =
        b_buffer (bs ! j) @ buffers (drop (Suc j) bs)" "n + length (b_buffer b) \<le> offsets (n + length (b_buffer b)) bs ! j"
      "offsets (n + length (b_buffer b)) bs ! j + length (b_buffer (bs ! j)) \<le> n + length (b_buffer b) + length (buffers bs)"
      using "2.IH"[of j] "2.prems" Suc by simp_all
    let ?o = "offsets (n + length (b_buffer b)) bs ! j"
    have "?o - n = length (b_buffer b) + (?o - (n + length (b_buffer b)))" using IH(2) by simp
    then have "drop (?o - n) (buffers (b # bs)) = drop (?o - (n + length (b_buffer b))) (buffers bs)"
      by (simp add: buffers_def)
    with IH Suc show ?thesis by (simp add: buffers_def)
  qed (simp add: buffers_def)
qed simp

lemma drop_chunks:
  assumes "\<forall>c\<in>set cs. length c = k" "i < length cs"
  shows "drop (i * k) (concat cs @ post) = cs ! i @ concat (drop (Suc i) cs) @ post"
  using assms
proof (induction cs arbitrary: i)
  case (Cons c cs)
  then show ?case by (cases i) auto
qed simp

lemma length_chunks: "\<forall>c\<in>set cs. length c = k \<Longrightarrow> length (concat cs) = length cs * k"
  by (induction cs) auto

lemma length_fill [simp]: "length (fill k b) = k"
  by (simp add: fill_def)

lemma fill_prefix: "length b \<le> k \<Longrightarrow> \<exists>post. fill k b = b @ post"
  by (simp add: fill_def)

section \<open>Binary values that read back\<close>

definition binary_ok :: "binary \<Rightarrow> bool" where
  "binary_ok b \<longleftrightarrow> b_type b \<le> 12 \<and> \<not> b_isUndefined b \<and> b_buffer b \<noteq> [] \<and>
     (\<forall>k. inlineBufsize (b_type b) = Some k \<longrightarrow> length (b_buffer b) = k)"

lemma isInline_size:
  assumes "isInline t large"
  shows "\<exists>k. inlineBufsize t = Some k \<and> Suc k \<le> (if large then 5 else 3)"
  using assms by (auto simp: isInline_def inlineBufsize_def split: if_splits)

lemma word_entry: "Suc (word_size (isLarge t)) = valueEntrySize t"
  by (simp add: word_size_def valueEntrySize_def)

text \<open>An entry written for a value reads back as its type and a buffer that starts with its bytes.\<close>

lemma value_entry_roundtrip:
  assumes ok: "binary_ok b" and w: "writeValueEntry t ds (b, off) = Inr e" and buf: "drop cursor buf = e @ post"
    and data: "drop (ds + off) buf = b_buffer b @ post'"
  shows "\<exists>p. readValueEntry t buf cursor = Inr (b_type b, b_buffer b @ p)"
proof (cases "isInline (b_type b) (isLarge t)")
  case True
  then obtain k where k: "inlineBufsize (b_type b) = Some k" "Suc k \<le> valueEntrySize t"
    using isInline_size by (fastforce simp: valueEntrySize_def)
  have len: "length (b_buffer b) = k" using ok k(1) by (simp add: binary_ok_def)
  from True w have "e = fill (valueEntrySize t) (b_type b # b_buffer b)" by (simp add: writeValueEntry_def)
  then obtain q where q: "drop cursor buf = b_type b # b_buffer b @ q @ post"
    using fill_prefix[of "b_type b # b_buffer b" "valueEntrySize t"] k(2) len buf by auto
  then have c: "cursor < length buf" by (metis drop_all list.distinct(1) not_le)
  with q have "buf ! cursor = b_type b" by (metis Cons_nth_drop_Suc list.inject)
  moreover have "slice buf (cursor + 1) (cursor + 1 + k) = b_buffer b"
  proof -
    have "slice buf (cursor + 1) (cursor + 1 + k) = take k (drop 1 (drop cursor buf))"
      by (simp add: slice_def drop_take)
    then show ?thesis using q len by simp
  qed
  ultimately show ?thesis using c ok True k(1)
    by (auto simp: readValueEntry_def js_get_def binary_ok_def intro!: exI[of _ "[]"])
next
  case False
  let ?w = "word_size (isLarge t)"
  from False w have n: "ds + off < 256 ^ ?w" and e: "e = fill (valueEntrySize t) (b_type b # le ?w (ds + off))"
    by (auto simp: writeValueEntry_def writeUInt_def split: if_splits)
  have "length (b_type b # le ?w (ds + off)) \<le> valueEntrySize t"
    using word_entry[of t] by simp
  then obtain q where q: "drop cursor buf = b_type b # le ?w (ds + off) @ q @ post"
    using fill_prefix[of "b_type b # le ?w (ds + off)" "valueEntrySize t"] buf e by auto
  then have c: "cursor < length buf" by (metis drop_all list.distinct(1) not_le)
  with q have "buf ! cursor = b_type b" by (metis Cons_nth_drop_Suc list.inject)
  moreover have "drop (cursor + 1) buf = le ?w (ds + off) @ q @ post"
    using q by (metis add.commute drop_drop drop0 drop_Suc_Cons plus_1_eq_Suc)
  then have "readUInt ?w buf (cursor + 1) = Inr (ds + off)"
    by (rule readUInt_le) (use n in \<open>simp_all add: word_size_def\<close>)
  ultimately show ?thesis using c ok False data
    by (auto simp: readValueEntry_def js_get_def binary_ok_def)
qed

lemma key_entry_roundtrip:
  assumes w: "writeKeyEntry t ds (serializeKey k, off) = Inr e" and buf: "drop cursor buf = e @ post"
    and data: "drop (ds + off) buf = utf8 k @ post'" and wf: "wf_string k"
  shows "readKeyEntry t buf cursor = Inr k"
proof -
  let ?w = "word_size (isLarge t)"
  from w have n: "ds + off < 256 ^ ?w" "length (utf8 k) < 65536"
    and e: "e = fill (keyEntrySize t) (le ?w (ds + off) @ le 2 (length (utf8 k)))"
    by (auto simp: writeKeyEntry_def writeUInt_def serializeKey_def Binary_def split: if_splits)
  have "length (le ?w (ds + off) @ le 2 (length (utf8 k))) \<le> keyEntrySize t"
    by (simp add: word_size_def keyEntrySize_def)
  then obtain q where q: "drop cursor buf = le ?w (ds + off) @ le 2 (length (utf8 k)) @ q @ post"
    using fill_prefix[of "le ?w (ds + off) @ le 2 (length (utf8 k))" "keyEntrySize t"] buf e by auto
  have "readUInt ?w buf cursor = Inr (ds + off)"
    by (rule readUInt_le[OF q]) (use n in \<open>simp_all add: word_size_def\<close>)
  moreover have "drop (cursor + ?w) buf = le 2 (length (utf8 k)) @ q @ post"
  proof -
    have "drop (cursor + ?w) buf = drop ?w (drop cursor buf)" by (simp add: add.commute)
    then show ?thesis using q by simp
  qed
  then have "readUInt 2 buf (cursor + ?w) = Inr (length (utf8 k))"
    by (rule readUInt_le) (use n in simp_all)
  moreover have "slice buf (ds + off) (ds + off + length (utf8 k)) = utf8 k"
    using data by (simp add: slice_def drop_take)
  ultimately show ?thesis using utf8_roundtrip[OF wf] by (simp add: readKeyEntry_def Let_def)
qed

section \<open>Round trip of arrays and objects\<close>

definition parses :: "(buffer \<Rightarrow> 'd) \<Rightarrow> binary \<Rightarrow> 'd jval \<Rightarrow> bool" where
  "parses of8 b v \<longleftrightarrow>
     (\<exists>n. \<forall>m\<ge>n. \<forall>post. parse of8 m (b_type b, b_buffer b @ post) = Some (Inr v))"

definition item_of :: "binary \<Rightarrow> nat \<times> buffer \<Rightarrow> bool" where
  "item_of b it \<longleftrightarrow> (\<exists>p. it = (b_type b, b_buffer b @ p))"

lemma parse_items_all:
  assumes "list_all2 (parses of8) bs vs"
  shows "\<exists>N. \<forall>m\<ge>N. \<forall>items. list_all2 item_of bs items \<longrightarrow> parse_items (parse of8 m) items = Some (Inr vs)"
  using assms
proof (induction rule: list_all2_induct)
  case (Cons b bs v vs)
  from Cons.IH obtain N where N: "\<And>m items. N \<le> m \<Longrightarrow> list_all2 item_of bs items \<Longrightarrow>
      parse_items (parse of8 m) items = Some (Inr vs)"
    by blast
  from Cons.hyps(1) obtain n where n: "\<And>m post. n \<le> m \<Longrightarrow> parse of8 m (b_type b, b_buffer b @ post) = Some (Inr v)"
    unfolding parses_def by blast
  show ?case
  proof (intro exI[of _ "max N n"] allI impI)
    fix m items assume "max N n \<le> m" "list_all2 item_of (b # bs) items"
    then show "parse_items (parse of8 m) items = Some (Inr (v # vs))"
      using N n by (auto simp: list_all2_Cons1 item_of_def)
  qed
qed simp

lemma parsesI:
  assumes "\<And>m post. N \<le> m \<Longrightarrow> parse of8 (Suc m) (t, buf @ post) = Some (Inr v)"
  shows "parses of8 (Binary t buf) v"
  unfolding parses_def
proof (intro exI[of _ "Suc N"] allI impI)
  fix m post assume "Suc N \<le> m"
  then obtain k where "m = Suc k" "N \<le> k" by (metis Suc_le_D Suc_le_mono)
  then show "parse of8 m (b_type (Binary t buf), b_buffer (Binary t buf) @ post) = Some (Inr v)"
    using assms by (simp add: Binary_def)
qed

lemma rmap_nth:
  assumes "rmap f xs = Inr ys"
  shows "length ys = length xs" "i < length xs \<Longrightarrow> f (xs ! i) = Inr (ys ! i)"
  using assms unfolding rmap_Inr_iff by (simp_all add: list_all2_conv_all_nth)

lemma readEntries_values:
  assumes "\<And>i. i < length bs \<Longrightarrow> \<exists>p. rd (H + i * E) = Inr (b_type (bs ! i), b_buffer (bs ! i) @ p)"
  shows "\<exists>items. readEntries rd H E (length bs) = Inr items \<and> list_all2 item_of bs items"
proof -
  have "\<exists>items. rmap (\<lambda>i. rd (H + i * E)) [0..<length bs] = Inr items \<and>
      list_all2 (\<lambda>i it. item_of (bs ! i) it) [0..<length bs] items"
    by (rule rmap_total) (use assms in \<open>fastforce simp: item_of_def\<close>)
  then show ?thesis by (auto simp: readEntries_def list_all2_conv_all_nth)
qed

lemma readEntries_keys:
  assumes "\<And>i. i < length ks \<Longrightarrow> rd (H + i * E) = Inr (ks ! i)"
  shows "readEntries rd H E (length ks) = Inr ks"
  unfolding readEntries_def rmap_Inr_iff using assms by (simp add: list_all2_conv_all_nth)

text \<open>The written value entries, given that the end of the data can be expressed in an offset.\<close>

lemma write_values:
  assumes "ds + length (buffers bs) < 256 ^ word_size (isLarge t)"
  shows "\<exists>ve. rmap (writeValueEntry t ds) (zip bs (offsets 0 bs)) = Inr ve \<and> length ve = length bs \<and>
    (\<forall>e\<in>set ve. length e = valueEntrySize t)"
proof -
  have "\<exists>ve. rmap (writeValueEntry t ds) (zip bs (offsets 0 bs)) = Inr ve \<and>
      list_all2 (\<lambda>_ e. length e = valueEntrySize t) (zip bs (offsets 0 bs)) ve"
  proof (rule rmap_total)
    fix x assume "x \<in> set (zip bs (offsets 0 bs))"
    then obtain i where i: "i < length bs" "x = (bs ! i, offsets 0 bs ! i)" by (auto simp: set_zip)
    then have "ds + offsets 0 bs ! i < 256 ^ word_size (isLarge t)"
      using offsets_nth[of i bs 0] assms by linarith
    then show "\<exists>y. writeValueEntry t ds x = Inr y \<and> length y = valueEntrySize t"
      by (auto simp: i writeValueEntry_def writeUInt_ok)
  qed
  then show ?thesis by (fastforce simp: list_all2_conv_all_nth in_set_conv_nth)
qed

text \<open>Reading the entries of a buffer in which they start at \<open>H\<close> and the data at \<open>ds\<close>.\<close>

lemma read_values:
  assumes ok: "\<forall>b\<in>set bs. binary_ok b" and ve: "rmap (writeValueEntry t ds) (zip bs (offsets 0 bs)) = Inr ve"
    and E: "\<forall>e\<in>set ve. length e = valueEntrySize t" and H: "drop H buf = concat ve @ post"
    and D: "drop ds buf = buffers bs @ post'"
  shows "\<exists>items. readEntries (readValueEntry t buf) H (valueEntrySize t) (length bs) = Inr items \<and>
    list_all2 item_of bs items"
proof (rule readEntries_values)
  fix i assume i: "i < length bs"
  have l: "length ve = length bs" and w: "writeValueEntry t ds (bs ! i, offsets 0 bs ! i) = Inr (ve ! i)"
    using rmap_nth[OF ve] i by simp_all
  have "drop (H + i * valueEntrySize t) buf = drop (i * valueEntrySize t) (drop H buf)" by (simp add: add.commute)
  also have "\<dots> = ve ! i @ concat (drop (Suc i) ve) @ post"
    unfolding H by (rule drop_chunks) (use E i l in auto)
  finally have c: "drop (H + i * valueEntrySize t) buf = ve ! i @ concat (drop (Suc i) ve) @ post" .
  note o' = offsets_nth[OF i, of 0]
  have "drop (ds + offsets 0 bs ! i) buf = drop (offsets 0 bs ! i) (buffers bs @ post')"
    using D by (metis add.commute drop_drop)
  also have "\<dots> = b_buffer (bs ! i) @ buffers (drop (Suc i) bs) @ post'"
    using o' by simp
  finally have d: "drop (ds + offsets 0 bs ! i) buf = b_buffer (bs ! i) @ buffers (drop (Suc i) bs) @ post'" .
  show "\<exists>p. readValueEntry t buf (H + i * valueEntrySize t) = Inr (b_type (bs ! i), b_buffer (bs ! i) @ p)"
    by (rule value_entry_roundtrip[OF _ w c d]) (use ok i in simp)
qed

lemma readHeader_written:
  assumes "writeHeader t n sz = Inr h" "length (h @ body) = sz"
  shows "readHeader t ((h @ body) @ post) = Inr (n, h @ body)"
proof -
  let ?w = "word_size (isLarge t)"
  from assms(1) have h: "h = le ?w n @ le ?w sz" "n < 256 ^ ?w" "sz < 256 ^ ?w"
    by (auto simp: writeHeader_def writeUInt_def split: if_splits)
  have w: "0 < ?w" by (simp add: word_size_def)
  have "readUInt ?w ((h @ body) @ post) 0 = Inr n"
    by (rule readUInt_le[OF _ w h(2)]) (simp add: h(1))
  moreover have "readUInt ?w ((h @ body) @ post) ?w = Inr sz"
    by (rule readUInt_le[OF _ w h(3)]) (simp add: h(1))
  ultimately show ?thesis using assms(2) by (simp add: readHeader_def slice_def)
qed

lemma writeHeader_ok:
  "n < 256 ^ word_size (isLarge t) \<Longrightarrow> sz < 256 ^ word_size (isLarge t) \<Longrightarrow>
   writeHeader t n sz = Inr (le (word_size (isLarge t)) n @ le (word_size (isLarge t)) sz)"
  by (simp add: writeHeader_def writeUInt_ok)

lemma headerSize_words: "headerSize t = 2 * word_size (isLarge t)"
  by (simp add: headerSize_def word_size_def)

lemma array_roundtrip:
  fixes items :: "binary list"
  defines "bs \<equiv> map (\<lambda>b. if b_isUndefined b then binaryNull else b) items"
  assumes ok: "\<forall>b\<in>set bs. binary_ok b" and ps: "list_all2 (parses of8) bs vs"
    and bound: "8 + 5 * length bs + length (buffers bs) < 2 ^ 32"
  shows "\<exists>B. serializeArray items = Inr B \<and> parses of8 B (VArray vs) \<and> binary_ok B \<and>
    length (b_buffer B) \<le> 8 + 5 * length bs + length (buffers bs)"
proof -
  define l where "l = list_of bs"
  define t where "t = (if array_size TYPE_SMALL_ARRAY l > 65535 then TYPE_LARGE_ARRAY else TYPE_SMALL_ARRAY)"
  define H where "H = headerSize t"
  define ds where "ds = H + valueEntrySize t * length bs"
  define sz where "sz = array_size t l"
  let ?w = "word_size (isLarge t)"
  have l: "l = (zip bs (offsets 0 bs), buffers bs)" by (simp add: l_def list_of_eq)
  have tot: "sz = ds + length (buffers bs)" "sz \<le> 8 + 5 * length bs + length (buffers bs)"
    by (simp_all add: sz_def array_size_def ds_def H_def l headerSize_def valueEntrySize_def)
  have fits: "sz < 256 ^ ?w"
    using bound tot(2) by (auto simp: t_def sz_def isLarge_def word_size_def split: if_splits)
  have n: "length bs \<le> sz"
    using tot(1) by (simp add: ds_def valueEntrySize_def)
  define h where "h = le ?w (length bs) @ le ?w sz"
  have h: "writeHeader t (length bs) sz = Inr h" "length h = H"
    using writeHeader_ok[of "length bs" t sz] n fits by (simp_all add: h_def H_def headerSize_words)
  obtain ve where ve: "rmap (writeValueEntry t ds) (zip bs (offsets 0 bs)) = Inr ve" "length ve = length bs"
    "\<forall>e\<in>set ve. length e = valueEntrySize t"
    using write_values[of ds bs t] fits tot(1) by auto
  define body where "body = concat ve @ buffers bs"
  have lc: "length (concat ve) = length bs * valueEntrySize t" using length_chunks[OF ve(3)] ve(2) by simp
  have lb: "length (h @ body) = sz" using h(2) lc tot(1) by (simp add: body_def ds_def mult.commute)
  have B: "serializeArray items = Inr (Binary t (h @ body))"
    unfolding serializeArray_def Let_def bs_def[symmetric] l_def[symmetric] t_def[symmetric] sz_def[symmetric]
    using h(1) ve(1) by (simp add: l ds_def H_def body_def)
  obtain N where N: "\<And>m its. N \<le> m \<Longrightarrow> list_all2 item_of bs its \<Longrightarrow>
      parse_items (parse of8 m) its = Some (Inr vs)"
    using parse_items_all[OF ps] by blast
  obtain its where its: "readEntries (readValueEntry t (h @ body)) H (valueEntrySize t) (length bs) = Inr its"
    "list_all2 item_of bs its"
  proof -
    have "drop H (h @ body) = concat ve @ buffers bs" using h(2) by (simp add: body_def)
    moreover have "drop ds (h @ body) = buffers bs @ []"
      using h(2) lc by (simp add: body_def ds_def mult.commute)
    ultimately show ?thesis using read_values[OF ok ve(1,3)] that by blast
  qed
  have tt: "t = TYPE_SMALL_ARRAY \<or> t = TYPE_LARGE_ARRAY" by (simp add: t_def)
  have "parses of8 (Binary t (h @ body)) (VArray vs)"
  proof (rule parsesI)
    fix m post assume "N \<le> m"
    with readHeader_written[OF h(1) lb, of post] its N[OF _ its(2)] tt
    show "parse of8 (Suc m) (t, (h @ body) @ post) = Some (Inr (VArray vs))" by (auto simp: H_def)
  qed
  moreover have "binary_ok (Binary t (h @ body))"
    using tt le_ne[of ?w] by (auto simp: binary_ok_def Binary_def inlineBufsize_def h_def word_size_def)
  ultimately show ?thesis using B lb tot(2) by (auto simp: Binary_def)
qed

text \<open>The members of an object.\<close>

lemma write_keys:
  assumes "ds + length (buffers (map serializeKey ks)) < 256 ^ word_size (isLarge t)"
    "\<forall>k\<in>set ks. length (utf8 k) < 65536"
  shows "\<exists>ke. rmap (writeKeyEntry t ds) (zip (map serializeKey ks) (offsets 0 (map serializeKey ks))) = Inr ke \<and>
    length ke = length ks \<and> (\<forall>e\<in>set ke. length e = keyEntrySize t)"
proof -
  let ?bs = "map serializeKey ks"
  have "\<exists>ke. rmap (writeKeyEntry t ds) (zip ?bs (offsets 0 ?bs)) = Inr ke \<and>
      list_all2 (\<lambda>_ e. length e = keyEntrySize t) (zip ?bs (offsets 0 ?bs)) ke"
  proof (rule rmap_total)
    fix x assume "x \<in> set (zip ?bs (offsets 0 ?bs))"
    then obtain i where i: "i < length ?bs" "x = (?bs ! i, offsets 0 ?bs ! i)" by (auto simp: set_zip)
    then have "ds + offsets 0 ?bs ! i < 256 ^ word_size (isLarge t)"
      using offsets_nth[of i ?bs 0] assms(1) by linarith
    moreover have "length (b_buffer (?bs ! i)) < 65536"
      using i assms(2) by (simp add: serializeKey_def Binary_def)
    ultimately show "\<exists>y. writeKeyEntry t ds x = Inr y \<and> length y = keyEntrySize t"
      by (auto simp: i(2) writeKeyEntry_def writeUInt_ok)
  qed
  then show ?thesis by (fastforce simp: list_all2_conv_all_nth in_set_conv_nth)
qed

lemma read_keys:
  assumes ok: "\<forall>k\<in>set ks. wf_string k"
    and ke: "rmap (writeKeyEntry t ds) (zip (map serializeKey ks) (offsets 0 (map serializeKey ks))) = Inr ke"
    and E: "\<forall>e\<in>set ke. length e = keyEntrySize t" and H: "drop H buf = concat ke @ post"
    and D: "drop ds buf = buffers (map serializeKey ks) @ post'"
  shows "readEntries (readKeyEntry t buf) H (keyEntrySize t) (length ks) = Inr ks"
proof (rule readEntries_keys)
  fix i assume i: "i < length ks"
  let ?bs = "map serializeKey ks"
  have l: "length ke = length ks" and w: "writeKeyEntry t ds (serializeKey (ks ! i), offsets 0 ?bs ! i) = Inr (ke ! i)"
    using rmap_nth[OF ke] i by simp_all
  have "drop (H + i * keyEntrySize t) buf = drop (i * keyEntrySize t) (drop H buf)" by (simp add: add.commute)
  also have "\<dots> = ke ! i @ concat (drop (Suc i) ke) @ post"
    unfolding H by (rule drop_chunks) (use E i l in auto)
  finally have c: "drop (H + i * keyEntrySize t) buf = ke ! i @ concat (drop (Suc i) ke) @ post" .
  have "drop (ds + offsets 0 ?bs ! i) buf = drop (offsets 0 ?bs ! i) (buffers ?bs @ post')"
    using D by (metis add.commute drop_drop)
  also have "\<dots> = utf8 (ks ! i) @ buffers (drop (Suc i) ?bs) @ post'"
    using offsets_nth[of i ?bs 0] i by (simp add: serializeKey_def Binary_def)
  finally show "readKeyEntry t buf (H + i * keyEntrySize t) = Inr (ks ! i)"
    by (rule key_entry_roundtrip[OF w c]) (use ok i in simp)
qed

lemma jput_new: "k \<notin> fst ` set ps \<Longrightarrow> jput ps k v = ps @ [(k, v)]"
  by (induction ps k v rule: jput.induct) auto

lemma put_members_distinct:
  assumes "distinct ks" "length vs = length ks"
  shows "put_members ks vs = zip ks vs"
proof -
  have "foldl (\<lambda>o' (k, v). jput o' k v) acc ms = acc @ ms" if "distinct (map fst (acc @ ms))" for acc ms :: "(jstring \<times> 'a) list"
    using that
  proof (induction ms arbitrary: acc)
    case (Cons m ms)
    then show ?case by (cases m) (auto simp: jput_new)
  qed simp
  from this[of "[]" "zip ks vs"] show ?thesis using assms by (simp add: put_members_def)
qed

lemma object_roundtrip:
  fixes items :: "(jstring \<times> binary) list"
  defines "valid \<equiv> filter (\<lambda>(k, b). \<not> b_isUndefined b) items"
  defines "ks \<equiv> map fst valid" and "bs \<equiv> map snd valid"
  assumes ok: "\<forall>b\<in>set bs. binary_ok b" and ps: "list_all2 (parses of8) bs vs"
    and wf: "\<forall>k\<in>set ks. wf_string k \<and> length (utf8 k) < 65536" "distinct ks"
    and bound: "8 + 11 * length bs + length (buffers bs) + length (concat (map utf8 ks)) < 2 ^ 32"
  shows "\<exists>B. serializeObject items = Inr B \<and> parses of8 B (VObject (zip ks vs)) \<and> binary_ok B \<and>
    length (b_buffer B) \<le> 8 + 11 * length bs + length (buffers bs) + length (concat (map utf8 ks))"
proof -
  let ?kb = "map serializeKey ks"
  define lk lv where "lk = list_of ?kb" and "lv = list_of bs"
  define t where "t = (if object_size TYPE_SMALL_OBJ lk lv > 65535 then TYPE_LARGE_OBJ else TYPE_SMALL_OBJ)"
  define H where "H = headerSize t"
  define vp where "vp = H + keyEntrySize t * length ks"
  define kd where "kd = vp + valueEntrySize t * length bs"
  define vd where "vd = kd + length (buffers ?kb)"
  define sz where "sz = object_size t lk lv"
  let ?w = "word_size (isLarge t)"
  have n: "length ks = length bs" by (simp add: ks_def bs_def)
  have l: "lk = (zip ?kb (offsets 0 ?kb), buffers ?kb)" "lv = (zip bs (offsets 0 bs), buffers bs)"
    by (simp_all add: lk_def lv_def list_of_eq)
  have kb: "buffers ?kb = concat (map utf8 ks)"
    by (simp add: buffers_def serializeKey_def Binary_def comp_def)
  have tot: "sz = vd + length (buffers bs)"
    "sz \<le> 8 + 11 * length bs + length (buffers bs) + length (concat (map utf8 ks))"
    by (simp_all add: sz_def object_size_def vd_def kd_def vp_def H_def l n kb[symmetric] headerSize_def valueEntrySize_def keyEntrySize_def)
  have fits: "sz < 256 ^ ?w"
    using bound tot(2) by (auto simp: t_def sz_def isLarge_def word_size_def split: if_splits)
  have nsz: "length bs \<le> sz"
    using tot(1) by (simp add: vd_def kd_def valueEntrySize_def)
  define h where "h = le ?w (length bs) @ le ?w sz"
  have h: "writeHeader t (length bs) sz = Inr h" "length h = H"
    using writeHeader_ok[of "length bs" t sz] nsz fits by (simp_all add: h_def H_def headerSize_words)
  obtain ve where ve: "rmap (writeValueEntry t vd) (zip bs (offsets 0 bs)) = Inr ve" "length ve = length bs"
    "\<forall>e\<in>set ve. length e = valueEntrySize t"
    using write_values[of vd bs t] fits tot(1) by auto
  obtain ke where ke: "rmap (writeKeyEntry t kd) (zip ?kb (offsets 0 ?kb)) = Inr ke" "length ke = length ks"
    "\<forall>e\<in>set ke. length e = keyEntrySize t"
    using write_keys[of kd ks t] fits tot(1) wf(1) by (auto simp: vd_def)
  define body where "body = concat ke @ concat ve @ buffers ?kb @ buffers bs"
  have lc: "length (concat ve) = valueEntrySize t * length bs" "length (concat ke) = keyEntrySize t * length ks"
    using length_chunks[OF ve(3)] length_chunks[OF ke(3)] ve(2) ke(2) by (simp_all add: mult.commute)
  have lb: "length (h @ body) = sz" using h(2) lc tot(1) by (simp add: body_def vd_def kd_def vp_def)
  have B: "serializeObject items = Inr (Binary t (h @ body))"
  proof -
    have km: "map (\<lambda>(k, b). serializeKey k) valid = ?kb" by (auto simp: ks_def)
    show ?thesis
      unfolding serializeObject_def Let_def valid_def[symmetric] km bs_def[symmetric] lk_def[symmetric] lv_def[symmetric]
        t_def[symmetric] sz_def[symmetric]
      using h ke(1) ve(1) lb n by (simp add: l body_def H_def vd_def kd_def vp_def)
  qed
  obtain N where N: "\<And>m its. N \<le> m \<Longrightarrow> list_all2 item_of bs its \<Longrightarrow>
      parse_items (parse of8 m) its = Some (Inr vs)"
    using parse_items_all[OF ps] by blast
  have dv: "drop vd (h @ body) = buffers bs @ []"
    using h(2) lc by (simp add: body_def vd_def kd_def vp_def)
  have dk: "drop kd (h @ body) = buffers ?kb @ buffers bs"
    using h(2) lc by (simp add: body_def kd_def vp_def)
  have de: "drop vp (h @ body) = concat ve @ buffers ?kb @ buffers bs"
    using h(2) lc by (simp add: body_def vp_def)
  have dh: "drop H (h @ body) = concat ke @ concat ve @ buffers ?kb @ buffers bs"
    using h(2) by (simp add: body_def)
  obtain its where its: "readEntries (readValueEntry t (h @ body)) vp (valueEntrySize t) (length bs) = Inr its"
    "list_all2 item_of bs its"
    using read_values[OF ok ve(1,3) de dv] by blast
  have keys: "readEntries (readKeyEntry t (h @ body)) H (keyEntrySize t) (length bs) = Inr ks"
    using read_keys[OF _ ke(1,3) dh dk] wf(1) n by simp
  have tt: "t = TYPE_SMALL_OBJ \<or> t = TYPE_LARGE_OBJ" by (simp add: t_def)
  have pm: "put_members ks vs = zip ks vs"
    using put_members_distinct[OF wf(2), of vs] list_all2_lengthD[OF ps] n by simp
  have "parses of8 (Binary t (h @ body)) (VObject (zip ks vs))"
  proof (rule parsesI)
    fix m post assume "N \<le> m"
    with readHeader_written[OF h(1) lb, of post] its N[OF _ its(2)] keys tt pm n
    show "parse of8 (Suc m) (t, (h @ body) @ post) = Some (Inr (VObject (zip ks vs)))" by (auto simp: H_def vp_def)
  qed
  moreover have "binary_ok (Binary t (h @ body))"
    using tt le_ne[of ?w] by (auto simp: binary_ok_def Binary_def inlineBufsize_def h_def word_size_def)
  ultimately show ?thesis using B lb tot(2) by (auto simp: Binary_def)
qed

section \<open>Round trip of values\<close>

text \<open>The order of the members: by the length of the key, then by the code units.\<close>

lemma str_less_trans: "str_less a b \<Longrightarrow> str_less b c \<Longrightarrow> str_less a c"
proof (induction a b arbitrary: c rule: str_less.induct)
  case (1 bs)
  then show ?case by (cases c; cases bs) auto
next
  case (3 a as b bs)
  then show ?case by (cases c) auto
qed simp

lemma str_less_total: "a \<noteq> b \<Longrightarrow> \<not> str_less a b \<Longrightarrow> str_less b a"
  by (induction a b rule: str_less.induct) auto

definition key_before :: "jstring \<Rightarrow> jstring \<Rightarrow> bool" where
  "key_before a b \<longleftrightarrow> length a < length b \<or> length a = length b \<and> str_less a b"

lemma sortKeys_key_before: "sortKeys a b < 0 \<longleftrightarrow> key_before a b"
  by (auto simp: sortKeys_def key_before_def)

lemma key_before_trans: "key_before a b \<Longrightarrow> key_before b c \<Longrightarrow> key_before a c"
  using str_less_trans[of a b c] by (auto simp: key_before_def)

lemma key_before_total: "a \<noteq> b \<Longrightarrow> \<not> key_before a b \<Longrightarrow> key_before b a"
  using str_less_total[of a b] by (auto simp: key_before_def not_less)

lemma insert_member_sorted:
  "sorted_wrt (\<lambda>a b. key_before (fst a) (fst b)) xs \<Longrightarrow> fst m \<notin> fst ` set xs \<Longrightarrow>
   sorted_wrt (\<lambda>a b. key_before (fst a) (fst b)) (insert_member m xs)"
proof (induction xs)
  case (Cons x xs)
  show ?case
  proof (cases "key_before (fst m) (fst x)")
    case True
    with Cons.prems key_before_trans show ?thesis by (fastforce simp: sortKeys_key_before)
  next
    case False
    then have "key_before (fst x) (fst m)" using Cons.prems(2) by (intro key_before_total) auto
    with False Cons show ?thesis by (auto simp: sortKeys_key_before)
  qed
qed simp

lemma sort_members_Cons: "sort_members (m # ms) = insert_member m (sort_members ms)"
  by (simp add: sort_members_def)

lemma sort_members_Nil [simp]: "sort_members [] = []"
  by (simp add: sort_members_def)

lemma sort_members_sorted:
  "distinct (map fst ms) \<Longrightarrow> sorted_wrt (\<lambda>a b. key_before (fst a) (fst b)) (sort_members ms)"
  by (induction ms) (auto simp: sort_members_Cons intro!: insert_member_sorted)

lemma distinct_sort_members: "distinct (map fst ms) \<Longrightarrow> distinct (map fst (sort_members ms))"
proof -
  have "distinct (map fst (insert_member m xs)) \<longleftrightarrow> fst m \<notin> fst ` set xs \<and> distinct (map fst xs)"
    for m :: "jstring \<times> 'a" and xs by (induction xs) auto
  then show "distinct (map fst ms) \<Longrightarrow> distinct (map fst (sort_members ms))"
    by (induction ms) (auto simp: sort_members_Cons)
qed

lemma sum_sort_members: "sum_list (map f (sort_members ms)) = sum_list (map f ms)" for f :: "_ \<Rightarrow> nat"
proof -
  have "sum_list (map f (insert_member m xs)) = f m + sum_list (map f xs)" for m xs by (induction xs) auto
  then show ?thesis by (induction ms) (auto simp: sort_members_Cons)
qed

text \<open>
  What a value becomes: undefined items of an array are \<open>null\<close>, undefined members are left out and
  the others are in the order of their keys. A number, a string, a key that the format can hold, and
  a bound on the number of bytes.
\<close>

fun undef :: "'d jval \<Rightarrow> bool" where
  "undef VUndef = True"
| "undef VFun = True"
| "undef _ = False"

fun norm :: "'d jval \<Rightarrow> 'd jval" where
  "norm (VArray vs) = VArray (map (\<lambda>v. if undef v then VNull else norm v) vs)"
| "norm (VObject ms) =
     VObject (map (\<lambda>m. (fst m, norm (snd m))) (filter (\<lambda>m. \<not> undef (snd m)) (sort_members ms)))"
| "norm v = v"

fun serializable :: "'d jval \<Rightarrow> bool" where
  "serializable (VInt n) \<longleftrightarrow> - (2 ^ 31) \<le> n \<and> n < 2 ^ 32"
| "serializable (VString s) \<longleftrightarrow> wf_string s"
| "serializable (VArray vs) \<longleftrightarrow> (\<forall>v\<in>set vs. serializable v)"
| "serializable (VObject ms) \<longleftrightarrow> distinct (map fst ms) \<and>
     (\<forall>m\<in>set ms. wf_string (fst m) \<and> length (utf8 (fst m)) < 65536 \<and> serializable (snd m))"
| "serializable _ \<longleftrightarrow> True"

fun bsize :: "'d jval \<Rightarrow> nat" where
  "bsize (VString s) = 5 + length (utf8 s)"
| "bsize (VArray vs) = 8 + (\<Sum>v\<leftarrow>vs. 5 + bsize v)"
| "bsize (VObject ms) = 8 + (\<Sum>m\<leftarrow>ms. 11 + length (utf8 (fst m)) + bsize (snd m))"
| "bsize _ = 8"

definition faithful :: "(buffer \<Rightarrow> 'd) \<Rightarrow> 'd jval \<Rightarrow> 'd jval \<Rightarrow> binary \<Rightarrow> bool" where
  "faithful of8 v w b \<longleftrightarrow> parses of8 b w \<and> binary_ok b \<and> length (b_buffer b) \<le> bsize v"

lemma literal_faithful:
  "faithful of8 v VNull binaryNull \<longleftrightarrow> 1 \<le> bsize v"
  "faithful of8 v (VBool True) binaryTrue \<longleftrightarrow> 1 \<le> bsize v"
  "faithful of8 v (VBool False) binaryFalse \<longleftrightarrow> 1 \<le> bsize v"
proof -
  have "parses of8 binaryNull VNull" "parses of8 binaryTrue (VBool True)" "parses of8 binaryFalse (VBool False)"
    unfolding binaryNull_def binaryTrue_def binaryFalse_def by (rule parsesI, simp add: parseLiteral_def)+
  then show "faithful of8 v VNull binaryNull \<longleftrightarrow> 1 \<le> bsize v"
    "faithful of8 v (VBool True) binaryTrue \<longleftrightarrow> 1 \<le> bsize v"
    "faithful of8 v (VBool False) binaryFalse \<longleftrightarrow> 1 \<le> bsize v"
    by (auto simp: faithful_def binary_ok_def binaryNull_def binaryTrue_def binaryFalse_def Binary_def inlineBufsize_def)
qed

lemma int_faithful:
  assumes "- (256 ^ k) \<le> 2 * i" "2 * i < 256 ^ k" "k = 2 \<and> t = TYPE_INT16 \<or> k = 4 \<and> t = TYPE_INT32"
  shows "\<exists>b. writeInt k i = Inr b \<and> faithful of8 (VInt i) (VInt i) (Binary t b)"
proof (intro exI conjI)
  show "writeInt k i = Inr (le k (nat (i mod 256 ^ k)))" using assms(1,2) by (simp add: writeInt_def)
  have "readInt k (le k (nat (i mod 256 ^ k)) @ post) 0 = Inr i" for post
    by (rule read_writeInt[OF assms(1,2)]) (use assms(3) in auto)
  then have "parses of8 (Binary t (le k (nat (i mod 256 ^ k)))) (VInt i)"
    using assms(3) by (intro parsesI) auto
  then show "faithful of8 (VInt i) (VInt i) (Binary t (le k (nat (i mod 256 ^ k))))"
    using assms(3) le_ne[of k] by (auto simp: faithful_def binary_ok_def Binary_def inlineBufsize_def)
qed

lemma uint_faithful:
  assumes "0 \<le> i" "i < 256 ^ k" "k = 2 \<and> t = TYPE_UINT16 \<or> k = 4 \<and> t = TYPE_UINT32"
  shows "\<exists>b. writeUInt k (nat i) = Inr b \<and> faithful of8 (VInt i) (VInt i) (Binary t b)"
proof (intro exI conjI)
  have n: "nat i < 256 ^ k" using assms(1,2) by (metis nat_less_numeral_power_cancel_iff)
  then show "writeUInt k (nat i) = Inr (le k (nat i))" by (rule writeUInt_ok)
  have "readUInt k (le k (nat i) @ post) 0 = Inr (nat i)" for post
    by (rule readUInt_le[OF _ _ n]) (use assms(3) in auto)
  then have "parses of8 (Binary t (le k (nat i))) (VInt i)"
    using assms(1,3) by (intro parsesI) auto
  then show "faithful of8 (VInt i) (VInt i) (Binary t (le k (nat i)))"
    using assms(3) le_ne[of k] by (auto simp: faithful_def binary_ok_def Binary_def inlineBufsize_def)
qed

lemma number_faithful:
  assumes "- (2 ^ 31) \<le> n" "n < 2 ^ 32"
  shows "\<exists>b. serializeNumber n = Inr b \<and> faithful of8 (VInt n) (VInt n) b"
proof -
  consider "-32768 \<le> n" "n < 32768" | "32768 \<le> n" "n \<le> 65535"
    | "n < -32768 \<or> 65535 < n" "-2147483648 \<le> n" "n < 2147483648" | "2147483648 \<le> n" "n \<le> 4294967295"
    using assms by fastforce
  then show ?thesis
  proof cases
    case 1
    with int_faithful[of 2 n TYPE_INT16 of8] show ?thesis by (auto simp: serializeNumber_def serializeInt16_def)
  next
    case 2
    with uint_faithful[of n 2 TYPE_UINT16 of8] show ?thesis by (auto simp: serializeNumber_def serializeInt16_def)
  next
    case 3
    with int_faithful[of 4 n TYPE_INT32 of8] show ?thesis by (auto simp: serializeNumber_def serializeInt32_def)
  next
    case 4
    with uint_faithful[of n 4 TYPE_UINT32 of8] show ?thesis by (auto simp: serializeNumber_def serializeInt32_def)
  qed
qed

lemma string_faithful:
  assumes "wf_string s" "5 + length (utf8 s) < 2 ^ 31"
  shows "faithful of8 (VString s) (VString s) (serializeString s)"
proof -
  let ?n = "length (utf8 s)"
  have vl: "length (varlen ?n) \<le> 5" using length_varlen[of ?n 4] assms(2) by simp
  have "parseString ((varlen ?n @ utf8 s) @ post) = s" for post
  proof -
    have "varlen_parse (varlen ?n @ utf8 s @ post) 5 0 0 = (?n, length (varlen ?n))"
      using varlen_parse_varlen[of ?n 5 0 "[]" "utf8 s @ post"] assms(2) by simp
    then show ?thesis using assms utf8_roundtrip[OF assms(1)] by (simp add: parseString_def slice_def)
  qed
  then have "parses of8 (serializeString s) (VString s)"
    unfolding serializeString_def Let_def by (intro parsesI) simp
  moreover have "varlen ?n \<noteq> []" by (subst varlen.simps) simp
  ultimately show ?thesis using vl
    by (auto simp: faithful_def binary_ok_def serializeString_def Let_def Binary_def inlineBufsize_def)
qed

lemma list_all2_filter:
  "list_all2 P xs ys \<Longrightarrow> (\<And>x y. P x y \<Longrightarrow> f x \<longleftrightarrow> g y) \<Longrightarrow>
   list_all2 (\<lambda>x y. P x y \<and> f x) (filter f xs) (filter g ys)"
  by (induction rule: list_all2_induct) auto

text \<open>The items of an array, and the defined members of an object, from those of the parts.\<close>

definition part_ok :: "(buffer \<Rightarrow> 'd) \<Rightarrow> 'd jval \<Rightarrow> binary \<Rightarrow> bool" where
  "part_ok of8 v b \<longleftrightarrow> (if undef v then b_isUndefined b else faithful of8 v (norm v) b)"

lemma faithful_defined: "faithful of8 v w b \<Longrightarrow> \<not> b_isUndefined b"
  by (simp add: faithful_def binary_ok_def)

lemma array_parts:
  assumes "list_all2 (part_ok of8) vs items"
  defines "bs \<equiv> map (\<lambda>b. if b_isUndefined b then binaryNull else b) items"
  shows "\<forall>b\<in>set bs. binary_ok b"
    and "list_all2 (parses of8) bs (map (\<lambda>v. if undef v then VNull else norm v) vs)"
    and "length (buffers bs) \<le> sum_list (map bsize vs)" "length bs = length vs"
proof -
  have nul: "undef v \<Longrightarrow> faithful of8 v VNull binaryNull" for v
    by (cases v) (simp_all add: literal_faithful)
  have "(\<forall>b\<in>set bs. binary_ok b) \<and> list_all2 (parses of8) bs (map (\<lambda>v. if undef v then VNull else norm v) vs) \<and>
      length (buffers bs) \<le> sum_list (map bsize vs) \<and> length bs = length vs"
    unfolding bs_def using assms(1)
  proof (induction rule: list_all2_induct)
    case (Cons v vs b bs)
    let ?b = "if b_isUndefined b then binaryNull else b"
    have "faithful of8 v (if undef v then VNull else norm v) ?b"
      using Cons.hyps(1) nul[of v] by (auto simp: part_ok_def dest: faithful_defined)
    with Cons.IH show ?case by (simp add: faithful_def buffers_def)
  qed (simp add: buffers_def)
  then show "\<forall>b\<in>set bs. binary_ok b"
    "list_all2 (parses of8) bs (map (\<lambda>v. if undef v then VNull else norm v) vs)"
    "length (buffers bs) \<le> sum_list (map bsize vs)" "length bs = length vs" by blast+
qed

definition member_ok :: "(buffer \<Rightarrow> 'd) \<Rightarrow> jstring \<times> 'd jval \<Rightarrow> jstring \<times> binary \<Rightarrow> bool" where
  "member_ok of8 m mb \<longleftrightarrow> fst mb = fst m \<and> part_ok of8 (snd m) (snd mb)"

lemma object_parts:
  assumes "list_all2 (member_ok of8) ms items"
  defines "valid \<equiv> filter (\<lambda>(k, b). \<not> b_isUndefined b) items" and "dm \<equiv> filter (\<lambda>m. \<not> undef (snd m)) ms"
  shows "\<forall>b\<in>set (map snd valid). binary_ok b" "map fst valid = map fst dm"
    and "list_all2 (parses of8) (map snd valid) (map (\<lambda>m. norm (snd m)) dm)"
    and "11 * length (map snd valid) + length (buffers (map snd valid)) + length (concat (map utf8 (map fst valid))) \<le>
      (\<Sum>m\<leftarrow>ms. 11 + length (utf8 (fst m)) + bsize (snd m))"
proof -
  have "(\<forall>b\<in>set (map snd valid). binary_ok b) \<and> map fst valid = map fst dm \<and>
    list_all2 (parses of8) (map snd valid) (map (\<lambda>m. norm (snd m)) dm) \<and>
    11 * length (map snd valid) + length (buffers (map snd valid)) + length (concat (map utf8 (map fst valid))) \<le>
      (\<Sum>m\<leftarrow>ms. 11 + length (utf8 (fst m)) + bsize (snd m))"
    unfolding valid_def dm_def using assms(1)
  proof (induction rule: list_all2_induct)
    case (Cons m ms mb mbs)
    obtain b where mb: "mb = (fst m, b)" "part_ok of8 (snd m) b"
      using Cons.hyps(1) by (cases mb) (simp add: member_ok_def)
    show ?case
    proof (cases "undef (snd m)")
      case True
      with mb have "b_isUndefined b" by (simp add: part_ok_def)
      with mb(1) True Cons.IH show ?thesis by (elim conjE) (simp del: map_map set_map)
    next
      case False
      with mb have f: "faithful of8 (snd m) (norm (snd m)) b" by (simp add: part_ok_def)
      from f Cons.IH False faithful_defined[OF f] show ?thesis
        by (elim conjE) (simp add: mb(1) faithful_def buffers_def del: map_map set_map)
    qed
  qed (simp add: buffers_def)
  then show "\<forall>b\<in>set (map snd valid). binary_ok b" "map fst valid = map fst dm"
    "list_all2 (parses of8) (map snd valid) (map (\<lambda>m. norm (snd m)) dm)"
    "11 * length (map snd valid) + length (buffers (map snd valid)) + length (concat (map utf8 (map fst valid))) \<le>
      (\<Sum>m\<leftarrow>ms. 11 + length (utf8 (fst m)) + bsize (snd m))" by blast+
qed

lemma sum_list_mem_le: "x \<in> set xs \<Longrightarrow> f x \<le> sum_list (map f xs)" for f :: "_ \<Rightarrow> nat"
  by (induction xs) auto

lemma serialize_faithful:
  assumes d: "\<And>d. length (to8 d) = 8 \<and> of8 (to8 d) = d"
  shows "serializable v \<Longrightarrow> bsize v < 2 ^ 31 \<Longrightarrow> \<exists>b. serialize to8 v = Inr b \<and> part_ok of8 v b"
proof (induction v)
  case (VArray vs)
  have "\<exists>items. rmap (serialize to8) vs = Inr items \<and> list_all2 (part_ok of8) vs items"
  proof (rule rmap_total)
    fix v assume v: "v \<in> set vs"
    then have "bsize v < 2 ^ 31" using VArray.prems(2) sum_list_mem_le[OF v, of "\<lambda>v. 5 + bsize v"] by simp
    then show "\<exists>b. serialize to8 v = Inr b \<and> part_ok of8 v b"
      using VArray.IH[OF v] VArray.prems(1) v by simp
  qed
  then obtain items where items: "rmap (serialize to8) vs = Inr items" "list_all2 (part_ok of8) vs items" by blast
  note parts = array_parts[OF items(2)]
  have b: "8 + 5 * length vs + sum_list (map bsize vs) = bsize (VArray vs)"
    by (simp add: sum_list_addf sum_list_triv)
  from array_roundtrip[OF parts(1,2)] parts(3,4) b VArray.prems(2) items(1)
  show ?case by (fastforce simp: part_ok_def faithful_def binary_ok_def)
next
  case (VObject ms)
  have sum: "bsize (VObject ms) = 8 + (\<Sum>m\<leftarrow>sort_members ms. 11 + length (utf8 (fst m)) + bsize (snd m))"
    by (simp add: sum_sort_members)
  have "\<exists>items. rmap (\<lambda>m. rbind (serialize to8 (snd m)) (\<lambda>b. Inr (fst m, b))) (sort_members ms) = Inr items \<and>
      list_all2 (member_ok of8) (sort_members ms) items"
  proof (rule rmap_total)
    fix m assume m: "m \<in> set (sort_members ms)"
    then have "bsize (snd m) < 2 ^ 31"
      using VObject.prems(2) sum sum_list_mem_le[OF m, of "\<lambda>m. 11 + length (utf8 (fst m)) + bsize (snd m)"] by simp
    then have "\<exists>b. serialize to8 (snd m) = Inr b \<and> part_ok of8 (snd m) b"
      using VObject.IH[of m "snd m"] VObject.prems(1) m by (auto simp: snds.simps)
    then show "\<exists>y. rbind (serialize to8 (snd m)) (\<lambda>b. Inr (fst m, b)) = Inr y \<and> member_ok of8 m y"
      by (auto simp: member_ok_def)
  qed
  then obtain items where items: "rmap (\<lambda>m. rbind (serialize to8 (snd m)) (\<lambda>b. Inr (fst m, b))) (sort_members ms) = Inr items"
    "list_all2 (member_ok of8) (sort_members ms) items" by blast
  note parts = object_parts[OF items(2)]
  let ?dm = "filter (\<lambda>m. \<not> undef (snd m)) (sort_members ms)"
  have "distinct (map fst ?dm)"
    using distinct_sort_members[of ms] VObject.prems(1) by (simp add: distinct_map_filter)
  moreover have "zip (map fst ?dm) (map (\<lambda>m. norm (snd m)) ?dm) = map (\<lambda>m. (fst m, norm (snd m))) ?dm"
    by (simp add: zip_map_map zip_same_conv_map)
  ultimately show ?case
    using object_roundtrip[OF parts(1,3)] parts(2,4) sum VObject.prems items(1)
    by (fastforce simp: part_ok_def faithful_def binary_ok_def)
next
  case (VDouble d)
  then show ?case using d[of d]
    by (auto simp: part_ok_def faithful_def binary_ok_def Binary_def inlineBufsize_def intro!: parsesI[unfolded Binary_def])
next
  case (VInt n)
  then show ?case using number_faithful[of n of8] by (simp add: part_ok_def)
qed (auto simp: part_ok_def binaryUndefined_def literal_faithful string_faithful)

section \<open>Properties\<close>

text \<open>
  C12: Every defined value made of whole numbers in [-2^31, 2^32), doubles, well-formed strings, and
  arrays and objects of them, of a size that the format can express, is serialized, and parsing the
  bytes gives the value back, with \<open>null\<close> for the undefined items of arrays, without the undefined
  members of objects, and with the members in the order of their keys; some amount of fuel is
  enough, so the parser returns.
\<close>

theorem serialize_roundtrip:
  assumes "\<And>d. length (to8 d) = 8 \<and> of8 (to8 d) = d"
    and "serializable v" "bsize v < 2 ^ 31" "\<not> undef v"
  shows "\<exists>buf n. serialize_public to8 v = Inr (Some buf) \<and>
    (\<forall>m\<ge>n. parse_public of8 m (Some buf) = Some (Inr (norm v)))"
proof -
  from serialize_faithful[OF assms(1-3)] assms(4) obtain b where
    b: "serialize to8 v = Inr b" "faithful of8 v (norm v) b" by (auto simp: part_ok_def)
  then obtain n where n: "\<And>m post. n \<le> m \<Longrightarrow> parse of8 m (b_type b, b_buffer b @ post) = Some (Inr (norm v))"
    unfolding faithful_def parses_def by blast
  obtain x xs where x: "b_buffer b = x # xs" and ok: "b_type b \<le> 12" "\<not> b_isUndefined b"
    using b(2) by (auto simp: faithful_def binary_ok_def neq_Nil_conv)
  have "parse_public of8 m (Some (b_type b # b_buffer b)) = Some (Inr (norm v))" if "n \<le> m" for m
    using n[OF that, of "[]"] ok by (simp add: parse_public_def x)
  moreover have "serialize_public to8 v = Inr (Some (b_type b # b_buffer b))"
    using b(1) ok by (simp add: serialize_public_def)
  ultimately show ?thesis by blast
qed

theorem serialize_roundtrip_witness:
  "\<exists>buf n. serialize_public (\<lambda>w. le 8 (unat w))
      (VObject [([98], VArray [VInt (- 50000), VUndef, VString [233, 55357, 56832]]), ([97], VFun),
                ([97, 98], VDouble (0x3FF8000000000000 :: 64 word)), ([99], VNull)]) = Inr (Some buf) \<and>
    (\<forall>m\<ge>n. parse_public (\<lambda>bs. word_of_nat (unle bs)) m (Some buf) =
      Some (Inr (VObject [([98], VArray [VInt (- 50000), VNull, VString [233, 55357, 56832]]), ([99], VNull),
                          ([97, 98], VDouble (0x3FF8000000000000 :: 64 word))])))"
proof -
  have d: "length (le 8 (unat w)) = 8 \<and> word_of_nat (unle (le 8 (unat w))) = w" for w :: "64 word"
  proof -
    have "unat w < 256 ^ 8" using unsigned_less[of w, where 'a = nat] by simp
    then show ?thesis by (simp add: unle_le)
  qed
  note [simp] = surrogate_def high_surrogate_def low_surrogate_def utf8_pair_def utf8_unit_def
    sort_members_def sortKeys_def
  show ?thesis
    using serialize_roundtrip[of "\<lambda>w. le 8 (unat w)" "\<lambda>bs. word_of_nat (unle bs)"
      "VObject [([98], VArray [VInt (- 50000), VUndef, VString [233, 55357, 56832]]), ([97], VFun),
                ([97, 98], VDouble (0x3FF8000000000000 :: 64 word)), ([99], VNull)]", OF d]
    by simp
qed

text \<open>
  A whole number from 2^32 to 2^48 - 1 is serialized, with its six bytes written two bytes too
  far, but parsing what was written always throws, as the parser has no case for 64-bit numbers;
  the numbers below -2^31 and those of 2^48 and more are refused when they are serialized.
\<close>

theorem int64_not_parsed:
  assumes "n < - (2 ^ 31) \<or> 2 ^ 32 \<le> n"
  shows "serialize_public to8 (VInt n) =
      (if n < 0 then Inl AssertionError
       else if n < 2 ^ 48 then Inr (Some (10 # 0 # 0 # le 6 (nat n))) else Inl RangeError) \<and>
    parse_public of8 (Suc m) (Some (10 # 0 # 0 # le 6 (nat n))) = Some (Inl AssertionError)"
proof -
  have "nat n < 256 ^ 6 \<longleftrightarrow> n < 2 ^ 48" using assms by (auto simp: nat_less_iff)
  then show ?thesis using assms
    by (auto simp: serialize_public_def serializeNumber_def serializeInt64_def writeUInt_def Binary_def parse_public_def)
qed

theorem int64_not_parsed_witness:
  "serialize_public (le 8) (VInt 4294967296) = Inr (Some [10, 0, 0, 0, 0, 0, 0, 1, 0]) \<and>
   parse_public unle (Suc 4) (Some [10, 0, 0, 0, 0, 0, 0, 1, 0]) = Some (Inl AssertionError)"
proof -
  have six: "(6 :: nat) = Suc (Suc (Suc (Suc (Suc (Suc 0)))))" by simp
  have "le (Suc (Suc (Suc (Suc (Suc (Suc 0)))))) (nat 4294967296) = [0, 0, 0, 0, 1, 0]" by simp
  then have "le 6 (nat 4294967296) = [0, 0, 0, 0, 1, 0]" unfolding six .
  then show ?thesis using int64_not_parsed[of 4294967296 "le 8" unle 4] by simp
qed

text \<open>
  The parser follows any offset: on an array of one item whose entry points back to the array
  itself it descends forever, so that no amount of fuel gives a result.
\<close>

theorem self_reference_never_parsed:
  "parse_public of8 fuel (Some [2, 1, 0, 7, 0, 2, 0, 0]) = None"
proof -
  let ?buf = "[1, 0, 7, 0, 2, 0, 0]"
  have h: "readHeader 2 ?buf = Inr (1, ?buf)" by code_simp
  have e: "readEntries (readValueEntry 2 ?buf) 4 3 1 = Inr [(2, ?buf)]" by code_simp
  have "parse of8 n (2, ?buf) = None" for n
  proof (induction n)
    case (Suc n)
    then show ?case using h e by (simp add: headerSize_def valueEntrySize_def isLarge_def)
  qed simp
  then show ?thesis by (simp add: parse_public_def)
qed

end
