(* ===== verification/TableMapping.thy ===== *)
theory TableMapping
  imports Prelude
begin

text \<open>
  \<^verbatim>\<open>Adapter/api/TableMapping.js\<close> and \<^verbatim>\<open>Adapter/api/Meta.js\<close>: the description that a user gives of how a
  table is mapped to objects, and the checks it goes through. Literals are values of \<open>js\<close>, so every
  kind of wrong argument is a case of the model. A \<open>Meta\<close> is an object that carries the methods of its
  prototype as properties. The parameter \<open>call\<close> says whether calling a function of a literal returns a
  truthy value. A message is the list of its parts, where the text that the standard library makes
  of a value (\<open>JSON.stringify\<close>, concatenation, \<open>util.inspect\<close>) stays symbolic. A property of a literal
  that is named like a method of every object (such as \<open>toString\<close>) is not modelled.
\<close>

section \<open>Reading literals\<close>

datatype msg_part = Txt string | Json js | Text js | Inspect js

type_synonym msg = "msg_part list"

abbreviation (input) nl :: string where "nl \<equiv> [CHR 0x0A]"

definition has_own :: "js \<Rightarrow> string \<Rightarrow> bool" where
  "has_own v p \<longleftrightarrow> p \<in> fst ` set (own_props v)"

text \<open>A read of a property of a value that is neither \<open>undefined\<close> nor \<open>null\<close>.\<close>

definition js_prop :: "js \<Rightarrow> string \<Rightarrow> js" where
  "js_prop v p = obj_get (own_props v) p"

definition nullish :: "js \<Rightarrow> bool" where
  "nullish v \<longleftrightarrow> v = JUndef \<or> v = JNull"

definition isArray :: "js \<Rightarrow> bool" where
  "isArray v = (case v of JArr _ \<Rightarrow> True | _ \<Rightarrow> False)"

section \<open>Meta\<close>

definition new_Meta :: "(string \<times> js) list" where
  "new_Meta = [(''isNullable'', JBool True), (''isMeta'', JFun ''isMeta'')]"

text \<open>The loop writes the property named \<open>p\<close>, not the one whose name is the value of \<open>p\<close>.\<close>

definition fromLiteralMeta :: "js \<Rightarrow> js" where
  "fromLiteralMeta literal =
     JObj (fold (\<lambda>_ m. obj_put m ''p'' (js_prop literal ''p'')) (own_props literal) new_Meta)"

section \<open>The verifiers of values\<close>

definition isString :: "js \<Rightarrow> bool res" where
  "isString v = Inr (js_typeof v = ''string'')"

definition isNonEmptyString :: "js \<Rightarrow> bool res" where
  "isNonEmptyString v = Inr (case v of JStr s \<Rightarrow> 0 < length s | _ \<Rightarrow> False)"

definition isEmptyString :: "js \<Rightarrow> bool res" where
  "isEmptyString v = Inr (v = JStr [])"

definition isBool :: "js \<Rightarrow> bool res" where
  "isBool v = Inr (v = JBool True \<or> v = JBool False)"

definition isConverter :: "js \<Rightarrow> bool" where
  "isConverter v \<longleftrightarrow> v = JNull \<or> js_typeof v = ''object'' \<and>
     js_typeof (js_prop v ''toDB'') = ''function'' \<and> js_typeof (js_prop v ''fromDB'') = ''function''"

definition isConverterMap :: "js \<Rightarrow> bool res" where
  "isConverterMap v = Inr (list_all (\<lambda>(p, c). isConverter c) (own_props v))"

definition isFunction :: "js \<Rightarrow> bool res" where
  "isFunction v = Inr (js_typeof v = ''function'')"

definition isMeta :: "(string \<Rightarrow> bool) \<Rightarrow> js \<Rightarrow> bool res" where
  "isMeta call v =
     (if \<not> js_truthy v \<or> \<not> js_truthy (js_prop v ''isMeta'') then Inr False
      else case js_prop v ''isMeta'' of JFun f \<Rightarrow> Inr (call f) | _ \<Rightarrow> Inl TypeError)"

definition isLiteralMeta :: "js \<Rightarrow> bool" where
  "isLiteralMeta v \<longleftrightarrow> js_truthy v \<and> js_typeof v = ''object'' \<and> js_typeof (js_prop v ''isNullable'') = ''boolean''"

definition isMetaOrLiteral :: "(string \<Rightarrow> bool) \<Rightarrow> js \<Rightarrow> bool res" where
  "isMetaOrLiteral call v = rbind (isMeta call v) (\<lambda>b. Inr (b \<or> isLiteralMeta v))"

definition isMinimalField :: "js \<Rightarrow> bool res" where
  "isMinimalField v = Inr (js_typeof v = ''object'' \<and> v \<noteq> JNull \<and> js_typeof (js_prop v ''fieldName'') = ''string'')"

fun every :: "('a \<Rightarrow> bool res) \<Rightarrow> 'a list \<Rightarrow> bool res" where
  "every f [] = Inr True"
| "every f (x # xs) = rbind (f x) (\<lambda>b. if b then every f xs else Inr False)"

definition isArrayOf :: "(js \<Rightarrow> bool res) \<Rightarrow> js \<Rightarrow> bool res" where
  "isArrayOf f v = (case v of JArr xs \<Rightarrow> every f xs | _ \<Rightarrow> Inr False)"

definition isElementOrArrayOf :: "(js \<Rightarrow> bool res) \<Rightarrow> js \<Rightarrow> bool res" where
  "isElementOrArrayOf f v = (case v of JArr xs \<Rightarrow> isArrayOf f v | _ \<Rightarrow> f v)"

section \<open>The verifier of a literal object\<close>

record literal_verifier =
  requiredProperties :: "string list"
  allowedProperties :: "string list"
  verifiers :: "string \<rightharpoonup> (js \<Rightarrow> bool res)"

definition lov_set :: "string \<Rightarrow> (js \<Rightarrow> bool res) \<Rightarrow> literal_verifier \<Rightarrow> literal_verifier" where
  "lov_set name f V = V\<lparr>allowedProperties := allowedProperties V @ [name], verifiers := (verifiers V)(name \<mapsto> f)\<rparr>"

definition setRequired :: "string \<Rightarrow> literal_verifier \<Rightarrow> literal_verifier" where
  "setRequired p V = V\<lparr>requiredProperties := requiredProperties V @ [p]\<rparr>"

definition LiteralObjectVerifier :: literal_verifier where
  "LiteralObjectVerifier =
     lov_set ''user'' (\<lambda>_. Inr True) \<lparr>requiredProperties = [], allowedProperties = [], verifiers = Map.empty\<rparr>"

definition checkProperty :: "literal_verifier \<Rightarrow> string \<Rightarrow> js \<Rightarrow> msg res" where
  "checkProperty V p v = (case verifiers V p of
       Some f \<Rightarrow> rbind (f v) (\<lambda>ok. Inr (if ok then [] else [Txt (''property '' @ p @ '' invalid: ''), Json v]))
     | None \<Rightarrow> Inr [Txt (''unknown property '' @ p @ ''; '')])"

definition missing :: "string \<Rightarrow> msg" where
  "missing req = [Txt (''Required property '' @ [CHR 0x27] @ req @ [CHR 0x27] @ '' is missing; '')]"

definition getErrors :: "literal_verifier \<Rightarrow> js \<Rightarrow> msg res" where
  "getErrors V literal =
     rbind (rmap (\<lambda>(p, v). checkProperty V p v) (own_props literal)) (\<lambda>ms.
       if nullish literal \<and> requiredProperties V \<noteq> [] then Inl TypeError
       else Inr (concat ms @
         concat (map (\<lambda>req. if has_own literal req then [] else missing req) (requiredProperties V))))"

definition copy_allowed :: "literal_verifier \<Rightarrow> (string \<times> js) list \<Rightarrow> js \<Rightarrow> (string \<times> js) list" where
  "copy_allowed V ob literal =
     fold (\<lambda>k ob. if js_prop literal k \<noteq> JUndef then obj_put ob k (js_prop literal k) else ob)
       (allowedProperties V) ob"

definition buildObjectFromLiteral ::
  "literal_verifier \<Rightarrow> (string \<times> js) list \<Rightarrow> js \<Rightarrow> ((string \<times> js) list \<times> msg) res" where
  "buildObjectFromLiteral V ob literal =
     rbind (getErrors V literal) (\<lambda>errors.
       Inr (if errors = [] then copy_allowed V ob literal else ob, errors))"

definition getValidator :: "literal_verifier \<Rightarrow> js \<Rightarrow> bool res" where
  "getValidator V v = rbind (getErrors V v) (\<lambda>errors. Inr (errors = []))"

definition BasicFieldVerifier :: literal_verifier where
  "BasicFieldVerifier =
     setRequired ''fieldName''
    (lov_set ''relationship'' isBool
    (lov_set ''converter'' (\<lambda>v. Inr (isConverter v))
    (lov_set ''persistent'' isBool
    (lov_set ''columnName'' isString
    (lov_set ''fieldName'' isNonEmptyString LiteralObjectVerifier)))))"

definition fieldMappingProperties :: "(string \<Rightarrow> bool) \<Rightarrow> literal_verifier" where
  "fieldMappingProperties call =
     lov_set ''meta'' (isMetaOrLiteral call) (lov_set ''toManyColumns'' (isArrayOf isString) BasicFieldVerifier)"

record relationship_verifier = literal_verifier +
  rv_type :: string
  rv_ctor :: "(string \<times> js) list"

definition Relationship :: "bool \<Rightarrow> bool \<Rightarrow> (string \<times> js) list" where
  "Relationship toMany manyTo =
     [(''relationship'', JBool True), (''persistent'', JBool True), (''toMany'', JBool toMany),
      (''manyTo'', JBool manyTo), (''target'', JNull), (''targetField'', JStr []), (''columnName'', JStr []),
      (''foreignKey'', JStr []), (''converter'', JNull), (''error'', JStr [])]"

definition RelationshipVerifier :: "string \<Rightarrow> (string \<times> js) list \<Rightarrow> literal_verifier \<Rightarrow> relationship_verifier" where
  "RelationshipVerifier type' ctor V = literal_verifier.extend V \<lparr>rv_type = type', rv_ctor = ctor\<rparr>"

definition basic_relationship :: literal_verifier where
  "basic_relationship = lov_set ''targetField'' isNonEmptyString (setRequired ''target''
     (lov_set ''target'' isFunction BasicFieldVerifier))"

definition manyToOneMappingProperties :: relationship_verifier where
  "manyToOneMappingProperties = RelationshipVerifier ''ManyToOne'' (Relationship False True)
     (lov_set ''foreignKey'' isNonEmptyString basic_relationship)"

definition oneToManyMappingProperties :: relationship_verifier where
  "oneToManyMappingProperties = RelationshipVerifier ''OneToMany'' (Relationship True False) basic_relationship"

definition manyToManyMappingProperties :: relationship_verifier where
  "manyToManyMappingProperties = RelationshipVerifier ''ManyToMany'' (Relationship True True @ [(''joinTable'', JStr [])])
     (lov_set ''joinTable'' isNonEmptyString basic_relationship)"

definition oneToOneMappingProperties :: relationship_verifier where
  "oneToOneMappingProperties = RelationshipVerifier ''OneToOne'' (Relationship False False)
     (lov_set ''foreignKey'' isNonEmptyString basic_relationship)"

definition tableMappingProperties :: "(string \<Rightarrow> bool) \<Rightarrow> literal_verifier" where
  "tableMappingProperties call =
     setRequired ''table''
    (lov_set ''columnConverterMap'' isConverterMap
    (lov_set ''error'' isEmptyString
    (lov_set ''sparseContainer'' (getValidator (fieldMappingProperties call))
    (lov_set ''meta'' (isElementOrArrayOf (isMetaOrLiteral call))
    (lov_set ''excludedFieldNames'' (isArrayOf isNonEmptyString)
    (lov_set ''fields'' (isArrayOf isMinimalField)
    (lov_set ''mapAllColumns'' isBool
    (lov_set ''database'' isString
    (lov_set ''table'' isNonEmptyString LiteralObjectVerifier)))))))))"

section \<open>The mapping and its constructor\<close>

text \<open>
  The properties of the mapping but for \<open>error\<close>, which is a message. (A valid literal has no \<open>error\<close>
  or an empty one, and the constructor sets the property anew after copying it.)
\<close>

record table_mapping =
  tm_props :: "(string \<times> js) list"
  tm_error :: msg

definition tm_get :: "table_mapping \<Rightarrow> string \<Rightarrow> js" where
  "tm_get tm p = obj_get (tm_props tm) p"

definition tm_put :: "string \<Rightarrow> js \<Rightarrow> table_mapping \<Rightarrow> table_mapping" where
  "tm_put p v tm = tm\<lparr>tm_props := obj_put (tm_props tm) p v\<rparr>"

definition add_error :: "msg \<Rightarrow> table_mapping \<Rightarrow> table_mapping" where
  "add_error m tm = tm\<lparr>tm_error := tm_error tm @ m\<rparr>"

definition isValid :: "table_mapping \<Rightarrow> bool" where
  "isValid tm \<longleftrightarrow> tm_error tm = []"

text \<open>\<open>push\<close> on a property that is to hold an array, and reading it as an array.\<close>

definition js_items :: "js \<Rightarrow> js list" where
  "js_items v = (case v of JArr xs \<Rightarrow> xs | _ \<Rightarrow> [])"

definition tm_push :: "string \<Rightarrow> js \<Rightarrow> table_mapping \<Rightarrow> table_mapping res" where
  "tm_push p v tm = (case tm_get tm p of JArr xs \<Rightarrow> Inr (tm_put p (JArr (xs @ [v])) tm) | _ \<Rightarrow> Inl TypeError)"

definition initial_mapping :: table_mapping where
  "initial_mapping = \<lparr>tm_props = [(''table'', JStr []), (''database'', JStr []), (''mapAllColumns'', JBool True),
     (''fields'', JArr []), (''excludedFieldNames'', JArr []), (''meta'', JArr []), (''columnConverterMap'', JObj [])],
     tm_error = []\<rparr>"

text \<open>The literal after its property \<open>fields\<close> has been made an array; it is the caller's object.\<close>

definition normalise_fields :: "js \<Rightarrow> js" where
  "normalise_fields literal =
     (let put = (\<lambda>v. case literal of JObj ps \<Rightarrow> JObj (obj_put ps ''fields'' v) | _ \<Rightarrow> literal) in
      if js_truthy (js_prop literal ''field'') \<and> \<not> js_truthy (js_prop literal ''fields'')
      then put (JArr [js_prop literal ''field''])
      else if js_truthy (js_prop literal ''fields'') \<and> \<not> isArray (js_prop literal ''fields'')
      then put (JArr [js_prop literal ''fields'']) else literal)"

definition constructFromObject :: "(string \<Rightarrow> bool) \<Rightarrow> js \<Rightarrow> table_mapping \<Rightarrow> (table_mapping \<times> js) res" where
  "constructFromObject call literal tm =
     (if nullish literal then Inl TypeError
      else let literal' = normalise_fields literal in
        rbind (buildObjectFromLiteral (tableMappingProperties call) (tm_props tm) literal') (\<lambda>(ps, errors).
          Inr (\<lparr>tm_props = filter (\<lambda>(k, _). k \<noteq> ''error'') ps, tm_error = errors\<rparr>, literal')))"

fun split_on :: "char \<Rightarrow> string \<Rightarrow> string list" where
  "split_on c [] = [[]]"
| "split_on c (x # xs) = (if x = c then [] # split_on c xs
     else (case split_on c xs of [] \<Rightarrow> [[x]] | w # ws \<Rightarrow> (x # w) # ws))"

definition part :: "string list \<Rightarrow> nat \<Rightarrow> string" where
  "part ws i = (if i < length ws then ws ! i else [])"

definition constructFromTableName :: "string \<Rightarrow> table_mapping \<Rightarrow> table_mapping" where
  "constructFromTableName tableName tm =
     (let parts = split_on (CHR ''.'') tableName in
      if part parts 2 \<noteq> [] \<or> CHR '' '' \<in> set tableName
      then tm\<lparr>tm_error := [Txt ''MappingError: tableName must contain one or two parts: [database.]table'']\<rparr>
      else if part parts 0 \<noteq> [] \<and> part parts 1 \<noteq> []
      then tm_put ''table'' (JStr (part parts 1)) (tm_put ''database'' (JStr (part parts 0)) tm)
      else tm_put ''table'' (JStr (part parts 0)) tm)"

fun assignMeta :: "(string \<Rightarrow> bool) \<Rightarrow> nat \<Rightarrow> js list \<Rightarrow> table_mapping \<Rightarrow> table_mapping res" where
  "assignMeta call i [] tm = Inr tm"
| "assignMeta call i (arg # args) tm =
     rbind (isMeta call arg) (\<lambda>m.
     rbind (if m then tm_push ''meta'' arg tm
            else if isLiteralMeta arg then tm_push ''meta'' (fromLiteralMeta arg) tm
            else Inr (add_error [Txt (''MappingError: valid arguments are meta; invalid argument '' @
                        nat_str i @ '': ('' @ js_typeof arg @ '') ''), Text arg] tm))
       (assignMeta call (Suc i) args))"

text \<open>
  The result is the mapping and the first argument after the call. The array \<open>meta\<close> of a valid
  literal is shared with the mapping, so what \<open>assignMeta\<close> adds shows up in the literal.
\<close>

definition new_TableMapping :: "(string \<Rightarrow> bool) \<Rightarrow> js list \<Rightarrow> (table_mapping \<times> js) res" where
  "new_TableMapping call args =
     (let arg = (case args of [] \<Rightarrow> JUndef | a # _ \<Rightarrow> a) in
      if js_typeof arg = ''object'' then
        rbind (constructFromObject call arg initial_mapping) (\<lambda>(tm, literal).
        rbind (assignMeta call 1 (tl args) tm) (\<lambda>tm'.
          Inr (tm', case literal of
              JObj ps \<Rightarrow> if isValid tm \<and> obj_get ps ''meta'' \<noteq> JUndef
                         then JObj (obj_put ps ''meta'' (tm_get tm' ''meta'')) else literal
            | _ \<Rightarrow> literal)))
      else case arg of
        JStr s \<Rightarrow> rbind (assignMeta call 1 (tl args) (constructFromTableName s initial_mapping)) (\<lambda>tm. Inr (tm, arg))
      | _ \<Rightarrow> Inr (initial_mapping\<lparr>tm_error := [Txt ''TableMapping(): string tableName or literal tableMapping is a required parameter.'']\<rparr>, arg))"

section \<open>Mapping fields\<close>

definition field_name :: "js \<Rightarrow> js" where "field_name f = js_prop f ''fieldName''"

definition getFieldMapping :: "table_mapping \<Rightarrow> js \<Rightarrow> js option" where
  "getFieldMapping tm name = List.find (\<lambda>f. field_name f = name) (js_items (tm_get tm ''fields''))"

definition FieldMapping :: "js \<Rightarrow> (string \<times> js) list" where
  "FieldMapping fieldName = [(''fieldName'', fieldName), (''persistent'', JBool True)]"

text \<open>The literal that the arguments after the name build up, with the errors for the others.\<close>

fun mapField_args :: "(string \<Rightarrow> bool) \<Rightarrow> js list \<Rightarrow> (string \<times> js) list \<Rightarrow> table_mapping \<Rightarrow>
    ((string \<times> js) list \<times> table_mapping) res" where
  "mapField_args call [] lit tm = Inr (lit, tm)"
| "mapField_args call (arg # args) lit tm =
     rbind (if js_typeof arg = ''string'' then Inr (obj_put lit ''columnName'' arg, tm)
            else if js_typeof arg = ''boolean'' then Inr (obj_put lit ''persistent'' arg, tm)
            else if js_typeof arg = ''object'' then
              rbind (isMeta call arg) (\<lambda>m.
                if m then Inr (obj_put lit ''meta'' arg, tm)
                else if isLiteralMeta arg then Inr (obj_put lit ''meta'' (fromLiteralMeta arg), tm)
                else if isConverter arg then Inr (obj_put lit ''converter'' arg, tm)
                else rbind (isArrayOf isString arg) (\<lambda>b.
                  if b then Inr (obj_put lit ''toManyColumns'' arg, tm)
                  else Inr (lit, add_error [Txt ''mapField(): Invalid argument '', Text arg] tm)))
            else Inr (lit, add_error [Txt ''mapField(): Invalid argument '', Text arg] tm))
       (\<lambda>(lit', tm'). mapField_args call args lit' tm')"

definition mapField_literal :: "(string \<Rightarrow> bool) \<Rightarrow> js \<Rightarrow> table_mapping \<Rightarrow> table_mapping res" where
  "mapField_literal call literal tm =
     rbind (getErrors (fieldMappingProperties call) literal) (\<lambda>errors.
       if errors \<noteq> [] then Inr (add_error errors tm)
       else let fieldName = js_prop literal ''fieldName'' in
         if getFieldMapping tm fieldName \<noteq> None
         then Inr (add_error [Txt (nl @ ''mapField(): \"''), Text fieldName,
                    Txt ''\" is duplicated; it cannot replace an existing field.''] tm)
         else
           rbind (buildObjectFromLiteral (fieldMappingProperties call) (FieldMapping fieldName) literal) (\<lambda>(fm, _).
           rbind (tm_push ''fields'' (JObj fm) tm) (\<lambda>tm'.
             if js_truthy (obj_get fm ''persistent'') then Inr tm'
             else tm_push ''excludedFieldNames'' (obj_get fm ''fieldName'') tm')))"

definition mapField :: "(string \<Rightarrow> bool) \<Rightarrow> js list \<Rightarrow> table_mapping \<Rightarrow> table_mapping res" where
  "mapField call args tm =
     (let arg = (case args of [] \<Rightarrow> JUndef | a # _ \<Rightarrow> a) in
      if js_typeof arg = ''string'' then
        rbind (mapField_args call (tl args) [(''fieldName'', arg)] tm) (\<lambda>(lit, tm').
          mapField_literal call (JObj lit) tm')
      else if js_typeof arg = ''object'' then mapField_literal call arg tm
      else Inr (add_error [Txt ''mapField() expects a literal FieldMapping or valid arguments list''] tm))"

definition createRelationshipField ::
  "relationship_verifier \<Rightarrow> js \<Rightarrow> table_mapping \<Rightarrow> (table_mapping \<times> js option) res" where
  "createRelationshipField V literal tm =
     (let V' = literal_verifier.truncate V in
      rbind (getErrors V' literal) (\<lambda>errors.
        let e1 = (if \<not> js_truthy (js_prop literal ''targetField'') \<and> \<not> js_truthy (js_prop literal ''foreignKey'') \<and>
                     \<not> js_truthy (js_prop literal ''joinTable'')
                  then [Txt (nl @ ''MappingError: targetField, foreignKey, or joinTable is a required field for relationship mapping'')] else []);
            e2 = (if getFieldMapping tm (js_prop literal ''fieldName'') \<noteq> None
                  then [Txt (nl @ ''MappingError: relationship field \"''), Text (js_prop literal ''fieldName''), Txt ''\" is duplicated.''] else []);
            errorMessage = errors @ e1 @ e2 in
        if errorMessage \<noteq> [] then Inr (add_error errorMessage tm, None)
        else rbind (buildObjectFromLiteral V' (rv_ctor V) literal) (\<lambda>(r, _). Inr (tm, Some (JObj r)))))"

definition mapRelationship :: "relationship_verifier \<Rightarrow> js \<Rightarrow> table_mapping \<Rightarrow> table_mapping res" where
  "mapRelationship V literal tm =
     (if js_typeof literal \<noteq> ''object'' then
        Inr (add_error [Txt (nl @ ''MappingError: map'' @ rv_type V @ '' supports only literal field mapping'')] tm)
      else if nullish literal then Inl TypeError
      else if getFieldMapping tm (js_prop literal ''fieldName'') \<noteq> None then
        Inr (add_error [Txt ''\"'', Text (js_prop literal ''fieldName''),
          Txt ''\" is duplicated; it cannot replace an existing field.''] tm)
      else rbind (createRelationshipField V literal tm) (\<lambda>(tm', mapping).
        case mapping of Some f \<Rightarrow> tm_push ''fields'' f tm' | None \<Rightarrow> Inr tm'))"

definition mapOneToOne :: "js \<Rightarrow> table_mapping \<Rightarrow> table_mapping res" where
  "mapOneToOne = mapRelationship oneToOneMappingProperties"

definition mapManyToOne :: "js \<Rightarrow> table_mapping \<Rightarrow> table_mapping res" where
  "mapManyToOne = mapRelationship manyToOneMappingProperties"

definition mapOneToMany :: "js \<Rightarrow> table_mapping \<Rightarrow> table_mapping res" where
  "mapOneToMany = mapRelationship oneToManyMappingProperties"

definition mapManyToMany :: "js \<Rightarrow> table_mapping \<Rightarrow> table_mapping res" where
  "mapManyToMany = mapRelationship manyToManyMappingProperties"

section \<open>Excluded and sparse fields, converters, classes\<close>

definition fieldIsNotSparse :: "js \<Rightarrow> table_mapping \<Rightarrow> table_mapping res" where
  "fieldIsNotSparse name tm =
     (if name \<in> set (js_items (tm_get tm ''excludedFieldNames'')) then Inr tm
      else tm_push ''excludedFieldNames'' name tm)"

definition bad_exclusion :: "js \<Rightarrow> msg" where
  "bad_exclusion v =
     [Txt (nl @ ''MappingError: excludeFields argument must be a field name or an array or list of field names: \"''), Text v, Txt ''\"'']"

fun excludeNames :: "js list \<Rightarrow> table_mapping \<Rightarrow> table_mapping res" where
  "excludeNames [] tm = Inr tm"
| "excludeNames (v # vs) tm =
     rbind (if js_typeof v = ''string'' then fieldIsNotSparse v tm else Inr (add_error (bad_exclusion v) tm))
       (excludeNames vs)"

fun excludeFields :: "js list \<Rightarrow> table_mapping \<Rightarrow> table_mapping res" where
  "excludeFields [] tm = Inr tm"
| "excludeFields (v # vs) tm =
     rbind (case v of JStr _ \<Rightarrow> fieldIsNotSparse v tm | JArr xs \<Rightarrow> excludeNames xs tm
              | _ \<Rightarrow> Inr (add_error (bad_exclusion v) tm))
       (excludeFields vs)"

fun sparse_args :: "(string \<Rightarrow> bool) \<Rightarrow> js list \<Rightarrow> (string \<times> js) list \<Rightarrow> table_mapping \<Rightarrow>
    ((string \<times> js) list \<times> table_mapping) res" where
  "sparse_args call [] fm tm = Inr (fm, tm)"
| "sparse_args call (arg # args) fm tm =
     rbind (if js_typeof arg = ''object'' then
              rbind (isMeta call arg) (\<lambda>m.
                if m then Inr (obj_put fm ''meta'' arg, tm)
                else if isLiteralMeta arg then Inr (obj_put fm ''meta'' (fromLiteralMeta arg), tm)
                else if isConverter arg then Inr (obj_put fm ''converter'' arg, tm)
                else Inr (fm, add_error [Txt (nl @ ''mapSparseFields Argument is an object that is not a meta or a converter object: \"''), Inspect arg, Txt ''\"''] tm))
            else Inr (fm, add_error [Txt (nl @ ''mapSparseFields: Argument must be a meta or converter object: \"''), Inspect arg, Txt ''\"''] tm))
       (\<lambda>(fm', tm'). sparse_args call args fm' tm')"

definition mapSparseFields :: "(string \<Rightarrow> bool) \<Rightarrow> js list \<Rightarrow> table_mapping \<Rightarrow> table_mapping res" where
  "mapSparseFields call args tm =
     (let columnName = (case args of [] \<Rightarrow> JUndef | a # _ \<Rightarrow> a) in
      if js_typeof columnName = ''string'' then
        rbind (sparse_args call (tl args) (obj_put (FieldMapping columnName) ''columnName'' columnName) tm) (\<lambda>(fm, tm').
          Inr (tm_put ''sparseContainer'' (JObj fm) tm'))
      else Inr (add_error [Txt (nl @ ''mapSparseFields() requires a valid arguments list with column name as the first argument'')] tm))"

text \<open>
  Writing a property of the converter map: strict code throws on a primitive value; an array or a
  function becomes here an object with the same properties.
\<close>

definition registerColumnConverter :: "string \<Rightarrow> js \<Rightarrow> table_mapping \<Rightarrow> (table_mapping \<times> msg) res" where
  "registerColumnConverter name converter tm =
     (if isConverter converter then
        (case tm_get tm ''columnConverterMap'' of
           JObj ps \<Rightarrow> Inr (tm_put ''columnConverterMap'' (JObj (obj_put ps name converter)) tm, [])
         | JArr xs \<Rightarrow> Inr (tm_put ''columnConverterMap'' (JObj (obj_put (own_props (JArr xs)) name converter)) tm, [])
         | JFun _ \<Rightarrow> Inr (tm_put ''columnConverterMap'' (JObj [(name, converter)]) tm, [])
         | _ \<Rightarrow> Inl TypeError)
      else let e = [Txt (''registerColumnConverter() for column '' @ name @ '': not a converter'')]
        in Inr (add_error e tm, e))"

text \<open>The property \<open>jones\<close> that a constructor gets, and the counter of mapping ids.\<close>

record jones =
  j_mapping :: table_mapping
  j_constructor :: js
  j_mappingId :: nat

definition applyToClass :: "js \<Rightarrow> table_mapping \<Rightarrow> nat \<Rightarrow> table_mapping \<times> nat \<times> jones option" where
  "applyToClass ctor tm mappingId =
     (if js_typeof ctor = ''function'' then
        (tm, mappingId + 1, Some \<lparr>j_mapping = tm, j_constructor = ctor, j_mappingId = mappingId + 1\<rparr>)
      else (add_error [Txt (nl @ ''MappingError: applyToClass() parameter must be constructor'')] tm, mappingId, None))"

section \<open>The verifier of literals\<close>

lemma checkProperty_ok: "checkProperty V p v = Inr [] \<longleftrightarrow> (\<exists>f. verifiers V p = Some f \<and> f v = Inr True)"
  by (auto simp: checkProperty_def rbind_Inr_iff split: option.splits)

lemma getErrors_ok:
  "getErrors V literal = Inr [] \<longleftrightarrow>
    (\<forall>(p, v)\<in>set (own_props literal). \<exists>f. verifiers V p = Some f \<and> f v = Inr True) \<and>
    (\<forall>r\<in>set (requiredProperties V). has_own literal r) \<and> (nullish literal \<longrightarrow> requiredProperties V = [])"
    (is "_ \<longleftrightarrow> ?P \<and> ?R \<and> ?N")
proof -
  have "(\<exists>ms. rmap (\<lambda>(p, v). checkProperty V p v) (own_props literal) = Inr ms \<and> concat ms = []) \<longleftrightarrow> ?P"
  proof
    assume "\<exists>ms. rmap (\<lambda>(p, v). checkProperty V p v) (own_props literal) = Inr ms \<and> concat ms = []"
    then obtain ms where ms: "list_all2 (\<lambda>(p, v) m. checkProperty V p v = Inr m) (own_props literal) ms" "\<forall>m\<in>set ms. m = []"
      by (auto simp: rmap_Inr_iff case_prod_unfold)
    from ms(1) have "\<forall>(p, v)\<in>set (own_props literal). \<exists>m\<in>set ms. checkProperty V p v = Inr m"
      by (fastforce simp: list_all2_conv_all_nth in_set_conv_nth)
    with ms(2) have "\<forall>(p, v)\<in>set (own_props literal). checkProperty V p v = Inr []" by fastforce
    then show ?P by (simp add: checkProperty_ok)
  next
    assume ?P
    then have "\<forall>(p, v)\<in>set (own_props literal). checkProperty V p v = Inr []" by (simp add: checkProperty_ok)
    then have "rmap (\<lambda>(p, v). checkProperty V p v) (own_props literal) = Inr (map (\<lambda>_. []) (own_props literal))"
      by (simp add: rmap_Inr_iff list_all2_map2 list_all2_same case_prod_unfold)
    then show "\<exists>ms. rmap (\<lambda>(p, v). checkProperty V p v) (own_props literal) = Inr ms \<and> concat ms = []"
      by (intro exI conjI) auto
  qed
  moreover have "getErrors V literal = Inr [] \<longleftrightarrow>
      (\<exists>ms. rmap (\<lambda>(p, v). checkProperty V p v) (own_props literal) = Inr ms \<and> concat ms = []) \<and> ?R \<and> ?N"
    by (auto simp: getErrors_def rbind_Inr_iff missing_def)
  ultimately show ?thesis by blast
qed

lemma js_prop_own: "js_prop v p \<noteq> JUndef \<Longrightarrow> (p, js_prop v p) \<in> set (own_props v)"
proof -
  have "obj_get ps p \<noteq> JUndef \<Longrightarrow> (p, obj_get ps p) \<in> set ps" for ps
    by (induction ps p rule: obj_get.induct) auto
  then show "js_prop v p \<noteq> JUndef \<Longrightarrow> (p, js_prop v p) \<in> set (own_props v)" by (simp add: js_prop_def)
qed

lemma js_prop_verified:
  assumes "getErrors V literal = Inr []" "js_prop literal p \<noteq> JUndef" "verifiers V p = Some f"
  shows "f (js_prop literal p) = Inr True"
  using assms js_prop_own[OF assms(2)] unfolding getErrors_ok by fastforce

lemma copy_allowed_get:
  "obj_get (copy_allowed V ob literal) k =
    (if k \<in> set (allowedProperties V) \<and> js_prop literal k \<noteq> JUndef then js_prop literal k else obj_get ob k)"
proof -
  have "obj_get (fold (\<lambda>k ob. if js_prop literal k \<noteq> JUndef then obj_put ob k (js_prop literal k) else ob) ks ob) k =
      (if k \<in> set ks \<and> js_prop literal k \<noteq> JUndef then js_prop literal k else obj_get ob k)" for ks
    by (induction ks arbitrary: ob) auto
  then show ?thesis by (simp add: copy_allowed_def)
qed

lemma every_True: "every f xs = Inr True \<longleftrightarrow> (\<forall>x\<in>set xs. f x = Inr True)"
  by (induction xs) (auto simp: rbind_Inr_iff)

lemma isArrayOf_True: "isArrayOf f v = Inr True \<longleftrightarrow> (\<exists>xs. v = JArr xs \<and> (\<forall>x\<in>set xs. f x = Inr True))"
  by (auto simp: isArrayOf_def every_True split: js.splits)

lemmas verifier_defs = lov_set_def setRequired_def LiteralObjectVerifier_def BasicFieldVerifier_def
  fieldMappingProperties_def tableMappingProperties_def basic_relationship_def

lemma field_verifiers:
  "allowedProperties (fieldMappingProperties call) =
     [''user'', ''fieldName'', ''columnName'', ''persistent'', ''converter'', ''relationship'', ''toManyColumns'', ''meta'']"
  "requiredProperties (fieldMappingProperties call) = [''fieldName'']"
  "verifiers (fieldMappingProperties call) ''fieldName'' = Some isNonEmptyString"
  "verifiers (fieldMappingProperties call) ''persistent'' = Some isBool"
  by (simp_all add: verifier_defs)

lemma relationship_verifiers:
  assumes "V \<in> {manyToOneMappingProperties, oneToManyMappingProperties, manyToManyMappingProperties, oneToOneMappingProperties}"
  shows "''fieldName'' \<in> set (allowedProperties V)" "requiredProperties V = [''fieldName'', ''target'']"
    "verifiers V ''fieldName'' = Some isNonEmptyString" "obj_get (rv_ctor V) ''fieldName'' = JUndef"
  using assms by (auto simp: manyToOneMappingProperties_def oneToManyMappingProperties_def manyToManyMappingProperties_def
    oneToOneMappingProperties_def RelationshipVerifier_def literal_verifier.defs verifier_defs Relationship_def)

section \<open>The invariant of a mapping\<close>

definition minimal_field :: "js \<Rightarrow> bool" where
  "minimal_field f \<longleftrightarrow> js_typeof f = ''object'' \<and> f \<noteq> JNull \<and> (\<exists>s. field_name f = JStr s)"

lemma isMinimalField_eq: "isMinimalField f = Inr (minimal_field f)"
proof -
  have "js_typeof v = ''string'' \<longleftrightarrow> (\<exists>s. v = JStr s)" for v by (cases v) (simp_all add: js_typeof_def)
  then show ?thesis by (simp add: isMinimalField_def minimal_field_def field_name_def)
qed

abbreviation fields_of :: "table_mapping \<Rightarrow> js list" where "fields_of tm \<equiv> js_items (tm_get tm ''fields'')"
abbreviation excluded_of :: "table_mapping \<Rightarrow> js list" where "excluded_of tm \<equiv> js_items (tm_get tm ''excludedFieldNames'')"

definition wf_mapping :: "table_mapping \<Rightarrow> bool" where
  "wf_mapping tm \<longleftrightarrow> tm_get tm ''fields'' = JArr (fields_of tm) \<and> (\<forall>f\<in>set (fields_of tm). minimal_field f) \<and>
     tm_get tm ''excludedFieldNames'' = JArr (excluded_of tm) \<and> (\<forall>n\<in>set (excluded_of tm). js_typeof n = ''string'')"

text \<open>
  What an operation may do: report errors, and add fields whose names are not mapped yet; \<open>evolves\<close>
  is that relation between a mapping and a later one.
\<close>

definition new_names :: "js list \<Rightarrow> js list \<Rightarrow> bool" where
  "new_names fs ns \<longleftrightarrow> distinct (map field_name ns) \<and> (\<forall>f\<in>set ns. minimal_field f) \<and>
     field_name ` set ns \<inter> field_name ` set fs = {}"

definition evolves :: "table_mapping \<Rightarrow> table_mapping \<Rightarrow> bool" where
  "evolves tm tm' \<longleftrightarrow> wf_mapping tm \<longrightarrow> wf_mapping tm' \<and>
     (\<exists>ns. fields_of tm' = fields_of tm @ ns \<and> new_names (fields_of tm) ns) \<and>
     (\<exists>ex. excluded_of tm' = excluded_of tm @ ex) \<and> (\<exists>e. tm_error tm' = tm_error tm @ e)"

lemma new_names_Nil [simp]: "new_names fs []"
  by (simp add: new_names_def)

lemma new_names_append:
  "new_names fs xs \<Longrightarrow> new_names (fs @ xs) ys \<Longrightarrow> new_names fs (xs @ ys)"
  by (simp add: new_names_def ball_Un image_Un Int_Un_distrib2) blast

lemma evolves_refl [simp, intro]: "evolves tm tm"
  by (auto simp: evolves_def intro: exI[of _ "[]"])

lemma evolves_trans [trans]:
  assumes "evolves a b" "evolves b c"
  shows "evolves a c"
proof (unfold evolves_def, rule impI)
  assume wf: "wf_mapping a"
  with assms(1) obtain m x e where ab: "wf_mapping b" "fields_of b = fields_of a @ m" "new_names (fields_of a) m"
    "excluded_of b = excluded_of a @ x" "tm_error b = tm_error a @ e"
    unfolding evolves_def by blast
  with assms(2) obtain m' x' e' where bc: "wf_mapping c" "fields_of c = fields_of b @ m'" "new_names (fields_of b) m'"
    "excluded_of c = excluded_of b @ x'" "tm_error c = tm_error b @ e'"
    unfolding evolves_def by blast
  have "fields_of c = fields_of a @ (m @ m')" using ab(2) bc(2) by simp
  moreover have "new_names (fields_of a) (m @ m')"
    using new_names_append[OF ab(3)] bc(3) ab(2) by simp
  moreover have "excluded_of c = excluded_of a @ (x @ x')" "tm_error c = tm_error a @ (e @ e')"
    using ab(4,5) bc(4,5) by simp_all
  ultimately show "wf_mapping c \<and> (\<exists>ns. fields_of c = fields_of a @ ns \<and> new_names (fields_of a) ns) \<and>
      (\<exists>ex. excluded_of c = excluded_of a @ ex) \<and> (\<exists>e. tm_error c = tm_error a @ e)"
    using bc(1) by blast
qed

lemma tm_get_simps [simp]:
  "tm_get (tm_put p v tm) q = (if q = p then v else tm_get tm q)"
  "tm_get (add_error m tm) q = tm_get tm q"
  "tm_error (tm_put p v tm) = tm_error tm"
  "tm_error (add_error m tm) = tm_error tm @ m"
  by (simp_all add: tm_get_def tm_put_def add_error_def)

lemma js_items_JArr [simp]: "js_items (JArr xs) = xs"
  by (simp add: js_items_def)

lemma add_error_evolves [simp, intro]: "evolves tm (add_error m tm)"
  by (auto simp: evolves_def wf_mapping_def)

lemma tm_put_evolves: "p \<noteq> ''fields'' \<Longrightarrow> p \<noteq> ''excludedFieldNames'' \<Longrightarrow> evolves tm (tm_put p v tm)"
  by (auto simp: evolves_def wf_mapping_def)

lemma tm_push_Inr: "tm_push p v tm = Inr tm' \<longleftrightarrow> (\<exists>xs. tm_get tm p = JArr xs \<and> tm' = tm_put p (JArr (xs @ [v])) tm)"
  by (auto simp: tm_push_def split: js.splits)

lemma push_field_evolves:
  assumes "tm_push ''fields'' f tm = Inr tm'" "minimal_field f" "getFieldMapping tm (field_name f) = None"
  shows "evolves tm tm'"
proof -
  have "field_name f \<notin> field_name ` set (fields_of tm)"
    using assms(3) by (fastforce simp: getFieldMapping_def find_None_iff)
  with assms(1,2) show ?thesis by (auto simp: tm_push_Inr evolves_def wf_mapping_def new_names_def)
qed

lemma push_excluded_evolves:
  assumes "tm_push ''excludedFieldNames'' n tm = Inr tm'" "js_typeof n = ''string''"
  shows "evolves tm tm'"
  using assms by (auto simp: tm_push_Inr evolves_def wf_mapping_def)

section \<open>Every operation respects the invariant\<close>

lemma mapField_args_evolves: "mapField_args call args lit tm = Inr (lit', tm') \<Longrightarrow> evolves tm tm'"
proof (induction args arbitrary: lit tm)
  case (Cons arg args)
  then obtain l t where "evolves tm t" "mapField_args call args l t = Inr (lit', tm')"
    by (auto simp: rbind_Inr_iff split: if_splits)
  with Cons.IH evolves_trans show ?case by blast
qed simp

lemma sparse_args_evolves: "sparse_args call args fm tm = Inr (fm', tm') \<Longrightarrow> evolves tm tm'"
proof (induction args arbitrary: fm tm)
  case (Cons arg args)
  then obtain l t where "evolves tm t" "sparse_args call args l t = Inr (fm', tm')"
    by (auto simp: rbind_Inr_iff split: if_splits)
  with Cons.IH evolves_trans show ?case by blast
qed simp

lemma getErrors_name:
  assumes "getErrors V literal = Inr []" "''fieldName'' \<in> set (requiredProperties V)"
    "verifiers V ''fieldName'' = Some isNonEmptyString"
  shows "\<exists>s. js_prop literal ''fieldName'' = JStr s \<and> s \<noteq> []"
proof -
  have "(''fieldName'', js_prop literal ''fieldName'') \<in> set (own_props literal)"
  proof -
    have "k \<in> fst ` set ps \<Longrightarrow> (k, obj_get ps k) \<in> set ps" for k and ps :: "(string \<times> js) list"
      by (induction ps k rule: obj_get.induct) auto
    then show ?thesis using assms(1,2) by (auto simp: getErrors_ok has_own_def js_prop_def)
  qed
  with assms(1,3) have "isNonEmptyString (js_prop literal ''fieldName'') = Inr True"
    unfolding getErrors_ok by fastforce
  then show ?thesis by (auto simp: isNonEmptyString_def split: js.splits)
qed

lemma getErrors_live: "getErrors V literal = Inr errors \<Longrightarrow> requiredProperties V \<noteq> [] \<Longrightarrow> \<not> nullish literal"
  by (auto simp: getErrors_def rbind_Inr_iff split: if_splits)

lemma minimal_fieldI: "obj_get ps ''fieldName'' = JStr s \<Longrightarrow> minimal_field (JObj ps)"
  by (simp add: minimal_field_def field_name_def js_prop_def own_props_def js_typeof_def)

lemma field_name_JObj [simp]: "field_name (JObj ps) = obj_get ps ''fieldName''"
  by (simp add: field_name_def js_prop_def own_props_def)

lemma mapField_literal_evolves:
  assumes "mapField_literal call literal tm = Inr tm'"
  shows "evolves tm tm'"
proof -
  let ?V = "fieldMappingProperties call" and ?n = "js_prop literal ''fieldName''"
  from assms obtain errors where e: "getErrors ?V literal = Inr errors"
    by (auto simp: mapField_literal_def rbind_Inr_iff)
  show ?thesis
  proof (cases "errors = [] \<and> getFieldMapping tm ?n = None")
    case False
    with assms e show ?thesis by (auto simp: mapField_literal_def Let_def split: if_splits)
  next
    case True
    let ?fm = "copy_allowed ?V (FieldMapping ?n) literal"
    from True e assms obtain t where t: "tm_push ''fields'' (JObj ?fm) tm = Inr t"
      "(if js_truthy (obj_get ?fm ''persistent'') then Inr t
        else tm_push ''excludedFieldNames'' (obj_get ?fm ''fieldName'') t) = Inr tm'"
      by (auto simp: mapField_literal_def buildObjectFromLiteral_def rbind_Inr_iff Let_def)
    obtain s where s: "?n = JStr s"
      using getErrors_name[of ?V literal] e True by (auto simp: field_verifiers)
    have n: "obj_get ?fm ''fieldName'' = ?n" by (simp add: copy_allowed_get field_verifiers s)
    have "evolves tm t"
      by (rule push_field_evolves[OF t(1)]) (use True n s in \<open>auto intro: minimal_fieldI\<close>)
    also have "evolves t tm'"
      using t(2) push_excluded_evolves[of "obj_get ?fm ''fieldName''" t tm'] n s
      by (auto simp: js_typeof_def split: if_splits)
    finally show ?thesis .
  qed
qed

lemma mapField_evolves: "mapField call args tm = Inr tm' \<Longrightarrow> evolves tm tm'"
proof -
  assume a: "mapField call args tm = Inr tm'"
  define arg where "arg = (case args of [] \<Rightarrow> JUndef | a # _ \<Rightarrow> a)"
  show ?thesis
  proof (cases "js_typeof arg = ''string''")
    case True
    with a obtain lit t where "mapField_args call (tl args) [(''fieldName'', arg)] tm = Inr (lit, t)"
      "mapField_literal call (JObj lit) t = Inr tm'"
      by (auto simp: mapField_def arg_def[symmetric] Let_def rbind_Inr_iff)
    then show ?thesis using mapField_args_evolves mapField_literal_evolves evolves_trans by blast
  next
    case False
    with a show ?thesis
      by (auto simp: mapField_def arg_def[symmetric] Let_def mapField_literal_evolves split: if_splits)
  qed
qed

abbreviation relationship_kinds :: "relationship_verifier list" where
  "relationship_kinds \<equiv>
     [manyToOneMappingProperties, oneToManyMappingProperties, manyToManyMappingProperties, oneToOneMappingProperties]"

lemma mapRelationship_evolves:
  assumes V: "V \<in> set relationship_kinds" and m: "mapRelationship V literal tm = Inr tm'"
  shows "evolves tm tm'"
proof (cases "js_typeof literal \<noteq> ''object'' \<or> getFieldMapping tm (js_prop literal ''fieldName'') \<noteq> None")
  case True
  with m show ?thesis by (auto simp: mapRelationship_def split: if_splits)
next
  case False
  let ?V = "literal_verifier.truncate V"
  have "V \<in> {manyToOneMappingProperties, oneToManyMappingProperties, manyToManyMappingProperties, oneToOneMappingProperties}"
    using V by auto
  note rv = relationship_verifiers[OF this]
  from False m obtain t mp where c: "createRelationshipField V literal tm = Inr (t, mp)"
    "(case mp of Some f \<Rightarrow> tm_push ''fields'' f t | None \<Rightarrow> Inr t) = Inr tm'"
    by (auto simp: mapRelationship_def rbind_Inr_iff split: if_splits)
  show ?thesis
  proof (cases mp)
    case None
    with c show ?thesis
      by (auto simp: createRelationshipField_def Let_def rbind_Inr_iff split: if_splits)
  next
    case (Some f)
    with c(1) have e: "getErrors ?V literal = Inr []" "t = tm"
      "f = JObj (copy_allowed ?V (rv_ctor V) literal)"
      by (auto simp: createRelationshipField_def buildObjectFromLiteral_def Let_def rbind_Inr_iff split: if_splits)
    obtain s where s: "js_prop literal ''fieldName'' = JStr s"
      using getErrors_name[OF e(1)] rv by (auto simp: literal_verifier.defs)
    have n: "field_name f = JStr s"
      using rv(1) s by (simp add: e(3) copy_allowed_get literal_verifier.defs)
    show ?thesis
      by (rule push_field_evolves[of f]) (use c(2) Some e False n s in \<open>auto intro: minimal_fieldI\<close>)
  qed
qed

lemma relationship_op_evolves:
  "mapOneToOne l tm = Inr tm' \<Longrightarrow> evolves tm tm'" "mapManyToOne l tm = Inr tm' \<Longrightarrow> evolves tm tm'"
  "mapOneToMany l tm = Inr tm' \<Longrightarrow> evolves tm tm'" "mapManyToMany l tm = Inr tm' \<Longrightarrow> evolves tm tm'"
  using mapRelationship_evolves[of oneToOneMappingProperties] mapRelationship_evolves[of manyToOneMappingProperties]
    mapRelationship_evolves[of oneToManyMappingProperties] mapRelationship_evolves[of manyToManyMappingProperties]
  by (simp_all add: mapOneToOne_def mapManyToOne_def mapOneToMany_def mapManyToMany_def)

lemma fieldIsNotSparse_evolves:
  "fieldIsNotSparse n tm = Inr tm' \<Longrightarrow> js_typeof n = ''string'' \<Longrightarrow> evolves tm tm'"
  by (auto simp: fieldIsNotSparse_def push_excluded_evolves split: if_splits)

lemma excludeNames_evolves: "excludeNames vs tm = Inr tm' \<Longrightarrow> evolves tm tm'"
proof (induction vs arbitrary: tm)
  case (Cons v vs)
  then obtain t where "evolves tm t" "excludeNames vs t = Inr tm'"
    by (cases "js_typeof v = ''string''") (auto simp: rbind_Inr_iff dest: fieldIsNotSparse_evolves)
  with Cons.IH evolves_trans show ?case by blast
qed simp

lemma excludeFields_evolves: "excludeFields vs tm = Inr tm' \<Longrightarrow> evolves tm tm'"
proof (induction vs arbitrary: tm)
  case (Cons v vs)
  then obtain t where t: "(case v of JStr _ \<Rightarrow> fieldIsNotSparse v tm | JArr xs \<Rightarrow> excludeNames xs tm
              | _ \<Rightarrow> Inr (add_error (bad_exclusion v) tm)) = Inr t" "excludeFields vs t = Inr tm'"
    by (auto simp: rbind_Inr_iff)
  have "evolves tm t"
    using t(1) by (cases v) (auto simp: excludeNames_evolves js_typeof_def intro: fieldIsNotSparse_evolves)
  with Cons.IH[OF t(2)] evolves_trans show ?case by blast
qed simp

text \<open>The operations of a mapping, and a sequence of them.\<close>

datatype mapping_op = MapField "js list" | MapOneToOne js | MapManyToOne js | MapOneToMany js | MapManyToMany js
  | ExcludeFields "js list" | MapSparseFields "js list" | RegisterColumnConverter string js | ApplyToClass js

fun apply_op :: "(string \<Rightarrow> bool) \<Rightarrow> mapping_op \<Rightarrow> table_mapping \<Rightarrow> table_mapping res" where
  "apply_op call (MapField args) tm = mapField call args tm"
| "apply_op call (MapOneToOne l) tm = mapOneToOne l tm"
| "apply_op call (MapManyToOne l) tm = mapManyToOne l tm"
| "apply_op call (MapOneToMany l) tm = mapOneToMany l tm"
| "apply_op call (MapManyToMany l) tm = mapManyToMany l tm"
| "apply_op call (ExcludeFields args) tm = excludeFields args tm"
| "apply_op call (MapSparseFields args) tm = mapSparseFields call args tm"
| "apply_op call (RegisterColumnConverter name c) tm = rbind (registerColumnConverter name c tm) (\<lambda>(tm', _). Inr tm')"
| "apply_op call (ApplyToClass ctor) tm = Inr (fst (applyToClass ctor tm 0))"

fun apply_ops :: "(string \<Rightarrow> bool) \<Rightarrow> mapping_op list \<Rightarrow> table_mapping \<Rightarrow> table_mapping res" where
  "apply_ops call [] tm = Inr tm"
| "apply_ops call (x # xs) tm = rbind (apply_op call x tm) (apply_ops call xs)"

lemma mapSparseFields_evolves: "mapSparseFields call args tm = Inr tm' \<Longrightarrow> evolves tm tm'"
  by (auto simp: mapSparseFields_def Let_def rbind_Inr_iff split: if_splits
    dest!: sparse_args_evolves intro: evolves_trans tm_put_evolves)

lemma apply_op_evolves: "apply_op call x tm = Inr tm' \<Longrightarrow> evolves tm tm'"
proof (induction call x tm rule: apply_op.induct)
  case (8 call name c tm)
  then show ?case
    by (auto simp: registerColumnConverter_def Let_def rbind_Inr_iff intro!: tm_put_evolves split: if_splits js.splits)
qed (auto simp: mapField_evolves relationship_op_evolves excludeFields_evolves mapSparseFields_evolves applyToClass_def
    split: if_splits)

lemma apply_ops_evolves: "apply_ops call xs tm = Inr tm' \<Longrightarrow> evolves tm tm'"
proof (induction xs arbitrary: tm)
  case (Cons x xs)
  then show ?case by (auto simp: rbind_Inr_iff dest!: apply_op_evolves intro: evolves_trans)
qed simp

section \<open>The constructor\<close>

lemma js_prop_wf:
  assumes "getErrors V literal = Inr []" "verifiers V p = Some (isArrayOf f)" "js_prop literal p \<noteq> JUndef"
  shows "\<exists>xs. js_prop literal p = JArr xs \<and> (\<forall>x\<in>set xs. f x = Inr True)"
  using js_prop_verified[OF assms(1,3,2)] by (simp add: isArrayOf_True)

lemma obj_get_filter: "k \<noteq> k' \<Longrightarrow> obj_get (filter (\<lambda>(k, _). k \<noteq> k') ps) k = obj_get ps k"
  by (induction ps) auto

lemma initial_wf: "wf_mapping initial_mapping"
  by (simp add: wf_mapping_def tm_get_def initial_mapping_def)

lemma constructFromObject_wf:
  assumes "constructFromObject call literal initial_mapping = Inr (tm, literal')"
  shows "wf_mapping tm"
proof -
  let ?V = "tableMappingProperties call" and ?l = "normalise_fields literal"
  from assms obtain ps errors where b: "buildObjectFromLiteral ?V (tm_props initial_mapping) ?l = Inr (ps, errors)"
    "tm = \<lparr>tm_props = filter (\<lambda>(k, _). k \<noteq> ''error'') ps, tm_error = errors\<rparr>"
    by (auto simp: constructFromObject_def Let_def rbind_Inr_iff split: if_splits)
  then have get: "tm_get tm k = obj_get ps k" if "k \<noteq> ''error''" for k
    using that by (simp add: tm_get_def obj_get_filter)
  show ?thesis
  proof (cases "errors = []")
    case False
    with b have "ps = tm_props initial_mapping" by (auto simp: buildObjectFromLiteral_def rbind_Inr_iff)
    then show ?thesis using get by (simp add: wf_mapping_def initial_mapping_def)
  next
    case True
    with b have e: "getErrors ?V ?l = Inr []" and ps: "ps = copy_allowed ?V (tm_props initial_mapping) ?l"
      by (auto simp: buildObjectFromLiteral_def rbind_Inr_iff)
    have g: "tm_get tm k = (if js_prop ?l k \<noteq> JUndef then js_prop ?l k else tm_get initial_mapping k)"
      if "k = ''fields'' \<or> k = ''excludedFieldNames''" for k
    proof -
      have "k \<in> set (allowedProperties ?V)" using that by (auto simp: verifier_defs)
      moreover have "k \<noteq> ''error''" using that by auto
      ultimately show ?thesis using get[of k] by (simp add: ps copy_allowed_get tm_get_def)
    qed
    have v: "verifiers ?V ''fields'' = Some (isArrayOf isMinimalField)"
      "verifiers ?V ''excludedFieldNames'' = Some (isArrayOf isNonEmptyString)"
      by (simp_all add: verifier_defs)
    have s: "isNonEmptyString v = Inr True \<Longrightarrow> js_typeof v = ''string''" for v
      by (cases v) (simp_all add: isNonEmptyString_def js_typeof_def)
    have "\<exists>fs. tm_get tm ''fields'' = JArr fs \<and> (\<forall>f\<in>set fs. minimal_field f)"
      using js_prop_wf[OF e v(1)] g[of "''fields''"]
      by (auto simp: isMinimalField_eq tm_get_def initial_mapping_def split: if_splits)
    moreover have "\<exists>ex. tm_get tm ''excludedFieldNames'' = JArr ex \<and> (\<forall>n\<in>set ex. js_typeof n = ''string'')"
      using js_prop_wf[OF e v(2)] g[of "''excludedFieldNames''"] s
      by (fastforce simp: tm_get_def initial_mapping_def split: if_splits)
    ultimately show ?thesis by (auto simp: wf_mapping_def)
  qed
qed

lemma push_meta_evolves: "tm_push ''meta'' v tm = Inr tm' \<Longrightarrow> evolves tm tm'"
  by (auto simp: tm_push_Inr intro!: tm_put_evolves)

lemma assignMeta_evolves: "assignMeta call i args tm = Inr tm' \<Longrightarrow> evolves tm tm'"
proof (induction args arbitrary: i tm)
  case (Cons arg args)
  then obtain m t where t: "assignMeta call (Suc i) args t = Inr tm'"
    "(if m then tm_push ''meta'' arg tm
      else if isLiteralMeta arg then tm_push ''meta'' (fromLiteralMeta arg) tm
      else Inr (add_error [Txt (''MappingError: valid arguments are meta; invalid argument '' @
                  nat_str i @ '': ('' @ js_typeof arg @ '') ''), Text arg] tm)) = Inr t"
    by (auto simp: rbind_Inr_iff)
  then have "evolves tm t" by (auto dest: push_meta_evolves split: if_splits)
  with Cons.IH[OF t(1)] evolves_trans show ?case by blast
qed simp

lemma constructFromTableName_wf: "wf_mapping (constructFromTableName s initial_mapping)"
  by (simp add: constructFromTableName_def Let_def wf_mapping_def tm_put_def tm_get_def initial_mapping_def)

lemma new_TableMapping_wf:
  assumes "new_TableMapping call args = Inr (tm, literal)"
  shows "wf_mapping tm"
proof -
  define arg where "arg = (case args of [] \<Rightarrow> JUndef | a # _ \<Rightarrow> a)"
  have ev: "wf_mapping a \<Longrightarrow> evolves a b \<Longrightarrow> wf_mapping b" for a b by (simp add: evolves_def)
  show ?thesis
  proof (cases "js_typeof arg = ''object''")
    case True
    with assms obtain t l where "constructFromObject call arg initial_mapping = Inr (t, l)"
      "assignMeta call 1 (tl args) t = Inr tm"
      by (auto simp: new_TableMapping_def arg_def[symmetric] Let_def rbind_Inr_iff)
    then show ?thesis using constructFromObject_wf assignMeta_evolves ev by blast
  next
    case False
    show ?thesis
    proof (cases "\<exists>s. arg = JStr s")
      case True
      with False assms obtain s where "assignMeta call 1 (tl args) (constructFromTableName s initial_mapping) = Inr tm"
        by (auto simp: new_TableMapping_def arg_def[symmetric] Let_def rbind_Inr_iff)
      then show ?thesis using constructFromTableName_wf assignMeta_evolves ev by blast
    next
      case 2: False
      with False assms have "tm_props tm = tm_props initial_mapping"
        by (auto simp: new_TableMapping_def arg_def[symmetric] Let_def js_typeof_def split: js.splits)
      with initial_wf show ?thesis by (simp add: wf_mapping_def tm_get_def)
    qed
  qed
qed

section \<open>Valid literals and table names\<close>

text \<open>A literal that describes a field, stated without the verifiers.\<close>

definition field_literal_ok :: "(string \<Rightarrow> bool) \<Rightarrow> (string \<times> js) list \<Rightarrow> bool" where
  "field_literal_ok call ps \<longleftrightarrow> ''fieldName'' \<in> fst ` set ps \<and>
     (\<forall>(p, v)\<in>set ps.
        p = ''user'' \<or>
        p = ''fieldName'' \<and> (\<exists>s. v = JStr s \<and> s \<noteq> []) \<or>
        p = ''columnName'' \<and> (\<exists>s. v = JStr s) \<or>
        (p = ''persistent'' \<or> p = ''relationship'') \<and> (\<exists>b. v = JBool b) \<or>
        p = ''converter'' \<and> isConverter v \<or>
        p = ''toManyColumns'' \<and> (\<exists>xs. v = JArr xs \<and> (\<forall>x\<in>set xs. \<exists>s. x = JStr s)) \<or>
        p = ''meta'' \<and> isMetaOrLiteral call v = Inr True)"

lemma typeof_string: "js_typeof v = ''string'' \<longleftrightarrow> (\<exists>s. v = JStr s)"
  by (cases v) (simp_all add: js_typeof_def)

lemma field_verifier_ok:
  "(\<exists>f. verifiers (fieldMappingProperties call) p = Some f \<and> f v = Inr True) \<longleftrightarrow>
     p = ''user'' \<or>
     p = ''fieldName'' \<and> (\<exists>s. v = JStr s \<and> s \<noteq> []) \<or>
     p = ''columnName'' \<and> (\<exists>s. v = JStr s) \<or>
     (p = ''persistent'' \<or> p = ''relationship'') \<and> (\<exists>b. v = JBool b) \<or>
     p = ''converter'' \<and> isConverter v \<or>
     p = ''toManyColumns'' \<and> (\<exists>xs. v = JArr xs \<and> (\<forall>x\<in>set xs. \<exists>s. x = JStr s)) \<or>
     p = ''meta'' \<and> isMetaOrLiteral call v = Inr True"
proof -
  have "isNonEmptyString v = Inr True \<longleftrightarrow> (\<exists>s. v = JStr s \<and> s \<noteq> [])"
    by (auto simp: isNonEmptyString_def split: js.splits)
  moreover have "isBool v = Inr True \<longleftrightarrow> (\<exists>b. v = JBool b)"
    by (cases v) (auto simp: isBool_def)
  ultimately show ?thesis
    by (simp add: verifier_defs isArrayOf_True isString_def typeof_string)
qed

lemma field_literal_errors: "getErrors (fieldMappingProperties call) (JObj ps) = Inr [] \<longleftrightarrow> field_literal_ok call ps"
  unfolding getErrors_ok field_verifier_ok field_literal_ok_def
  by (auto simp: has_own_def own_props_def nullish_def field_verifiers)

fun join_dot :: "string list \<Rightarrow> string" where
  "join_dot [] = []"
| "join_dot [w] = w"
| "join_dot (w # ws) = w @ ''.'' @ join_dot ws"

lemma split_on_ne [simp]: "split_on c s \<noteq> []"
  by (induction s) (auto split: list.splits)

lemma split_on_word: "c \<notin> set w \<Longrightarrow> split_on c w = [w]"
  by (induction w) auto

lemma split_on_append: "c \<notin> set w \<Longrightarrow> split_on c (w @ c # s) = w # split_on c s"
  by (induction w) auto

lemma split_join: "ws \<noteq> [] \<Longrightarrow> (\<forall>w\<in>set ws. CHR ''.'' \<notin> set w) \<Longrightarrow> split_on (CHR ''.'') (join_dot ws) = ws"
  by (induction ws rule: join_dot.induct) (auto simp: split_on_word split_on_append)

lemma set_join_dot: "set (join_dot ws) \<subseteq> insert (CHR ''.'') (\<Union>w\<in>set ws. set w)"
  by (induction ws rule: join_dot.induct) auto

lemma mapField_literal_correct:
  assumes wf: "wf_mapping tm" and lit: "mapField_literal call (JObj ps) tm = Inr tm'"
  shows "if field_literal_ok call ps \<and> getFieldMapping tm (obj_get ps ''fieldName'') = None
    then \<exists>fm. fields_of tm' = fields_of tm @ [JObj fm] \<and>
        (\<forall>k. obj_get fm k = (if k \<in> set (allowedProperties (fieldMappingProperties call)) \<and> obj_get ps k \<noteq> JUndef
           then obj_get ps k else if k = ''persistent'' then JBool True else JUndef)) \<and>
        getFieldMapping tm' (obj_get ps ''fieldName'') = Some (JObj fm) \<and>
        excluded_of tm' = excluded_of tm @
          (if obj_get ps ''persistent'' = JBool False then [obj_get ps ''fieldName''] else []) \<and>
        tm_error tm' = tm_error tm
    else fields_of tm' = fields_of tm \<and> excluded_of tm' = excluded_of tm \<and>
        (\<exists>e. e \<noteq> [] \<and> tm_error tm' = tm_error tm @ e)"
proof -
  let ?V = "fieldMappingProperties call" and ?n = "obj_get ps ''fieldName''"
  have p: "js_prop (JObj ps) k = obj_get ps k" for k by (simp add: js_prop_def own_props_def)
  from lit obtain errors where e: "getErrors ?V (JObj ps) = Inr errors"
    by (auto simp: mapField_literal_def rbind_Inr_iff)
  have ok: "errors = [] \<longleftrightarrow> field_literal_ok call ps" using field_literal_errors[of call ps] e by simp
  show ?thesis
  proof (cases "field_literal_ok call ps \<and> getFieldMapping tm ?n = None")
    case False
    with lit e ok show ?thesis by (auto simp: mapField_literal_def p Let_def split: if_splits)
  next
    case True
    define fm where "fm = copy_allowed ?V (FieldMapping ?n) (JObj ps)"
    obtain fs ex where fs: "tm_get tm ''fields'' = JArr fs" "tm_get tm ''excludedFieldNames'' = JArr ex"
      using wf by (auto simp: wf_mapping_def)
    have V: "errors = []" using True ok by simp
    obtain s where s: "?n = JStr s" "s \<noteq> []"
      using getErrors_name[of ?V "JObj ps"] e V p by (auto simp: field_verifiers)
    have get: "obj_get fm k = (if k \<in> set (allowedProperties ?V) \<and> obj_get ps k \<noteq> JUndef
        then obj_get ps k else if k = ''persistent'' then JBool True else JUndef)" for k
      using s by (cases "k = ''fieldName''") (auto simp: fm_def copy_allowed_get p FieldMapping_def field_verifiers)
    have pers: "obj_get ps ''persistent'' \<noteq> JUndef \<Longrightarrow> \<exists>b. obj_get ps ''persistent'' = JBool b"
      using js_prop_verified[of ?V "JObj ps" "''persistent''" isBool] e V p by (auto simp: field_verifiers isBool_def)
    have name: "obj_get fm ''fieldName'' = ?n" using s by (simp add: get field_verifiers)
    have truthy: "js_truthy (obj_get fm ''persistent'') \<longleftrightarrow> obj_get ps ''persistent'' \<noteq> JBool False"
      using pers by (auto simp: get field_verifiers js_truthy_def)
    have tm': "tm' = (if obj_get ps ''persistent'' = JBool False
        then tm_put ''excludedFieldNames'' (JArr (ex @ [?n])) (tm_put ''fields'' (JArr (fs @ [JObj fm])) tm)
        else tm_put ''fields'' (JArr (fs @ [JObj fm])) tm)"
      using lit e V True truthy name
      by (auto simp: mapField_literal_def p Let_def buildObjectFromLiteral_def fm_def[symmetric] tm_push_def fs split: if_splits)
    have "List.find (\<lambda>f. field_name f = ?n) (fs @ [JObj fm]) = Some (JObj fm)"
    proof -
      have "List.find (\<lambda>f. field_name f = ?n) fs = None" using True fs by (simp add: getFieldMapping_def)
      then show ?thesis using name by (induction fs) (auto split: if_splits)
    qed
    then have "fields_of tm' = fields_of tm @ [JObj fm] \<and> getFieldMapping tm' ?n = Some (JObj fm) \<and>
        excluded_of tm' = excluded_of tm @ (if obj_get ps ''persistent'' = JBool False then [?n] else []) \<and>
        tm_error tm' = tm_error tm"
      by (simp add: tm' fs getFieldMapping_def)
    with get True show ?thesis by auto
  qed
qed

lemma literal_meta:
  "\<exists>m. fromLiteralMeta v = JObj m \<and> obj_get m ''isNullable'' = JBool True \<and> obj_get m ''isMeta'' = JFun ''isMeta'' \<and>
     (\<forall>k. k \<notin> {''isNullable'', ''isMeta'', ''p''} \<longrightarrow> obj_get m k = JUndef)"
proof -
  have "obj_get (fold (\<lambda>_ m. obj_put m ''p'' x) ps m) k = (if ps \<noteq> [] \<and> k = ''p'' then x else obj_get m k)"
    for ps :: "(string \<times> js) list" and x m k
    by (induction ps arbitrary: m) auto
  then show ?thesis by (auto simp: fromLiteralMeta_def new_Meta_def)
qed

section \<open>Properties\<close>

text \<open>The constructor does not look for fields of the same name in a literal.\<close>

lemma literal_names_twice:
  "(case new_TableMapping (\<lambda>f. True) [JObj [(''table'', JStr ''t''),
        (''fields'', JArr [JObj [(''fieldName'', JStr ''a'')], JObj [(''fieldName'', JStr ''a'')]])]] of
      Inl _ \<Rightarrow> False
    | Inr (tm, literal) \<Rightarrow> isValid tm \<and> map field_name (fields_of tm) = [JStr ''a'', JStr ''a''])"
  by code_simp

text \<open>
  C13: However a mapping is constructed and whatever operations follow, its fields are objects with a
  name and its excluded names are strings. A literal given to the constructor may name a field
  twice (\<open>literal_names_twice\<close>); the operations that follow never do: they only add fields at the end,
  under names that are not mapped yet and differ from each other, so names that are unique after the
  construction stay unique, and a field that was found by its name is found ever after and is never
  replaced. An error, once reported, stays.
\<close>

theorem mapping_invariant:
  assumes "new_TableMapping call args = Inr (tm, literal)" "apply_ops call ops tm = Inr tm'"
  shows "wf_mapping tm' \<and>
    (\<exists>ns. fields_of tm' = fields_of tm @ ns \<and> distinct (map field_name ns) \<and>
       field_name ` set ns \<inter> field_name ` set (fields_of tm) = {}) \<and>
    (distinct (map field_name (fields_of tm)) \<longrightarrow> distinct (map field_name (fields_of tm'))) \<and>
    (\<forall>name f. getFieldMapping tm name = Some f \<longrightarrow> getFieldMapping tm' name = Some f) \<and>
    (isValid tm' \<longrightarrow> isValid tm)"
proof -
  note wf = new_TableMapping_wf[OF assms(1)]
  with apply_ops_evolves[OF assms(2)] obtain ns e where ev: "wf_mapping tm'" "fields_of tm' = fields_of tm @ ns"
    "new_names (fields_of tm) ns" "tm_error tm' = tm_error tm @ e"
    unfolding evolves_def by blast
  moreover have "List.find P xs = Some x \<Longrightarrow> List.find P (xs @ ys) = Some x" for P and xs ys :: "js list" and x
    by (induction xs) (auto split: if_splits)
  ultimately show ?thesis by (auto simp: new_names_def getFieldMapping_def isValid_def)
qed

theorem mapping_invariant_witness:
  "\<exists>tm. apply_ops (\<lambda>f. True) [MapField [JStr ''a'', JBool False], MapField [JStr ''a''], ExcludeFields [JArr [JStr ''x'']]]
      (constructFromTableName ''db.t'' initial_mapping) = Inr tm \<and> wf_mapping tm \<and> \<not> isValid tm"
proof -
  have n: "new_TableMapping (\<lambda>f. True) [JStr ''db.t''] = Inr (constructFromTableName ''db.t'' initial_mapping, JStr ''db.t'')"
    by code_simp
  let ?ops = "[MapField [JStr ''a'', JBool False], MapField [JStr ''a''], ExcludeFields [JArr [JStr ''x'']]]"
  have "case apply_ops (\<lambda>f. True) ?ops (constructFromTableName ''db.t'' initial_mapping) of Inl _ \<Rightarrow> False | Inr tm \<Rightarrow> \<not> isValid tm"
    by code_simp
  then obtain tm where tm: "apply_ops (\<lambda>f. True) ?ops (constructFromTableName ''db.t'' initial_mapping) = Inr tm" "\<not> isValid tm"
    by (auto split: sum.splits)
  from mapping_invariant[OF n tm(1)] tm show ?thesis by blast
qed

text \<open>
  C14: Given a literal, \<open>mapField\<close> adds one field exactly when the literal is a valid description of a
  field whose name is not mapped yet: the field has the literal's properties, is persistent unless
  the literal says otherwise, is found by its name, and is excluded from sparse handling when it is
  not persistent. Otherwise nothing but the error message changes, and that grows.
\<close>

theorem mapField_correct:
  assumes wf: "wf_mapping tm" and m: "mapField call [JObj ps] tm = Inr tm'"
  shows "if field_literal_ok call ps \<and> getFieldMapping tm (obj_get ps ''fieldName'') = None
    then \<exists>fm. fields_of tm' = fields_of tm @ [JObj fm] \<and>
        (\<forall>k. obj_get fm k = (if k \<in> set (allowedProperties (fieldMappingProperties call)) \<and> obj_get ps k \<noteq> JUndef
           then obj_get ps k else if k = ''persistent'' then JBool True else JUndef)) \<and>
        getFieldMapping tm' (obj_get ps ''fieldName'') = Some (JObj fm) \<and>
        excluded_of tm' = excluded_of tm @
          (if obj_get ps ''persistent'' = JBool False then [obj_get ps ''fieldName''] else []) \<and>
        tm_error tm' = tm_error tm
    else fields_of tm' = fields_of tm \<and> excluded_of tm' = excluded_of tm \<and>
        (\<exists>e. e \<noteq> [] \<and> tm_error tm' = tm_error tm @ e)"
  by (rule mapField_literal_correct[OF wf]) (use m in \<open>simp add: mapField_def js_typeof_def\<close>)

theorem mapField_correct_witness:
  "\<exists>tm. mapField (\<lambda>f. True) [JObj [(''fieldName'', JStr ''a''), (''persistent'', JBool False)]] initial_mapping = Inr tm \<and>
     excluded_of tm = [JStr ''a''] \<and> (\<exists>fm. fields_of tm = [JObj fm] \<and> obj_get fm ''persistent'' = JBool False)"
proof -
  let ?ps = "[(''fieldName'', JStr ''a''), (''persistent'', JBool False)]"
  have "case mapField (\<lambda>f. True) [JObj ?ps] initial_mapping of Inl _ \<Rightarrow> False | Inr tm \<Rightarrow> True" by code_simp
  then obtain tm where tm: "mapField (\<lambda>f. True) [JObj ?ps] initial_mapping = Inr tm" by (auto split: sum.splits)
  have ok: "field_literal_ok (\<lambda>f. True) ?ps" by (auto simp: field_literal_ok_def)
  have i: "getFieldMapping initial_mapping (JStr ''a'') = None" "excluded_of initial_mapping = []" "fields_of initial_mapping = []"
    by code_simp+
  from mapField_correct[OF initial_wf tm] ok i tm show ?thesis by (auto simp: field_verifiers)
qed

text \<open>
  A table name of one or two non-empty parts, without blanks and joined by a dot, gives a valid
  mapping with the last part as the table and the first of two as the database; any number of
  further parts is ignored when the third is empty, although the message promises one or two; and
  a non-empty third part or a blank is an error that leaves table and database empty.
\<close>

theorem table_name_correct:
  assumes ws: "ws \<noteq> []" "\<forall>w\<in>set ws. CHR ''.'' \<notin> set w"
  shows "\<exists>tm. new_TableMapping call [JStr (join_dot ws)] = Inr (tm, JStr (join_dot ws)) \<and>
      (isValid tm \<longleftrightarrow> (\<forall>w\<in>set ws. CHR '' '' \<notin> set w) \<and> (length ws < 3 \<or> ws ! 2 = [])) \<and>
      (isValid tm \<longrightarrow>
        tm_get tm ''table'' = JStr (if 2 \<le> length ws \<and> ws ! 0 \<noteq> [] \<and> ws ! 1 \<noteq> [] then ws ! 1 else ws ! 0) \<and>
        tm_get tm ''database'' = JStr (if 2 \<le> length ws \<and> ws ! 0 \<noteq> [] \<and> ws ! 1 \<noteq> [] then ws ! 0 else [])) \<and>
      (\<not> isValid tm \<longrightarrow> tm_get tm ''table'' = JStr [] \<and> tm_get tm ''database'' = JStr [])"
proof -
  let ?tm = "constructFromTableName (join_dot ws) initial_mapping"
  have new: "new_TableMapping call [JStr (join_dot ws)] = Inr (?tm, JStr (join_dot ws))"
    by (simp add: new_TableMapping_def js_typeof_def)
  have blank: "CHR '' '' \<in> set (join_dot ws) \<longleftrightarrow> (\<exists>w\<in>set ws. CHR '' '' \<in> set w)"
    by (induction ws rule: join_dot.induct) auto
  have init: "tm_get initial_mapping ''table'' = JStr []" "tm_get initial_mapping ''database'' = JStr []"
    "tm_error initial_mapping = []" by (simp_all add: tm_get_def initial_mapping_def)
  have err: "tm_get (tm\<lparr>tm_error := e\<rparr>) k = tm_get tm k" for tm e k by (simp add: tm_get_def)
  have p: "part ws 0 = ws ! 0" "part ws 1 \<noteq> [] \<longleftrightarrow> 2 \<le> length ws \<and> ws ! 1 \<noteq> []"
    "part ws 1 \<noteq> [] \<Longrightarrow> part ws 1 = ws ! 1" "part ws 2 \<noteq> [] \<longleftrightarrow> \<not> (length ws < 3 \<or> ws ! 2 = [])"
    using ws(1) by (auto simp: part_def)
  have "?tm = (if part ws 2 \<noteq> [] \<or> (\<exists>w\<in>set ws. CHR '' '' \<in> set w)
      then initial_mapping\<lparr>tm_error := [Txt ''MappingError: tableName must contain one or two parts: [database.]table'']\<rparr>
      else if part ws 0 \<noteq> [] \<and> part ws 1 \<noteq> []
      then tm_put ''table'' (JStr (part ws 1)) (tm_put ''database'' (JStr (part ws 0)) initial_mapping)
      else tm_put ''table'' (JStr (part ws 0)) initial_mapping)"
    by (simp only: constructFromTableName_def split_join[OF ws] blank Let_def)
  then show ?thesis using new p init by (auto simp: isValid_def err)
qed

theorem table_name_correct_witness:
  "\<exists>tm. new_TableMapping (\<lambda>f. False) [JStr ''a.b..c''] = Inr (tm, JStr ''a.b..c'') \<and> isValid tm \<and>
     tm_get tm ''table'' = JStr ''b'' \<and> tm_get tm ''database'' = JStr ''a''"
  using table_name_correct[of "[''a'', ''b'', [], ''c'']" "\<lambda>f. False"] by auto

text \<open>
  When the meta of a field is given as a literal instead of being made by the factory, nothing
  of the literal reaches the field: the field gets a fresh meta, nullable whatever the literal says,
  with no other attribute than the literal's property named p.
\<close>

theorem literal_meta_lost:
  assumes "wf_mapping tm" "name \<noteq> []" "getFieldMapping tm (JStr name) = None"
    and "isLiteralMeta (JObj lit)" "obj_get lit ''isMeta'' = JUndef"
  shows "\<exists>fm m tm'. mapField call [JStr name, JObj lit] tm = Inr tm' \<and>
    fields_of tm' = fields_of tm @ [JObj fm] \<and> obj_get fm ''meta'' = JObj m \<and>
    obj_get m ''isNullable'' = JBool True \<and>
    (\<forall>k. k \<notin> {''isNullable'', ''isMeta'', ''p''} \<longrightarrow> obj_get m k = JUndef)"
proof -
  obtain m where m: "fromLiteralMeta (JObj lit) = JObj m" "obj_get m ''isNullable'' = JBool True"
    "obj_get m ''isMeta'' = JFun ''isMeta''" "\<forall>k. k \<notin> {''isNullable'', ''isMeta'', ''p''} \<longrightarrow> obj_get m k = JUndef"
    using literal_meta by blast
  let ?ps = "[(''fieldName'', JStr name), (''meta'', JObj m)]"
  have p: "js_prop (JObj ps) k = obj_get ps k" for ps k by (simp add: js_prop_def own_props_def)
  have t: "js_typeof (JObj ps) = ''object''" "js_typeof (JStr z) = ''string''" "js_truthy (JObj ps)" for ps z
    by (simp_all add: js_typeof_def js_truthy_def)
  have "isMeta call (JObj lit) = Inr False" using assms(5) by (simp add: isMeta_def p js_truthy_def)
  then have lit: "mapField call [JStr name, JObj lit] tm = mapField_literal call (JObj ?ps) tm"
    using assms(4) by (simp add: mapField_def t m(1))
  have "isMetaOrLiteral call (JObj m) = Inr True"
    using m(2,3) by (simp add: isMetaOrLiteral_def isMeta_def isLiteralMeta_def p t) (simp add: js_typeof_def js_truthy_def)
  then have ok: "field_literal_ok call ?ps" using assms(2) by (auto simp: field_literal_ok_def)
  then have "getErrors (fieldMappingProperties call) (JObj ?ps) = Inr []" by (simp only: field_literal_errors)
  moreover obtain fs ex where "tm_get tm ''fields'' = JArr fs" "tm_get tm ''excludedFieldNames'' = JArr ex"
    using assms(1) by (auto simp: wf_mapping_def)
  ultimately have "\<exists>tm'. mapField_literal call (JObj ?ps) tm = Inr tm'"
    using assms(3) by (simp add: mapField_literal_def p buildObjectFromLiteral_def tm_push_def Let_def)
  then obtain tm' where tm': "mapField_literal call (JObj ?ps) tm = Inr tm'" by blast
  from mapField_literal_correct[OF assms(1) tm'] ok assms(3) obtain fm where
    "fields_of tm' = fields_of tm @ [JObj fm]" "obj_get fm ''meta'' = JObj m"
    by (auto simp: field_verifiers)
  with tm' lit m show ?thesis by auto
qed

theorem literal_meta_lost_witness:
  "\<exists>fm m tm'. mapField (\<lambda>f. True) [JStr ''a'', JObj [(''isNullable'', JBool False)]] initial_mapping = Inr tm' \<and>
    fields_of tm' = [JObj fm] \<and> obj_get fm ''meta'' = JObj m \<and> obj_get m ''isNullable'' = JBool True"
proof -
  have i: "getFieldMapping initial_mapping (JStr ''a'') = None" "fields_of initial_mapping = []"
    "isLiteralMeta (JObj [(''isNullable'', JBool False)])" by code_simp+
  from literal_meta_lost[OF initial_wf _ i(1,3), of "\<lambda>f. True"] i(2) show ?thesis by auto
qed

end
