(* ===== verification/TableHandler.thy ===== *)
theory TableHandler
  imports TableMapping IndexChoice
begin

text \<open>
  \<^verbatim>\<open>Adapter/common/DBTableHandler.js\<close>: the handler that resolves a table mapping against a table of the
  dictionary, moves values between domain objects and columns, and wraps the indexes; and
  \<^verbatim>\<open>Adapter/common/FieldValueDefinedListener.js\<close>. A domain object is the list of its properties. What the
  functions of converters return is the parameter \<open>call1\<close>. The handler shares the field objects with
  the mapping it resolves, so a field is referred to by its position among the resolved fields.
\<close>

section \<open>Tables and fields\<close>

type_synonym jobject = "(string \<times> js) list"

record column_metadata =
  cm_name :: string
  cm_isAutoincrement :: bool
  cm_isLob :: bool
  cm_isBinary :: bool
  cm_typeConverter :: js

record db_index =
  dbi_name :: string
  dbi_isPrimaryKey :: bool
  dbi_isUnique :: bool
  dbi_isOrdered :: bool
  dbi_columnNumbers :: "nat list"

record db_table =
  dbt_database :: string
  dbt_name :: string
  dbt_columns :: "column_metadata list"
  dbt_indexes :: "db_index list"
  dbt_foreignKeys :: "(string \<times> js) list"
  dbt_sparseContainer :: "string option"

definition getColumnByName :: "db_table \<Rightarrow> string \<Rightarrow> column_metadata option" where
  "getColumnByName t colName = List.find (\<lambda>col. cm_name col = colName) (dbt_columns t)"

text \<open>What the handler uses of a field of a mapping, and the attributes it adds to it.\<close>

record dbt_mapping =
  fm_fieldName :: string
  fm_columnName :: string
  fm_toManyColumns :: "string list option"
  fm_persistent :: bool
  fm_relationship :: bool
  fm_converter :: js
  fm_isShared :: bool
  fm_columnMask :: "bitmask option"
  fm_columnNumber :: "nat option"

definition js_text :: "js \<Rightarrow> string" where
  "js_text v = (case v of JStr s \<Rightarrow> s | _ \<Rightarrow> [])"

definition field_of :: "js \<Rightarrow> dbt_mapping" where
  "field_of f = \<lparr>fm_fieldName = js_text (js_prop f ''fieldName''), fm_columnName = js_text (js_prop f ''columnName''),
     fm_toManyColumns = (case js_prop f ''toManyColumns'' of JArr xs \<Rightarrow> Some (map js_text xs) | _ \<Rightarrow> None),
     fm_persistent = js_truthy (js_prop f ''persistent''), fm_relationship = js_truthy (js_prop f ''relationship''),
     fm_converter = js_prop f ''converter'',
     fm_isShared = (js_truthy (js_prop f ''meta'') \<and> js_truthy (js_prop (js_prop f ''meta'') ''isShared'')),
     fm_columnMask = None, fm_columnNumber = None\<rparr>"

section \<open>Columns\<close>

datatype column_kind = OneToOne | Shared | Partial | Sparse | Unmapped

record dbt_column =
  c_columnName :: string
  c_fieldNames :: "string list"
  c_fieldConverters :: "js list"
  c_isMapped :: bool
  c_isShared :: bool
  c_isPartial :: bool
  c_isFirst :: bool
  c_isLast :: bool
  c_typeConverter :: js
  c_kind :: column_kind

text \<open>
  \<open>c_kind\<close> stands for the pair of methods \<open>getColumnValue\<close> and \<open>setFieldValues\<close>. A sparse column refers to
  the excluded names of the resolved mapping, which the operations take as an argument.
\<close>

definition js_or :: "js \<Rightarrow> js \<Rightarrow> js" where
  "js_or a b = (if js_truthy a then a else b)"

definition DBT_Column :: "column_metadata \<Rightarrow> js \<Rightarrow> dbt_column" where
  "DBT_Column md converter = \<lparr>c_columnName = cm_name md, c_fieldNames = [], c_fieldConverters = [], c_isMapped = False,
     c_isShared = False, c_isPartial = False, c_isFirst = False, c_isLast = False,
     c_typeConverter = js_or converter (cm_typeConverter md), c_kind = OneToOne\<rparr>"

text \<open>\<open>addFieldMapping\<close> returns the column and the error it reports, if any.\<close>

definition addFieldMapping :: "dbt_mapping \<Rightarrow> dbt_column \<Rightarrow> dbt_column \<times> msg option" where
  "addFieldMapping f col =
     (let col1 = (if fm_isShared f then col\<lparr>c_isShared := True, c_kind := Shared\<rparr> else col);
          col2 = col1\<lparr>c_fieldNames := c_fieldNames col1 @ [fm_fieldName f],
                      c_fieldConverters := c_fieldConverters col1 @ [fm_converter f]\<rparr>
      in if 1 < length (c_fieldNames col2) \<and> \<not> c_isShared col2
         then (col2, Some [Txt (''Column '' @ c_columnName col @ '' is used by multiple fields but field '' @
                 fm_fieldName f @ '' does not mark it as shared.'')])
         else (col2\<lparr>c_isMapped := True\<rparr>, None))"

definition mapPartial :: "dbt_mapping \<Rightarrow> nat \<Rightarrow> dbt_column \<Rightarrow> dbt_column" where
  "mapPartial f n col = col\<lparr>c_isMapped := True, c_isPartial := True, c_isFirst := (n = 0),
     c_isLast := (case fm_toManyColumns f of Some cols \<Rightarrow> Suc n = length cols | None \<Rightarrow> False),
     c_fieldNames := c_fieldNames col @ [fm_fieldName f],
     c_fieldConverters := c_fieldConverters col @ [fm_converter f], c_kind := Partial\<rparr>"

abbreviation (input) "JSONConverter \<equiv> JObj [(''toDB'', JFun ''JSONConverter.toDB''), (''fromDB'', JFun ''JSONConverter.fromDB'')]"

definition setSparse :: "js \<Rightarrow> dbt_column \<Rightarrow> dbt_column" where
  "setSparse containerConverter col = col\<lparr>c_isMapped := True, c_isShared := True,
     c_typeConverter := js_or containerConverter (js_or (c_typeConverter col) JSONConverter), c_kind := Sparse\<rparr>"

definition setUnmappable :: "dbt_column \<Rightarrow> dbt_column" where
  "setUnmappable col = col\<lparr>c_kind := Unmapped\<rparr>"

section \<open>Values of columns\<close>

definition conv_call :: "(string \<Rightarrow> js \<Rightarrow> js) \<Rightarrow> string \<Rightarrow> js \<Rightarrow> js \<Rightarrow> js" where
  "conv_call call1 m c v = (if js_truthy c then (case js_prop c m of JFun f \<Rightarrow> call1 f v | _ \<Rightarrow> v) else v)"

text \<open>Applying a converter if there is one; it has the methods \<open>toDB\<close> and \<open>fromDB\<close>.\<close>

abbreviation "conv_toDB call1 \<equiv> conv_call call1 ''toDB''"
abbreviation "conv_fromDB call1 \<equiv> conv_call call1 ''fromDB''"

definition toDB :: "(string \<Rightarrow> js \<Rightarrow> js) \<Rightarrow> dbt_column \<Rightarrow> js \<Rightarrow> js" where
  "toDB call1 col v = conv_toDB call1 (c_typeConverter col) v"

definition fromDB :: "(string \<Rightarrow> js \<Rightarrow> js) \<Rightarrow> dbt_column \<Rightarrow> js \<Rightarrow> js" where
  "fromDB call1 col v = conv_fromDB call1 (c_typeConverter col) v"

definition nth_or :: "'a \<Rightarrow> 'a list \<Rightarrow> nat \<Rightarrow> 'a" where
  "nth_or d xs i = (if i < length xs then xs ! i else d)"

text \<open>The name of the first field; a column without field reads and writes the property \<open>undefined\<close>.\<close>

definition first_field :: "dbt_column \<Rightarrow> string" where
  "first_field col = nth_or ''undefined'' (c_fieldNames col) 0"

definition first_converter :: "dbt_column \<Rightarrow> js" where
  "first_converter col = nth_or JUndef (c_fieldConverters col) 0"

definition getColumnValue_1to1 :: "(string \<Rightarrow> js \<Rightarrow> js) \<Rightarrow> dbt_column \<Rightarrow> jobject \<Rightarrow> js" where
  "getColumnValue_1to1 call1 col ob =
     toDB call1 col (conv_toDB call1 (first_converter col) (obj_get ob (first_field col)))"

definition setFieldValues_1to1 :: "(string \<Rightarrow> js \<Rightarrow> js) \<Rightarrow> dbt_column \<Rightarrow> jobject \<Rightarrow> js \<Rightarrow> jobject" where
  "setFieldValues_1to1 call1 col ob v =
     obj_put ob (first_field col) (conv_fromDB call1 (first_converter col) (fromDB call1 col v))"

text \<open>
  Reading a partial column changes the domain object for a while: the first column replaces the
  field by its intermediate form and the last one puts it back.
\<close>

definition getColumnValue_Partial :: "(string \<Rightarrow> js \<Rightarrow> js) \<Rightarrow> dbt_column \<Rightarrow> jobject \<Rightarrow> (js \<times> jobject) res" where
  "getColumnValue_Partial call1 col ob =
     (let f = first_field col; c = first_converter col;
          ob1 = (if c_isFirst col \<and> js_truthy c then obj_put ob f (conv_toDB call1 c (obj_get ob f)) else ob);
          v = obj_get ob1 f;
          ob2 = (if c_isLast col \<and> js_truthy c then obj_put ob1 f (conv_fromDB call1 c v) else ob1) in
      if js_typeof v = ''object''
      then rbind (js_member v (c_columnName col)) (\<lambda>x. Inr (toDB call1 col x, ob2))
      else Inr (JUndef, ob2))"

text \<open>Writing a property of a value: strict code throws on a primitive one.\<close>

definition js_put :: "js \<Rightarrow> string \<Rightarrow> js \<Rightarrow> js res" where
  "js_put v k x = (case v of JObj ps \<Rightarrow> Inr (JObj (obj_put ps k x)) | JArr _ \<Rightarrow> Inr (JObj (obj_put (own_props v) k x))
     | JFun _ \<Rightarrow> Inr v | _ \<Rightarrow> Inl TypeError)"

definition setFieldValues_Partial :: "(string \<Rightarrow> js \<Rightarrow> js) \<Rightarrow> dbt_column \<Rightarrow> jobject \<Rightarrow> js \<Rightarrow> jobject res" where
  "setFieldValues_Partial call1 col ob v =
     (let f = first_field col; c = first_converter col;
          ob1 = (if c_isFirst col then obj_put ob f (JObj []) else ob) in
      rbind (js_put (obj_get ob1 f) (c_columnName col) (fromDB call1 col v)) (\<lambda>x.
        let ob2 = obj_put ob1 f x in
        Inr (if c_isLast col \<and> js_truthy c then obj_put ob2 f (conv_fromDB call1 c (obj_get ob2 f)) else ob2)))"

definition getColumnValue_Shared :: "(string \<Rightarrow> js \<Rightarrow> js) \<Rightarrow> dbt_column \<Rightarrow> jobject \<Rightarrow> js" where
  "getColumnValue_Shared call1 col ob =
     toDB call1 col (JObj (fold (\<lambda>i v. let name = c_fieldNames col ! i in
         obj_put v name (conv_toDB call1 (nth_or JUndef (c_fieldConverters col) i) (obj_get ob name)))
       [0..<length (c_fieldNames col)] []))"

fun shared_loop :: "(string \<Rightarrow> js \<Rightarrow> js) \<Rightarrow> dbt_column \<Rightarrow> js \<Rightarrow> nat list \<Rightarrow> jobject \<Rightarrow> jobject res" where
  "shared_loop call1 col v [] ob = Inr ob"
| "shared_loop call1 col v (i # is) ob =
     (let name = c_fieldNames col ! i in
      rbind (js_member v name) (\<lambda>x.
        shared_loop call1 col v is
          (obj_put ob name (conv_fromDB call1 (nth_or JUndef (c_fieldConverters col) i) x))))"

definition setFieldValues_Shared :: "(string \<Rightarrow> js \<Rightarrow> js) \<Rightarrow> dbt_column \<Rightarrow> jobject \<Rightarrow> js \<Rightarrow> jobject res" where
  "setFieldValues_Shared call1 col ob v =
     shared_loop call1 col (fromDB call1 col v) [0..<length (c_fieldNames col)] ob"

definition getColumnValue_Sparse :: "(string \<Rightarrow> js \<Rightarrow> js) \<Rightarrow> js list \<Rightarrow> dbt_column \<Rightarrow> jobject \<Rightarrow> js" where
  "getColumnValue_Sparse call1 excluded col ob =
     toDB call1 col (JObj (fold (\<lambda>(k, x) v. if JStr k \<in> set excluded then v else obj_put v k x) ob []))"

definition setFieldValues_Sparse :: "(string \<Rightarrow> js \<Rightarrow> js) \<Rightarrow> dbt_column \<Rightarrow> jobject \<Rightarrow> js \<Rightarrow> jobject" where
  "setFieldValues_Sparse call1 col ob v =
     (let x = fromDB call1 col v in
      if js_typeof x = ''object'' then fold (\<lambda>(k, y) ob. obj_put ob k y) (own_props x) ob else ob)"

definition getColumnValue :: "(string \<Rightarrow> js \<Rightarrow> js) \<Rightarrow> js list \<Rightarrow> dbt_column \<Rightarrow> jobject \<Rightarrow> (js \<times> jobject) res" where
  "getColumnValue call1 excluded col ob = (case c_kind col of
       OneToOne \<Rightarrow> Inr (getColumnValue_1to1 call1 col ob, ob)
     | Shared \<Rightarrow> Inr (getColumnValue_Shared call1 col ob, ob)
     | Partial \<Rightarrow> getColumnValue_Partial call1 col ob
     | Sparse \<Rightarrow> Inr (getColumnValue_Sparse call1 excluded col ob, ob)
     | Unmapped \<Rightarrow> Inr (JUndef, ob))"

definition setFieldValues :: "(string \<Rightarrow> js \<Rightarrow> js) \<Rightarrow> dbt_column \<Rightarrow> jobject \<Rightarrow> js \<Rightarrow> jobject res" where
  "setFieldValues call1 col ob v = (case c_kind col of
       OneToOne \<Rightarrow> Inr (setFieldValues_1to1 call1 col ob v)
     | Shared \<Rightarrow> setFieldValues_Shared call1 col ob v
     | Partial \<Rightarrow> setFieldValues_Partial call1 col ob v
     | Sparse \<Rightarrow> Inr (setFieldValues_Sparse call1 col ob v)
     | Unmapped \<Rightarrow> Inr ob)"

definition hasConverter :: "dbt_column \<Rightarrow> bool" where
  "hasConverter col \<longleftrightarrow> js_truthy (c_typeConverter col) \<or> js_truthy (first_converter col)"

section \<open>The handler\<close>

text \<open>
  The handler with its private part. \<open>h_fieldMap\<close> maps the name of a field to its position among the
  resolved fields and to the number of its columns; \<open>h_errors\<close> are the messages appended so far.
\<close>

record dbt_handler =
  h_idMap :: "string \<rightharpoonup> nat"
  h_columns :: "dbt_column list"
  h_metadata :: "column_metadata list"
  h_fieldMap :: "string \<rightharpoonup> nat \<times> nat"
  h_maxColumns :: nat
  h_sparseColumnId :: "nat option"
  h_fields :: "dbt_mapping list"
  h_resolved :: table_mapping
  h_errors :: "msg list"
  h_isValid :: bool
  h_autoIncColumnNumber :: "nat option"
  h_autoIncFieldName :: "string option"
  h_numberOfLobColumns :: nat
  h_sparseContainer :: "string option"
  h_is1to1 :: bool
  h_relationshipFields :: "nat list"

definition appendErrorMessage :: "msg \<Rightarrow> dbt_handler \<Rightarrow> dbt_handler" where
  "appendErrorMessage m h = h\<lparr>h_errors := h_errors h @ [Txt nl # m], h_isValid := False\<rparr>"

definition new_handler :: "db_table \<Rightarrow> table_mapping \<Rightarrow> dbt_handler" where
  "new_handler t resolved = \<lparr>h_idMap = Map.empty, h_columns = [], h_metadata = [], h_fieldMap = Map.empty,
     h_maxColumns = length (dbt_columns t), h_sparseColumnId = None,
     h_fields = map field_of (js_items (tm_get resolved ''fields'')), h_resolved = resolved, h_errors = [],
     h_isValid = True, h_autoIncColumnNumber = None, h_autoIncFieldName = None, h_numberOfLobColumns = 0,
     h_sparseContainer = None, h_is1to1 = True, h_relationshipFields = []\<rparr>"

definition upd_column :: "nat \<Rightarrow> (dbt_column \<Rightarrow> dbt_column) \<Rightarrow> dbt_handler \<Rightarrow> dbt_handler" where
  "upd_column cid f h = h\<lparr>h_columns := (h_columns h)[cid := f (h_columns h ! cid)]\<rparr>"

definition addColumn :: "js \<Rightarrow> column_metadata \<Rightarrow> dbt_handler \<Rightarrow> dbt_handler" where
  "addColumn converterMap md h = h\<lparr>h_idMap := (h_idMap h)(cm_name md \<mapsto> length (h_columns h)),
     h_columns := h_columns h @ [DBT_Column md (js_prop converterMap (cm_name md))],
     h_metadata := h_metadata h @ [md]\<rparr>"

text \<open>\<open>mapToColumn\<close> of the field that the position \<open>k\<close> refers to.\<close>

definition mapToColumn :: "string \<Rightarrow> nat \<Rightarrow> dbt_handler \<Rightarrow> dbt_handler" where
  "mapToColumn name colNumber h = (case h_fieldMap h name of
       None \<Rightarrow> h
     | Some (k, ncol) \<Rightarrow>
         let f = h_fields h ! k in
         h\<lparr>h_fields := (h_fields h)[k := f\<lparr>fm_columnMask := map_option (\<lambda>m. bm_set m colNumber) (fm_columnMask f),
             fm_columnNumber := (if Suc ncol = 1 then Some colNumber else None)\<rparr>],
           h_fieldMap := (h_fieldMap h)(name \<mapsto> (k, Suc ncol))\<rparr>)"

fun mapPartials :: "dbt_mapping \<Rightarrow> string list \<Rightarrow> nat list \<Rightarrow> nat \<Rightarrow> dbt_handler \<Rightarrow> nat \<times> dbt_handler" where
  "mapPartials f cols [] n h = (n, h)"
| "mapPartials f cols (cid # ids) n h =
     (if c_columnName (h_columns h ! cid) \<in> set cols
      then mapPartials f cols ids (Suc n) (upd_column cid (mapPartial f n) (mapToColumn (fm_fieldName f) cid h))
      else mapPartials f cols ids n h)"

definition report :: "msg option \<Rightarrow> dbt_handler \<Rightarrow> dbt_handler" where
  "report e h = (case e of None \<Rightarrow> h | Some m \<Rightarrow> appendErrorMessage m h)"

definition mapFieldToColumns :: "dbt_mapping \<Rightarrow> dbt_handler \<Rightarrow> dbt_handler res" where
  "mapFieldToColumns f h =
     (case fm_toManyColumns f of
        Some cols \<Rightarrow>
          let (n, h') = mapPartials f cols [0..<length (h_columns h)] 0 h in
          Inr (if length cols \<noteq> n
               then appendErrorMessage [Txt (''Bad column list in field '' @ fm_fieldName f @ '': ''), Text (JArr (map JStr cols)),
                      Txt (''(used '' @ nat_str n @ '')'')] h'
               else h')
      | None \<Rightarrow>
          (case h_idMap h (if fm_columnName f \<noteq> [] then fm_columnName f else fm_fieldName f) of
             Some cid \<Rightarrow>
               let (col, e) = addFieldMapping f (h_columns h ! cid) in
               Inr (mapToColumn (fm_fieldName f) cid (report e (upd_column cid (\<lambda>_. col) h)))
           | None \<Rightarrow>
               (case h_sparseColumnId h of
                  Some cid \<Rightarrow>
                    let (col, e) = addFieldMapping f (h_columns h ! cid) in
                    if e \<noteq> None then Inl TypeError
                    else Inr (mapToColumn (fm_fieldName f) cid (upd_column cid (\<lambda>_. col) h))
                | None \<Rightarrow> Inr (appendErrorMessage [Txt (''No column for field '' @ fm_fieldName f)] h))))"

text \<open>\<open>addField\<close> for the field at position \<open>k\<close>; a field gets a mask if the table has columns.\<close>

definition addField :: "nat \<Rightarrow> dbt_handler \<Rightarrow> dbt_handler res" where
  "addField k h =
     (let f = h_fields h ! k in
      if h_fieldMap h (fm_fieldName f) \<noteq> None
      then Inr (appendErrorMessage [Txt (''Attempt to map field '' @ fm_fieldName f @ '' more than once'')] h)
      else
        let h1 = h\<lparr>h_fieldMap := (h_fieldMap h)(fm_fieldName f \<mapsto> (k, 0))\<rparr> in
        if fm_relationship f then Inr h1
        else
          let f' = (if 0 < h_maxColumns h then f\<lparr>fm_columnMask := Some (new_BitMask (Some (h_maxColumns h)))\<rparr> else f) in
          mapFieldToColumns f' (h1\<lparr>h_fields := (h_fields h1)[k := f']\<rparr>))"

definition setSparseColumn :: "nat \<Rightarrow> dbt_handler \<Rightarrow> dbt_handler" where
  "setSparseColumn cid h =
     upd_column cid (setSparse (js_prop (tm_get (h_resolved h) ''sparseContainer'') ''converter''))
       (h\<lparr>h_sparseColumnId := Some cid\<rparr>)"

definition getColumnMappingByName :: "dbt_handler \<Rightarrow> string \<Rightarrow> dbt_column option" where
  "getColumnMappingByName h name = map_option (\<lambda>cid. h_columns h ! cid) (h_idMap h name)"

definition getNumberOfMappedColumns :: "dbt_handler \<Rightarrow> nat" where
  "getNumberOfMappedColumns h = length (filter (\<lambda>col. c_isMapped col \<and>
     \<not> (c_kind col = Sparse \<and> js_items (tm_get (h_resolved h) ''excludedFieldNames'') \<noteq> [])) (h_columns h))"

section \<open>The constructor of the handler\<close>

definition addColumnName :: "db_table \<Rightarrow> string \<Rightarrow> string list \<Rightarrow> string list" where
  "addColumnName t name names =
     (if name \<noteq> [] \<and> getColumnByName t name \<noteq> None \<and> name \<notin> set names then names @ [name] else names)"

definition column_names :: "db_table \<Rightarrow> bool \<Rightarrow> dbt_mapping list \<Rightarrow> string list" where
  "column_names t mapAllColumns fs =
     (if mapAllColumns then map cm_name (dbt_columns t)
      else
        let names = fold (\<lambda>f names.
              if fm_persistent f then
                (case fm_toManyColumns f of
                   Some cols \<Rightarrow> fold (addColumnName t) cols names
                 | None \<Rightarrow> addColumnName t (if fm_columnName f \<noteq> [] then fm_columnName f else fm_fieldName f) names)
              else names) fs []
        in (case dbt_sparseContainer t of Some c \<Rightarrow> addColumnName t c names | None \<Rightarrow> names))"

fun addFields :: "nat list \<Rightarrow> dbt_handler \<Rightarrow> dbt_handler res" where
  "addFields [] h = Inr h"
| "addFields (k # ks) h =
     rbind (if fm_persistent (h_fields h ! k) then addField k h else Inr h) (addFields ks)"

text \<open>The field that \<open>dbt_getFieldMapping\<close> of the resolved mapping finds, and the fields it has gained.\<close>

definition field_index :: "string \<Rightarrow> dbt_mapping list \<Rightarrow> nat option" where
  "field_index name fs = List.find (\<lambda>k. fm_fieldName (fs ! k) = name) [0..<length fs]"

definition set_resolved :: "table_mapping \<Rightarrow> dbt_handler \<Rightarrow> dbt_handler" where
  "set_resolved tm h = h\<lparr>h_resolved := tm,
     h_fields := h_fields h @ map field_of (drop (length (h_fields h)) (js_items (tm_get tm ''fields'')))\<rparr>"

definition default_field :: "(string \<Rightarrow> bool) \<Rightarrow> nat \<Rightarrow> dbt_handler \<Rightarrow> dbt_handler res" where
  "default_field call i h =
     (if c_isMapped (h_columns h ! i) then Inr h
      else let name = cm_name (h_metadata h ! i) in
        if h_fieldMap h name \<noteq> None then Inr (upd_column i setUnmappable h)
        else
          rbind (mapField call [JObj [(''fieldName'', JStr name), (''columnName'', JStr name)]] (h_resolved h)) (\<lambda>tm.
            let h' = set_resolved tm h in
            (case field_index name (h_fields h') of Some k \<Rightarrow> addField k h' | None \<Rightarrow> Inl TypeError)))"

fun default_fields :: "(string \<Rightarrow> bool) \<Rightarrow> nat list \<Rightarrow> dbt_handler \<Rightarrow> dbt_handler res" where
  "default_fields call [] h = Inr h"
| "default_fields call (i # is) h = rbind (default_field call i h) (default_fields call is)"

definition sparse_column :: "(string \<Rightarrow> bool) \<Rightarrow> db_table \<Rightarrow> string \<Rightarrow> nat \<Rightarrow> dbt_handler \<Rightarrow> dbt_handler res" where
  "sparse_column call t col cid h =
     (let container = tm_get (h_resolved h) ''sparseContainer'' in
      if js_truthy container \<and> js_prop container ''columnName'' = JStr col
      then Inr (setSparseColumn cid (h\<lparr>h_sparseContainer := Some col\<rparr>))
      else if dbt_sparseContainer t = Some col \<and> \<not> c_isMapped (h_columns h ! cid)
      then rbind (mapSparseFields call [JStr col] (h_resolved h)) (\<lambda>tm.
             Inr (setSparseColumn cid ((set_resolved tm h)\<lparr>h_sparseContainer := Some col\<rparr>)))
      else Inr h)"

text \<open>\<open>stale\<close> is the value that the loop counter \<open>i\<close> has kept from the loops before.\<close>

definition note_column :: "nat \<Rightarrow> nat \<Rightarrow> dbt_handler \<Rightarrow> dbt_handler" where
  "note_column stale cid h1 =
     (let md = h_metadata h1 ! cid; c = h_columns h1 ! cid;
          h2 = (if cm_isAutoincrement md
                then h1\<lparr>h_autoIncColumnNumber := Some stale, h_autoIncFieldName := js_get (c_fieldNames c) 0\<rparr> else h1);
          h3 = (if cm_isLob md then h2\<lparr>h_numberOfLobColumns := h_numberOfLobColumns h2 + 1\<rparr> else h2)
      in if c_isShared c \<or> c_isPartial c then h3\<lparr>h_is1to1 := False\<rparr> else h3)"

definition notable_column :: "(string \<Rightarrow> bool) \<Rightarrow> db_table \<Rightarrow> nat \<Rightarrow> string \<times> nat \<Rightarrow> dbt_handler \<Rightarrow> dbt_handler res" where
  "notable_column call t stale = (\<lambda>(col, cid) h.
     rbind (sparse_column call t col cid h) (\<lambda>h1. Inr (note_column stale cid h1)))"

fun notable_columns :: "(string \<Rightarrow> bool) \<Rightarrow> db_table \<Rightarrow> nat \<Rightarrow> (string \<times> nat) list \<Rightarrow> dbt_handler \<Rightarrow> dbt_handler res" where
  "notable_columns call t stale [] h = Inr h"
| "notable_columns call t stale (c # cs) h = rbind (notable_column call t stale c h) (notable_columns call t stale cs)"

definition resolve_field :: "nat \<Rightarrow> dbt_handler \<Rightarrow> dbt_handler res" where
  "resolve_field k h =
     (let f = h_fields h ! k;
          err = (\<lambda>m. h\<lparr>h_resolved := add_error [Txt m] (h_resolved h)\<rparr>);
          setName = (\<lambda>s. h\<lparr>h_fields := (h_fields h)[k := f\<lparr>fm_columnName := s\<rparr>]\<rparr>);
          h1 =
            (if fm_relationship f then h\<lparr>h_relationshipFields := h_relationshipFields h @ [k]\<rparr>
             else if fm_persistent f then
               (if fm_columnName f \<noteq> [] then
                  (if getColumnMappingByName h (fm_columnName f) = None
                   then err (''Column '' @ fm_columnName f @ '' does not exist'' @ nl) else h)
                else if fm_toManyColumns f = None then
                  (if getColumnMappingByName h (fm_fieldName f) \<noteq> None then setName (fm_fieldName f)
                   else (case h_sparseContainer h of
                           Some s \<Rightarrow> setName s
                         | None \<Rightarrow> err (''No column mapped for field '' @ fm_fieldName f @ nl)))
                else h)
             else h) in
      if h_sparseContainer h1 \<noteq> Some (fm_columnName (h_fields h1 ! k))
      then rbind (fieldIsNotSparse (JStr (fm_fieldName f)) (h_resolved h1)) (\<lambda>tm. Inr (h1\<lparr>h_resolved := tm\<rparr>))
      else Inr h1)"

fun resolve_fields :: "nat list \<Rightarrow> dbt_handler \<Rightarrow> dbt_handler res" where
  "resolve_fields [] h = Inr h"
| "resolve_fields (k # ks) h = rbind (resolve_field k h) (resolve_fields ks)"

text \<open>The mapping as the literal from which its copy is constructed.\<close>

definition mapping_literal :: "table_mapping \<Rightarrow> js" where
  "mapping_literal tm = JObj (tm_props tm @ [(''error'', JStr (if isValid tm then [] else ''?''))])"

definition default_mapping :: "(string \<Rightarrow> bool) \<Rightarrow> db_table \<Rightarrow> table_mapping res" where
  "default_mapping call t =
     rbind (new_TableMapping call [JStr (dbt_name t)]) (\<lambda>(tm, _). Inr (tm_put ''database'' (JStr (dbt_database t)) tm))"

definition add_columns :: "db_table \<Rightarrow> js \<Rightarrow> string list \<Rightarrow> dbt_handler \<Rightarrow> dbt_handler" where
  "add_columns t converterMap names h =
     fold (\<lambda>name h. case getColumnByName t name of Some md \<Rightarrow> addColumn converterMap md h | None \<Rightarrow> h) names h"

definition build_handler :: "(string \<Rightarrow> bool) \<Rightarrow> db_table \<Rightarrow> table_mapping \<Rightarrow> dbt_handler res" where
  "build_handler call t tm =
     rbind (new_TableMapping call [mapping_literal tm]) (\<lambda>(r, _).
       let all' = js_truthy (tm_get tm ''mapAllColumns'');
           names = column_names t all' (map field_of (js_items (tm_get tm ''fields'')));
           h0 = add_columns t (tm_get tm ''columnConverterMap'') names
                  (new_handler t (tm_put ''mapAllColumns'' (JBool False) r)) in
       rbind (addFields [0..<length (h_fields h0)] h0) (\<lambda>h1.
       rbind (if all' then default_fields call [0..<length (h_columns h1)] h1 else Inr h1) (\<lambda>h2.
       rbind (notable_columns call t (if all' then length (h_columns h1) else length (h_fields h1))
                (zip names [0..<length names]) h2) (\<lambda>h3.
         resolve_fields [0..<length (h_fields h3)] h3))))"

text \<open>An explicit mapping with errors makes an invalid handler, and the constructor stops there.\<close>

definition DBTableHandler :: "(string \<Rightarrow> bool) \<Rightarrow> db_table \<Rightarrow> table_mapping option \<Rightarrow> dbt_handler res" where
  "DBTableHandler call t mapping =
     (case mapping of
        Some tm \<Rightarrow> if isValid tm then build_handler call t tm
                   else Inr ((new_handler t initial_mapping)\<lparr>h_errors := [tm_error tm], h_isValid := False\<rparr>)
      | None \<Rightarrow> rbind (default_mapping call t) (build_handler call t))"

section \<open>Index handlers\<close>

definition table_column_name :: "db_table \<Rightarrow> nat \<Rightarrow> string res" where
  "table_column_name t colNo = (case js_get (dbt_columns t) colNo of Some md \<Rightarrow> Inr (cm_name md) | None \<Rightarrow> Inl TypeError)"

definition hasColumnsFromTable :: "db_table \<Rightarrow> dbt_handler \<Rightarrow> nat list \<Rightarrow> bool res" where
  "hasColumnsFromTable t h colNos =
     rbind (rmap (table_column_name t) colNos) (\<lambda>names. Inr (list_all (\<lambda>name. h_idMap h name \<noteq> None) names))"

record index_model =
  im_handler :: index_handler
  im_fieldMappings :: "nat list"
  im_singleColumn :: "column_metadata option"

definition DBIndexHandler :: "db_table \<Rightarrow> dbt_handler \<Rightarrow> db_index \<Rightarrow> index_model res" where
  "DBIndexHandler t h dbIndex =
     rbind (rmap (\<lambda>colNo. rbind (table_column_name t colNo) (\<lambda>name.
              case h_idMap h name of Some cid \<Rightarrow> Inr cid | None \<Rightarrow> Inl TypeError)) (dbi_columnNumbers dbIndex)) (\<lambda>ids.
     rbind (rmap (\<lambda>name. case h_fieldMap h name of Some (k, _) \<Rightarrow> Inr k | None \<Rightarrow> Inl TypeError)
              (concat (map (\<lambda>cid. c_fieldNames (h_columns h ! cid)) ids))) (\<lambda>fields'.
       Inr \<lparr>im_handler = \<lparr>ih_name = dbi_name dbIndex, ih_isPrimaryKey = dbi_isPrimaryKey dbIndex,
              ih_isUnique = dbi_isUnique dbIndex, ih_isOrdered = dbi_isOrdered dbIndex, indexColumnNumbers = ids,
              ih_columnMask = foldl bm_set (new_BitMask (Some (length (h_columns h)))) ids\<rparr>,
            im_fieldMappings = fields',
            im_singleColumn = (case ids of [cid] \<Rightarrow> js_get (h_metadata h) cid | _ \<Rightarrow> None)\<rparr>))"

fun build_index_handlers :: "db_table \<Rightarrow> dbt_handler \<Rightarrow> db_index list \<Rightarrow> index_model list res" where
  "build_index_handlers t h [] = Inr []"
| "build_index_handlers t h (x # xs) =
     rbind (hasColumnsFromTable t h (dbi_columnNumbers x)) (\<lambda>usable.
     rbind (if usable then rbind (DBIndexHandler t h x) (\<lambda>m. Inr [m]) else Inr []) (\<lambda>ms.
     rbind (build_index_handlers t h xs) (\<lambda>rest. Inr (ms @ rest))))"

definition foreignKeyMap :: "db_table \<Rightarrow> string \<rightharpoonup> js" where
  "foreignKeyMap t = fold (\<lambda>(name, fk) m. m(name \<mapsto> fk)) (dbt_foreignKeys t) Map.empty"

definition dbt_getFieldMapping :: "dbt_handler \<Rightarrow> string \<Rightarrow> dbt_mapping option" where
  "dbt_getFieldMapping h name = map_option (\<lambda>(k, _). h_fields h ! k) (h_fieldMap h name)"

definition getColumnMaskForField :: "dbt_handler \<Rightarrow> string \<Rightarrow> bitmask option" where
  "getColumnMaskForField h name = Option.bind (dbt_getFieldMapping h name) fm_columnMask"

text \<open>The handler as the choice of an index sees it.\<close>

definition as_table_handler :: "dbt_handler \<Rightarrow> index_model list \<Rightarrow> table_handler" where
  "as_table_handler h ims = \<lparr>th_numberOfColumns = length (h_columns h),
     th_columnMaskForField = getColumnMaskForField h, dbIndexHandlers = map im_handler ims\<rparr>"

section \<open>Domain objects\<close>

text \<open>The listener of defined values: its key, and the errors with column name, state and message.\<close>

record listener =
  l_key :: "string option"
  l_errors :: "(string \<times> string \<times> string) list"

definition new_listener :: listener where "new_listener = \<lparr>l_key = None, l_errors = []\<rparr>"

definition setDefined :: "nat \<Rightarrow> listener \<Rightarrow> listener" where
  "setDefined n l = (case l_key l of Some k \<Rightarrow> l\<lparr>l_key := Some (k @ ''D'')\<rparr> | None \<Rightarrow> l)"

definition setUndefined :: "nat \<Rightarrow> listener \<Rightarrow> listener" where
  "setUndefined n l = l\<lparr>l_key := Some ((case l_key l of None \<Rightarrow> replicate n (CHR ''D'') | Some k \<Rightarrow> k) @ ''U'')\<rparr>"

definition setError :: "string \<Rightarrow> string \<Rightarrow> string \<Rightarrow> listener \<Rightarrow> listener" where
  "setError col sqlState message l = l\<lparr>l_errors := l_errors l @ [(col, sqlState, message)]\<rparr>"

text \<open>What the operations on objects take from the environment.\<close>

record env =
  e_call1 :: "string \<Rightarrow> js \<Rightarrow> js"
  e_isBuffer :: "js \<Rightarrow> bool"

definition column_at :: "dbt_handler \<Rightarrow> nat \<Rightarrow> dbt_column res" where
  "column_at h n = (case js_get (h_columns h) n of Some c \<Rightarrow> Inr c | None \<Rightarrow> Inl TypeError)"

definition excluded_names :: "dbt_handler \<Rightarrow> js list" where
  "excluded_names h = js_items (tm_get (h_resolved h) ''excludedFieldNames'')"

text \<open>
  \<open>get\<close> with a listener or without. The object is a plain string or number, or it has properties, and
  is returned as the code leaves it.
\<close>

definition listen :: "env \<Rightarrow> column_metadata \<Rightarrow> nat \<Rightarrow> js \<Rightarrow> listener \<Rightarrow> listener res" where
  "listen env md n v l =
     (if v = JUndef then Inr (setUndefined n l)
      else let l1 = setDefined n l in
        if cm_isBinary md then
          (if v = JNull then Inl TypeError
           else Inr (if e_isBuffer env v then l1
                     else setError (cm_name md) ''22000'' ''Value for binary column must be a Buffer'' l1))
        else Inr l1)"

definition get :: "env \<Rightarrow> dbt_handler \<Rightarrow> js \<Rightarrow> nat \<Rightarrow> listener option \<Rightarrow> (js \<times> js \<times> listener option) res" where
  "get env h ob n lo =
     rbind (if js_typeof ob = ''string'' \<or> js_typeof ob = ''number'' then Inr (ob, ob)
            else rbind (column_at h n) (\<lambda>col.
              case ob of
                JObj ps \<Rightarrow> rbind (getColumnValue (e_call1 env) (excluded_names h) col ps) (\<lambda>(v, ps'). Inr (v, JObj ps'))
              | _ \<Rightarrow> Inl TypeError)) (\<lambda>(v, ob').
     (case lo of
        None \<Rightarrow> Inr (v, ob', None)
      | Some l \<Rightarrow>
          (case js_get (h_metadata h) n of
             None \<Rightarrow> if v = JUndef then Inr (v, ob', Some (setUndefined n l)) else Inl TypeError
           | Some md \<Rightarrow> rbind (listen env md n v l) (\<lambda>l'. Inr (v, ob', Some l')))))"

fun getColumns_loop :: "env \<Rightarrow> dbt_handler \<Rightarrow> nat list \<Rightarrow> js \<Rightarrow> listener option \<Rightarrow> (js list \<times> js \<times> listener option) res" where
  "getColumns_loop env h [] ob lo = Inr ([], ob, lo)"
| "getColumns_loop env h (i # is) ob lo =
     rbind (get env h ob i lo) (\<lambda>(v, ob', lo').
     rbind (getColumns_loop env h is ob' lo') (\<lambda>(vs, ob'', lo''). Inr (v # vs, ob'', lo'')))"

definition getColumns :: "env \<Rightarrow> dbt_handler \<Rightarrow> js \<Rightarrow> listener option \<Rightarrow> (js list \<times> js \<times> listener option) res" where
  "getColumns env h ob lo = getColumns_loop env h [0..<length (h_columns h)] ob lo"

definition set_column :: "env \<Rightarrow> dbt_handler \<Rightarrow> nat \<Rightarrow> js \<Rightarrow> jobject \<Rightarrow> jobject res" where
  "set_column env h n v ob = rbind (column_at h n) (\<lambda>col. setFieldValues (e_call1 env) col ob v)"

fun setFields_loop :: "env \<Rightarrow> dbt_handler \<Rightarrow> js \<Rightarrow> nat list \<Rightarrow> jobject \<Rightarrow> jobject res" where
  "setFields_loop env h vals [] ob = Inr ob"
| "setFields_loop env h vals (i # is) ob =
     rbind (js_member vals (cm_name (h_metadata h ! i))) (\<lambda>v.
     rbind (if v \<noteq> JUndef then set_column env h i v ob else Inr ob) (setFields_loop env h vals is))"

definition setFields :: "env \<Rightarrow> dbt_handler \<Rightarrow> jobject \<Rightarrow> js \<Rightarrow> jobject res" where
  "setFields env h ob vals = setFields_loop env h vals [0..<length (h_columns h)] ob"

text \<open>The new object is what the user's constructor leaves in an empty one.\<close>

definition createResultObject :: "(jobject \<Rightarrow> jobject) option \<Rightarrow> jobject" where
  "createResultObject ctor = (case ctor of Some f \<Rightarrow> f [] | None \<Rightarrow> [])"

definition newResultObject :: "env \<Rightarrow> dbt_handler \<Rightarrow> (jobject \<Rightarrow> jobject) option \<Rightarrow> js \<Rightarrow> jobject res" where
  "newResultObject env h ctor vals =
     (if js_typeof vals = ''object'' then setFields env h (createResultObject ctor) vals
      else Inr (createResultObject ctor))"

fun set_row :: "env \<Rightarrow> dbt_handler \<Rightarrow> js list \<Rightarrow> nat \<Rightarrow> dbt_mapping list \<Rightarrow> jobject \<Rightarrow> jobject res" where
  "set_row env h row offset [] ob = Inr ob"
| "set_row env h row offset (f # fs) ob =
     (case fm_columnNumber f of
        None \<Rightarrow> Inl TypeError
      | Some n \<Rightarrow> rbind (set_column env h n (nth_or JUndef row offset) ob) (set_row env h row (Suc offset) fs))"

definition newResultObjectFromRow ::
  "env \<Rightarrow> dbt_handler \<Rightarrow> (jobject \<Rightarrow> jobject) option \<Rightarrow> js list \<Rightarrow> nat \<Rightarrow> dbt_mapping list \<Rightarrow> dbt_mapping list \<Rightarrow> jobject res" where
  "newResultObjectFromRow env h ctor row offset keyFields nonKeyFields =
     rbind (set_row env h row offset keyFields (createResultObject ctor)) (\<lambda>ob.
       set_row env h row (offset + length keyFields) nonKeyFields ob)"

definition setAutoincrement :: "dbt_handler \<Rightarrow> jobject \<Rightarrow> js \<Rightarrow> jobject" where
  "setAutoincrement h ob v =
     (if h_autoIncColumnNumber h \<noteq> None
      then obj_put ob (case h_autoIncFieldName h of Some f \<Rightarrow> f | None \<Rightarrow> ''undefined'') v else ob)"

section \<open>Columns restore what they store\<close>

definition inverse_converter :: "(string \<Rightarrow> js \<Rightarrow> js) \<Rightarrow> js \<Rightarrow> bool" where
  "inverse_converter call1 c \<longleftrightarrow> (\<forall>v. conv_fromDB call1 c (conv_toDB call1 c v) = v)"

definition inverse_column :: "(string \<Rightarrow> js \<Rightarrow> js) \<Rightarrow> dbt_column \<Rightarrow> bool" where
  "inverse_column call1 col \<longleftrightarrow> inverse_converter call1 (c_typeConverter col) \<and>
     (\<forall>c\<in>set (c_fieldConverters col). inverse_converter call1 c) \<and>
     length (c_fieldConverters col) = length (c_fieldNames col) \<and> distinct (c_fieldNames col)"

text \<open>The fields that a column stores.\<close>

definition column_fields :: "js list \<Rightarrow> dbt_column \<Rightarrow> jobject \<Rightarrow> string set" where
  "column_fields excluded col ob = (case c_kind col of
       OneToOne \<Rightarrow> {first_field col}
     | Shared \<Rightarrow> set (c_fieldNames col)
     | Sparse \<Rightarrow> {f. obj_has ob f \<and> JStr f \<notin> set excluded}
     | _ \<Rightarrow> {})"

lemma fromDB_toDB: "inverse_column call1 col \<Longrightarrow> fromDB call1 col (toDB call1 col v) = v"
  by (simp add: inverse_column_def inverse_converter_def toDB_def fromDB_def)

lemma nth_converter:
  "inverse_column call1 col \<Longrightarrow> i < length (c_fieldNames col) \<Longrightarrow> inverse_converter call1 (nth_or JUndef (c_fieldConverters col) i)"
  by (simp add: inverse_column_def nth_or_def)

lemma shared_value:
  assumes "distinct (c_fieldNames col)" "i < length (c_fieldNames col)"
  shows "obj_get (fold (\<lambda>i v. obj_put v (c_fieldNames col ! i) (g i)) [0..<length (c_fieldNames col)] []) (c_fieldNames col ! i) = g i"
proof -
  have "\<forall>i<n. obj_get (fold (\<lambda>i v. obj_put v (c_fieldNames col ! i) (g i)) [0..<n] []) (c_fieldNames col ! i) = g i"
    if "n \<le> length (c_fieldNames col)" for n
    using that
  proof (induction n)
    case (Suc n)
    then show ?case using assms(1) by (auto simp: less_Suc_eq nth_eq_iff_index_eq)
  qed simp
  with assms(2) show ?thesis by blast
qed

lemma shared_loop_correct:
  assumes "inverse_column call1 col" "\<forall>i\<in>set is. i < length (c_fieldNames col) \<and>
      obj_get v (c_fieldNames col ! i) = conv_toDB call1 (nth_or JUndef (c_fieldConverters col) i) (obj_get ob (c_fieldNames col ! i))"
  shows "\<exists>ob'. shared_loop call1 col (JObj v) is ob2 = Inr ob' \<and>
    (\<forall>f. obj_get ob' f = (if f \<in> (\<lambda>i. c_fieldNames col ! i) ` set is then obj_get ob f else obj_get ob2 f))"
  using assms(2)
proof (induction "is" arbitrary: ob2)
  case (Cons i "is")
  let ?n = "c_fieldNames col ! i" and ?c = "nth_or JUndef (c_fieldConverters col) i"
  have "conv_fromDB call1 ?c (obj_get v ?n) = obj_get ob ?n"
    using Cons.prems nth_converter[OF assms(1), of i] by (simp add: inverse_converter_def)
  then have step: "shared_loop call1 col (JObj v) (i # is) ob2 = shared_loop call1 col (JObj v) is (obj_put ob2 ?n (obj_get ob ?n))"
    by (simp add: js_member_def Let_def)
  from Cons.IH[of "obj_put ob2 ?n (obj_get ob ?n)"] Cons.prems obtain ob' where
    "shared_loop call1 col (JObj v) is (obj_put ob2 ?n (obj_get ob ?n)) = Inr ob'"
    "\<forall>f. obj_get ob' f = (if f \<in> (\<lambda>i. c_fieldNames col ! i) ` set is then obj_get ob f
       else obj_get (obj_put ob2 ?n (obj_get ob ?n)) f)" by auto
  with step show ?case by (intro exI[of _ ob']) auto
qed simp

lemma fold_put_get:
  "distinct (map fst ps) \<Longrightarrow> obj_get (fold (\<lambda>(k, y) ob. obj_put ob k y) ps ob) f =
    (if obj_has ps f then obj_get ps f else obj_get ob f)"
proof (induction ps arbitrary: ob)
  case (Cons p ps)
  then show ?case by (cases p) (auto simp: obj_has_def)
qed simp

lemma sparse_value:
  fixes excluded :: "js list"
  assumes "distinct (map fst ob)"
  defines "r \<equiv> fold (\<lambda>(k, x) v. if JStr k \<in> set excluded then v else obj_put v k x) ob []"
  shows "distinct (map fst r)" "obj_has r f \<longleftrightarrow> obj_has ob f \<and> JStr f \<notin> set excluded"
    "obj_has r f \<Longrightarrow> obj_get r f = obj_get ob f"
proof -
  let ?F = "\<lambda>(k, x) v. if JStr k \<in> set excluded then v else obj_put v k x"
  have d: "distinct (map fst v) \<Longrightarrow> distinct (map fst (fold ?F ps v))" for ps v
    by (induction ps arbitrary: v) (auto simp: obj_put_distinct)
  have h: "obj_has (fold ?F ps v) f \<longleftrightarrow> obj_has v f \<or> obj_has ps f \<and> JStr f \<notin> set excluded" for ps v f
  proof (induction ps arbitrary: v)
    case (Cons p ps)
    show ?case by (cases p) (auto simp: Cons.IH)
  qed simp
  have g: "distinct (map fst ps) \<Longrightarrow> obj_get (fold ?F ps v) f =
      (if obj_has ps f \<and> JStr f \<notin> set excluded then obj_get ps f else obj_get v f)" for ps v f
  proof (induction ps arbitrary: v)
    case (Cons p ps)
    then show ?case by (cases p) (auto simp: obj_has_def)
  qed simp
  show "distinct (map fst r)" unfolding r_def by (rule d) simp
  show "obj_has r f \<longleftrightarrow> obj_has ob f \<and> JStr f \<notin> set excluded" unfolding r_def h by simp
  then show "obj_has r f \<Longrightarrow> obj_get r f = obj_get ob f" unfolding r_def g[OF assms(1)] by simp
qed

lemma column_restores:
  assumes k: "c_kind col \<in> {OneToOne, Shared, Sparse}" and inv: "inverse_column call1 col"
    and one: "c_kind col = OneToOne \<Longrightarrow> c_fieldNames col \<noteq> []"
    and ob: "c_kind col = Sparse \<Longrightarrow> distinct (map fst ob)"
  shows "\<exists>v ob'. getColumnValue call1 excluded col ob = Inr (v, ob) \<and> setFieldValues call1 col ob2 v = Inr ob' \<and>
    (\<forall>f. obj_get ob' f = (if f \<in> column_fields excluded col ob then obj_get ob f else obj_get ob2 f))"
proof -
  consider "c_kind col = OneToOne" | "c_kind col = Shared" | "c_kind col = Sparse" using k by auto
  then show ?thesis
  proof cases
    case 1
    have "inverse_converter call1 (first_converter col)"
      using nth_converter[OF inv, of 0] one[OF 1] by (simp add: first_converter_def)
    with 1 inv show ?thesis
      by (auto simp: getColumnValue_def setFieldValues_def getColumnValue_1to1_def setFieldValues_1to1_def
        fromDB_toDB column_fields_def inverse_converter_def)
  next
    case 2
    define g where "g i = conv_toDB call1 (nth_or JUndef (c_fieldConverters col) i) (obj_get ob (c_fieldNames col ! i))" for i
    define v where "v = fold (\<lambda>i v. obj_put v (c_fieldNames col ! i) (g i)) [0..<length (c_fieldNames col)] []"
    have "distinct (c_fieldNames col)" using inv by (simp add: inverse_column_def)
    then have "\<forall>i\<in>set [0..<length (c_fieldNames col)]. i < length (c_fieldNames col) \<and> obj_get v (c_fieldNames col ! i) = g i"
      using shared_value[of col _ g] by (simp add: v_def)
    from shared_loop_correct[OF inv this[unfolded g_def], of ob2]
    obtain ob' where "shared_loop call1 col (JObj v) [0..<length (c_fieldNames col)] ob2 = Inr ob'"
      "\<forall>f. obj_get ob' f = (if f \<in> (\<lambda>i. c_fieldNames col ! i) ` set [0..<length (c_fieldNames col)] then obj_get ob f else obj_get ob2 f)"
      by blast
    moreover have "(\<lambda>i. c_fieldNames col ! i) ` set [0..<length (c_fieldNames col)] = set (c_fieldNames col)"
      by (auto simp: in_set_conv_nth)
    moreover have "getColumnValue_Shared call1 col ob = toDB call1 col (JObj v)"
      by (simp add: getColumnValue_Shared_def v_def g_def Let_def)
    ultimately show ?thesis using 2 inv
      by (simp add: getColumnValue_def setFieldValues_def setFieldValues_Shared_def fromDB_toDB column_fields_def)
  next
    case 3
    define v where "v = fold (\<lambda>(k, x) v. if JStr k \<in> set excluded then v else obj_put v k x) ob []"
    note s = sparse_value[OF ob[OF 3], of excluded, folded v_def]
    have "setFieldValues_Sparse call1 col ob2 (toDB call1 col (JObj v)) = fold (\<lambda>(k, y) ob. obj_put ob k y) v ob2"
      using inv by (simp add: setFieldValues_Sparse_def fromDB_toDB own_props_def js_typeof_def)
    moreover have "getColumnValue_Sparse call1 excluded col ob = toDB call1 col (JObj v)"
      by (simp add: getColumnValue_Sparse_def v_def)
    ultimately show ?thesis using 3 fold_put_get[OF s(1), of ob2] s(2,3)
      by (auto simp: getColumnValue_def setFieldValues_def column_fields_def)
  qed
qed

section \<open>The key of the listener\<close>

definition defined_key :: "js list \<Rightarrow> string option" where
  "defined_key vs = (if JUndef \<in> set vs then Some (map (\<lambda>v. if v = JUndef then CHR ''U'' else CHR ''D'') vs) else None)"

definition binary_errors :: "env \<Rightarrow> column_metadata list \<Rightarrow> js list \<Rightarrow> (string \<times> string \<times> string) list" where
  "binary_errors env mds vs = map (\<lambda>(md, v). (cm_name md, ''22000'', ''Value for binary column must be a Buffer''))
     (filter (\<lambda>(md, v). cm_isBinary md \<and> v \<noteq> JUndef \<and> \<not> e_isBuffer env v) (zip mds vs))"

lemma defined_key_snoc:
  "defined_key (vs @ [v]) = (if v = JUndef
     then Some ((case defined_key vs of None \<Rightarrow> replicate (length vs) (CHR ''D'') | Some k \<Rightarrow> k) @ ''U'')
     else map_option (\<lambda>k. k @ ''D'') (defined_key vs))"
proof -
  have "JUndef \<notin> set vs \<Longrightarrow> map (\<lambda>v. if v = JUndef then CHR ''U'' else CHR ''D'') vs = replicate (length vs) (CHR ''D'')"
    by (induction vs) auto
  then show ?thesis by (auto simp: defined_key_def)
qed

lemma listen_correct:
  assumes "listen env md (length vs) v l = Inr l'" "l_key l = defined_key vs" "l_errors l = binary_errors env mds vs"
    "length mds = length vs"
  shows "l_key l' = defined_key (vs @ [v]) \<and> l_errors l' = binary_errors env (mds @ [md]) (vs @ [v])"
  using assms
  by (auto simp: listen_def Let_def setUndefined_def setDefined_def setError_def defined_key_snoc binary_errors_def
    split: if_splits option.splits)

lemma get_listener:
  assumes "get env h ob n (Some l) = Inr (v, ob', lo')" "n < length (h_metadata h)"
  shows "\<exists>l'. lo' = Some l' \<and> listen env (h_metadata h ! n) n v l = Inr l'"
  using assms by (auto simp: get_def rbind_Inr_iff js_get_def)

lemma getColumns_loop_key:
  assumes "getColumns_loop env h [n..<N] ob (Some l) = Inr (vs, ob', lo')" "N \<le> length (h_metadata h)" "n \<le> N"
    "l_key l = defined_key pre" "l_errors l = binary_errors env (take n (h_metadata h)) pre" "length pre = n"
  shows "\<exists>l'. lo' = Some l' \<and> length vs = N - n \<and> l_key l' = defined_key (pre @ vs) \<and>
    l_errors l' = binary_errors env (take N (h_metadata h)) (pre @ vs)"
  using assms
proof (induction "N - n" arbitrary: n ob l vs pre)
  case (Suc d)
  then have n: "n < N" by simp
  from Suc.prems(1) obtain v o1 l1 vs' where g: "get env h ob n (Some l) = Inr (v, o1, l1)"
    "getColumns_loop env h [Suc n..<N] o1 l1 = Inr (vs', ob', lo')" "vs = v # vs'"
    by (auto simp: upt_conv_Cons[OF n] rbind_Inr_iff)
  obtain l' where l': "l1 = Some l'" "listen env (h_metadata h ! n) n v l = Inr l'"
    using get_listener[OF g(1)] n Suc.prems(2) by auto
  have t: "take (Suc n) (h_metadata h) = take n (h_metadata h) @ [h_metadata h ! n]"
    using n Suc.prems(2) by (simp add: take_Suc_conv_app_nth)
  have k: "l_key l' = defined_key (pre @ [v]) \<and> l_errors l' = binary_errors env (take (Suc n) (h_metadata h)) (pre @ [v])"
    unfolding t by (rule listen_correct[of env "h_metadata h ! n"]) (use l'(2) Suc.prems n in auto)
  have d: "d = N - Suc n" using Suc.hyps(2) by simp
  from Suc.hyps(1)[OF d, of o1 l' vs' "pre @ [v]"] Suc.prems n k g(2) l'(1)
  have "\<exists>l'. lo' = Some l' \<and> length vs' = N - Suc n \<and> l_key l' = defined_key ((pre @ [v]) @ vs') \<and>
      l_errors l' = binary_errors env (take N (h_metadata h)) ((pre @ [v]) @ vs')"
    by simp
  with n show ?case by (auto simp: g(3))
next
  case 0
  then show ?case by auto
qed

section \<open>What the constructor guarantees of masks and ids\<close>

definition handler_ok :: "dbt_handler \<Rightarrow> bool" where
  "handler_ok h \<longleftrightarrow> (\<forall>n i. h_idMap h n = Some i \<longrightarrow> i < length (h_columns h) \<and> cm_name (h_metadata h ! i) = n) \<and>
     (\<forall>i. h_sparseColumnId h = Some i \<longrightarrow> i < length (h_columns h)) \<and>
     (\<forall>f\<in>set (h_fields h). \<forall>m. fm_columnMask f = Some m \<longrightarrow> bm_wf m \<and> h_maxColumns h \<le> bm_size m) \<and>
     (\<forall>n k c. h_fieldMap h n = Some (k, c) \<longrightarrow> k < length (h_fields h)) \<and>
     length (h_metadata h) = length (h_columns h) \<and> length (h_columns h) \<le> h_maxColumns h"

lemma handler_okI:
  assumes "handler_ok h" "h_idMap h' = h_idMap h" "length (h_columns h') = length (h_columns h)"
    "h_fields h' = h_fields h" "h_fieldMap h' = h_fieldMap h" "h_metadata h' = h_metadata h"
    "h_maxColumns h' = h_maxColumns h" "h_sparseColumnId h' = h_sparseColumnId h"
  shows "handler_ok h'"
  using assms by (simp add: handler_ok_def)

lemma handler_ok_frame [intro]:
  "handler_ok h \<Longrightarrow> handler_ok (appendErrorMessage m h)"
  "handler_ok h \<Longrightarrow> handler_ok (report e h)"
  "handler_ok h \<Longrightarrow> handler_ok (upd_column i g h)"
  by (auto simp: appendErrorMessage_def report_def upd_column_def elim!: handler_okI split: option.splits)

lemma length_columns_frame [simp]:
  "length (h_columns (appendErrorMessage m h)) = length (h_columns h)"
  "length (h_columns (report e h)) = length (h_columns h)"
  "length (h_columns (upd_column i g h)) = length (h_columns h)"
  "length (h_columns (mapToColumn name n h)) = length (h_columns h)"
  by (auto simp: appendErrorMessage_def report_def upd_column_def mapToColumn_def Let_def split: option.splits)

lemma set_update_cases: "y \<in> set (xs[i := x]) \<Longrightarrow> y = x \<or> y \<in> set xs"
  using set_update_subset_insert by fastforce

lemma mapToColumn_ok:
  assumes "handler_ok h" "n < length (h_columns h)"
  shows "handler_ok (mapToColumn name n h)"
proof (cases "h_fieldMap h name")
  case (Some kc)
  obtain k c where kc: "kc = (k, c)" by (cases kc)
  let ?f = "(h_fields h ! k)\<lparr>fm_columnMask := map_option (\<lambda>m. bm_set m n) (fm_columnMask (h_fields h ! k)),
    fm_columnNumber := (if Suc c = 1 then Some n else None)\<rparr>"
  have k: "k < length (h_fields h)" using assms(1) Some kc unfolding handler_ok_def by blast
  have n: "n < h_maxColumns h" using assms unfolding handler_ok_def by linarith
  have "\<forall>m. fm_columnMask (h_fields h ! k) = Some m \<longrightarrow> bm_wf m \<and> h_maxColumns h \<le> bm_size m"
    using assms(1) nth_mem[OF k] unfolding handler_ok_def by blast
  with n have f: "\<forall>m. fm_columnMask ?f = Some m \<longrightarrow> bm_wf m \<and> h_maxColumns h \<le> bm_size m"
    by (auto simp: bm.add_cap bm.add_inv)
  have "mapToColumn name n h = h\<lparr>h_fields := (h_fields h)[k := ?f], h_fieldMap := (h_fieldMap h)(name \<mapsto> (k, Suc c))\<rparr>"
    by (simp add: mapToColumn_def Some kc Let_def)
  with assms(1) k f show ?thesis unfolding handler_ok_def by (auto dest!: set_update_cases)
qed (simp add: mapToColumn_def assms)

lemma mapPartials_ok:
  "handler_ok h \<Longrightarrow> \<forall>i\<in>set ids. i < length (h_columns h) \<Longrightarrow> handler_ok (snd (mapPartials f cols ids n h))"
  by (induction f cols ids n h rule: mapPartials.induct) (auto intro!: mapToColumn_ok)

lemma addFieldMapping_report_ok:
  "handler_ok h \<Longrightarrow> i < length (h_columns h) \<Longrightarrow> handler_ok (mapToColumn n i (report e (upd_column j g h)))"
  by (intro mapToColumn_ok handler_ok_frame) auto

lemma mapFieldToColumns_ok:
  assumes "mapFieldToColumns f h = Inr h'" "handler_ok h"
  shows "handler_ok h'"
proof (cases "fm_toManyColumns f")
  case (Some cols)
  with assms mapPartials_ok[of h "[0..<length (h_columns h)]" f cols 0] show ?thesis
    by (auto simp: mapFieldToColumns_def Let_def case_prod_unfold split: if_splits)
next
  case None
  have ids: "h_idMap h n = Some i \<Longrightarrow> i < length (h_columns h)" "h_sparseColumnId h = Some i \<Longrightarrow> i < length (h_columns h)" for n i
    using assms(2) by (auto simp: handler_ok_def)
  from assms(1) None ids assms(2) show ?thesis
    by (auto simp: mapFieldToColumns_def Let_def case_prod_unfold split: option.splits if_splits
      intro!: mapToColumn_ok)
qed

lemma addField_ok:
  assumes "addField k h = Inr h'" "handler_ok h" "k < length (h_fields h)"
  shows "handler_ok h'"
proof -
  let ?f = "h_fields h ! k"
  let ?f' = "if 0 < h_maxColumns h then ?f\<lparr>fm_columnMask := Some (new_BitMask (Some (h_maxColumns h)))\<rparr> else ?f"
  let ?h1 = "h\<lparr>h_fieldMap := (h_fieldMap h)(fm_fieldName ?f \<mapsto> (k, 0))\<rparr>"
  have 1: "handler_ok ?h1" using assms(2,3) by (auto simp: handler_ok_def)
  have "\<forall>m. fm_columnMask ?f' = Some m \<longrightarrow> bm_wf m \<and> h_maxColumns h \<le> bm_size m"
    using assms(2) nth_mem[OF assms(3)] bm.new_cap[of "h_maxColumns h"] by (auto simp: handler_ok_def)
  with assms(2,3) have 2: "handler_ok (?h1\<lparr>h_fields := (h_fields h)[k := ?f']\<rparr>)"
    unfolding handler_ok_def by (auto dest!: set_update_cases)
  from assms(1) 1 2 show ?thesis
    by (auto simp: addField_def Let_def assms(2) intro: mapFieldToColumns_ok split: if_splits)
qed

lemma length_mapPartials [simp]: "length (h_columns (snd (mapPartials f cols ids n h))) = length (h_columns h)"
  by (induction f cols ids n h rule: mapPartials.induct) auto

lemma length_fields_frame [simp]:
  "length (h_fields (appendErrorMessage m h)) = length (h_fields h)"
  "length (h_fields (report e h)) = length (h_fields h)"
  "length (h_fields (upd_column i g h)) = length (h_fields h)"
  "length (h_fields (mapToColumn name n h)) = length (h_fields h)"
  "length (h_fields (snd (mapPartials f cols ids n h))) = length (h_fields h)"
proof -
  show m: "length (h_fields (mapToColumn name n h)) = length (h_fields h)" for name n h
    by (auto simp: mapToColumn_def Let_def split: option.splits)
  show u: "length (h_fields (upd_column i g h)) = length (h_fields h)" for i g h by (simp add: upd_column_def)
  show "length (h_fields (snd (mapPartials f cols ids n h))) = length (h_fields h)"
    by (induction f cols ids n h rule: mapPartials.induct) (auto simp: m u)
qed (auto simp: appendErrorMessage_def report_def split: option.splits)

text \<open>Every step keeps the numbers of columns and of fields, but for the fields a default mapping adds.\<close>

lemma addField_lengths:
  "addField k h = Inr h' \<Longrightarrow> length (h_columns h') = length (h_columns h) \<and> length (h_fields h') = length (h_fields h)"
  by (auto simp: addField_def mapFieldToColumns_def Let_def case_prod_unfold split: if_splits option.splits)

lemma addFields_ok:
  "addFields ks h = Inr h' \<Longrightarrow> handler_ok h \<Longrightarrow> \<forall>k\<in>set ks. k < length (h_fields h) \<Longrightarrow>
   handler_ok h' \<and> length (h_columns h') = length (h_columns h) \<and> length (h_fields h') = length (h_fields h)"
proof (induction ks arbitrary: h)
  case (Cons k ks)
  then obtain h1 where h1: "(if fm_persistent (h_fields h ! k) then addField k h else Inr h) = Inr h1" "addFields ks h1 = Inr h'"
    by (auto simp: rbind_Inr_iff)
  then have "handler_ok h1 \<and> length (h_columns h1) = length (h_columns h) \<and> length (h_fields h1) = length (h_fields h)"
    using Cons.prems addField_ok[of k h h1] addField_lengths[of k h h1] by (auto split: if_splits)
  with Cons.IH[OF h1(2)] Cons.prems show ?case by auto
qed simp

lemma set_resolved_ok: "handler_ok h \<Longrightarrow> handler_ok (set_resolved tm h)"
  by (auto simp: handler_ok_def set_resolved_def field_of_def) (metis trans_less_add1)

lemma field_index_bound: "field_index name fs = Some k \<Longrightarrow> k < length fs"
  by (auto simp: field_index_def find_Some_iff)

lemma default_field_ok:
  assumes "default_field call i h = Inr h'" "handler_ok h"
  shows "handler_ok h' \<and> length (h_columns h') = length (h_columns h)"
proof -
  have "handler_ok h' \<and> length (h_columns h') = length (h_columns h)"
    if "addField k (set_resolved tm h) = Inr h'" "field_index n (h_fields (set_resolved tm h)) = Some k" for k tm n
    using addField_ok[OF that(1) set_resolved_ok[OF assms(2)] field_index_bound[OF that(2)]] addField_lengths[OF that(1)]
    by (simp add: set_resolved_def)
  with assms show ?thesis
    by (auto simp: default_field_def Let_def rbind_Inr_iff split: if_splits option.splits)
qed

lemma default_fields_ok:
  "default_fields call is h = Inr h' \<Longrightarrow> handler_ok h \<Longrightarrow> handler_ok h' \<and> length (h_columns h') = length (h_columns h)"
proof (induction "is" arbitrary: h)
  case (Cons i "is")
  then obtain h1 where "default_field call i h = Inr h1" "default_fields call is h1 = Inr h'" by (auto simp: rbind_Inr_iff)
  with Cons default_field_ok[of call i h h1] show ?case by auto
qed simp

lemma setSparseColumn_ok: "handler_ok h \<Longrightarrow> i < length (h_columns h) \<Longrightarrow> handler_ok (setSparseColumn i h)"
  by (auto simp: handler_ok_def setSparseColumn_def upd_column_def)

lemma notable_column_ok:
  assumes "notable_column call t stale (col, i) h = Inr h'" "handler_ok h" "i < length (h_columns h)"
  shows "handler_ok h' \<and> length (h_columns h') = length (h_columns h)"
proof -
  have l: "length (h_columns (setSparseColumn i g)) = length (h_columns g)" for g
    by (simp add: setSparseColumn_def upd_column_def)
  have s: "handler_ok (setSparseColumn i (h\<lparr>h_sparseContainer := Some col\<rparr>))"
    "handler_ok (setSparseColumn i ((set_resolved tm h)\<lparr>h_sparseContainer := Some col\<rparr>))" for tm
  proof -
    have frame: "handler_ok (g\<lparr>h_sparseContainer := x\<rparr>) \<longleftrightarrow> handler_ok g" for g x by (simp add: handler_ok_def)
    show "handler_ok (setSparseColumn i (h\<lparr>h_sparseContainer := Some col\<rparr>))"
      by (rule setSparseColumn_ok) (use assms(2,3) in \<open>simp_all add: frame\<close>)
    show "handler_ok (setSparseColumn i ((set_resolved tm h)\<lparr>h_sparseContainer := Some col\<rparr>))" for tm
      by (rule setSparseColumn_ok) (use assms(3) set_resolved_ok[OF assms(2)] in \<open>simp_all add: frame set_resolved_def\<close>)
  qed
  from assms(1) obtain h1 where h1: "sparse_column call t col i h = Inr h1" "h' = note_column stale i h1"
    by (auto simp: notable_column_def rbind_Inr_iff)
  have "handler_ok h1 \<and> length (h_columns h1) = length (h_columns h)"
    using h1(1) assms(2) s l by (auto simp: sparse_column_def Let_def rbind_Inr_iff set_resolved_def split: if_splits)
  then show ?thesis using h1(2) by (auto simp: note_column_def Let_def elim!: handler_okI)
qed

lemma notable_columns_ok:
  "notable_columns call t stale cs h = Inr h' \<Longrightarrow> handler_ok h \<Longrightarrow> \<forall>(c, i)\<in>set cs. i < length (h_columns h) \<Longrightarrow>
   handler_ok h'"
proof (induction cs arbitrary: h)
  case (Cons c cs)
  then obtain h1 where h1: "notable_column call t stale c h = Inr h1" "notable_columns call t stale cs h1 = Inr h'"
    by (auto simp: rbind_Inr_iff)
  obtain col i where c: "c = (col, i)" by (cases c)
  have "handler_ok h1 \<and> length (h_columns h1) = length (h_columns h)"
    using notable_column_ok[OF h1(1)[unfolded c]] Cons.prems c by auto
  with Cons.IH[OF h1(2)] Cons.prems show ?case by auto
qed simp

lemma resolve_field_ok:
  assumes "resolve_field k h = Inr h'" "handler_ok h" "k < length (h_fields h)"
  shows "handler_ok h' \<and> length (h_fields h') = length (h_fields h)"
proof -
  have setName: "handler_ok (h\<lparr>h_fields := (h_fields h)[k := (h_fields h ! k)\<lparr>fm_columnName := s\<rparr>]\<rparr>)" for s
  proof -
    have "h_fields h ! k \<in> set (h_fields h)" using assms(3) by simp
    with assms(2) show ?thesis unfolding handler_ok_def by (auto dest!: set_update_cases)
  qed
  have frame: "handler_ok (g\<lparr>h_resolved := tm\<rparr>) \<longleftrightarrow> handler_ok g" "handler_ok (g\<lparr>h_relationshipFields := r\<rparr>) \<longleftrightarrow> handler_ok g"
    for g tm r by (auto simp: handler_ok_def)
  obtain h1 where h1: "handler_ok h1" "length (h_fields h1) = length (h_fields h)"
    "(if h_sparseContainer h1 \<noteq> Some (fm_columnName (h_fields h1 ! k))
      then rbind (fieldIsNotSparse (JStr (fm_fieldName (h_fields h ! k))) (h_resolved h1)) (\<lambda>tm. Inr (h1\<lparr>h_resolved := tm\<rparr>))
      else Inr h1) = Inr h'"
  proof -
    let ?f = "h_fields h ! k"
    let ?err = "\<lambda>m. h\<lparr>h_resolved := add_error [Txt m] (h_resolved h)\<rparr>"
    let ?setName = "\<lambda>s. h\<lparr>h_fields := (h_fields h)[k := ?f\<lparr>fm_columnName := s\<rparr>]\<rparr>"
    define h1 where "h1 =
            (if fm_relationship ?f then h\<lparr>h_relationshipFields := h_relationshipFields h @ [k]\<rparr>
             else if fm_persistent ?f then
               (if fm_columnName ?f \<noteq> [] then
                  (if getColumnMappingByName h (fm_columnName ?f) = None
                   then ?err (''Column '' @ fm_columnName ?f @ '' does not exist'' @ nl) else h)
                else if fm_toManyColumns ?f = None then
                  (if getColumnMappingByName h (fm_fieldName ?f) \<noteq> None then ?setName (fm_fieldName ?f)
                   else (case h_sparseContainer h of
                           Some s \<Rightarrow> ?setName s
                         | None \<Rightarrow> ?err (''No column mapped for field '' @ fm_fieldName ?f @ nl)))
                else h)
             else h)"
    have "handler_ok h1" "length (h_fields h1) = length (h_fields h)"
      unfolding h1_def using assms(2) setName frame by (auto split: option.splits)
    moreover from assms(1) have "(if h_sparseContainer h1 \<noteq> Some (fm_columnName (h_fields h1 ! k))
      then rbind (fieldIsNotSparse (JStr (fm_fieldName (h_fields h ! k))) (h_resolved h1)) (\<lambda>tm. Inr (h1\<lparr>h_resolved := tm\<rparr>))
      else Inr h1) = Inr h'"
      unfolding resolve_field_def Let_def h1_def .
    ultimately show ?thesis using that by blast
  qed
  from h1(3) show ?thesis using h1(1,2) frame by (auto simp: rbind_Inr_iff split: if_splits)
qed

lemma resolve_fields_ok:
  "resolve_fields ks h = Inr h' \<Longrightarrow> handler_ok h \<Longrightarrow> \<forall>k\<in>set ks. k < length (h_fields h) \<Longrightarrow> handler_ok h'"
proof (induction ks arbitrary: h)
  case (Cons k ks)
  then obtain h1 where h1: "resolve_field k h = Inr h1" "resolve_fields ks h1 = Inr h'" by (auto simp: rbind_Inr_iff)
  with resolve_field_ok[OF h1(1)] Cons show ?case by auto
qed simp

lemma getColumnByName_name: "getColumnByName t name = Some md \<Longrightarrow> cm_name md = name \<and> md \<in> set (dbt_columns t)"
  by (auto simp: getColumnByName_def find_Some_iff)

lemma getColumnByName_found: "n \<in> cm_name ` set (dbt_columns t) \<Longrightarrow> \<exists>md. getColumnByName t n = Some md"
  by (cases "getColumnByName t n") (auto simp: getColumnByName_def find_None_iff)

definition names_ok :: "db_table \<Rightarrow> string list \<Rightarrow> bool" where
  "names_ok t names \<longleftrightarrow> distinct names \<and> set names \<subseteq> cm_name ` set (dbt_columns t)"

lemma addColumnName_ok: "names_ok t names \<Longrightarrow> names_ok t (addColumnName t name names)"
  using getColumnByName_name[of t name] by (cases "getColumnByName t name") (auto simp: addColumnName_def names_ok_def)

lemma fold_inv: "P a \<Longrightarrow> (\<And>x a. P a \<Longrightarrow> P (f x a)) \<Longrightarrow> P (fold f xs a)"
  by (induction xs arbitrary: a) auto

lemma column_names_ok: "names_ok t (column_names t False fs)"
proof -
  let ?F = "\<lambda>f names. if fm_persistent f then
                (case fm_toManyColumns f of
                   Some cols \<Rightarrow> fold (addColumnName t) cols names
                 | None \<Rightarrow> addColumnName t (if fm_columnName f \<noteq> [] then fm_columnName f else fm_fieldName f) names)
              else names"
  have step: "names_ok t (?F f ns)" if "names_ok t ns" for f ns
    using that by (cases "fm_toManyColumns f") (simp_all add: addColumnName_ok fold_inv[where P = "names_ok t"])
  have "names_ok t []" by (simp add: names_ok_def)
  then have "names_ok t (fold ?F fs [])" by (rule fold_inv[where P = "names_ok t"]) (rule step)
  then show ?thesis
    unfolding column_names_def Let_def by (cases "dbt_sparseContainer t") (simp_all add: addColumnName_ok)
qed

lemma column_names_subset: "set (column_names t all' fs) \<subseteq> cm_name ` set (dbt_columns t)"
  using column_names_ok[of t fs] by (cases all') (simp_all add: names_ok_def column_names_def)

lemma column_names_length: "length (column_names t all' fs) \<le> length (dbt_columns t)"
proof (cases all')
  case False
  note ok = column_names_ok[of t fs]
  then have "length (column_names t False fs) = card (set (column_names t False fs))"
    by (simp add: names_ok_def distinct_card)
  also have "\<dots> \<le> card (cm_name ` set (dbt_columns t))"
    using ok by (intro card_mono) (simp_all add: names_ok_def)
  also have "\<dots> \<le> length (dbt_columns t)" by (metis card_length length_map set_map)
  finally show ?thesis using False by simp
qed (simp add: column_names_def)

lemma new_handler_ok: "handler_ok (new_handler t r)"
  by (auto simp: handler_ok_def new_handler_def field_of_def)

lemma add_columns_ok:
  "handler_ok h \<Longrightarrow> length (h_columns h) + length names \<le> h_maxColumns h \<Longrightarrow> handler_ok (add_columns t cm names h)"
proof (induction names arbitrary: h)
  case (Cons name names)
  show ?case
  proof (cases "getColumnByName t name")
    case None
    with Cons show ?thesis by (simp add: add_columns_def)
  next
    case (Some md)
    have "handler_ok (addColumn cm md h)"
      using Cons.prems by (auto simp: handler_ok_def addColumn_def nth_append less_Suc_eq)
    then have "handler_ok (add_columns t cm names (addColumn cm md h))"
      using Cons.prems by (intro Cons.IH) (auto simp: addColumn_def)
    with Some show ?thesis by (simp add: add_columns_def)
  qed
qed (simp add: add_columns_def)

lemma length_add_columns:
  "set names \<subseteq> cm_name ` set (dbt_columns t) \<Longrightarrow> length (h_columns (add_columns t cm names h)) = length (h_columns h) + length names"
proof (induction names arbitrary: h)
  case (Cons name names)
  then obtain md where "getColumnByName t name = Some md" using getColumnByName_found[of name t] by auto
  with Cons show ?case by (simp add: add_columns_def addColumn_def)
qed (simp add: add_columns_def)

lemma build_handler_ok:
  assumes "build_handler call t tm = Inr h"
  shows "handler_ok h"
proof -
  define all' where "all' = js_truthy (tm_get tm ''mapAllColumns'')"
  define names where "names = column_names t all' (map field_of (js_items (tm_get tm ''fields'')))"
  from assms obtain r h0 h1 h2 h3 where
    h0: "h0 = add_columns t (tm_get tm ''columnConverterMap'') names (new_handler t (tm_put ''mapAllColumns'' (JBool False) r))" and
    h1: "addFields [0..<length (h_fields h0)] h0 = Inr h1" and
    h2: "(if all' then default_fields call [0..<length (h_columns h1)] h1 else Inr h1) = Inr h2" and
    h3: "notable_columns call t (if all' then length (h_columns h1) else length (h_fields h1)) (zip names [0..<length names]) h2 = Inr h3" and
    h: "resolve_fields [0..<length (h_fields h3)] h3 = Inr h"
    unfolding build_handler_def Let_def all'_def[symmetric] names_def[symmetric] by (auto simp: rbind_Inr_iff)
  have "handler_ok h0"
    unfolding h0 by (rule add_columns_ok[OF new_handler_ok]) (use column_names_length in \<open>simp add: new_handler_def names_def\<close>)
  then have 1: "handler_ok h1 \<and> length (h_columns h1) = length (h_columns h0)" using addFields_ok[OF h1] by auto
  then have 2: "handler_ok h2 \<and> length (h_columns h2) = length (h_columns h0)"
    using h2 default_fields_ok[of call "[0..<length (h_columns h1)]" h1 h2] by (auto split: if_splits)
  have "length (h_columns h0) = length names"
    unfolding h0 using length_add_columns[OF column_names_subset] by (simp add: names_def new_handler_def)
  then have "\<forall>(c, i)\<in>set (zip names [0..<length names]). i < length (h_columns h2)"
    using 2 by (auto simp: set_zip)
  then have "handler_ok h3" using notable_columns_ok[OF h3] 2 by blast
  then show ?thesis using resolve_fields_ok[OF h] by auto
qed

lemma DBTableHandler_ok: "DBTableHandler call t mapping = Inr h \<Longrightarrow> handler_ok h"
proof -
  have "handler_ok ((new_handler t r)\<lparr>h_errors := e, h_isValid := b\<rparr>)" for r e b
    by (rule handler_okI[OF new_handler_ok]) simp_all
  then show "DBTableHandler call t mapping = Inr h \<Longrightarrow> handler_ok h"
    by (auto simp: DBTableHandler_def rbind_Inr_iff dest!: build_handler_ok split: option.splits if_splits)
qed

section \<open>Index handlers are well-formed\<close>

lemma table_column_name_Inr: "table_column_name t c = Inr n \<longleftrightarrow> c < length (dbt_columns t) \<and> n = cm_name (dbt_columns t ! c)"
  by (auto simp: table_column_name_def js_get_def split: option.splits)

definition index_refers :: "db_table \<Rightarrow> dbt_handler \<Rightarrow> db_index \<Rightarrow> index_model \<Rightarrow> bool" where
  "index_refers t h x im \<longleftrightarrow> ih_name (im_handler im) = dbi_name x \<and>
     ih_isUnique (im_handler im) = dbi_isUnique x \<and> ih_isOrdered (im_handler im) = dbi_isOrdered x \<and>
     map (\<lambda>i. cm_name (h_metadata h ! i)) (indexColumnNumbers (im_handler im)) =
       map (\<lambda>c. cm_name (dbt_columns t ! c)) (dbi_columnNumbers x)"

lemma DBIndexHandler_correct:
  assumes "DBIndexHandler t h x = Inr im" "handler_ok h" "dbi_columnNumbers x \<noteq> []"
  shows "ih_wf (im_handler im)" "\<forall>c\<in>set (indexColumnNumbers (im_handler im)). c < length (h_columns h)"
    "index_refers t h x im"
proof -
  from assms(1) obtain ids fs where ids: "list_all2 (\<lambda>c i. rbind (table_column_name t c) (\<lambda>name.
        case h_idMap h name of Some cid \<Rightarrow> Inr cid | None \<Rightarrow> Inl TypeError) = Inr i) (dbi_columnNumbers x) ids"
    and im: "im = \<lparr>im_handler = \<lparr>ih_name = dbi_name x, ih_isPrimaryKey = dbi_isPrimaryKey x,
              ih_isUnique = dbi_isUnique x, ih_isOrdered = dbi_isOrdered x, indexColumnNumbers = ids,
              ih_columnMask = foldl bm_set (new_BitMask (Some (length (h_columns h)))) ids\<rparr>,
            im_fieldMappings = fs,
            im_singleColumn = (case ids of [cid] \<Rightarrow> js_get (h_metadata h) cid | _ \<Rightarrow> None)\<rparr>"
    by (auto simp: DBIndexHandler_def rbind_Inr_iff rmap_Inr_iff)
  have one: "i < length (h_columns h) \<and> cm_name (h_metadata h ! i) = cm_name (dbt_columns t ! c)"
    if "rbind (table_column_name t c) (\<lambda>name. case h_idMap h name of Some cid \<Rightarrow> Inr cid | None \<Rightarrow> Inl TypeError) = Inr i" for c i
    using that assms(2) by (auto simp: rbind_Inr_iff table_column_name_Inr handler_ok_def split: option.splits)
  have bound: "\<forall>i\<in>set ids. i < length (h_columns h)"
    using ids one by (fastforce simp: list_all2_conv_all_nth in_set_conv_nth)
  have names: "map (\<lambda>i. cm_name (h_metadata h ! i)) ids = map (\<lambda>c. cm_name (dbt_columns t ! c)) (dbi_columnNumbers x)"
    using ids one by (auto simp: list_all2_conv_all_nth list_eq_iff_nth_eq)
  have "ids \<noteq> []" using ids assms(3) by (auto dest: list_all2_lengthD)
  moreover have "\<forall>i\<in>set ids. i < bm_size (new_BitMask (Some (length (h_columns h))))"
    using bound bm.new_cap[of "length (h_columns h)"] by fastforce
  note add = bm.add_all[OF bm.new_inv this]
  ultimately show "ih_wf (im_handler im)" using add bm.new_cols by (simp add: im ih_wf_def)
  show "\<forall>c\<in>set (indexColumnNumbers (im_handler im)). c < length (h_columns h)" using bound by (simp add: im)
  show "index_refers t h x im" using names by (simp add: im index_refers_def)
qed

lemma hasColumnsFromTable_Inr:
  "hasColumnsFromTable t h cs = Inr b \<Longrightarrow> b \<longleftrightarrow> (\<forall>c\<in>set cs. h_idMap h (cm_name (dbt_columns t ! c)) \<noteq> None)"
  by (fastforce simp: hasColumnsFromTable_def rbind_Inr_iff rmap_Inr_iff table_column_name_Inr list_all_iff
    list_all2_conv_all_nth in_set_conv_nth)

lemma build_index_handlers_correct:
  assumes "handler_ok h"
  shows "build_index_handlers t h xs = Inr ims \<Longrightarrow> \<forall>x\<in>set xs. dbi_columnNumbers x \<noteq> [] \<Longrightarrow>
    list_all2 (\<lambda>x im. ih_wf (im_handler im) \<and> (\<forall>c\<in>set (indexColumnNumbers (im_handler im)). c < length (h_columns h)) \<and>
        index_refers t h x im)
      (filter (\<lambda>x. \<forall>c\<in>set (dbi_columnNumbers x). h_idMap h (cm_name (dbt_columns t ! c)) \<noteq> None) xs) ims"
proof (induction xs arbitrary: ims)
  case (Cons x xs)
  from Cons.prems(1) obtain b ms rest where b: "hasColumnsFromTable t h (dbi_columnNumbers x) = Inr b"
    "(if b then rbind (DBIndexHandler t h x) (\<lambda>m. Inr [m]) else Inr []) = Inr ms"
    "build_index_handlers t h xs = Inr rest" "ims = ms @ rest"
    by (auto simp: rbind_Inr_iff)
  note IH = Cons.IH[OF b(3)]
  show ?case
  proof (cases b)
    case True
    then obtain m where m: "DBIndexHandler t h x = Inr m" "ms = [m]" using b(2) by (auto simp: rbind_Inr_iff)
    from DBIndexHandler_correct[OF m(1) assms] Cons.prems IH True hasColumnsFromTable_Inr[OF b(1)] show ?thesis
      by (auto simp: b(4) m(2))
  next
    case False
    then have "ms = []" using b(2) by simp
    moreover have "\<not> (\<forall>c\<in>set (dbi_columnNumbers x). h_idMap h (cm_name (dbt_columns t ! c)) \<noteq> None)"
      using hasColumnsFromTable_Inr[OF b(1)] False by blast
    ultimately show ?thesis using IH Cons.prems(2) by (auto simp: b(4))
  qed
qed simp

section \<open>Properties\<close>



text \<open>
  After reading all columns of an object the key of the listener is absent when every value is
  defined, and otherwise has one letter for each column, D or U; the errors are, in column order,
  those of the binary columns whose defined value is no buffer.
\<close>

theorem listener_key_correct:
  assumes "getColumns env h ob (Some new_listener) = Inr (vs, ob', lo')" "length (h_metadata h) = length (h_columns h)"
  shows "\<exists>l. lo' = Some l \<and> length vs = length (h_columns h) \<and> l_key l = defined_key vs \<and>
    l_errors l = binary_errors env (h_metadata h) vs"
  using getColumns_loop_key[of env h 0 "length (h_columns h)" ob new_listener vs ob' lo' "[]"] assms
  by (simp add: getColumns_def new_listener_def defined_key_def binary_errors_def)

definition demo_column :: "string \<Rightarrow> bool \<Rightarrow> column_metadata" where
  "demo_column name auto' = \<lparr>cm_name = name, cm_isAutoincrement = auto', cm_isLob = False, cm_isBinary = False, cm_typeConverter = JUndef\<rparr>"

definition demo_table :: db_table where
  "demo_table = \<lparr>dbt_database = ''d'', dbt_name = ''t'', dbt_columns = [demo_column ''a'' True, demo_column ''b'' False],
     dbt_indexes = [\<lparr>dbi_name = ''PRIMARY'', dbi_isPrimaryKey = True, dbi_isUnique = True, dbi_isOrdered = True, dbi_columnNumbers = [0]\<rparr>,
       \<lparr>dbi_name = ''ib'', dbi_isPrimaryKey = False, dbi_isUnique = False, dbi_isOrdered = True, dbi_columnNumbers = [1]\<rparr>],
     dbt_foreignKeys = [], dbt_sparseContainer = None\<rparr>"

definition demo_handler :: "dbt_handler res" where
  "demo_handler = DBTableHandler (\<lambda>_. True) demo_table None"

theorem listener_key_correct_witness:
  "\<exists>h vs ob' l. demo_handler = Inr h \<and>
    getColumns \<lparr>e_call1 = (\<lambda>f v. v), e_isBuffer = (\<lambda>_. False)\<rparr> h (JObj [(''a'', JNum 1)]) (Some new_listener) = Inr (vs, ob', Some l) \<and>
    vs = [JNum 1, JUndef] \<and> l_key l = Some ''DU''"
proof -
  let ?env = "\<lparr>e_call1 = (\<lambda>f v. v), e_isBuffer = (\<lambda>_. False)\<rparr>" and ?ob = "JObj [(''a'', JNum 1)]"
  have "case demo_handler of Inl _ \<Rightarrow> False | Inr h \<Rightarrow> length (h_metadata h) = length (h_columns h) \<and>
      (case getColumns ?env h ?ob (Some new_listener) of Inl _ \<Rightarrow> False | Inr (vs, _, _) \<Rightarrow> vs = [JNum 1, JUndef])"
    by code_simp
  then obtain h ob' lo' where h: "demo_handler = Inr h" "length (h_metadata h) = length (h_columns h)"
    "getColumns ?env h ?ob (Some new_listener) = Inr ([JNum 1, JUndef], ob', lo')"
    by (auto split: sum.splits prod.splits)
  from listener_key_correct[OF h(3,2)] h show ?thesis by (auto simp: defined_key_def)
qed

text \<open>
  C16: Whatever the mapping, the handlers of the table's indexes are those of the indexes all of whose
  columns are mapped, in the order of the table; each refers, by positions that exist in the
  handler, to the columns of the table's index; and the handler meets everything that the choice of
  an index assumes of it.
\<close>

theorem index_handlers_correct:
  assumes "DBTableHandler call t mapping = Inr h" "build_index_handlers t h (dbt_indexes t) = Inr ims"
    and "\<forall>x\<in>set (dbt_indexes t). dbi_columnNumbers x \<noteq> []"
  shows "list_all2 (index_refers t h)
      (filter (\<lambda>x. \<forall>c\<in>set (dbi_columnNumbers x). h_idMap h (cm_name (dbt_columns t ! c)) \<noteq> None) (dbt_indexes t)) ims \<and>
    th_wf (as_table_handler h ims)"
proof -
  note ok = DBTableHandler_ok[OF assms(1)]
  note b = build_index_handlers_correct[OF ok assms(2,3)]
  have "bm_wf m" if m: "getColumnMaskForField h n = Some m" for n m
  proof -
    from m obtain k c where k: "h_fieldMap h n = Some (k, c)" "fm_columnMask (h_fields h ! k) = Some m"
      by (auto simp: getColumnMaskForField_def dbt_getFieldMapping_def bind_eq_Some_conv)
    then have "k < length (h_fields h)" using ok unfolding handler_ok_def by blast
    then have "h_fields h ! k \<in> set (h_fields h)" by simp
    with k(2) ok show ?thesis by (auto simp: handler_ok_def)
  qed
  moreover have "\<forall>im\<in>set ims. ih_wf (im_handler im) \<and> (\<forall>c\<in>set (indexColumnNumbers (im_handler im)). c < length (h_columns h))"
    using b by (fastforce simp: list_all2_conv_all_nth in_set_conv_nth)
  ultimately have "th_wf (as_table_handler h ims)"
    by (auto simp: th_wf_def as_table_handler_def list_all_iff)
  with b show ?thesis by (auto elim: list_all2_mono)
qed

theorem index_handlers_correct_witness:
  "\<exists>h ims. demo_handler = Inr h \<and> build_index_handlers demo_table h (dbt_indexes demo_table) = Inr ims \<and>
     th_wf (as_table_handler h ims) \<and> length ims = 2"
proof -
  have "case demo_handler of Inl _ \<Rightarrow> False | Inr h \<Rightarrow>
      (case build_index_handlers demo_table h (dbt_indexes demo_table) of Inl _ \<Rightarrow> False | Inr ims \<Rightarrow> length ims = 2)"
    by code_simp
  then obtain h ims where h: "DBTableHandler (\<lambda>_. True) demo_table None = Inr h"
    "build_index_handlers demo_table h (dbt_indexes demo_table) = Inr ims" "length ims = 2"
    by (auto simp: demo_handler_def split: sum.splits)
  have "\<forall>x\<in>set (dbt_indexes demo_table). dbi_columnNumbers x \<noteq> []" by (simp add: demo_table_def)
  from index_handlers_correct[OF h(1,2) this] h show ?thesis by (auto simp: demo_handler_def)
qed

end
