(* ===== verification/Transactions.thy ===== *)
theory Transactions
  imports Prelude "HOL-Library.Multiset"
begin

text \<open>
  Transactions, from the user's calls to the queries on the connection:
  \<open>common/SQLTransactionHandler.js\<close> (batches of operations run one operation at a time), the
  handler inside \<open>jones-mysql/impl/MySQLConnection.js\<close> with its \<open>DBSession\<close>, the state machine of
  \<open>api/Transaction.js\<close>, and \<open>commit\<close>, \<open>rollback\<close> and \<open>applyCallback\<close> of \<open>api/UserContext.js\<close>.

  The connection is asynchronous. A query or an operation that has been sent is on the \<open>wire\<close> of
  its handler until its callback runs; the callbacks run one at a time, and which one runs next is
  the choice of an event. An operation that completes at once, inside its own \<open>execute\<close>, is the
  event of its completion right after: the calls of \<open>execute\<close> are the last thing their callers do.
\<close>

section \<open>Operations, callbacks and batches\<close>

text \<open>
  What a user's callback does to the handler is to submit further batches, which may depend on the
  error it is given. Every callback runs at most once, so it is a function from that error to the
  batches it submits. The counters of the statistics module are left out.
\<close>

datatype failure =
    DBError string
  | TransactionRolledBackError (cause: failure)
  | SessionError string

datatype callback =
    NoCallback
  | Callback nat "failure option \<Rightarrow> batch list"
and oper = Oper nat callback
and batch = Batch "oper list" callback

fun op_id :: "oper \<Rightarrow> nat" where
  "op_id (Oper i c) = i"

fun op_callback :: "oper \<Rightarrow> callback" where
  "op_callback (Oper i c) = c"

fun batch_list :: "batch \<Rightarrow> oper list" where
  "batch_list (Batch ops c) = ops"

fun batch_callback :: "batch \<Rightarrow> callback" where
  "batch_callback (Batch ops c) = c"

fun callback_ids :: "callback \<Rightarrow> nat list" where
  "callback_ids NoCallback = []"
| "callback_ids (Callback c f) = [c]"

datatype query = QBegin | QCommit js | QRollback js | QOp oper

datatype trace_event =
    Submitted "nat list"
  | Sent query
  | Aborted nat failure
  | BatchDone nat "failure option"
  | Threw js_error

section \<open>SQLTransactionHandler\<close>

text \<open>
  \<open>operationsList\<close> is null and \<open>numberOfOperations\<close> of the MySQL handler undefined until they are
  first set; they are only read after that, except by the test \<open>numberOfOperations > 0\<close>, which is
  false for 0 and undefined alike. The error of the result of an executed operation is kept beside
  its number.
\<close>

record handler =
  autocommit :: bool
  firstTime :: bool
  numberOfOperations :: nat
  currentOperation :: nat
  operationsList :: "oper list"
  executedOperations :: "(nat \<times> failure option) list"
  pendingBatches :: "batch list"
  isCommitting :: bool
  transactionExecuteCallback :: callback
  th_error :: "failure option"
  connected :: bool
  wire :: "query list"
  trace :: "trace_event list"

type_synonym outcome = "js_error option \<times> handler"

definition andthen :: "outcome \<Rightarrow> (handler \<Rightarrow> outcome) \<Rightarrow> outcome" where
  "andthen r f = (case r of (Some e, h) \<Rightarrow> (Some e, h) | (None, h) \<Rightarrow> f h)"

lemma andthen_simps [simp]: "andthen (None, h) f = f h" "andthen (Some e, h) f = (Some e, h)"
  by (simp_all add: andthen_def)

definition SQLTransactionHandler :: "bool \<Rightarrow> handler" where
  "SQLTransactionHandler ac = \<lparr>autocommit = ac, firstTime = \<not> ac, numberOfOperations = 0,
     currentOperation = 0, operationsList = [], executedOperations = [], pendingBatches = [],
     isCommitting = False, transactionExecuteCallback = NoCallback, th_error = None,
     connected = True, wire = [], trace = []\<rparr>"

definition tell :: "trace_event \<Rightarrow> handler \<Rightarrow> handler" where
  "tell ev h = h\<lparr>trace := trace h @ [ev]\<rparr>"

text \<open>\<open>sqlSocket.query(q, callback)\<close> and \<open>operation.execute(sqlSocket, callback)\<close>.\<close>

definition send :: "query \<Rightarrow> handler \<Rightarrow> handler" where
  "send q h = tell (Sent q) (h\<lparr>wire := wire h @ [q]\<rparr>)"

definition start_operation :: "nat \<Rightarrow> handler \<Rightarrow> outcome" where
  "start_operation i h = (case js_get (operationsList h) i of
     None \<Rightarrow> (Some TypeError, h) | Some op \<Rightarrow> (None, send (QOp op) h))"

definition executeOperations :: "handler \<Rightarrow> outcome" where
  "executeOperations h = start_operation 0
     (h\<lparr>isCommitting := False, numberOfOperations := length (operationsList h),
        currentOperation := 0\<rparr>)"

definition execute_batch :: "batch \<Rightarrow> handler \<Rightarrow> outcome" where
  "execute_batch b h =
    (let h = tell (Submitted (callback_ids (batch_callback b))) h in
     if firstTime h then
       (None, send QBegin (h\<lparr>operationsList := batch_list b,
                             transactionExecuteCallback := batch_callback b\<rparr>))
     else if numberOfOperations h > 0 then (None, h\<lparr>pendingBatches := pendingBatches h @ [b]\<rparr>)
     else executeOperations (h\<lparr>operationsList := batch_list b,
                               transactionExecuteCallback := batch_callback b\<rparr>))"

text \<open>The call of a user's callback, which submits its batches one after the other.\<close>

fun execute_all :: "(batch \<Rightarrow> handler \<Rightarrow> outcome) \<Rightarrow> batch list \<Rightarrow> handler \<Rightarrow> outcome" where
  "execute_all ex [] h = (None, h)"
| "execute_all ex (b # bs) h = andthen (ex b h) (execute_all ex bs)"

definition executeOnBegin :: "failure option \<Rightarrow> handler \<Rightarrow> outcome" where
  "executeOnBegin err h = andthen
     (case err of None \<Rightarrow> (None, h)
      | Some e \<Rightarrow> (case transactionExecuteCallback h of
           NoCallback \<Rightarrow> (Some TypeError, h)
         | Callback c f \<Rightarrow> execute_all execute_batch (f err) (tell (BatchDone c err) h)))
     (\<lambda>h. executeOperations (h\<lparr>firstTime := False\<rparr>))"

definition next_batch :: "handler \<Rightarrow> outcome" where
  "next_batch h = (case pendingBatches h of [] \<Rightarrow> (None, h)
     | b # bs \<Rightarrow> executeOperations (h\<lparr>pendingBatches := bs, operationsList := batch_list b,
                  transactionExecuteCallback := batch_callback b, th_error := None\<rparr>))"

definition batchComplete :: "handler \<Rightarrow> outcome" where
  "batchComplete h = andthen
     (case transactionExecuteCallback h of NoCallback \<Rightarrow> (None, h)
      | Callback c f \<Rightarrow>
          execute_all execute_batch (f (th_error h)) (tell (BatchDone c (th_error h)) h))
     (\<lambda>h. next_batch (h\<lparr>executedOperations := [], numberOfOperations := 0\<rparr>))"

text \<open>
  The loop that aborts the rest of a batch calls the callbacks of the operations, which may submit
  batches; that never changes the number of operations while it is positive, so the loop ends.
\<close>

definition abort_operation :: "failure \<Rightarrow> oper \<Rightarrow> handler \<Rightarrow> outcome" where
  "abort_operation e op h = andthen
     (case op_callback op of NoCallback \<Rightarrow> (None, h)
      | Callback c f \<Rightarrow> execute_all execute_batch (f (Some e)) (tell (Aborted (op_id op) e) h))
     (\<lambda>h. (None, h\<lparr>executedOperations := executedOperations h @ [(op_id op, Some e)]\<rparr>))"

lemma execute_batch_counts:
  assumes "execute_batch b h = (t, h')" "numberOfOperations h > 0"
  shows "numberOfOperations h' = numberOfOperations h \<and> currentOperation h' = currentOperation h"
  using assms
  by (auto simp: execute_batch_def Let_def send_def tell_def split: if_splits)

lemma execute_all_counts:
  assumes "execute_all execute_batch bs h = (t, h')" "numberOfOperations h > 0"
  shows "numberOfOperations h' = numberOfOperations h \<and> currentOperation h' = currentOperation h"
  using assms
proof (induction bs arbitrary: h)
  case (Cons b bs)
  obtain t1 h1 where 1: "execute_batch b h = (t1, h1)" by force
  show ?case
    using Cons.prems Cons.IH[of h1] execute_batch_counts[OF 1] 1 by (cases t1) auto
qed auto

lemma abort_operation_counts:
  assumes "abort_operation e op h = (t, h')" "numberOfOperations h > 0"
  shows "numberOfOperations h' = numberOfOperations h \<and> currentOperation h' = currentOperation h"
proof (cases "op_callback op")
  case (Callback c f)
  obtain t1 h1 where 1: "execute_all execute_batch (f (Some e)) (tell (Aborted (op_id op) e) h) = (t1, h1)"
    by force
  show ?thesis
    using assms execute_all_counts[OF 1] 1 Callback
    by (cases t1) (auto simp: abort_operation_def tell_def)
qed (use assms in \<open>auto simp: abort_operation_def\<close>)

function abort_loop :: "failure \<Rightarrow> handler \<Rightarrow> outcome" where
  "abort_loop e h =
    (if currentOperation h < numberOfOperations h then
       (case js_get (operationsList h) (currentOperation h) of
          None \<Rightarrow> (Some TypeError, h)
        | Some op \<Rightarrow> (case abort_operation e op h of
             (Some t, h') \<Rightarrow> (Some t, h')
           | (None, h') \<Rightarrow> abort_loop e (h'\<lparr>currentOperation := Suc (currentOperation h')\<rparr>)))
     else (None, h))"
  by pat_completeness auto
termination
proof (relation "measure (\<lambda>(e, h). numberOfOperations h - currentOperation h)", goal_cases)
  case (2 e h op p h')
  then show ?case using abort_operation_counts[of e op h None h'] by auto
qed simp

declare abort_loop.simps [simp del]

definition operationCompleteCallback :: "oper \<Rightarrow> failure option \<Rightarrow> handler \<Rightarrow> outcome" where
  "operationCompleteCallback op err h =
    (let h = (case err of None \<Rightarrow> h
                | Some e \<Rightarrow> h\<lparr>th_error := Some (TransactionRolledBackError e)\<rparr>);
         h = h\<lparr>executedOperations := executedOperations h @ [(op_id op, err)]\<rparr>
     in if length (executedOperations h) = numberOfOperations h then batchComplete h
        else (case th_error h of
           Some e \<Rightarrow> andthen (abort_loop e (h\<lparr>currentOperation := Suc (currentOperation h)\<rparr>)) batchComplete
         | None \<Rightarrow> start_operation (Suc (currentOperation h))
                     (h\<lparr>currentOperation := Suc (currentOperation h)\<rparr>)))"

definition commit :: "js \<Rightarrow> handler \<Rightarrow> handler" where
  "commit cb h = send (QCommit cb) (h\<lparr>autocommit := True\<rparr>)"

definition rollback :: "js \<Rightarrow> handler \<Rightarrow> handler" where
  "rollback cb h = send (QRollback cb) (h\<lparr>autocommit := True\<rparr>)"

text \<open>
  The events of a handler: a submission by the user, and the callback of the \<open>i\<close>-th query on the
  wire with an error or none. An exception ends the event where it is thrown.
\<close>

datatype handler_event =
    HExecute batch
  | HReply nat "failure option"
  | HCommit js
  | HRollback js

definition settle :: "outcome \<Rightarrow> handler" where
  "settle r = (case r of (None, h) \<Rightarrow> h | (Some t, h) \<Rightarrow> tell (Threw t) h)"

definition remove_nth :: "nat \<Rightarrow> 'a list \<Rightarrow> 'a list" where
  "remove_nth i xs = take i xs @ drop (Suc i) xs"

definition sql_reply :: "nat \<Rightarrow> failure option \<Rightarrow> handler \<Rightarrow> outcome" where
  "sql_reply i err h = (case js_get (wire h) i of None \<Rightarrow> (None, h)
     | Some q \<Rightarrow> (let h = h\<lparr>wire := remove_nth i (wire h)\<rparr> in
         case q of QBegin \<Rightarrow> executeOnBegin err h
         | QOp op \<Rightarrow> operationCompleteCallback op err h
         | QCommit cb \<Rightarrow> (None, h)
         | QRollback cb \<Rightarrow> (None, h)))"

fun sql_event :: "handler_event \<Rightarrow> handler \<Rightarrow> handler" where
  "sql_event (HExecute b) h = settle (execute_batch b h)"
| "sql_event (HReply i err) h = settle (sql_reply i err h)"
| "sql_event (HCommit cb) h = commit cb h"
| "sql_event (HRollback cb) h = rollback cb h"

section \<open>The handler of the MySQL session\<close>

text \<open>
  \<open>DBSession.TransactionHandler\<close> is an older copy of the same code: it reads the connection and
  \<open>autocommit\<close> from the session and refuses to run without a connection.
\<close>

definition null_connection :: string where
  "null_connection = ''Fatal internal exception: MySQLConnection.TransactionHandler.executeOperations got null for pooledConnection''"

definition my_TransactionHandler :: "bool \<Rightarrow> handler" where
  "my_TransactionHandler ac = \<lparr>autocommit = ac, firstTime = \<not> ac, numberOfOperations = 0,
     currentOperation = 0, operationsList = [], executedOperations = [], pendingBatches = [],
     isCommitting = False, transactionExecuteCallback = NoCallback, th_error = None,
     connected = True, wire = [], trace = []\<rparr>"

definition my_executeOperations :: "handler \<Rightarrow> outcome" where
  "my_executeOperations h =
    (let h = h\<lparr>isCommitting := False, numberOfOperations := length (operationsList h)\<rparr> in
     if \<not> connected h then (Some (ErrorMsg null_connection), h)
     else start_operation 0 (h\<lparr>currentOperation := 0\<rparr>))"

definition my_execute :: "batch \<Rightarrow> handler \<Rightarrow> outcome" where
  "my_execute b h =
    (let h = tell (Submitted (callback_ids (batch_callback b))) h in
     if firstTime h then
       (let h = h\<lparr>operationsList := batch_list b, transactionExecuteCallback := batch_callback b\<rparr> in
        if \<not> connected h then (Some TypeError, h) else (None, send QBegin h))
     else if numberOfOperations h > 0 then (None, h\<lparr>pendingBatches := pendingBatches h @ [b]\<rparr>)
     else my_executeOperations (h\<lparr>operationsList := batch_list b,
                                   transactionExecuteCallback := batch_callback b\<rparr>))"

definition my_executeOnBegin :: "failure option \<Rightarrow> handler \<Rightarrow> outcome" where
  "my_executeOnBegin err h =
    (let r = (case err of None \<Rightarrow> (None, h)
       | Some e \<Rightarrow> (case transactionExecuteCallback h of
           NoCallback \<Rightarrow> (Some TypeError, h)
         | Callback c f \<Rightarrow> execute_all my_execute (f (Some e)) (tell (BatchDone c (Some e)) h)))
     in andthen r (\<lambda>h. my_executeOperations (h\<lparr>firstTime := False\<rparr>)))"

definition my_batchComplete :: "handler \<Rightarrow> outcome" where
  "my_batchComplete h =
    (let r = (case transactionExecuteCallback h of NoCallback \<Rightarrow> (None, h)
       | Callback c f \<Rightarrow> execute_all my_execute (f (th_error h)) (tell (BatchDone c (th_error h)) h))
     in andthen r (\<lambda>h.
       let h = h\<lparr>executedOperations := [], numberOfOperations := 0\<rparr> in
       case pendingBatches h of [] \<Rightarrow> (None, h)
       | b # bs \<Rightarrow> my_executeOperations
           (h\<lparr>pendingBatches := bs, operationsList := batch_list b,
              transactionExecuteCallback := batch_callback b, th_error := None\<rparr>)))"

definition my_abort_operation :: "failure \<Rightarrow> oper \<Rightarrow> handler \<Rightarrow> outcome" where
  "my_abort_operation e op h =
    (let r = (case op_callback op of NoCallback \<Rightarrow> (None, h)
       | Callback c f \<Rightarrow> execute_all my_execute (f (Some e)) (tell (Aborted (op_id op) e) h))
     in andthen r (\<lambda>h. (None, h\<lparr>executedOperations := executedOperations h @ [(op_id op, Some e)]\<rparr>)))"

lemma my_execute_counts:
  assumes "my_execute b h = (t, h')" "numberOfOperations h > 0"
  shows "numberOfOperations h' = numberOfOperations h \<and> currentOperation h' = currentOperation h"
  using assms by (auto simp: my_execute_def Let_def send_def tell_def split: if_splits)

lemma my_execute_all_counts:
  assumes "execute_all my_execute bs h = (t, h')" "numberOfOperations h > 0"
  shows "numberOfOperations h' = numberOfOperations h \<and> currentOperation h' = currentOperation h"
  using assms
proof (induction bs arbitrary: h)
  case (Cons b bs)
  obtain t1 h1 where 1: "my_execute b h = (t1, h1)" by force
  show ?case
    using Cons.prems Cons.IH[of h1] my_execute_counts[OF 1] 1 by (cases t1) auto
qed auto

lemma my_abort_operation_counts:
  assumes "my_abort_operation e op h = (t, h')" "numberOfOperations h > 0"
  shows "numberOfOperations h' = numberOfOperations h \<and> currentOperation h' = currentOperation h"
proof (cases "op_callback op")
  case (Callback c f)
  obtain t1 h1 where 1: "execute_all my_execute (f (Some e)) (tell (Aborted (op_id op) e) h) = (t1, h1)"
    by force
  show ?thesis
    using assms my_execute_all_counts[OF 1] 1 Callback
    by (cases t1) (auto simp: my_abort_operation_def tell_def)
qed (use assms in \<open>auto simp: my_abort_operation_def\<close>)

function my_abort_loop :: "failure \<Rightarrow> handler \<Rightarrow> outcome" where
  "my_abort_loop e h =
    (if currentOperation h < numberOfOperations h then
       (case js_get (operationsList h) (currentOperation h) of
          None \<Rightarrow> (Some TypeError, h)
        | Some op \<Rightarrow> (case my_abort_operation e op h of
             (Some t, h') \<Rightarrow> (Some t, h')
           | (None, h') \<Rightarrow> my_abort_loop e (h'\<lparr>currentOperation := Suc (currentOperation h')\<rparr>)))
     else (None, h))"
  by pat_completeness auto
termination
proof (relation "measure (\<lambda>(e, h). numberOfOperations h - currentOperation h)", goal_cases)
  case (2 e h op p h')
  then show ?case using my_abort_operation_counts[of e op h None h'] by auto
qed simp

declare my_abort_loop.simps [simp del]

definition my_operationCompleteCallback :: "oper \<Rightarrow> failure option \<Rightarrow> handler \<Rightarrow> outcome" where
  "my_operationCompleteCallback op err h =
    (let h = (case err of None \<Rightarrow> h
                | Some e \<Rightarrow> h\<lparr>th_error := Some (TransactionRolledBackError e)\<rparr>);
         h = h\<lparr>executedOperations := executedOperations h @ [(op_id op, err)]\<rparr>;
         complete = length (executedOperations h)
     in if complete = numberOfOperations h then my_batchComplete h
        else (case th_error h of
           Some e \<Rightarrow> andthen (my_abort_loop e (h\<lparr>currentOperation := currentOperation h + 1\<rparr>))
                      my_batchComplete
         | None \<Rightarrow> (let h = h\<lparr>currentOperation := currentOperation h + 1\<rparr>
                     in start_operation (currentOperation h) h)))"

definition my_commit :: "js \<Rightarrow> handler \<Rightarrow> outcome" where
  "my_commit cb h = (if \<not> connected h then (Some TypeError, h)
     else (None, (send (QCommit cb) h)\<lparr>autocommit := True\<rparr>))"

definition my_rollback :: "js \<Rightarrow> handler \<Rightarrow> outcome" where
  "my_rollback cb h = (if \<not> connected h then (Some TypeError, h)
     else (None, (send (QRollback cb) h)\<lparr>autocommit := True\<rparr>))"

definition my_reply :: "nat \<Rightarrow> failure option \<Rightarrow> handler \<Rightarrow> outcome" where
  "my_reply i err h = (case js_get (wire h) i of None \<Rightarrow> (None, h)
     | Some q \<Rightarrow> (let h = h\<lparr>wire := remove_nth i (wire h)\<rparr> in
         case q of QBegin \<Rightarrow> my_executeOnBegin err h
         | QOp op \<Rightarrow> my_operationCompleteCallback op err h
         | QCommit cb \<Rightarrow> (None, h)
         | QRollback cb \<Rightarrow> (None, h)))"

fun my_event :: "handler_event \<Rightarrow> handler \<Rightarrow> handler" where
  "my_event (HExecute b) h = settle (my_execute b h)"
| "my_event (HReply i err) h = settle (my_reply i err h)"
| "my_event (HCommit cb) h = settle (my_commit cb h)"
| "my_event (HRollback cb) h = settle (my_rollback cb h)"

section \<open>The two handlers are the same\<close>

text \<open>Nothing the handlers do closes the connection, so a connected handler stays connected.\<close>

definition conn_ok :: "outcome \<Rightarrow> bool" where
  "conn_ok r \<longleftrightarrow> connected (snd r)"

lemma conn_ok_andthen: "conn_ok r \<Longrightarrow> (\<And>h. connected h \<Longrightarrow> conn_ok (f h)) \<Longrightarrow> conn_ok (andthen r f)"
  by (cases r; cases "fst r") (auto simp: conn_ok_def andthen_def split: option.splits)

lemma connected_simps [simp]:
  "connected (tell ev h) = connected h" "connected (send q h) = connected h"
  by (simp_all add: tell_def send_def)

lemma my_executeOperations_eq:
  "connected h \<Longrightarrow> my_executeOperations h = executeOperations h"
  by (simp add: my_executeOperations_def executeOperations_def)

lemma conn_ok_start [simp]: "conn_ok (start_operation i h) = connected h"
  by (auto simp: start_operation_def conn_ok_def split: option.splits)

lemma conn_ok_executeOperations [simp]: "conn_ok (executeOperations h) = connected h"
  by (simp add: executeOperations_def)

lemma my_execute_eq: "connected h \<Longrightarrow> my_execute b h = execute_batch b h"
  by (simp add: my_execute_def execute_batch_def Let_def my_executeOperations_eq)

lemma conn_ok_execute: "connected h \<Longrightarrow> conn_ok (execute_batch b h)"
  by (simp add: execute_batch_def Let_def) (simp add: conn_ok_def)

lemma andthen_cong: "(\<And>t h. r = (t, h) \<Longrightarrow> t = None \<Longrightarrow> f h = g h) \<Longrightarrow> andthen r f = andthen r g"
  by (auto simp: andthen_def split: option.splits prod.splits)

lemma my_execute_all_eq:
  "connected h \<Longrightarrow> execute_all my_execute bs h = execute_all execute_batch bs h
     \<and> conn_ok (execute_all execute_batch bs h)"
proof (induction bs arbitrary: h)
  case (Cons b bs)
  have ok: "conn_ok (execute_batch b h)" using Cons.prems by (rule conn_ok_execute)
  have "conn_ok (execute_all execute_batch (b # bs) h)"
    using ok Cons.IH by (auto intro!: conn_ok_andthen)
  moreover have "execute_all my_execute (b # bs) h = execute_all execute_batch (b # bs) h"
    using Cons.prems Cons.IH ok by (auto simp: my_execute_eq conn_ok_def intro!: andthen_cong)
  ultimately show ?case by blast
qed (simp add: conn_ok_def)

text \<open>What a callback does, on both sides; the three uses of a callback follow.\<close>

lemma my_call_eq:
  assumes "connected h"
  shows "(case c of NoCallback \<Rightarrow> (None, h) | Callback i f \<Rightarrow> execute_all my_execute (f e) (tell (g i) h))
       = (case c of NoCallback \<Rightarrow> (None, h) | Callback i f \<Rightarrow> execute_all execute_batch (f e) (tell (g i) h))
     \<and> conn_ok (case c of NoCallback \<Rightarrow> (None, h) | Callback i f \<Rightarrow> execute_all execute_batch (f e) (tell (g i) h))"
  using assms my_execute_all_eq[of "tell (g i) h" for i] by (cases c) (auto simp: conn_ok_def)

text \<open>
  Sequencing preserves the agreement of the two sides, which is stated with the fact that the
  connection stays.
\<close>

definition agree :: "outcome \<Rightarrow> outcome \<Rightarrow> bool" where
  "agree r r' \<longleftrightarrow> r = r' \<and> conn_ok r'"

lemma agree_andthen:
  assumes "agree r r'" "\<And>h. connected h \<Longrightarrow> agree (f h) (g h)"
  shows "agree (andthen r f) (andthen r' g)"
  using assms by (cases r'; cases "fst r'") (auto simp: agree_def conn_ok_def andthen_def split: option.splits)

lemma agree_executeOperations: "connected h \<Longrightarrow> agree (my_executeOperations h) (executeOperations h)"
  by (simp add: agree_def my_executeOperations_eq)

lemma agree_call:
  assumes "connected h"
  shows "agree (case c of NoCallback \<Rightarrow> (None, h) | Callback i f \<Rightarrow> execute_all my_execute (f e) (tell (g i) h))
    (case c of NoCallback \<Rightarrow> (None, h) | Callback i f \<Rightarrow> execute_all execute_batch (f e) (tell (g i) h))"
  using my_call_eq[OF assms, where c = c and e = e and g = g] by (simp add: agree_def)

lemma agree_batchComplete:
  assumes "connected h" shows "agree (my_batchComplete h) (batchComplete h)"
  unfolding my_batchComplete_def batchComplete_def Let_def
proof (rule agree_andthen[OF agree_call[OF assms]], goal_cases)
  case (1 h)
  then show ?case
    by (cases "pendingBatches h")
      (simp_all add: next_batch_def agree_executeOperations agree_def[of "(None, x)" for x] conn_ok_def)
qed

lemma agree_abort_operation:
  assumes "connected h" shows "agree (my_abort_operation e op h) (abort_operation e op h)"
  unfolding my_abort_operation_def abort_operation_def Let_def
  by (rule agree_andthen[OF agree_call[OF assms]]) (simp add: agree_def conn_ok_def)

lemma agree_abort_loop: "connected h \<Longrightarrow> agree (my_abort_loop e h) (abort_loop e h)"
proof (induction e h rule: abort_loop.induct)
  case (1 e h)
  show ?case
  proof (cases "currentOperation h < numberOfOperations h \<and> js_get (operationsList h) (currentOperation h) \<noteq> None")
    case True
    then obtain op where op: "js_get (operationsList h) (currentOperation h) = Some op" by auto
    obtain t h' where r: "abort_operation e op h = (t, h')" by force
    have a: "agree (my_abort_operation e op h) (t, h')"
      using agree_abort_operation[OF 1(2), of e op] r by simp
    then have m: "my_abort_operation e op h = (t, h')" "connected h'"
      by (auto simp: agree_def conn_ok_def)
    show ?thesis
    proof (cases t)
      case None
      with 1(1)[OF _ op, of _ h'] True r m
      have "agree (my_abort_loop e (h'\<lparr>currentOperation := Suc (currentOperation h')\<rparr>))
                  (abort_loop e (h'\<lparr>currentOperation := Suc (currentOperation h')\<rparr>))" by simp
      then show ?thesis
        using True op r m None by (subst my_abort_loop.simps, subst abort_loop.simps) simp
    next
      case (Some x)
      then show ?thesis
        using True op r m by (subst my_abort_loop.simps, subst abort_loop.simps)
          (simp add: agree_def conn_ok_def)
    qed
  qed (use 1(2) in \<open>subst my_abort_loop.simps, subst abort_loop.simps,
         auto simp: agree_def conn_ok_def\<close>)
qed

lemma agree_operationComplete:
  assumes "connected h"
  shows "agree (my_operationCompleteCallback op err h) (operationCompleteCallback op err h)"
proof -
  define h1 where "h1 = (case err of None \<Rightarrow> h
    | Some e \<Rightarrow> h\<lparr>th_error := Some (TransactionRolledBackError e)\<rparr>)"
  define h2 where "h2 = h1\<lparr>executedOperations := executedOperations h1 @ [(op_id op, err)]\<rparr>"
  have c: "connected h2" using assms by (simp add: h1_def h2_def split: option.splits)
  then have c': "connected (h2\<lparr>currentOperation := Suc (currentOperation h2)\<rparr>)" by simp
  show ?thesis
    unfolding my_operationCompleteCallback_def operationCompleteCallback_def Let_def
      h1_def[symmetric] h2_def[symmetric]
    using agree_batchComplete[OF c] agree_andthen[OF agree_abort_loop[OF c'] agree_batchComplete]
    by (auto simp: agree_def c split: option.splits)
qed

lemma agree_executeOnBegin:
  assumes "connected h" shows "agree (my_executeOnBegin err h) (executeOnBegin err h)"
  unfolding my_executeOnBegin_def executeOnBegin_def Let_def
proof (rule agree_andthen, goal_cases)
  case 1
  then show ?case
  proof (cases err)
    case (Some e)
    then show ?thesis using agree_call[OF assms, where c = "transactionExecuteCallback h" and e = err and g = "\<lambda>c. BatchDone c err"] assms
      by (cases "transactionExecuteCallback h") (simp_all add: agree_def conn_ok_def)
  qed (simp add: agree_def conn_ok_def assms)
qed (simp add: agree_executeOperations)

lemma agree_reply: "connected h \<Longrightarrow> agree (my_reply i err h) (sql_reply i err h)"
  by (auto simp: my_reply_def sql_reply_def Let_def agree_executeOnBegin agree_operationComplete
      split: option.splits query.splits) (simp_all add: agree_def conn_ok_def)

lemma connected_settle: "conn_ok r \<Longrightarrow> connected (settle r)"
  by (auto simp: settle_def conn_ok_def split: prod.splits option.splits)

lemma event_agree: "connected h \<Longrightarrow> my_event ev h = sql_event ev h \<and> connected (sql_event ev h)"
proof (cases ev)
  case (HExecute b)
  then show "connected h \<Longrightarrow> ?thesis"
    using connected_settle[OF conn_ok_execute] by (simp add: my_execute_eq)
next
  case (HReply i err)
  then show "connected h \<Longrightarrow> ?thesis"
    using agree_reply[of h i err] connected_settle[of "sql_reply i err h"] by (simp add: agree_def)
qed (simp_all add: my_commit_def my_rollback_def commit_def rollback_def settle_def send_def tell_def)

lemma run_agree: "connected h \<Longrightarrow> fold my_event evs h = fold sql_event evs h"
  by (induction evs arbitrary: h) (auto simp: event_agree)

text \<open>
  C21: The handler of the MySQL session and the common \<open>SQLTransactionHandler\<close> that was extracted from
  it are the same: from their constructors on, every sequence of submissions, replies, commits and
  rollbacks leaves both in the same state, with the same queries sent, the same user callbacks
  called with the same errors, in the same order, and the same exceptions thrown.
\<close>

theorem handlers_equivalent:
  "fold my_event evs (my_TransactionHandler ac) = fold sql_event evs (SQLTransactionHandler ac)"
  using run_agree[of "SQLTransactionHandler ac" evs]
  by (simp add: my_TransactionHandler_def SQLTransactionHandler_def)

section \<open>The session and the state machine of the transaction\<close>

text \<open>
  \<open>js\<close> values stand for the first argument of the user's call: \<open>JUndef\<close> when it is missing and
  \<open>JFun\<close> for a callback. An \<open>answer\<close> is what the call or the event gives to the user: the promise
  settled with an error or none (and the callback called with it, when \<open>called\<close>), an open promise,
  or an exception.
\<close>

datatype tx_state = Idle | Active | RollbackOnly

datatype answer =
    Answer "failure option" (called: bool)
  | Waiting
  | Throws js_error

record session =
  tx :: tx_state
  s_autocommit :: bool
  s_handler :: "handler option"

definition DBSession :: session where
  "DBSession = \<lparr>tx = Idle, s_autocommit = True, s_handler = None\<rparr>"

definition createTransactionHandler :: "session \<Rightarrow> session" where
  "createTransactionHandler s = s\<lparr>s_handler := Some (my_TransactionHandler (s_autocommit s))\<rparr>"

definition getTransactionHandler :: "session \<Rightarrow> handler \<times> session" where
  "getTransactionHandler s =
    (let s = (case s_handler s of None \<Rightarrow> createTransactionHandler s | Some _ \<Rightarrow> s)
     in (the (s_handler s), s))"

definition db_begin :: "session \<Rightarrow> session" where
  "db_begin s =
    (let s = s\<lparr>s_autocommit := False\<rparr>; (h, s) = getTransactionHandler s
     in s\<lparr>s_handler := Some (h\<lparr>autocommit := False\<rparr>)\<rparr>)"

definition db_commit :: "js \<Rightarrow> session \<Rightarrow> answer \<times> session" where
  "db_commit cb s = (case s_handler s of None \<Rightarrow> (Throws TypeError, s)
     | Some h \<Rightarrow> (case my_commit cb h of
         (Some e, h') \<Rightarrow> (Throws e, s\<lparr>s_handler := Some h'\<rparr>)
       | (None, h') \<Rightarrow> (Waiting, s\<lparr>s_handler := Some h', s_autocommit := True\<rparr>)))"

definition callbackErrOrThrow :: "failure option \<Rightarrow> js \<Rightarrow> answer" where
  "callbackErrOrThrow err arg = Answer err (js_typeof arg = ''function'')"

definition illegal :: "string \<Rightarrow> js \<Rightarrow> answer" where
  "illegal m arg = callbackErrOrThrow (Some (SessionError (''Illegal state: '' @ m))) arg"

definition applyCallback :: "js \<Rightarrow> failure option \<Rightarrow> answer" where
  "applyCallback user_callback err =
    (if user_callback = JUndef then Answer err False
     else case user_callback of JFun f \<Rightarrow> Answer err True | _ \<Rightarrow> Throws TypeError)"

definition UserContext :: "js \<Rightarrow> answer option" where
  "UserContext user_callback =
    (if js_truthy user_callback \<and> js_typeof user_callback \<noteq> ''function''
     then Some (Throws (ErrorMsg ''User callback is not a function.'')) else None)"

definition isActive :: "session \<Rightarrow> bool" where
  "isActive s = (case tx s of Idle \<Rightarrow> False | Active \<Rightarrow> True | RollbackOnly \<Rightarrow> True)"

definition getRollbackOnly :: "session \<Rightarrow> bool" where
  "getRollbackOnly s = (case tx s of Idle \<Rightarrow> False | Active \<Rightarrow> False | RollbackOnly \<Rightarrow> True)"

definition uc_commit :: "js \<Rightarrow> session \<Rightarrow> answer \<times> session" where
  "uc_commit cb s =
    (if isActive s then db_commit cb s
     else (applyCallback cb (Some (SessionError
        ''Fatal Internal Exception: UserContext.commit with no active transaction.'')), s))"

definition uc_rollback :: "js \<Rightarrow> session \<Rightarrow> answer \<times> session" where
  "uc_rollback cb s =
    (if isActive s then
       (let (h, s) = getTransactionHandler s in case my_rollback cb h of
          (Some e, h') \<Rightarrow> (Throws e, s\<lparr>s_handler := Some h'\<rparr>)
        | (None, h') \<Rightarrow> (Waiting, s\<lparr>s_handler := Some h'\<rparr>))
     else (applyCallback cb (Some (SessionError
        ''Fatal Internal Exception: UserContext.rollback with no active transaction.'')), s))"

text \<open>The operations of the three states, and of \<open>Transaction\<close>, which calls those of its state.\<close>

definition idle_begin :: "js \<Rightarrow> session \<Rightarrow> answer \<times> session" where
  "idle_begin arg s = (callbackErrOrThrow None arg, (db_begin s)\<lparr>tx := Active\<rparr>)"

definition idle_commit :: "js \<Rightarrow> session \<Rightarrow> answer \<times> session" where
  "idle_commit arg s = (illegal ''Idle cannot commit.'' arg, s)"

definition idle_rollback :: "js \<Rightarrow> session \<Rightarrow> answer \<times> session" where
  "idle_rollback arg s = (illegal ''Idle cannot rollback.'' arg, s)"

definition active_begin :: "js \<Rightarrow> session \<Rightarrow> answer \<times> session" where
  "active_begin arg s = (illegal ''Active cannot begin.'' arg, s)"

definition active_commit :: "js \<Rightarrow> session \<Rightarrow> answer \<times> session" where
  "active_commit arg s = (case UserContext arg of Some t \<Rightarrow> (t, s) | None \<Rightarrow> uc_commit arg s)"

definition active_rollback :: "js \<Rightarrow> session \<Rightarrow> answer \<times> session" where
  "active_rollback arg s = (case UserContext arg of Some t \<Rightarrow> (t, s) | None \<Rightarrow> uc_rollback arg s)"

definition active_setRollbackOnly :: "session \<Rightarrow> session" where
  "active_setRollbackOnly s = s\<lparr>tx := RollbackOnly\<rparr>"

definition rollbackOnly_begin :: "js \<Rightarrow> session \<Rightarrow> answer \<times> session" where
  "rollbackOnly_begin arg s = (illegal ''RollbackOnly cannot begin.'' arg, s)"

definition rollbackOnly_commit :: "js \<Rightarrow> session \<Rightarrow> answer \<times> session" where
  "rollbackOnly_commit arg s = (illegal ''RollbackOnly cannot commit.'' arg, s)"

definition rollbackOnly_rollback :: "js \<Rightarrow> session \<Rightarrow> answer \<times> session" where
  "rollbackOnly_rollback arg s = (case UserContext arg of Some t \<Rightarrow> (t, s) | None \<Rightarrow> uc_rollback arg s)"

definition tx_begin :: "js \<Rightarrow> session \<Rightarrow> answer \<times> session" where
  "tx_begin arg s = (case tx s of Idle \<Rightarrow> idle_begin arg s
     | Active \<Rightarrow> active_begin arg s | RollbackOnly \<Rightarrow> rollbackOnly_begin arg s)"

definition tx_commit :: "js \<Rightarrow> session \<Rightarrow> answer \<times> session" where
  "tx_commit arg s = (case tx s of Idle \<Rightarrow> idle_commit arg s
     | Active \<Rightarrow> active_commit arg s | RollbackOnly \<Rightarrow> rollbackOnly_commit arg s)"

definition tx_rollback :: "js \<Rightarrow> session \<Rightarrow> answer \<times> session" where
  "tx_rollback arg s = (case tx s of Idle \<Rightarrow> idle_rollback arg s
     | Active \<Rightarrow> active_rollback arg s | RollbackOnly \<Rightarrow> rollbackOnly_rollback arg s)"

definition setRollbackOnly :: "session \<Rightarrow> session" where
  "setRollbackOnly s = (case tx s of Idle \<Rightarrow> s | Active \<Rightarrow> active_setRollbackOnly s | RollbackOnly \<Rightarrow> s)"

text \<open>
  The remaining events of a session: \<open>UserContext\<close> hands a batch of operations to the handler of
  the session, whatever the state of the transaction, and the callback of a query on the wire runs;
  that of a commit or a rollback is \<open>commitOnCommit\<close> or \<open>rollbackOnRollback\<close>.
\<close>

definition submit :: "batch \<Rightarrow> session \<Rightarrow> answer \<times> session" where
  "submit b s = (let (h, s) = getTransactionHandler s
     in (Waiting, s\<lparr>s_handler := Some (settle (my_execute b h))\<rparr>))"

definition reply :: "nat \<Rightarrow> failure option \<Rightarrow> session \<Rightarrow> answer \<times> session" where
  "reply i err s = (case s_handler s of None \<Rightarrow> (Waiting, s)
     | Some h \<Rightarrow>
        (let s' = s\<lparr>s_handler := Some (settle (my_reply i err h))\<rparr> in
         case js_get (wire h) i of
           Some (QCommit cb) \<Rightarrow> (applyCallback cb err, s'\<lparr>tx := Idle\<rparr>)
         | Some (QRollback cb) \<Rightarrow> (applyCallback cb err, s'\<lparr>tx := Idle\<rparr>)
         | _ \<Rightarrow> (Waiting, s')))"

datatype session_event =
    EvBegin js
  | EvCommit js
  | EvRollback js
  | EvSetRollbackOnly
  | EvSubmit batch
  | EvReply nat "failure option"

fun do_event :: "session_event \<Rightarrow> session \<Rightarrow> answer \<times> session" where
  "do_event (EvBegin arg) s = tx_begin arg s"
| "do_event (EvCommit arg) s = tx_commit arg s"
| "do_event (EvRollback arg) s = tx_rollback arg s"
| "do_event EvSetRollbackOnly s = (Waiting, setRollbackOnly s)"
| "do_event (EvSubmit b) s = submit b s"
| "do_event (EvReply i err) s = reply i err s"

inductive session_step :: "session \<Rightarrow> session_event \<Rightarrow> answer \<Rightarrow> session \<Rightarrow> bool" where
  step: "do_event ev s = (a, s') \<Longrightarrow> session_step s ev a s'"

inductive reach :: "session \<Rightarrow> session \<Rightarrow> bool" where
  start: "reach s s"
| next_step: "reach s s' \<Longrightarrow> session_step s' ev a s'' \<Longrightarrow> reach s s''"

inductive_cases session_stepE: "session_step s ev a s'"

inductive_simps session_step_simps: "session_step s ev a s'"

section \<open>The state machine\<close>

text \<open>
  A transaction that is not idle has a handler, so no commit or rollback fails for want of one; and
  handlers stay connected.
\<close>

definition session_ok :: "session \<Rightarrow> bool" where
  "session_ok s \<longleftrightarrow> (isActive s \<longrightarrow> s_handler s \<noteq> None)
     \<and> (\<forall>h. s_handler s = Some h \<longrightarrow> connected h)"

lemma session_ok_start: "session_ok DBSession"
  by (simp add: session_ok_def DBSession_def isActive_def)

lemma getTransactionHandler_simps:
  "fst (getTransactionHandler s) = (case s_handler s of None \<Rightarrow> my_TransactionHandler (s_autocommit s) | Some h \<Rightarrow> h)"
  "snd (getTransactionHandler s) = s\<lparr>s_handler := Some (fst (getTransactionHandler s))\<rparr>"
  by (simp_all add: getTransactionHandler_def createTransactionHandler_def Let_def split: option.splits)

lemma connected_new [simp]: "connected (my_TransactionHandler ac)"
  by (simp add: my_TransactionHandler_def)

lemma connected_event: "connected h \<Longrightarrow> connected (my_event ev h)"
  using event_agree by metis

lemmas connected_events =
  connected_event[of h "HExecute b" for h b, simplified]
  connected_event[of h "HReply i err" for h i err, simplified]

lemmas session_defs = tx_begin_def tx_commit_def tx_rollback_def setRollbackOnly_def submit_def
  reply_def idle_begin_def idle_commit_def idle_rollback_def active_begin_def active_commit_def
  active_rollback_def active_setRollbackOnly_def rollbackOnly_begin_def rollbackOnly_commit_def
  rollbackOnly_rollback_def illegal_def uc_commit_def uc_rollback_def db_begin_def
  db_commit_def isActive_def Let_def split_def getTransactionHandler_simps my_commit_def
  my_rollback_def

lemma session_ok_step: "session_ok s \<Longrightarrow> do_event ev s = (a, s') \<Longrightarrow> session_ok s'"
  by (cases ev; cases "tx s"; cases "s_handler s")
    (auto simp: session_ok_def session_defs connected_events
      split: option.splits query.splits if_splits prod.splits)

lemma reach_session_ok: "reach s s' \<Longrightarrow> session_ok s \<Longrightarrow> session_ok s'"
  by (induction rule: reach.induct) (auto simp: session_step_simps session_ok_step)

text \<open>The wire changes only by what an event sends, so the state changes as the events say.\<close>

lemma tx_step:
  assumes "do_event ev s = (a, s')" "session_ok s"
  shows "tx s' = tx s
    \<or> tx s = Idle \<and> tx s' = Active \<and> (\<exists>arg. ev = EvBegin arg) \<and> (\<exists>c. a = Answer None c)
    \<or> tx s = Active \<and> tx s' = RollbackOnly \<and> ev = EvSetRollbackOnly
    \<or> tx s \<noteq> Idle \<and> tx s' = Idle \<and> (\<exists>i err h q. ev = EvReply i err \<and> s_handler s = Some h
         \<and> js_get (wire h) i = Some q \<and> (\<exists>cb. q = QCommit cb \<or> q = QRollback cb))"
  using assms
  by (cases ev; cases "tx s"; cases "s_handler s")
    (auto simp: session_ok_def session_defs callbackErrOrThrow_def
      split: option.splits query.splits if_splits prod.splits)

section \<open>What a handler sends\<close>

text \<open>
  Executing batches and replies appends to the trace, and never a commit or a rollback; once
  \<open>firstTime\<close> is false it stays false, and no begin is sent any more.
\<close>

definition quiet :: "handler \<Rightarrow> handler \<Rightarrow> bool" where
  "quiet h h' \<longleftrightarrow> (\<exists>evs. trace h' = trace h @ evs
     \<and> (\<forall>cb. Sent (QCommit cb) \<notin> set evs \<and> Sent (QRollback cb) \<notin> set evs)
     \<and> (\<not> firstTime h \<longrightarrow> \<not> firstTime h' \<and> Sent QBegin \<notin> set evs))"

lemma quietI:
  assumes "trace h' = trace h @ evs" "\<forall>cb. Sent (QCommit cb) \<notin> set evs \<and> Sent (QRollback cb) \<notin> set evs"
    "\<not> firstTime h \<Longrightarrow> \<not> firstTime h' \<and> Sent QBegin \<notin> set evs"
  shows "quiet h h'"
  using assms unfolding quiet_def by blast

lemma quiet_refl: "trace h' = trace h \<Longrightarrow> firstTime h' = firstTime h \<Longrightarrow> quiet h h'"
  by (rule quietI[where evs = "[]"]) auto

lemma quiet_trans:
  assumes "quiet h h'" "quiet h' h''" shows "quiet h h''"
proof -
  from assms obtain xs ys where "trace h' = trace h @ xs" "trace h'' = trace h' @ ys"
    "\<forall>cb. Sent (QCommit cb) \<notin> set xs \<and> Sent (QRollback cb) \<notin> set xs"
    "\<forall>cb. Sent (QCommit cb) \<notin> set ys \<and> Sent (QRollback cb) \<notin> set ys"
    "\<not> firstTime h \<longrightarrow> \<not> firstTime h' \<and> Sent QBegin \<notin> set xs"
    "\<not> firstTime h' \<longrightarrow> \<not> firstTime h'' \<and> Sent QBegin \<notin> set ys"
    unfolding quiet_def by blast
  then show ?thesis by (intro quietI[where evs = "xs @ ys"]) auto
qed

lemma quiet_andthen:
  "quiet h (snd r) \<Longrightarrow> (\<And>h'. quiet h' (snd (f h'))) \<Longrightarrow> quiet h (snd (andthen r f))"
  by (cases r; cases "fst r") (auto simp: andthen_def intro: quiet_trans)

lemma quiet_upd:
  assumes "quiet h' h''" "trace h' = trace h" "firstTime h' \<longrightarrow> firstTime h"
  shows "quiet h h''"
  by (rule quiet_trans[OF _ assms(1)], rule quietI[where evs = "[]"]) (use assms in auto)

lemma quiet_tell: "(\<forall>q. ev \<noteq> Sent q) \<Longrightarrow> quiet h (tell ev h)"
  by (rule quietI[where evs = "[ev]"]) (auto simp: tell_def)

lemma quiet_start: "quiet h (snd (start_operation i h))"
  by (cases "js_get (operationsList h) i")
    (auto simp: start_operation_def send_def tell_def intro: quietI quiet_refl)

lemma quiet_executeOperations: "quiet h (snd (executeOperations h))"
  unfolding executeOperations_def by (rule quiet_upd[OF quiet_start]) simp_all

lemma quiet_executeOperations_upd:
  "trace h' = trace h \<Longrightarrow> (firstTime h' \<longrightarrow> firstTime h) \<Longrightarrow> quiet h (snd (executeOperations h'))"
  by (rule quiet_upd[OF quiet_executeOperations])

lemma quiet_execute: "quiet h (snd (execute_batch b h))"
proof -
  let ?h = "tell (Submitted (callback_ids (batch_callback b))) h"
  have "quiet ?h (snd (execute_batch b h))"
    unfolding execute_batch_def Let_def
    by (auto simp: send_def tell_def intro: quiet_executeOperations_upd quiet_refl quietI)
  then show ?thesis by (rule quiet_trans[OF quiet_tell, rotated]) simp
qed

lemma quiet_execute_all: "quiet h (snd (execute_all execute_batch bs h))"
  by (induction bs arbitrary: h) (auto intro: quiet_andthen quiet_execute quiet_refl)

lemma quiet_call:
  assumes "\<forall>i q. g i \<noteq> Sent q"
  shows "quiet h (snd (case c of NoCallback \<Rightarrow> (None, h)
    | Callback i f \<Rightarrow> execute_all execute_batch (f e) (tell (g i) h)))"
  using assms
  by (cases c) (auto intro: quiet_refl quiet_trans[OF quiet_tell quiet_execute_all])

lemma quiet_next: "quiet h (snd (next_batch h))"
  by (auto simp: next_batch_def intro: quiet_refl quiet_executeOperations_upd split: list.splits)

lemma quiet_batchComplete: "quiet h (snd (batchComplete h))"
  unfolding batchComplete_def
  by (intro quiet_andthen quiet_call quiet_upd[OF quiet_next]) simp_all

lemma quiet_abort: "quiet h (snd (abort_operation e op h))"
  unfolding abort_operation_def
  by (intro quiet_andthen quiet_call) (simp_all add: quiet_refl)

lemma quiet_abort_loop: "quiet h (snd (abort_loop e h))"
proof (induction e h rule: abort_loop.induct)
  case (1 e h)
  have "quiet h' (snd (abort_loop e (h'\<lparr>currentOperation := Suc (currentOperation h')\<rparr>)))"
    if "currentOperation h < numberOfOperations h" "js_get (operationsList h) (currentOperation h) = Some op"
      "abort_operation e op h = (None, h')" for op h'
    by (rule quiet_upd[OF 1[OF that(1,2)]]) (use that in auto)
  then show ?case
    using quiet_abort[of h e] by (subst abort_loop.simps)
      (auto intro: quiet_refl quiet_trans split: option.splits prod.splits, (metis quiet_trans snd_conv)+)
qed

lemma quiet_complete: "quiet h (snd (operationCompleteCallback op err h))"
  unfolding operationCompleteCallback_def Let_def
  by (auto intro!: quiet_upd[OF quiet_batchComplete] quiet_upd[OF quiet_start]
      quiet_andthen quiet_batchComplete quiet_upd[OF quiet_abort_loop] split: option.splits)

lemma quiet_executeOnBegin: "quiet h (snd (executeOnBegin err h))"
proof -
  have "quiet h (snd (case err of None \<Rightarrow> (None, h)
    | Some e \<Rightarrow> (case transactionExecuteCallback h of NoCallback \<Rightarrow> (Some TypeError, h)
         | Callback c f \<Rightarrow> execute_all execute_batch (f err) (tell (BatchDone c err) h))))"
    using quiet_call[where g = "\<lambda>i. BatchDone i err" and h = h and c = "transactionExecuteCallback h" and e = err]
    by (auto intro: quiet_refl split: option.splits callback.splits)
  then show ?thesis
    unfolding executeOnBegin_def by (rule quiet_andthen) (simp add: quiet_executeOperations_upd)
qed

lemma quiet_reply: "quiet h (snd (sql_reply i err h))"
  by (auto simp: sql_reply_def Let_def intro: quiet_refl quiet_upd[OF quiet_executeOnBegin]
      quiet_upd[OF quiet_complete] split: option.splits query.splits)

lemma quiet_settle: "quiet h (snd r) \<Longrightarrow> quiet h (settle r)"
  by (auto simp: settle_def intro: quiet_trans[OF _ quiet_tell] split: prod.splits option.splits)

lemma quiet_my:
  "connected h \<Longrightarrow> quiet h (settle (my_execute b h))"
  "connected h \<Longrightarrow> quiet h (settle (my_reply i err h))"
  using agree_reply[of h i err] quiet_settle[OF quiet_execute] quiet_settle[OF quiet_reply]
  by (simp_all add: my_execute_eq agree_def)

section \<open>Properties of sessions\<close>

fun is_commit :: "trace_event \<Rightarrow> bool" where
  "is_commit (Sent (QCommit cb)) = True"
| "is_commit _ = False"

fun is_begin :: "trace_event \<Rightarrow> bool" where
  "is_begin (Sent QBegin) = True"
| "is_begin _ = False"

definition how_many :: "(trace_event \<Rightarrow> bool) \<Rightarrow> session \<Rightarrow> nat" where
  "how_many p s = (case s_handler s of None \<Rightarrow> 0 | Some h \<Rightarrow> length (filter p (trace h)))"

lemma is_commit_iff: "is_commit e \<longleftrightarrow> (\<exists>cb. e = Sent (QCommit cb))"
  by (cases e rule: is_commit.cases) auto

lemma is_begin_iff: "is_begin e \<longleftrightarrow> e = Sent QBegin"
  by (cases e rule: is_begin.cases) auto

lemma quiet_counts:
  assumes "quiet h h'"
  shows "length (filter is_commit (trace h')) = length (filter is_commit (trace h))
    \<and> (\<not> firstTime h \<longrightarrow> \<not> firstTime h' \<and> length (filter is_begin (trace h')) = length (filter is_begin (trace h)))"
  using assms unfolding quiet_def
  by (auto simp: filter_empty_conv is_commit_iff is_begin_iff)

lemma new_counts [simp]: "trace (my_TransactionHandler ac) = []"
  by (simp add: my_TransactionHandler_def)

lemma commit_step:
  assumes "do_event ev s = (a, s')" "session_ok s"
  shows "how_many is_commit s' = how_many is_commit s \<or>
    tx s = Active \<and> (\<exists>arg. ev = EvCommit arg) \<and> a = Waiting \<and> how_many is_commit s' = Suc (how_many is_commit s)"
proof (cases ev)
  case (EvSubmit b)
  with assms show ?thesis
    using quiet_counts[OF quiet_my(1)[of "fst (getTransactionHandler s)" b]]
    by (cases "s_handler s") (auto simp: session_ok_def submit_def how_many_def Let_def split_def getTransactionHandler_simps)
next
  case (EvReply i err)
  with assms show ?thesis
    using quiet_counts[OF quiet_my(2)[of _ i err]]
    by (cases "s_handler s") (auto simp: session_ok_def reply_def how_many_def Let_def
        split: option.splits query.splits)
qed (use assms in \<open>cases "tx s"; cases "s_handler s";
      auto simp: session_ok_def session_defs how_many_def send_def tell_def
      split: option.splits if_splits\<close>)+

lemma begin_step:
  assumes "do_event ev s = (a, s')" "session_ok s" "s_handler s = Some h" "\<not> firstTime h"
  shows "\<exists>h'. s_handler s' = Some h' \<and> \<not> firstTime h' \<and> how_many is_begin s' = how_many is_begin s"
proof (cases ev)
  case (EvSubmit b)
  with assms show ?thesis
    using quiet_counts[OF quiet_my(1)[of h b]]
    by (auto simp: session_ok_def submit_def how_many_def Let_def split_def getTransactionHandler_simps)
next
  case (EvReply i err)
  with assms show ?thesis
    using quiet_counts[OF quiet_my(2)[of h i err]]
    by (auto simp: session_ok_def reply_def how_many_def Let_def split: option.splits query.splits)
qed (use assms in \<open>cases "tx s";
      auto simp: session_ok_def session_defs how_many_def send_def tell_def
      split: option.splits if_splits\<close>)+

text \<open>
  C17: In every reachable state of a session, a transaction that is active or rollback-only has a
  handler, and an event can change the state only along the transitions of the state machine:
  from idle to active by \<open>begin\<close>, which then answers without an error, from active to
  rollback-only by \<open>setRollbackOnly\<close>, and back to idle only when the reply to a commit or a
  rollback arrives. A commit is sent only by \<open>commit\<close> in the active state, one at a time, never from
  rollback-only.
\<close>

theorem transaction_machine:
  assumes "reach DBSession s" "do_event ev s = (a, s')"
  shows "(isActive s \<longrightarrow> s_handler s \<noteq> None) \<and>
   (tx s' = tx s
    \<or> tx s = Idle \<and> tx s' = Active \<and> (\<exists>arg. ev = EvBegin arg) \<and> (\<exists>c. a = Answer None c)
    \<or> tx s = Active \<and> tx s' = RollbackOnly \<and> ev = EvSetRollbackOnly
    \<or> tx s \<noteq> Idle \<and> tx s' = Idle \<and> (\<exists>i err h q. ev = EvReply i err \<and> s_handler s = Some h
         \<and> js_get (wire h) i = Some q \<and> (\<exists>cb. q = QCommit cb \<or> q = QRollback cb))) \<and>
   (how_many is_commit s' = how_many is_commit s \<or>
    tx s = Active \<and> (\<exists>arg. ev = EvCommit arg) \<and> a = Waiting
      \<and> how_many is_commit s' = Suc (how_many is_commit s))"
proof -
  have ok: "session_ok s" using reach_session_ok[OF assms(1) session_ok_start] .
  show ?thesis
    using tx_step[OF assms(2) ok] commit_step[OF assms(2) ok] ok by (simp add: session_ok_def)
qed

text \<open>A session for the witnesses: one operation committed without a transaction, then a transaction.\<close>

definition demo_op :: "nat \<Rightarrow> oper" where
  "demo_op i = Oper i (Callback i (\<lambda>_. []))"

definition demo_batch :: "nat list \<Rightarrow> nat \<Rightarrow> batch" where
  "demo_batch ops c = Batch (map demo_op ops) (Callback c (\<lambda>_. []))"

definition run_session :: "session_event list \<Rightarrow> session" where
  "run_session evs = fold (\<lambda>ev s. snd (do_event ev s)) evs DBSession"

lemma reach_run: "reach s0 s \<Longrightarrow> reach s0 (fold (\<lambda>ev s. snd (do_event ev s)) evs s)"
proof (induction evs arbitrary: s)
  case (Cons ev evs)
  then show ?case
    using reach.next_step[OF Cons.prems, of ev "fst (do_event ev s)" "snd (do_event ev s)"]
    by (simp add: session_step_simps)
qed simp

lemma reach_run_session: "reach DBSession (run_session evs)"
  by (simp add: run_session_def reach_run start)

theorem transaction_machine_witness:
  "(let s = run_session [EvBegin JUndef, EvSubmit (demo_batch [1] 2), EvReply 0 None];
        s' = snd (do_event (EvCommit JUndef) s)
    in tx s = Active \<and> how_many is_commit s' = 1 \<and> how_many is_commit s = 0) \<and>
   s_handler (run_session [EvBegin JUndef]) \<noteq> None"
proof (rule conjI)
  have "isActive (run_session [EvBegin JUndef])" by code_simp
  then show "s_handler (run_session [EvBegin JUndef]) \<noteq> None"
    using transaction_machine[OF reach_run_session prod.collapse[symmetric]] by blast
qed code_simp

text \<open>
  A MySQL session never starts a second transaction on the server. As soon as the handler of
  the session has run its first batch, in or outside a transaction, no later event ever sends
  \<open>begin\<close> again, although \<open>begin\<close> of the user still answers without an error: the handler is
  kept for the life of the session and \<open>firstTime\<close> is set by its constructor only.
\<close>

theorem begin_never_sent_again:
  assumes "reach DBSession s" "s_handler s = Some h" "\<not> firstTime h" "reach s s'"
  shows "\<exists>h'. s_handler s' = Some h' \<and> \<not> firstTime h' \<and> how_many is_begin s' = how_many is_begin s"
  using assms(4,1-3)
proof (induction rule: reach.induct)
  case (next_step s s' ev a s'')
  then obtain h' where h': "s_handler s' = Some h'" "\<not> firstTime h'" "how_many is_begin s' = how_many is_begin s"
    by blast
  have "session_ok s'"
    using next_step reach_session_ok session_ok_start by blast
  from begin_step[OF _ this h'(1,2)] next_step(2) h'(3) show ?case
    by (auto simp: session_step_simps)
qed blast

theorem begin_never_sent_again_witness:
  "(let s = run_session [EvSubmit (demo_batch [1] 2), EvReply 0 None];
        s' = fold (\<lambda>ev s. snd (do_event ev s)) [EvBegin JUndef, EvSubmit (demo_batch [3] 4), EvReply 0 None] s
    in s_handler s \<noteq> None \<and> \<not> firstTime (the (s_handler s)) \<and> tx s' = Active \<and> how_many is_begin s' = how_many is_begin s)"
proof -
  define s where "s = run_session [EvSubmit (demo_batch [1] 2), EvReply 0 None]"
  define s' where "s' = fold (\<lambda>ev s. snd (do_event ev s)) [EvBegin JUndef, EvSubmit (demo_batch [3] 4), EvReply 0 None] s"
  have s: "s_handler s \<noteq> None" "\<not> firstTime (the (s_handler s))" "tx s' = Active"
    unfolding s_def s'_def by code_simp+
  have r: "reach s s'"
    unfolding s'_def by (rule reach_run[OF start])
  have s0: "reach DBSession s" unfolding s_def by (rule reach_run_session)
  from s obtain h where h: "s_handler s = Some h" "\<not> firstTime h" by auto
  from begin_never_sent_again[OF s0 h r] have "how_many is_begin s' = how_many is_begin s" by blast
  then show ?thesis
    unfolding Let_def s_def[symmetric] s'_def[symmetric] using s by blast
qed

section \<open>Handlers in order\<close>

text \<open>
  A batch is good when neither it nor any batch that its callbacks submit is empty: an empty list
  of operations makes \<open>executeOperations\<close> throw.
\<close>

fun submits :: "callback \<Rightarrow> failure option \<Rightarrow> batch list" where
  "submits NoCallback e = []"
| "submits (Callback c f) e = f e"

inductive good_batch :: "batch \<Rightarrow> bool" where
  "ops \<noteq> [] \<Longrightarrow> (\<And>e b. b \<in> set (submits c e) \<Longrightarrow> good_batch b) \<Longrightarrow>
   (\<And>op e b. op \<in> set ops \<Longrightarrow> b \<in> set (submits (op_callback op) e) \<Longrightarrow> good_batch b) \<Longrightarrow>
   good_batch (Batch ops c)"

inductive_simps good_batch_simps: "good_batch (Batch ops c)"

lemma good_batch_ne: "good_batch b \<Longrightarrow> batch_list b \<noteq> []"
  by (cases b) (simp add: good_batch_simps)

fun is_op :: "query \<Rightarrow> bool" where
  "is_op (QOp op) = True"
| "is_op _ = False"

fun submitted_ids :: "trace_event list \<Rightarrow> nat list" where
  "submitted_ids [] = []"
| "submitted_ids (Submitted ids # evs) = ids @ submitted_ids evs"
| "submitted_ids (ev # evs) = submitted_ids evs"

fun done_ids :: "trace_event list \<Rightarrow> nat list" where
  "done_ids [] = []"
| "done_ids (BatchDone c e # evs) = c # done_ids evs"
| "done_ids (ev # evs) = done_ids evs"

lemma submitted_ids_append [simp]: "submitted_ids (xs @ ys) = submitted_ids xs @ submitted_ids ys"
  by (induction xs rule: submitted_ids.induct) auto

lemma done_ids_append [simp]: "done_ids (xs @ ys) = done_ids xs @ done_ids ys"
  by (induction xs rule: done_ids.induct) auto

abbreviation batch_ids :: "batch \<Rightarrow> nat list" where
  "batch_ids b \<equiv> callback_ids (batch_callback b)"

abbreviation ops_out :: "handler \<Rightarrow> query list" where
  "ops_out h \<equiv> filter is_op (wire h)"

abbreviation busy :: "handler \<Rightarrow> bool" where
  "busy h \<equiv> numberOfOperations h > 0"

definition running_ok :: "handler \<Rightarrow> bool" where
  "running_ok h \<longleftrightarrow> \<not> firstTime h \<and> (\<forall>b \<in> set (pendingBatches h). good_batch b)
     \<and> QBegin \<notin> set (wire h)
     \<and> (\<not> busy h \<longrightarrow> ops_out h = [] \<and> pendingBatches h = [] \<and> executedOperations h = [])
     \<and> (busy h \<longrightarrow> numberOfOperations h = length (operationsList h)
          \<and> currentOperation h < length (operationsList h)
          \<and> length (executedOperations h) = currentOperation h
          \<and> ops_out h = [QOp (operationsList h ! currentOperation h)]
          \<and> good_batch (Batch (operationsList h) (transactionExecuteCallback h)))
     \<and> submitted_ids (trace h) = done_ids (trace h)
          @ (if busy h then callback_ids (transactionExecuteCallback h) else [])
          @ concat (map batch_ids (pendingBatches h))
     \<and> (\<forall>t. Threw t \<notin> set (trace h))"

lemma running_okD:
  assumes "running_ok h"
  shows "\<not> firstTime h" "\<And>b. b \<in> set (pendingBatches h) \<Longrightarrow> good_batch b" "QBegin \<notin> set (wire h)"
    "\<not> busy h \<Longrightarrow> ops_out h = [] \<and> pendingBatches h = [] \<and> executedOperations h = []"
    "busy h \<Longrightarrow> numberOfOperations h = length (operationsList h)
       \<and> currentOperation h < length (operationsList h)
       \<and> length (executedOperations h) = currentOperation h
       \<and> ops_out h = [QOp (operationsList h ! currentOperation h)]
       \<and> good_batch (Batch (operationsList h) (transactionExecuteCallback h))"
    "submitted_ids (trace h) = done_ids (trace h)
          @ (if busy h then callback_ids (transactionExecuteCallback h) else [])
          @ concat (map batch_ids (pendingBatches h))"
    "Threw t \<notin> set (trace h)"
  using assms unfolding running_ok_def by blast+

text \<open>In a started handler with a batch under way, callbacks only add to the pending batches.\<close>

abbreviation submissions :: "batch list \<Rightarrow> trace_event list" where
  "submissions \<equiv> map (\<lambda>b. Submitted (batch_ids b))"

definition call_trace :: "(nat \<Rightarrow> trace_event) \<Rightarrow> callback \<Rightarrow> failure option \<Rightarrow> trace_event list" where
  "call_trace g c e = map g (callback_ids c) @ submissions (submits c e)"

lemma execute_all_busy:
  "busy h \<Longrightarrow> \<not> firstTime h \<Longrightarrow> execute_all execute_batch bs h =
     (None, h\<lparr>pendingBatches := pendingBatches h @ bs, trace := trace h @ submissions bs\<rparr>)"
  by (induction bs arbitrary: h) (auto simp: execute_batch_def tell_def Let_def)

lemma call_busy:
  assumes "busy h" "\<not> firstTime h"
  shows "(case c of NoCallback \<Rightarrow> (None, h) | Callback i f \<Rightarrow> execute_all execute_batch (f e) (tell (g i) h))
    = (None, h\<lparr>pendingBatches := pendingBatches h @ submits c e, trace := trace h @ call_trace g c e\<rparr>)"
  using assms execute_all_busy[of "tell (g i) h" for i]
  by (cases c) (auto simp: call_trace_def tell_def)

lemma abort_operation_busy:
  assumes "busy h" "\<not> firstTime h"
  shows "abort_operation e op h = (None, h\<lparr>
    executedOperations := executedOperations h @ [(op_id op, Some e)],
    pendingBatches := pendingBatches h @ submits (op_callback op) (Some e),
    trace := trace h @ call_trace (\<lambda>i. Aborted (op_id op) e) (op_callback op) (Some e)\<rparr>)"
  unfolding abort_operation_def call_busy[OF assms, where g = "\<lambda>_. Aborted (op_id op) e"] by simp

abbreviation abort_subs :: "failure \<Rightarrow> oper list \<Rightarrow> batch list" where
  "abort_subs e ops \<equiv> concat (map (\<lambda>op. submits (op_callback op) (Some e)) ops)"

abbreviation abort_trace :: "failure \<Rightarrow> oper list \<Rightarrow> trace_event list" where
  "abort_trace e ops \<equiv>
     concat (map (\<lambda>op. call_trace (\<lambda>i. Aborted (op_id op) e) (op_callback op) (Some e)) ops)"

lemma abort_loop_busy:
  assumes "busy h" "\<not> firstTime h" "numberOfOperations h = length (operationsList h)"
    "drop (currentOperation h) (operationsList h) = rest" "currentOperation h \<le> numberOfOperations h"
  shows "abort_loop e h = (None, h\<lparr>currentOperation := numberOfOperations h,
     executedOperations := executedOperations h @ map (\<lambda>op. (op_id op, Some e)) rest,
     pendingBatches := pendingBatches h @ abort_subs e rest,
     trace := trace h @ abort_trace e rest\<rparr>)"
  using assms
proof (induction rest arbitrary: h)
  case Nil
  then show ?case by (subst abort_loop.simps) simp
next
  case (Cons op rest)
  then have cur: "currentOperation h < length (operationsList h)" "operationsList h ! currentOperation h = op"
    by (metis drop_all linorder_not_less list.distinct(1))
      (metis Cons.prems(4) nth_via_drop)
  define h' where "h' = h\<lparr>
    executedOperations := executedOperations h @ [(op_id op, Some e)],
    pendingBatches := pendingBatches h @ submits (op_callback op) (Some e),
    trace := trace h @ call_trace (\<lambda>i. Aborted (op_id op) e) (op_callback op) (Some e),
    currentOperation := Suc (currentOperation h)\<rparr>"
  have "abort_loop e h = abort_loop e h'"
    using Cons.prems(1-3) cur
    by (subst abort_loop.simps) (simp add: js_get_def abort_operation_busy h'_def)
  moreover have "drop (Suc (currentOperation h)) (operationsList h) = rest"
    using Cons.prems(4) by (metis drop_Suc list.sel(3) tl_drop)
  ultimately show ?case
    using Cons.IH[of h'] Cons.prems(1-3) cur by (simp add: h'_def)
qed

lemma batchComplete_busy:
  assumes "busy h" "\<not> firstTime h"
  shows "batchComplete h = next_batch (h\<lparr>
    pendingBatches := pendingBatches h @ submits (transactionExecuteCallback h) (th_error h),
    trace := trace h @ call_trace (\<lambda>c. BatchDone c (th_error h)) (transactionExecuteCallback h) (th_error h),
    executedOperations := [], numberOfOperations := 0\<rparr>)"
  unfolding batchComplete_def call_busy[OF assms, where g = "\<lambda>c. BatchDone c (th_error h)"] by simp

text \<open>
  The completion of the running operation: the next operation of the batch starts, or the batch
  ends, after the rest of it has been aborted when there is an error.
\<close>

definition batch_error :: "failure option \<Rightarrow> handler \<Rightarrow> failure option" where
  "batch_error err h = (case err of None \<Rightarrow> th_error h | Some e \<Rightarrow> Some (TransactionRolledBackError e))"

abbreviation rest_ops :: "handler \<Rightarrow> oper list" where
  "rest_ops h \<equiv> drop (Suc (currentOperation h)) (operationsList h)"

definition end_subs :: "failure option \<Rightarrow> handler \<Rightarrow> batch list" where
  "end_subs e h = abort_subs (the e) (rest_ops h) @ submits (transactionExecuteCallback h) e"

definition end_trace :: "failure option \<Rightarrow> handler \<Rightarrow> trace_event list" where
  "end_trace e h = abort_trace (the e) (rest_ops h)
     @ call_trace (\<lambda>c. BatchDone c e) (transactionExecuteCallback h) e"

definition ended :: "failure option \<Rightarrow> nat \<Rightarrow> handler \<Rightarrow> handler" where
  "ended e k h = h\<lparr>currentOperation := k, th_error := e, executedOperations := [],
     numberOfOperations := 0, pendingBatches := pendingBatches h @ end_subs e h,
     trace := trace h @ end_trace e h\<rparr>"

definition advanced :: "failure option \<Rightarrow> handler \<Rightarrow> handler" where
  "advanced err h = send (QOp (operationsList h ! Suc (currentOperation h)))
     (h\<lparr>executedOperations := executedOperations h @ [(op_id (operationsList h ! currentOperation h), err)],
        currentOperation := Suc (currentOperation h)\<rparr>)"

lemma complete_busy:
  assumes ok: "\<not> firstTime h" "busy h" "numberOfOperations h = length (operationsList h)"
      "currentOperation h < length (operationsList h)" "length (executedOperations h) = currentOperation h"
    and e: "e = batch_error err h" and op: "op = operationsList h ! currentOperation h"
  shows "if e = None \<and> rest_ops h \<noteq> [] then operationCompleteCallback op err h = (None, advanced err h)
    else \<exists>k. operationCompleteCallback op err h = next_batch (ended e k h)"
proof -
  define h1 where "h1 = (case err of None \<Rightarrow> h
    | Some e \<Rightarrow> h\<lparr>th_error := Some (TransactionRolledBackError e)\<rparr>)"
  define h2 where "h2 = h1\<lparr>executedOperations := executedOperations h1 @ [(op_id op, err)]\<rparr>"
  have h2: "h2 = h\<lparr>th_error := e, executedOperations := executedOperations h @ [(op_id op, err)]\<rparr>"
    by (simp add: h2_def h1_def e batch_error_def split: option.splits)
  have unf: "operationCompleteCallback op err h =
    (if length (executedOperations h2) = numberOfOperations h2 then batchComplete h2
     else (case th_error h2 of
        Some e \<Rightarrow> andthen (abort_loop e (h2\<lparr>currentOperation := Suc (currentOperation h2)\<rparr>)) batchComplete
      | None \<Rightarrow> start_operation (Suc (currentOperation h2)) (h2\<lparr>currentOperation := Suc (currentOperation h2)\<rparr>)))"
    unfolding operationCompleteCallback_def Let_def h1_def[symmetric] h2_def[symmetric] by simp
  show ?thesis
  proof (cases "rest_ops h = []")
    case True
    with ok have last: "Suc (currentOperation h) = length (operationsList h)" by simp
    have "operationCompleteCallback op err h = next_batch (ended e (currentOperation h) h)"
      unfolding unf using ok last
      by (simp add: h2 batchComplete_busy, intro arg_cong[where f = next_batch])
        (simp add: ended_def end_subs_def end_trace_def)
    with True show ?thesis by auto
  next
    case False
    with ok have more: "Suc (currentOperation h) < length (operationsList h)" by simp
    show ?thesis
    proof (cases e)
      case None
      with ok more show ?thesis
        unfolding unf by (auto simp: h2 start_operation_def js_get_def advanced_def op)
          (auto simp: batch_error_def e intro!: arg_cong2[where f = send] handler.equality split: option.splits)
    next
      case (Some x)
      have "operationCompleteCallback op err h = next_batch (ended e (numberOfOperations h) h)"
        unfolding unf using ok more Some
        by (simp add: h2 abort_loop_busy[where rest = "rest_ops h"] batchComplete_busy,
            intro arg_cong[where f = next_batch])
          (simp add: ended_def end_subs_def end_trace_def)
      with Some show ?thesis by auto
    qed
  qed
qed

lemma next_batch_cases:
  assumes "\<not> busy h" "\<And>b. b \<in> set (pendingBatches h) \<Longrightarrow> good_batch b"
  shows "next_batch h = (case pendingBatches h of [] \<Rightarrow> (None, h)
    | b # bs \<Rightarrow> (None, send (QOp (hd (batch_list b))) (h\<lparr>pendingBatches := bs, operationsList := batch_list b,
        transactionExecuteCallback := batch_callback b, th_error := None, isCommitting := False,
        numberOfOperations := length (batch_list b), currentOperation := 0\<rparr>)))"
proof (cases "pendingBatches h")
  case (Cons b bs)
  with assms good_batch_ne have "batch_list b \<noteq> []" by auto
  then show ?thesis
    using Cons by (simp add: next_batch_def executeOperations_def start_operation_def js_get_def hd_conv_nth)
qed (simp add: next_batch_def)

lemma good_subs:
  assumes "good_batch (Batch (operationsList h) (transactionExecuteCallback h))" "b \<in> set (end_subs e h)"
  shows "good_batch b"
  using assms by (auto simp: good_batch_simps end_subs_def dest: in_set_dropD)

lemma submissions_ids [simp]:
  "submitted_ids (submissions bs) = concat (map batch_ids bs)" "done_ids (submissions bs) = []"
  by (induction bs) auto

lemma call_trace_aborted:
  "submitted_ids (call_trace (\<lambda>i. Aborted j x) c e) = concat (map batch_ids (submits c e))"
  "done_ids (call_trace (\<lambda>i. Aborted j x) c e) = []"
  by (cases c; simp add: call_trace_def)+

lemma call_trace_done:
  "submitted_ids (call_trace (\<lambda>c. BatchDone c x) c e) = concat (map batch_ids (submits c e))"
  "done_ids (call_trace (\<lambda>c. BatchDone c x) c e) = callback_ids c"
  by (cases c; simp add: call_trace_def)+

lemma abort_trace_ids:
  "submitted_ids (abort_trace e ops) = concat (map batch_ids (abort_subs e ops))"
  "done_ids (abort_trace e ops) = []"
  by (induction ops) (simp_all add: call_trace_aborted)

lemma end_trace_ids:
  "submitted_ids (end_trace e h) = concat (map batch_ids (end_subs e h))"
  "done_ids (end_trace e h) = callback_ids (transactionExecuteCallback h)"
  by (simp_all add: end_trace_def end_subs_def abort_trace_ids call_trace_done)

lemma call_trace_quiet: "(\<forall>i. g i \<noteq> Threw t) \<Longrightarrow> Threw t \<notin> set (call_trace g c e)"
  by (cases c) (auto simp: call_trace_def)

lemma end_trace_quiet: "Threw t \<notin> set (end_trace e h)"
  by (auto simp: end_trace_def dest: call_trace_quiet[THEN notE, rotated])

lemma filter_remove_nth:
  assumes "i < length xs"
  shows "filter P xs = filter P (take i xs) @ (if P (xs ! i) then [xs ! i] else []) @ filter P (drop (Suc i) xs)"
  by (subst id_take_nth_drop[OF assms]) simp

lemma wire_reply_op:
  assumes "js_get w i = Some (QOp op)" "filter is_op w = [q]"
  shows "q = QOp op" "filter is_op (remove_nth i w) = []"
  using assms filter_remove_nth[of i w is_op]
  by (auto simp: js_get_Some_iff remove_nth_def append_eq_Cons_conv)

lemma wire_reply_other:
  assumes "js_get w i = Some q" "\<not> is_op q"
  shows "filter is_op (remove_nth i w) = filter is_op w"
  using assms filter_remove_nth[of i w is_op] by (simp add: js_get_Some_iff remove_nth_def)

lemma set_remove_nth: "set (remove_nth i w) \<subseteq> set w"
  by (auto simp: remove_nth_def dest: in_set_takeD in_set_dropD)

lemma running_ok_next:
  assumes "\<not> firstTime h" "\<not> busy h" "ops_out h = []" "executedOperations h = []" "QBegin \<notin> set (wire h)"
    "\<And>b. b \<in> set (pendingBatches h) \<Longrightarrow> good_batch b"
    "submitted_ids (trace h) = done_ids (trace h) @ concat (map batch_ids (pendingBatches h))"
    "\<And>t. Threw t \<notin> set (trace h)"
  shows "\<exists>h'. next_batch h = (None, h') \<and> running_ok h'"
proof (cases "pendingBatches h")
  case Nil
  with assms show ?thesis by (auto simp: next_batch_def running_ok_def)
next
  case (Cons b bs)
  obtain ops c where b: "b = Batch ops c" by (cases b)
  with Cons assms(6) have "good_batch (Batch ops c)" "ops \<noteq> []" "\<And>b. b \<in> set bs \<Longrightarrow> good_batch b"
    using good_batch_ne by fastforce+
  moreover from next_batch_cases[OF assms(2,6)] Cons b
  have "next_batch h = (None, send (QOp (hd ops)) (h\<lparr>pendingBatches := bs, operationsList := ops,
        transactionExecuteCallback := c, th_error := None, isCommitting := False,
        numberOfOperations := length ops, currentOperation := 0\<rparr>))" by simp
  ultimately show ?thesis
    using Cons b assms by (simp add: running_ok_def send_def tell_def hd_conv_nth)
qed

lemma running_ok_complete:
  assumes ok: "running_ok h" and i: "js_get (wire h) i = Some (QOp op)"
  shows "\<exists>h'. operationCompleteCallback op err (h\<lparr>wire := remove_nth i (wire h)\<rparr>) = (None, h') \<and> running_ok h'"
proof -
  let ?h = "h\<lparr>wire := remove_nth i (wire h)\<rparr>"
  note D = running_okD[OF ok]
  have busy: "busy h" using D(4) i nth_mem[of i "wire h"] by (fastforce simp: js_get_Some_iff filter_empty_conv)
  note B = D(5)[OF this]
  have op: "op = operationsList h ! currentOperation h" "filter is_op (remove_nth i (wire h)) = []"
    using wire_reply_op[OF i] B by auto
  have qb: "QBegin \<notin> set (remove_nth i (wire h))" using D(3) set_remove_nth by fastforce
  define e where "e = batch_error err ?h"
  have "if e = None \<and> rest_ops ?h \<noteq> [] then operationCompleteCallback op err ?h = (None, advanced err ?h)
    else \<exists>k. operationCompleteCallback op err ?h = next_batch (ended e k ?h)"
    by (rule complete_busy) (use D B busy op e_def in auto)
  then consider
      "e = None" "rest_ops h \<noteq> []" "operationCompleteCallback op err ?h = (None, advanced err ?h)"
    | k where "operationCompleteCallback op err ?h = next_batch (ended e k ?h)"
    by (auto split: if_splits)
  then show ?thesis
  proof cases
    case 1
    with D B busy op qb show ?thesis
      by (simp add: running_ok_def advanced_def send_def tell_def)
  next
    case (2 k)
    have subs: "end_subs e ?h = end_subs e h" "end_trace e ?h = end_trace e h"
      by (simp_all add: end_subs_def end_trace_def)
    have "\<exists>h'. next_batch (ended e k ?h) = (None, h') \<and> running_ok h'"
    proof (rule running_ok_next)
      show "good_batch b" if "b \<in> set (pendingBatches (ended e k ?h))" for b
        using that D(2) good_subs[of h b e] B by (auto simp: ended_def subs)
      show "submitted_ids (trace (ended e k ?h)) = done_ids (trace (ended e k ?h))
          @ concat (map batch_ids (pendingBatches (ended e k ?h)))"
        using D(6) busy by (simp add: ended_def subs end_trace_ids)
      show "Threw t \<notin> set (trace (ended e k ?h))" for t
        using D(7) by (simp add: ended_def subs end_trace_quiet)
    qed (use D B op qb in \<open>auto simp: ended_def\<close>)
    with 2 show ?thesis by simp
  qed
qed

lemma running_ok_reply: "running_ok h \<Longrightarrow> \<exists>h'. sql_reply i err h = (None, h') \<and> running_ok h'"
proof (cases "js_get (wire h) i")
  case (Some q)
  assume ok: "running_ok h"
  note D = running_okD[OF ok]
  have "q \<noteq> QBegin" using D(3) Some by (auto dest: js_get_mem)
  moreover have "running_ok (h\<lparr>wire := remove_nth i (wire h)\<rparr>)" if "\<not> is_op q"
    using ok wire_reply_other[OF Some that] set_remove_nth[of i "wire h"]
    unfolding running_ok_def by auto
  ultimately show ?thesis
    using running_ok_complete[OF ok] Some by (cases q) (auto simp: sql_reply_def)
qed (auto simp: sql_reply_def)

lemma running_ok_execute:
  assumes ok: "running_ok h" and b: "good_batch b"
  shows "\<exists>h'. execute_batch b h = (None, h') \<and> running_ok h'"
proof -
  obtain ops c where bb: "b = Batch ops c" by (cases b)
  have ne: "ops \<noteq> []" using good_batch_ne[OF b] bb by simp
  note D = running_okD[OF ok]
  show ?thesis
  proof (cases "busy h")
    case True
    with D(5)[OF True] D b ok show ?thesis
      by (auto simp: execute_batch_def tell_def Let_def running_ok_def)
  next
    case False
    with D(4)[OF False] D b bb ne show ?thesis
      by (simp add: execute_batch_def Let_def executeOperations_def start_operation_def js_get_def
          running_ok_def send_def tell_def)
  qed
qed

fun good_event :: "handler_event \<Rightarrow> bool" where
  "good_event (HExecute b) = good_batch b"
| "good_event ev = True"

lemma running_ok_event: "running_ok h \<Longrightarrow> good_event ev \<Longrightarrow> running_ok (sql_event ev h)"
proof (cases ev)
  case (HExecute b)
  then show "running_ok h \<Longrightarrow> good_event ev \<Longrightarrow> ?thesis"
    using running_ok_execute[of h b] by (auto simp: settle_def)
next
  case (HReply i err)
  then show "running_ok h \<Longrightarrow> ?thesis"
    using running_ok_reply[of h i err] by (auto simp: settle_def)
qed (auto simp: commit_def rollback_def send_def tell_def running_ok_def)

lemma running_ok_run:
  "running_ok h \<Longrightarrow> (\<And>ev. ev \<in> set evs \<Longrightarrow> good_event ev) \<Longrightarrow> running_ok (fold sql_event evs h)"
  by (induction evs arbitrary: h) (simp_all add: running_ok_event)

text \<open>
  A handler has started when it was made in autocommit mode, or when it has executed one batch and
  the server has answered its \<open>begin\<close>.
\<close>

definition started :: "handler \<Rightarrow> bool" where
  "started h \<longleftrightarrow> h = SQLTransactionHandler True \<or>
     (\<exists>b. good_batch b \<and> h = fold sql_event [HExecute b, HReply 0 None] (SQLTransactionHandler False))"

lemma running_ok_started:
  assumes "started h" shows "running_ok h"
proof -
  have "running_ok (fold sql_event [HExecute b, HReply 0 None] (SQLTransactionHandler False))"
    if b: "good_batch b" for b
  proof -
    obtain ops c where bb: "b = Batch ops c" by (cases b)
    with b show ?thesis
      using good_batch_ne[OF b]
      by (simp add: SQLTransactionHandler_def execute_batch_def Let_def send_def tell_def settle_def
          sql_reply_def js_get_def executeOnBegin_def executeOperations_def start_operation_def
          running_ok_def remove_nth_def)
  qed
  moreover have "running_ok (SQLTransactionHandler True)"
    by (simp add: SQLTransactionHandler_def running_ok_def)
  ultimately show ?thesis using assms unfolding started_def by blast
qed

section \<open>Properties of handlers\<close>

text \<open>
  C18: A started handler runs everything it is given, in order and one operation at a time. Whatever
  batches are submitted, by the user or inside callbacks, as long as none is empty, and whichever
  replies arrive with whichever errors: at most one operation is on the wire, the batches that are
  complete are a prefix of those submitted, in the order of submission, followed by the running
  batch and the pending ones; when no operation is on the wire every submitted batch is complete;
  and nothing is thrown.
\<close>

theorem handler_runs_in_order:
  assumes "started h0" "\<forall>ev \<in> set evs. good_event ev" "h = fold sql_event evs h0"
  shows "length (ops_out h) \<le> 1
    \<and> submitted_ids (trace h) = done_ids (trace h)
        @ (if busy h then callback_ids (transactionExecuteCallback h) else [])
        @ concat (map batch_ids (pendingBatches h))
    \<and> (ops_out h = [] \<longrightarrow> done_ids (trace h) = submitted_ids (trace h))
    \<and> (\<forall>t. Threw t \<notin> set (trace h))"
proof -
  have "running_ok h"
    using running_ok_run[OF running_ok_started[OF assms(1)]] assms(2,3) by blast
  from running_okD[OF this] show ?thesis
    by (cases "busy h") auto
qed

definition demo_events :: "handler_event list" where
  "demo_events = [HExecute (demo_batch [1, 2, 3] 10), HExecute (demo_batch [4] 11),
     HReply 0 None, HReply 0 (Some (DBError ''dup''))]"

lemma good_demo: "ops \<noteq> [] \<Longrightarrow> good_batch (demo_batch ops c)"
  by (auto simp: demo_batch_def good_batch_simps demo_op_def)

lemma good_demo_events: "\<forall>ev \<in> set demo_events. good_event ev"
  by (simp add: demo_events_def good_demo)

lemma demo_trace:
  "trace (fold sql_event demo_events (SQLTransactionHandler True)) =
     [Submitted [10], Sent (QOp (demo_op 1)), Submitted [11], Sent (QOp (demo_op 2)),
      Aborted 3 (TransactionRolledBackError (DBError ''dup'')),
      BatchDone 10 (Some (TransactionRolledBackError (DBError ''dup''))), Sent (QOp (demo_op 4))]"
  by (simp add: demo_events_def demo_batch_def demo_op_def SQLTransactionHandler_def execute_batch_def
      Let_def tell_def send_def executeOperations_def start_operation_def js_get_def settle_def
      sql_reply_def remove_nth_def operationCompleteCallback_def abort_loop.simps
      abort_operation_def batchComplete_def next_batch_def)

theorem handler_runs_in_order_witness:
  "submitted_ids (trace (fold sql_event demo_events (SQLTransactionHandler True))) = [10, 11]
   \<and> length (ops_out (fold sql_event demo_events (SQLTransactionHandler True))) \<le> 1"
  using handler_runs_in_order[OF _ good_demo_events refl, of "SQLTransactionHandler True"]
  by (simp add: started_def demo_trace)

text \<open>
  C20: What the completion of an operation does, in every started handler: the error of the batch is
  the new error wrapped, else the one it had. Without an error and with operations left, exactly
  the next operation is sent. Otherwise the rest of the batch is aborted: the callback of each
  remaining operation, in order, and then that of the batch, are called with the error of the
  batch, none of these operations is sent, and then the first operation of the next pending batch
  is, where the batches that the callbacks have just submitted come after those already pending.
\<close>

theorem completion_correct:
  assumes "running_ok h" "js_get (wire h) i = Some (QOp op)" "e = batch_error err h"
  shows "filter (\<lambda>ev. \<forall>ids. ev \<noteq> Submitted ids) (trace (sql_event (HReply i err) h)) =
    filter (\<lambda>ev. \<forall>ids. ev \<noteq> Submitted ids) (trace h) @
    (if e = None \<and> rest_ops h \<noteq> [] then [Sent (QOp (hd (rest_ops h)))]
     else concat (map (\<lambda>op. map (\<lambda>_. Aborted (op_id op) (the e)) (callback_ids (op_callback op))) (rest_ops h))
       @ map (\<lambda>c. BatchDone c e) (callback_ids (transactionExecuteCallback h))
       @ (case pendingBatches h @ end_subs e h of [] \<Rightarrow> []
          | b # _ \<Rightarrow> [Sent (QOp (hd (batch_list b)))]))"
proof -
  let ?h = "h\<lparr>wire := remove_nth i (wire h)\<rparr>"
  note D = running_okD[OF assms(1)]
  have busy: "busy h" using D(4) assms(2) nth_mem[of i "wire h"]
    by (fastforce simp: js_get_Some_iff filter_empty_conv)
  note B = D(5)[OF this]
  have op: "op = operationsList h ! currentOperation h"
    using wire_reply_op[OF assms(2)] B by auto
  have upd: "batch_error err ?h = e" "rest_ops ?h = rest_ops h" "end_subs e ?h = end_subs e h" "end_trace e ?h = end_trace e h"
    by (simp_all add: assms(3) batch_error_def end_subs_def end_trace_def split: option.split)
  have ev: "sql_event (HReply i err) h = settle (operationCompleteCallback op err ?h)"
    using assms(2) by (simp add: sql_reply_def)
  have ft: "filter (\<lambda>ev. \<forall>ids. ev \<noteq> Submitted ids) (call_trace g c x) = map g (callback_ids c)"
    if "\<forall>i ids. g i \<noteq> Submitted ids" for g c x
    using that by (cases c) (auto simp: call_trace_def filter_map o_def)
  have fa: "filter (\<lambda>ev. \<forall>ids. ev \<noteq> Submitted ids) (abort_trace x ops) =
    concat (map (\<lambda>op. map (\<lambda>_. Aborted (op_id op) x) (callback_ids (op_callback op))) ops)" for x ops
    by (induction ops) (simp_all add: ft)
  have "if e = None \<and> rest_ops ?h \<noteq> [] then operationCompleteCallback op err ?h = (None, advanced err ?h)
    else \<exists>k. operationCompleteCallback op err ?h = next_batch (ended e k ?h)"
    by (rule complete_busy) (use D B busy op upd in auto)
  then consider
      "e = None" "rest_ops h \<noteq> []" "operationCompleteCallback op err ?h = (None, advanced err ?h)"
    | k where "\<not> (e = None \<and> rest_ops h \<noteq> [])" "operationCompleteCallback op err ?h = next_batch (ended e k ?h)"
    by (auto split: if_splits)
  then show ?thesis
  proof cases
    case 1
    then show ?thesis unfolding ev
      by (simp add: settle_def advanced_def send_def tell_def hd_drop_conv_nth)
  next
    case (2 k)
    have "good_batch b" if "b \<in> set (pendingBatches (ended e k ?h))" for b
      using that D(2) good_subs[of h b e] B by (auto simp: ended_def upd)
    then have n: "next_batch (ended e k ?h) = (case pendingBatches (ended e k ?h) of [] \<Rightarrow> (None, ended e k ?h)
      | b # bs \<Rightarrow> (None, send (QOp (hd (batch_list b))) ((ended e k ?h)\<lparr>pendingBatches := bs, operationsList := batch_list b,
        transactionExecuteCallback := batch_callback b, th_error := None, isCommitting := False,
        numberOfOperations := length (batch_list b), currentOperation := 0\<rparr>)))"
      by (intro next_batch_cases) (simp_all add: ended_def)
    show ?thesis
      unfolding ev 2(2) n if_not_P[OF 2(1)]
      by (cases "pendingBatches h @ end_subs e h")
        (simp_all add: settle_def ended_def upd send_def tell_def end_trace_def ft fa)
  qed
qed

theorem completion_correct_witness:
  "let h = fold sql_event (take 3 demo_events) (SQLTransactionHandler True) in
   filter (\<lambda>ev. \<forall>ids. ev \<noteq> Submitted ids) (trace (sql_event (HReply 0 (Some (DBError ''dup''))) h)) =
   filter (\<lambda>ev. \<forall>ids. ev \<noteq> Submitted ids) (trace h) @
     [Aborted 3 (TransactionRolledBackError (DBError ''dup'')),
      BatchDone 10 (Some (TransactionRolledBackError (DBError ''dup''))), Sent (QOp (demo_op 4))]"
proof -
  define h where "h = fold sql_event (take 3 demo_events) (SQLTransactionHandler True)"
  have ok: "running_ok h"
    unfolding h_def using good_demo_events
    by (intro running_ok_run running_ok_started) (auto simp: started_def dest: in_set_takeD)
  have h: "wire h = [QOp (demo_op 2)]" "operationsList h = map demo_op [1, 2, 3]"
      "currentOperation h = 1" "transactionExecuteCallback h = Callback 10 (\<lambda>_. [])"
      "pendingBatches h = [demo_batch [4] 11]"
    by (simp_all add: h_def demo_events_def demo_batch_def demo_op_def SQLTransactionHandler_def
        execute_batch_def Let_def tell_def send_def executeOperations_def start_operation_def
        js_get_def settle_def sql_reply_def remove_nth_def operationCompleteCallback_def)
  have "js_get (wire h) 0 = Some (QOp (demo_op 2))" by (simp add: h js_get_def)
  from completion_correct[OF ok this refl, of "Some (DBError ''dup'')"] show ?thesis
    unfolding Let_def h_def[symmetric]
    by (simp add: h batch_error_def demo_op_def demo_batch_def del: sql_event.simps)
qed

text \<open>
  The first \<open>execute\<close> of a handler outside autocommit sends \<open>begin\<close> and keeps its batch in the
  handler; a second one before the reply overwrites it. Once both replies are in, the first
  operation of the second batch has been sent twice, and no trace of the first batch is left in the
  handler: none of its operations is ever executed and its callback is never called.
\<close>

theorem second_execute_overwrites_first:
  assumes "firstTime h" "batch_list b2 = op # ops"
  shows "fold sql_event [HExecute b1, HExecute b2, HReply (length (wire h)) None,
           HReply (length (wire h)) None] h =
    h\<lparr>firstTime := False, isCommitting := False, numberOfOperations := Suc (length ops),
      currentOperation := 0, operationsList := op # ops,
      transactionExecuteCallback := batch_callback b2,
      wire := wire h @ [QOp op, QOp op],
      trace := trace h @ [Submitted (batch_ids b1), Sent QBegin, Submitted (batch_ids b2), Sent QBegin,
                          Sent (QOp op), Sent (QOp op)]\<rparr>"
  using assms
  by (simp add: execute_batch_def Let_def tell_def send_def settle_def sql_reply_def js_get_def
      remove_nth_def executeOnBegin_def executeOperations_def start_operation_def)

theorem second_execute_overwrites_first_witness:
  "wire (fold sql_event [HExecute (demo_batch [1] 2), HExecute (demo_batch [3] 4), HReply 0 None, HReply 0 None]
     (SQLTransactionHandler False)) = [QOp (demo_op 3), QOp (demo_op 3)]"
  using second_execute_overwrites_first[of "SQLTransactionHandler False" "demo_batch [3] 4" "demo_op 3" "[]" "demo_batch [1] 2"]
  by (simp add: SQLTransactionHandler_def demo_batch_def)

section \<open>Every batch completes\<close>

text \<open>
  A batch submits only batches that are smaller, in the sense of the tree of its callbacks. The
  multiset of the batches of a handler, and then the operations left in the running one, decrease
  with every reply.
\<close>

inductive sub_batch :: "batch \<Rightarrow> batch \<Rightarrow> bool" where
  "good_batch (Batch ops c) \<Longrightarrow> b \<in> set (submits c e) \<Longrightarrow> sub_batch b (Batch ops c)"
| "good_batch (Batch ops c) \<Longrightarrow> op \<in> set ops \<Longrightarrow> b \<in> set (submits (op_callback op) e) \<Longrightarrow>
   sub_batch b (Batch ops c)"

inductive_cases sub_batchE: "sub_batch b b'"

lemma good_batch_wf:
  assumes "good_batch b" "\<And>x. (\<And>y. sub_batch y x \<Longrightarrow> P y) \<Longrightarrow> P x"
  shows "P b"
  using assms(1)
proof (induction rule: good_batch.induct)
  case (1 ops c)
  have "P y" if "sub_batch y (Batch ops c)" for y
    using that "1.IH" by (cases rule: sub_batch.cases) blast+
  then show ?case by (rule assms(2))
qed

lemma wf_sub_batch: "wf {(b', b). sub_batch b' b}"
proof (rule wfUNIVI)
  fix P b assume *: "\<forall>x. (\<forall>y. (y, x) \<in> {(b', b). sub_batch b' b} \<longrightarrow> P y) \<longrightarrow> P x"
  have step: "P x" if "\<And>y. sub_batch y x \<Longrightarrow> P y" for x using * that by blast
  show "P b"
  proof (cases "good_batch b")
    case True
    show ?thesis
    proof (rule good_batch_wf[where P = P, OF True])
      fix x assume "\<And>y. sub_batch y x \<Longrightarrow> P y"
      then show "P x" by (rule step)
    qed
  next
    case False
    have "P y" if "sub_batch y b" for y using that False by (cases rule: sub_batch.cases) blast+
    then show ?thesis by (rule step)
  qed
qed

definition work :: "handler \<Rightarrow> batch multiset" where
  "work h = (if busy h then {#Batch (operationsList h) (transactionExecuteCallback h)#} else {#})
     + mset (pendingBatches h)"

definition work_rel :: "(handler \<times> handler) set" where
  "work_rel = inv_image (mult {(b', b). sub_batch b' b} <*lex*> less_than)
     (\<lambda>h. (work h, length (operationsList h) - currentOperation h))"

lemma wf_work_rel: "wf work_rel"
  unfolding work_rel_def by (intro wf_inv_image wf_lex_prod wf_mult wf_sub_batch wf_less_than)

lemma work_rel_advanced:
  assumes "currentOperation h < length (operationsList h)"
  shows "(advanced err (h\<lparr>wire := w\<rparr>), h) \<in> work_rel"
  using assms by (auto simp: work_rel_def work_def advanced_def send_def tell_def)

lemma end_subs_smaller:
  assumes "good_batch (Batch (operationsList h) (transactionExecuteCallback h))" "b \<in> set (end_subs e h)"
  shows "sub_batch b (Batch (operationsList h) (transactionExecuteCallback h))"
  using assms by (auto simp: end_subs_def dest: in_set_dropD intro: sub_batch.intros)

lemma work_next:
  assumes "\<not> busy h" "next_batch h = (None, h')" "\<And>b. b \<in> set (pendingBatches h) \<Longrightarrow> good_batch b"
  shows "work h' = mset (pendingBatches h)"
proof (cases "pendingBatches h")
  case (Cons b bs)
  obtain ops c where b: "b = Batch ops c" by (cases b)
  with Cons assms(3) have "ops \<noteq> []" using good_batch_ne by fastforce
  moreover from next_batch_cases[OF assms(1,3)] Cons b assms(2)
  have "h' = send (QOp (hd ops)) (h\<lparr>pendingBatches := bs, operationsList := ops,
        transactionExecuteCallback := c, th_error := None, isCommitting := False,
        numberOfOperations := length ops, currentOperation := 0\<rparr>)" by simp
  ultimately show ?thesis
    using assms Cons b by (simp add: work_def send_def tell_def)
qed (use assms in \<open>auto simp: next_batch_def work_def\<close>)

lemma work_rel_ended:
  assumes "good_batch (Batch (operationsList h) (transactionExecuteCallback h))" "busy h"
    "\<And>b. b \<in> set (pendingBatches h) \<Longrightarrow> good_batch b"
    "next_batch (ended e k (h\<lparr>wire := w\<rparr>)) = (None, h')"
  shows "(h', h) \<in> work_rel"
proof -
  let ?cur = "Batch (operationsList h) (transactionExecuteCallback h)"
  have subs: "end_subs e (h\<lparr>wire := w\<rparr>) = end_subs e h" by (simp add: end_subs_def)
  have "work h' = mset (pendingBatches (ended e k (h\<lparr>wire := w\<rparr>)))"
    using assms(4) by (rule work_next[rotated])
      (use good_subs[OF assms(1)] assms(3) in \<open>auto simp: ended_def subs\<close>)
  also have "\<dots> = mset (pendingBatches h) + mset (end_subs e h)"
    by (simp add: ended_def subs)
  finally have "work h' = mset (pendingBatches h) + mset (end_subs e h)" .
  moreover have "work h = mset (pendingBatches h) + {#?cur#}"
    using assms(2) by (simp add: work_def)
  moreover have "(mset (pendingBatches h) + mset (end_subs e h), mset (pendingBatches h) + {#?cur#})
      \<in> mult {(b', b). sub_batch b' b}"
    by (rule one_step_implies_mult) (use end_subs_smaller[OF assms(1)] in auto)
  ultimately show ?thesis by (simp add: work_rel_def)
qed

lemma reply_decreases:
  assumes ok: "running_ok h" and i: "js_get (wire h) i = Some (QOp op)"
  shows "(sql_event (HReply i err) h, h) \<in> work_rel"
proof -
  let ?h = "h\<lparr>wire := remove_nth i (wire h)\<rparr>"
  note D = running_okD[OF ok]
  have busy: "busy h" using D(4) i nth_mem[of i "wire h"]
    by (fastforce simp: js_get_Some_iff filter_empty_conv)
  note B = D(5)[OF this]
  have op: "op = operationsList h ! currentOperation h"
    using wire_reply_op[OF i] B by auto
  have ev: "sql_event (HReply i err) h = settle (operationCompleteCallback op err ?h)"
    using i by (simp add: sql_reply_def)
  obtain h' where h': "operationCompleteCallback op err ?h = (None, h')"
    using running_ok_complete[OF ok i] by blast
  have "if batch_error err ?h = None \<and> rest_ops ?h \<noteq> [] then operationCompleteCallback op err ?h = (None, advanced err ?h)
    else \<exists>k. operationCompleteCallback op err ?h = next_batch (ended (batch_error err ?h) k ?h)"
    by (rule complete_busy) (use D B busy op in auto)
  then consider "h' = advanced err ?h" | e k where "next_batch (ended e k ?h) = (None, h')"
    using h' by (auto split: if_splits)
  then show ?thesis
  proof cases
    case 1
    then show ?thesis using work_rel_advanced[of h err] B h' unfolding ev by (simp add: settle_def)
  next
    case 2
    then show ?thesis using work_rel_ended[OF _ busy D(2) 2] B h' unfolding ev by (simp add: settle_def)
  qed
qed

text \<open>The reply to the operation on the wire, and a run of replies with given errors.\<close>

definition op_reply :: "failure option \<Rightarrow> handler \<Rightarrow> handler" where
  "op_reply err h = (case find (\<lambda>i. is_op (wire h ! i)) [0..<length (wire h)] of
     None \<Rightarrow> h | Some i \<Rightarrow> sql_event (HReply i err) h)"

primrec replies :: "(nat \<Rightarrow> failure option) \<Rightarrow> nat \<Rightarrow> handler \<Rightarrow> handler" where
  "replies errs 0 h = h"
| "replies errs (Suc k) h = replies (\<lambda>i. errs (Suc i)) k (op_reply (errs 0) h)"

lemma op_reply_cases:
  assumes "ops_out h \<noteq> []"
  obtains i op where "js_get (wire h) i = Some (QOp op)" "op_reply err h = sql_event (HReply i err) h"
proof -
  from assms obtain q where "q \<in> set (wire h)" "is_op q" by (auto simp: filter_empty_conv)
  then obtain j where "j < length (wire h)" "is_op (wire h ! j)" by (auto simp: in_set_conv_nth)
  then have "find (\<lambda>i. is_op (wire h ! i)) [0..<length (wire h)] \<noteq> None"
    by (auto simp: find_None_iff)
  then obtain i where f: "find (\<lambda>i. is_op (wire h ! i)) [0..<length (wire h)] = Some i" by auto
  then have "i < length (wire h)" "is_op (wire h ! i)" by (auto simp: find_Some_iff)
  then obtain op where "js_get (wire h) i = Some (QOp op)"
    by (cases "wire h ! i") (auto simp: js_get_Some_iff)
  with f that show ?thesis by (auto simp: op_reply_def)
qed

lemma running_ok_drains:
  "running_ok h \<Longrightarrow> \<exists>k. running_ok (replies errs k h) \<and> ops_out (replies errs k h) = []"
proof (induction h arbitrary: errs rule: wf_induct_rule[OF wf_work_rel])
  case (1 h)
  show ?case
  proof (cases "ops_out h = []")
    case True
    with 1 show ?thesis by (intro exI[of _ 0]) simp
  next
    case False
    then obtain i op where i: "js_get (wire h) i = Some (QOp op)"
      and r: "op_reply (errs 0) h = sql_event (HReply i (errs 0)) h"
      by (rule op_reply_cases)
    have "running_ok (op_reply (errs 0) h)" "(op_reply (errs 0) h, h) \<in> work_rel"
      using running_ok_event[OF 1(2), of "HReply i (errs 0)"] reply_decreases[OF 1(2) i, of "errs 0"]
      unfolding r by simp_all
    from 1(1)[OF this(2,1), of "\<lambda>i. errs (Suc i)"] obtain k where
      "running_ok (replies (\<lambda>i. errs (Suc i)) k (op_reply (errs 0) h))"
      "ops_out (replies (\<lambda>i. errs (Suc i)) k (op_reply (errs 0) h)) = []" by blast
    then show ?thesis by (intro exI[of _ "Suc k"]) simp
  qed
qed

text \<open>
  C19: Every batch completes. From any state that a started handler reaches with good batches, if
  the server answers every operation that is sent, with whichever errors, and the user submits
  batches only inside callbacks, then after finitely many answers no operation is left on the
  wire, and every batch ever submitted, in callbacks too, has had its callback called.
\<close>

theorem every_batch_completes:
  assumes "started h0" "\<forall>ev \<in> set evs. good_event ev"
  shows "\<exists>k. let h = replies errs k (fold sql_event evs h0) in
    ops_out h = [] \<and> done_ids (trace h) = submitted_ids (trace h)"
proof -
  from running_ok_drains[OF running_ok_run[OF running_ok_started[OF assms(1)]], of evs errs] assms(2)
  obtain k where k: "running_ok (replies errs k (fold sql_event evs h0))"
    "ops_out (replies errs k (fold sql_event evs h0)) = []" by blast
  have "done_ids (trace h) = submitted_ids (trace h)" if "running_ok h" "ops_out h = []" for h
    using running_okD(4-6)[OF that(1)] that(2) by (cases "busy h") auto
  with k show ?thesis by (auto simp: Let_def)
qed

theorem every_batch_completes_witness:
  "\<exists>k. let h = replies (\<lambda>_. None) k (fold sql_event demo_events (SQLTransactionHandler True)) in
    ops_out h = [] \<and> done_ids (trace h) = submitted_ids (trace h)"
  by (rule every_batch_completes[OF _ good_demo_events]) (simp add: started_def)

end
