(* ===== verification/Tokenizer.thy ===== *)
theory Tokenizer
  imports Prelude
begin

text \<open>
  The tokenizer of control statements, \<open>tokenize\<close> of \<open>loader/lib/Scanner.js\<close>: names, numbers,
  variables, operators, quoted strings and comments. A source is a list of UTF-16 code units, so a
  character of the source is its number: 10 is a newline, 32 a space, 39, 34 and 96 the quotes, 92
  the backslash, 45 \<open>-\<close>, 47 \<open>/\<close>, 42 \<open>*\<close>, 64 \<open>@\<close>, 46 \<open>.\<close>, 95 \<open>_\<close>.
\<close>

type_synonym ustr = "nat list"

definition units :: "string \<Rightarrow> ustr" where
  "units s = map of_char s"

section \<open>The cursor\<close>

text \<open>The character \<open>c\<close> is \<open>None\<close> for the empty string that \<open>charAt\<close> returns past the end.\<close>

record cursor =
  pos :: nat
  cur :: "nat option"
  line :: nat
  column :: nat

definition peek :: "ustr \<Rightarrow> cursor \<Rightarrow> nat option" where
  "peek src st = js_get src (pos st + 1)"

definition advance :: "ustr \<Rightarrow> nat \<Rightarrow> cursor \<Rightarrow> cursor" where
  "advance src amt st =
    (let st = (if pos st + amt \<ge> length src then st\<lparr>pos := length src, cur := None\<rparr>
               else st\<lparr>pos := pos st + amt, cur := js_get src (pos st + amt)\<rparr>)
     in if cur st = Some 10 then st\<lparr>line := line st + 1, column := 0\<rparr>
        else st\<lparr>column := column st + amt\<rparr>)"

definition begin_cursor :: "ustr \<Rightarrow> cursor" where
  "begin_cursor src = \<lparr>pos = 0, cur = js_get src 0, line = 1, column = 1\<rparr>"

definition isAlpha :: "nat \<Rightarrow> bool" where
  "isAlpha c \<longleftrightarrow> 97 \<le> c \<and> c \<le> 122 \<or> 65 \<le> c \<and> c \<le> 90"

definition isAlphaOrUnderscore :: "nat \<Rightarrow> bool" where
  "isAlphaOrUnderscore c \<longleftrightarrow> c = 95 \<or> isAlpha c"

definition isNumeric :: "nat \<Rightarrow> bool" where
  "isNumeric c \<longleftrightarrow> 48 \<le> c \<and> c \<le> 57"

definition isInitialNumeric :: "nat \<Rightarrow> nat option \<Rightarrow> bool" where
  "isInitialNumeric c p \<longleftrightarrow>
     isNumeric c \<or> c = 45 \<and> (case p of Some d \<Rightarrow> isNumeric d | None \<Rightarrow> False)"

definition isNonInitialNumeric :: "nat \<Rightarrow> bool" where
  "isNonInitialNumeric c \<longleftrightarrow> isNumeric c \<or> c = 46"

definition isAlphanumeric :: "nat \<Rightarrow> bool" where
  "isAlphanumeric c \<longleftrightarrow> isAlphaOrUnderscore c \<or> isNumeric c"

definition operators :: "nat list" where
  "operators = units ''(),;:.''"

section \<open>Tokens\<close>

text \<open>
  The value of a number token is kept as its text. \<open>finite_number\<close> says when the number it stands
  for is finite: one point at most, and not so large that it rounds to infinity. A number that is
  zero is falsy, so \<open>deliver\<close> gives the text instead of the number.
\<close>

datatype tvalue = VStr ustr | VNum ustr

record token =
  ttype :: string
  tline :: nat
  tcolumn :: nat
  tvalue :: tvalue

datatype lex_error =
    TokenError string
  | UnterminatedComment
  | ScannerError "tvalue option" nat

definition digits_value :: "ustr \<Rightarrow> int" where
  "digits_value ds = foldl (\<lambda>a d. 10 * a + (int d - 48)) 0 ds"

definition finite_number :: "ustr \<Rightarrow> bool" where
  "finite_number s \<longleftrightarrow> length (filter (\<lambda>c. c = 46) s) \<le> 1 \<and>
     digits_value (takeWhile (\<lambda>c. c \<noteq> 46) (filter (\<lambda>c. c \<noteq> 45) s)) < 2 ^ 1024 - 2 ^ 970"

definition is_zero :: "ustr \<Rightarrow> bool" where
  "is_zero s \<longleftrightarrow> (\<forall>c \<in> set s. c \<in> {45, 46, 48})"

definition number_value :: "ustr \<Rightarrow> tvalue" where
  "number_value s = (if is_zero s then VStr s else VNum s)"

definition Token :: "string \<Rightarrow> cursor \<Rightarrow> tvalue \<Rightarrow> token" where
  "Token ty st v = \<lparr>ttype = ty, tline = line st, tcolumn = column st, tvalue = v\<rparr>"

section \<open>Loops\<close>

text \<open>What is left to read, which every \<open>advance\<close> makes smaller.\<close>

definition left :: "ustr \<Rightarrow> cursor \<Rightarrow> nat" where
  "left src st = length src - pos st + (if cur st = None then 0 else 1)"

lemma left_advance: "0 < n \<Longrightarrow> cur st \<noteq> None \<Longrightarrow> left src (advance src n st) < left src st"
  by (auto simp: left_def advance_def Let_def js_get_def)

lemma left_advance_le: "0 < n \<Longrightarrow> left src (advance src n st) \<le> left src st"
  by (auto simp: left_def advance_def Let_def js_get_def)

function consume_while :: "(nat \<Rightarrow> bool) \<Rightarrow> ustr \<Rightarrow> ustr \<Rightarrow> cursor \<Rightarrow> ustr \<times> cursor" where
  "consume_while p src acc st = (case cur st of
     None \<Rightarrow> (acc, st)
   | Some c \<Rightarrow> if p c then consume_while p src (acc @ [c]) (advance src 1 st) else (acc, st))"
  by pat_completeness auto
termination
  by (relation "measure (\<lambda>(p, src, acc, st). left src st)") (auto intro: left_advance)

function skip_while :: "(cursor \<Rightarrow> bool) \<Rightarrow> ustr \<Rightarrow> cursor \<Rightarrow> cursor" where
  "skip_while p src st =
     (if cur st \<noteq> None \<and> p st then skip_while p src (advance src 1 st) else st)"
  by pat_completeness auto
termination
  by (relation "measure (\<lambda>(p, src, st). left src st)") (auto intro: left_advance)

declare consume_while.simps [simp del] skip_while.simps [simp del]

section \<open>Quoted strings\<close>

text \<open>
  \<open>parseInt(s, 16)\<close>: white space, a sign, an optional \<open>0x\<close>, and the longest prefix of hexadecimal
  digits; not a number when there is none.
\<close>

definition hex_digit :: "nat \<Rightarrow> nat option" where
  "hex_digit c = (if 48 \<le> c \<and> c \<le> 57 then Some (c - 48)
     else if 97 \<le> c \<and> c \<le> 102 then Some (c - 87)
     else if 65 \<le> c \<and> c \<le> 70 then Some (c - 55) else None)"

definition js_white :: "nat \<Rightarrow> bool" where
  "js_white c \<longleftrightarrow> c \<in> {9, 10, 11, 12, 13, 32, 160, 5760, 8232, 8233, 8239, 8287, 12288, 65279}
     \<or> 8192 \<le> c \<and> c \<le> 8202"

definition parseInt16 :: "ustr \<Rightarrow> int option" where
  "parseInt16 s =
    (let s = dropWhile js_white s;
         neg = (take 1 s = [45]);
         s = (if take 1 s = [45] \<or> take 1 s = [43] then drop 1 s else s);
         s = (if take 2 s = [48, 120] \<or> take 2 s = [48, 88] then drop 2 s else s);
         ds = takeWhile (\<lambda>c. hex_digit c \<noteq> None) s;
         v = int (foldl (\<lambda>a d. 16 * a + the (hex_digit d)) 0 ds)
     in if ds = [] then None else Some (if neg then - v else v))"

text \<open>
  The escape sequences assign to the current character, which the tokenizer then consumes; after
  \<open>\u\<close> the cursor is advanced over the four digits, and that sets the current character again.
\<close>

definition escape :: "ustr \<Rightarrow> nat \<Rightarrow> cursor \<Rightarrow> lex_error + cursor" where
  "escape src c st =
    (if c = 98 then Inr (st\<lparr>cur := Some 8\<rparr>)
     else if c = 102 then Inr (st\<lparr>cur := Some 12\<rparr>)
     else if c = 110 then Inr (st\<lparr>cur := Some 10\<rparr>)
     else if c = 114 then Inr (st\<lparr>cur := Some 13\<rparr>)
     else if c = 116 then Inr (st\<lparr>cur := Some 9\<rparr>)
     else if c = 117 then
       (let v = parseInt16 (take 4 (drop (pos st + 1) src)) in
        if (case v of None \<Rightarrow> False | Some n \<Rightarrow> n < 0 \<or> n > 65535)
        then Inl (TokenError ''Bad Unicode character sequence'')
        else Inr (advance src 4 (st\<lparr>cur := Some (case v of None \<Rightarrow> 0 | Some n \<Rightarrow> nat n)\<rparr>)))
     else Inr st)"

definition consume :: "ustr \<Rightarrow> ustr \<Rightarrow> cursor \<Rightarrow> ustr \<times> cursor" where
  "consume src acc st =
     (acc @ (case cur st of None \<Rightarrow> [] | Some c \<Rightarrow> [c]), advance src 1 st)"

lemma left_escape:
  assumes "escape src c st = Inr st'" "cur st = Some c"
  shows "left src (snd (consume src acc st')) < left src st"
proof -
  have "left src (advance src 1 (st\<lparr>cur := Some x\<rparr>)) < left src (st\<lparr>cur := Some x\<rparr>)" for x
    by (rule left_advance) simp_all
  moreover have "left src (advance src 1 (advance src 4 (st\<lparr>cur := Some x\<rparr>))) < left src (st\<lparr>cur := Some x\<rparr>)" for x
    using left_advance_le[of 1 src "advance src 4 (st\<lparr>cur := Some x\<rparr>)"]
      left_advance[of 4 "st\<lparr>cur := Some x\<rparr>" src] by simp
  moreover have "left src (st\<lparr>cur := Some x\<rparr>) = left src st" for x
    using assms(2) by (simp add: left_def)
  ultimately show ?thesis
    using assms left_advance[of 1 st src]
    by (auto simp: escape_def consume_def Let_def split: if_splits)
qed

function string_loop :: "ustr \<Rightarrow> nat \<Rightarrow> ustr \<Rightarrow> cursor \<Rightarrow> lex_error + (ustr \<times> cursor)" where
  "string_loop src q acc st = (case cur st of
     None \<Rightarrow> Inl (TokenError ''Unterminated string.'')
   | Some c \<Rightarrow>
       if c = q then Inr (acc, st)
       else if c = 10 \<or> c = 13 then Inl (TokenError ''Unterminated string.'')
       else if c < 32 then Inl (TokenError ''Control character in string.'')
       else if c = 92 then
         (let st1 = advance src 1 st in case cur st1 of
            None \<Rightarrow> Inl (TokenError ''Unterminated string'')
          | Some e \<Rightarrow> (case escape src e st1 of
              Inl x \<Rightarrow> Inl x
            | Inr st2 \<Rightarrow> string_loop src q (fst (consume src acc st2)) (snd (consume src acc st2))))
       else string_loop src q (fst (consume src acc st)) (snd (consume src acc st)))"
  by pat_completeness auto
termination
proof (relation "measure (\<lambda>(src, q, acc, st). left src st)", goal_cases)
  case (2 src q acc st c st1 e st2)
  then have "left src st1 < left src st" using left_advance[of 1 st src] by simp
  then show ?case using 2 left_escape[of src e st1 st2 acc] by (simp add: prod.case_eq_if)
qed (auto simp: consume_def intro: left_advance)

declare string_loop.simps [simp del]

section \<open>The tokenizer\<close>

lemma left_consume_while: "left src (snd (consume_while p src acc st)) \<le> left src st"
proof (induction p src acc st rule: consume_while.induct)
  case (1 p src acc st)
  then show ?case
    using left_advance[of 1 st src]
    by (subst consume_while.simps) (fastforce split: option.splits)
qed

lemma left_skip_while: "left src (skip_while p src st) \<le> left src st"
proof (induction p src st rule: skip_while.induct)
  case (1 p src st)
  then show ?case
    using left_advance[of 1 st src] by (subst skip_while.simps) (auto intro: order_trans less_imp_le)
qed

lemma left_string_loop: "string_loop src q acc st = Inr (v, st') \<Longrightarrow> left src st' \<le> left src st"
proof (induction src q acc st rule: string_loop.induct)
  case (1 src q acc st)
  show ?case
  proof (cases "cur st")
    case None
    with 1(3) show ?thesis by (simp add: string_loop.simps[of src q acc st])
  next
    case (Some c)
    have adv: "left src (advance src 1 st) < left src st" using Some left_advance[of 1 st src] by simp
    show ?thesis
    proof (cases "c \<noteq> q \<and> c = 92")
      case True
      with 1(3) Some obtain e st2 where e: "cur (advance src 1 st) = Some e"
        "escape src e (advance src 1 st) = Inr st2"
        "string_loop src q (fst (consume src acc st2)) (snd (consume src acc st2)) = Inr (v, st')"
        by (simp add: string_loop.simps[of src q acc st] Let_def split: option.splits sum.splits)
      from 1(1)[OF Some _ _ _ _ refl e] True have "left src st' \<le> left src (snd (consume src acc st2))"
        by simp
      with left_escape[OF e(2,1), of acc] adv show ?thesis by simp
    next
      case False
      with 1(3) Some consider "st' = st" |
        "string_loop src q (fst (consume src acc st)) (snd (consume src acc st)) = Inr (v, st')" "c \<noteq> q" "c \<noteq> 10" "c \<noteq> 13" "\<not> c < 32" "c \<noteq> 92"
        by (auto simp: string_loop.simps[of src q acc st] split: if_splits)
      then show ?thesis
      proof cases
        case 2
        with 1(2)[OF Some] adv show ?thesis by (simp add: consume_def)
      qed simp
    qed
  qed
qed

lemma left_less:
  "0 < n \<Longrightarrow> cur st = Some c \<Longrightarrow> left src (snd (consume_while p src acc (advance src n st))) < left src st"
  "0 < n \<Longrightarrow> cur st = Some c \<Longrightarrow> left src (skip_while p' src (advance src n st)) < left src st"
  by (rule le_less_trans[OF left_consume_while left_advance], simp_all)
    (rule le_less_trans[OF left_skip_while left_advance], simp_all)

definition begindata :: ustr where
  "begindata = units ''BEGINDATA''"

function tokenize_loop :: "ustr \<Rightarrow> token list \<Rightarrow> cursor \<Rightarrow> lex_error + token list" where
  "tokenize_loop src result st = (case cur st of None \<Rightarrow> Inr result | Some c \<Rightarrow>
     if c \<le> 32 then tokenize_loop src result (advance src 1 st)
     else if isAlpha c then
       (let r = consume_while isAlphanumeric src [c] (advance src 1 st) in
        if fst r = begindata then Inr (result @ [Token ''begindata'' st (VStr (fst r))])
        else tokenize_loop src (result @ [Token ''name'' st (VStr (fst r))]) (snd r))
     else if c = 64 then
       (let r = consume_while isAlphanumeric src [] (advance src 1 st)
        in tokenize_loop src (result @ [Token ''variable'' st (VStr (fst r))]) (snd r))
     else if isInitialNumeric c (peek src st) then
       (let r = consume_while isNonInitialNumeric src [c] (advance src 1 st) in
        if finite_number (fst r)
        then tokenize_loop src (result @ [Token ''number'' st (number_value (fst r))]) (snd r)
        else Inl (TokenError ''bad number''))
     else if c = 39 \<or> c = 34 \<or> c = 96 then
       (case string_loop src c [] (advance src 1 st) of
          Inl e \<Rightarrow> Inl e
        | Inr (v, st') \<Rightarrow> tokenize_loop src (result @ [Token ''string'' st (VStr v)]) (advance src 1 st'))
     else if c = 45 \<and> peek src st = Some 45 then
       tokenize_loop src result
         (skip_while (\<lambda>st. cur st \<noteq> Some 10 \<and> cur st \<noteq> Some 13) src (advance src 2 st))
     else if c = 47 \<and> peek src st = Some 42 then
       (let st' = advance src 2
          (skip_while (\<lambda>st. cur st \<noteq> Some 42 \<and> peek src st \<noteq> Some 47) src (advance src 2 st))
        in if cur st' = None then Inl UnterminatedComment else tokenize_loop src result st')
     else if c \<in> set operators then
       tokenize_loop src (result @ [Token ''operator'' st (VStr [c])]) (advance src 1 st)
     else Inl (ScannerError (if result = [] then None else Some (tvalue (last result))) (pos st)))"
  by pat_completeness auto
termination
proof (relation "measure (\<lambda>(src, result, st). left src st)",
    simp_all only: in_measure wf_measure prod.case, goal_cases)
  case (5 src result st c b v st')
  then have "left src st' \<le> left src (advance src 1 st)" using left_string_loop by metis
  then show ?case
    using 5(1) left_advance[of 1 st src] left_advance_le[of 1 src st'] by simp
next
  case (7 src result st c x)
  then show ?case
    using left_advance[of 2 st src] left_skip_while[of src _ "advance src 2 st"]
    by (intro le_less_trans[OF left_advance_le], simp) (rule le_less_trans[OF left_skip_while], simp)
qed (simp_all add: left_advance left_less)

declare tokenize_loop.simps [simp del]

definition tokenize :: "ustr \<Rightarrow> lex_error + token list" where
  "tokenize src = tokenize_loop src [] (begin_cursor src)"

section \<open>Reading what is left of the source\<close>

definition at_rest :: "ustr \<Rightarrow> cursor \<Rightarrow> ustr \<Rightarrow> bool" where
  "at_rest src st rest \<longleftrightarrow> pos st \<le> length src \<and> drop (pos st) src = rest
     \<and> cur st = (if rest = [] then None else Some (hd rest))"

lemma at_rest_cur: "at_rest src st (c # cs) \<Longrightarrow> cur st = Some c"
  by (simp add: at_rest_def)

lemma at_rest_end: "at_rest src st [] \<Longrightarrow> cur st = None"
  by (simp add: at_rest_def)

lemma at_rest_tail: "at_rest src st (c # cs) \<Longrightarrow> drop (pos st + 1) src = cs"
  by (metis Suc_eq_plus1 at_rest_def drop_Suc list.sel(3) tl_drop)

lemma at_rest_peek: "at_rest src st (c # cs) \<Longrightarrow> peek src st = (if cs = [] then None else Some (hd cs))"
proof -
  assume r: "at_rest src st (c # cs)"
  then have d: "drop (pos st + 1) src = cs" by (rule at_rest_tail)
  show ?thesis
  proof (cases "cs = []")
    case True
    with d show ?thesis by (simp add: peek_def js_get_def)
  next
    case False
    with d have "pos st + 1 < length src" by (metis drop_all not_le)
    with d False show ?thesis by (simp add: peek_def js_get_def hd_drop_conv_nth[symmetric])
  qed
qed

lemma at_rest_advance:
  assumes "at_rest src st (xs @ rest)" "length xs = n" "0 < n"
  shows "at_rest src (advance src n st) rest"
proof -
  have d: "drop (pos st + n) src = rest"
    using assms by (auto simp: at_rest_def drop_drop[symmetric] add.commute[of "pos st"] simp del: drop_drop)
  have l: "length src - pos st = n + length rest"
    using assms(1,2) by (metis at_rest_def length_append length_drop)
  show ?thesis
  proof (cases "rest = []")
    case True
    with l have "length src \<le> pos st + n" by simp
    with True show ?thesis by (simp add: at_rest_def advance_def Let_def)
  next
    case False
    with l have "pos st + n < length src" by (cases rest) auto
    with False d show ?thesis
      by (auto simp: at_rest_def advance_def Let_def js_get_def hd_drop_conv_nth[symmetric])
  qed
qed

lemmas at_rest_next = at_rest_advance[of src st "[c]" rest 1 for src st c rest, simplified]

lemma at_rest_begin: "at_rest src (begin_cursor src) src"
  by (cases src) (simp_all add: at_rest_def begin_cursor_def js_get_def)

lemma at_rest_consume_while:
  assumes "at_rest src st (xs @ rest)" "\<forall>c \<in> set xs. p c" "rest = [] \<or> \<not> p (hd rest)"
  shows "\<exists>st'. consume_while p src acc st = (acc @ xs, st') \<and> at_rest src st' rest"
  using assms
proof (induction xs arbitrary: acc st)
  case Nil
  then show ?case by (subst consume_while.simps) (auto simp: at_rest_def)
next
  case (Cons c xs)
  have "at_rest src (advance src 1 st) (xs @ rest)" using at_rest_next Cons.prems(1) by simp
  from Cons.IH[OF this, of "acc @ [c]"] Cons.prems at_rest_cur[of src st c "xs @ rest"] show ?case
    by (subst consume_while.simps) simp
qed

lemma at_rest_skip_line:
  assumes "at_rest src st (xs @ 10 # rest)" "10 \<notin> set xs" "13 \<notin> set xs"
  shows "at_rest src (skip_while (\<lambda>st. cur st \<noteq> Some 10 \<and> cur st \<noteq> Some 13) src st) (10 # rest)"
  using assms
proof (induction xs arbitrary: st)
  case Nil
  then show ?case by (subst skip_while.simps) (auto simp: at_rest_def)
next
  case (Cons c xs)
  have "at_rest src (advance src 1 st) (xs @ 10 # rest)" using at_rest_next Cons.prems(1) by simp
  from Cons.IH[OF this] Cons.prems at_rest_cur[of src st c "xs @ 10 # rest"] show ?case
    by (subst skip_while.simps) simp
qed

definition quote_text :: "nat \<Rightarrow> ustr \<Rightarrow> ustr" where
  "quote_text q xs = concat (map (\<lambda>c. if c = q \<or> c = 92 then [92, c] else [c]) xs)"

lemma at_rest_string:
  assumes "at_rest src st (quote_text q xs @ q # rest)" "\<forall>c \<in> set xs. 32 \<le> c" "q \<in> {39, 34, 96}"
  shows "\<exists>st'. string_loop src q acc st = Inr (acc @ xs, st') \<and> at_rest src st' (q # rest)"
  using assms(1,2)
proof (induction xs arbitrary: acc st)
  case Nil
  then show ?case by (subst string_loop.simps) (simp add: quote_text_def at_rest_cur)
next
  case (Cons c xs)
  show ?case
  proof (cases "c = q \<or> c = 92")
    case True
    then have r: "at_rest src st (92 # c # quote_text q xs @ q # rest)"
      using Cons.prems(1) by (simp add: quote_text_def)
    have r1: "at_rest src (advance src 1 st) (c # quote_text q xs @ q # rest)"
      using at_rest_next[OF r] by simp
    have r2: "at_rest src (advance src 1 (advance src 1 st)) (quote_text q xs @ q # rest)"
      using at_rest_next[OF r1] by simp
    have e: "escape src c (advance src 1 st) = Inr (advance src 1 st)"
      using True assms(3) by (auto simp: escape_def)
    from Cons.IH[OF r2, of "acc @ [c]"] Cons.prems(2) True assms(3) e at_rest_cur[OF r] at_rest_cur[OF r1]
    show ?thesis by (subst string_loop.simps) (auto simp: consume_def)
  next
    case False
    then have r: "at_rest src st (c # quote_text q xs @ q # rest)"
      using Cons.prems(1) by (simp add: quote_text_def)
    have r1: "at_rest src (advance src 1 st) (quote_text q xs @ q # rest)"
      using at_rest_next[OF r] by simp
    from Cons.IH[OF r1, of "acc @ [c]"] Cons.prems(2) False assms(3) at_rest_cur[OF r]
    show ?thesis by (subst string_loop.simps) (auto simp: consume_def)
  qed
qed

section \<open>Written tokens\<close>

text \<open>
  The tokens as they are written in a source, and the white space and line comments between them.
\<close>

datatype item =
    NameItem ustr
  | VarItem ustr
  | NumItem ustr
  | StrItem nat ustr
  | OpItem nat

datatype gap = Blank nat | LineComment ustr

fun item_text :: "item \<Rightarrow> ustr" where
  "item_text (NameItem s) = s"
| "item_text (VarItem s) = 64 # s"
| "item_text (NumItem s) = s"
| "item_text (StrItem q s) = q # quote_text q s @ [q]"
| "item_text (OpItem c) = [c]"

fun item_token :: "item \<Rightarrow> string \<times> tvalue" where
  "item_token (NameItem s) = (''name'', VStr s)"
| "item_token (VarItem s) = (''variable'', VStr s)"
| "item_token (NumItem s) = (''number'', number_value s)"
| "item_token (StrItem q s) = (''string'', VStr s)"
| "item_token (OpItem c) = (''operator'', VStr [c])"

definition number_text :: "ustr \<Rightarrow> bool" where
  "number_text s \<longleftrightarrow> (let ds = (if take 1 s = [45] then drop 1 s else s)
     in ds \<noteq> [] \<and> isNumeric (hd ds) \<and> (\<forall>c \<in> set ds. isNonInitialNumeric c)) \<and> finite_number s"

fun item_ok :: "item \<Rightarrow> bool" where
  "item_ok (NameItem s) = (s \<noteq> [] \<and> isAlpha (hd s) \<and> (\<forall>c \<in> set s. isAlphanumeric c) \<and> s \<noteq> begindata)"
| "item_ok (VarItem s) = (\<forall>c \<in> set s. isAlphanumeric c)"
| "item_ok (NumItem s) = number_text s"
| "item_ok (StrItem q s) = (q \<in> {39, 34, 96} \<and> (\<forall>c \<in> set s. 32 \<le> c))"
| "item_ok (OpItem c) = (c \<in> set operators)"

fun gap_text :: "gap \<Rightarrow> ustr" where
  "gap_text (Blank c) = [c]"
| "gap_text (LineComment s) = [45, 45] @ s @ [10]"

fun gap_ok :: "gap \<Rightarrow> bool" where
  "gap_ok (Blank c) = (c \<le> 32)"
| "gap_ok (LineComment s) = (10 \<notin> set s \<and> 13 \<notin> set s)"

definition source_text :: "(item \<times> gap list) list \<Rightarrow> ustr" where
  "source_text xs = concat (map (\<lambda>(it, gs). item_text it @ concat (map gap_text gs)) xs)"

definition gap_start :: "ustr \<Rightarrow> bool" where
  "gap_start rest \<longleftrightarrow> rest = [] \<or> hd rest \<le> 32 \<or> hd rest = 45"

lemmas char_classes = isAlpha_def isAlphaOrUnderscore_def isNumeric_def isAlphanumeric_def
  isNonInitialNumeric_def isInitialNumeric_def

lemma gap_start_stops:
  assumes "gap_start rest"
  shows "rest = [] \<or> \<not> isAlphanumeric (hd rest)" "rest = [] \<or> \<not> isNonInitialNumeric (hd rest)"
  using assms by (auto simp: gap_start_def char_classes)

lemma gap_step:
  assumes r: "at_rest src st (gap_text g @ rest)" and ok: "gap_ok g"
  shows "\<exists>st'. tokenize_loop src result st = tokenize_loop src result st' \<and> at_rest src st' rest"
proof (cases g)
  case (Blank c)
  with r ok have "at_rest src st (c # rest)" "c \<le> 32" by simp_all
  then show ?thesis
    by (subst tokenize_loop.simps) (auto simp: at_rest_cur dest: at_rest_next)
next
  case (LineComment s)
  with r ok have r: "at_rest src st (45 # 45 # s @ 10 # rest)" and s: "10 \<notin> set s" "13 \<notin> set s"
    by simp_all
  have r2: "at_rest src (advance src 2 st) (s @ 10 # rest)"
    using at_rest_advance[of src st "[45, 45]" "s @ 10 # rest" 2] r by simp
  let ?st = "skip_while (\<lambda>st. cur st \<noteq> Some 10 \<and> cur st \<noteq> Some 13) src (advance src 2 st)"
  have r3: "at_rest src ?st (10 # rest)" by (rule at_rest_skip_line[OF r2 s])
  have "tokenize_loop src result st = tokenize_loop src result ?st"
    using at_rest_cur[OF r] at_rest_peek[OF r]
    by (subst tokenize_loop.simps) (simp add: char_classes)
  also have "\<dots> = tokenize_loop src result (advance src 1 ?st)"
    using at_rest_cur[OF r3] by (subst tokenize_loop.simps) simp
  finally show ?thesis using at_rest_next[OF r3] by auto
qed

lemma gaps_step:
  "at_rest src st (concat (map gap_text gs) @ rest) \<Longrightarrow> \<forall>g \<in> set gs. gap_ok g \<Longrightarrow>
   \<exists>st'. tokenize_loop src result st = tokenize_loop src result st' \<and> at_rest src st' rest"
proof (induction gs arbitrary: st)
  case (Cons g gs)
  from Cons.prems have "at_rest src st (gap_text g @ concat (map gap_text gs) @ rest)" "gap_ok g" by simp_all
  from gap_step[OF this, of result] obtain st' where
    "tokenize_loop src result st = tokenize_loop src result st'"
    "at_rest src st' (concat (map gap_text gs) @ rest)" by blast
  with Cons.IH[of st'] Cons.prems show ?case by auto
qed auto

definition same_token :: "token \<Rightarrow> item \<Rightarrow> bool" where
  "same_token t it \<longleftrightarrow> (ttype t, tvalue t) = item_token it"

lemma same_token_Token [simp]: "same_token (Token ty st v) it \<longleftrightarrow> (ty, v) = item_token it"
  by (simp add: same_token_def Token_def)

lemma item_step:
  assumes r: "at_rest src st (item_text it @ rest)" and ok: "item_ok it" and g: "gap_start rest"
  shows "\<exists>st' t. tokenize_loop src result st = tokenize_loop src (result @ [t]) st'
    \<and> at_rest src st' rest \<and> same_token t it"
proof (cases it)
  case (NameItem s)
  with ok r obtain c cs where s: "s = c # cs" "isAlpha c" "\<forall>x \<in> set cs. isAlphanumeric x" "s \<noteq> begindata"
    and r: "at_rest src st (c # cs @ rest)" by (cases s) auto
  from at_rest_consume_while[OF at_rest_next[OF r], of isAlphanumeric "[c]"] s gap_start_stops(1)[OF g]
  obtain st' where "consume_while isAlphanumeric src [c] (advance src 1 st) = (c # cs, st')" "at_rest src st' rest"
    by auto
  with s NameItem at_rest_cur[OF r] show ?thesis
    by (subst tokenize_loop.simps)
      (auto simp: Let_def char_classes intro!: exI[of _ st'])
next
  case (VarItem s)
  with r ok have r: "at_rest src st (64 # s @ rest)" and s: "\<forall>x \<in> set s. isAlphanumeric x" by simp_all
  from at_rest_consume_while[OF at_rest_next[OF r], of isAlphanumeric "[]"] s gap_start_stops(1)[OF g]
  obtain st' where "consume_while isAlphanumeric src [] (advance src 1 st) = (s, st')" "at_rest src st' rest"
    by auto
  with VarItem at_rest_cur[OF r] show ?thesis
    by (subst tokenize_loop.simps) (auto simp: Let_def char_classes intro!: exI[of _ st'])
next
  case (NumItem s)
  with ok r obtain c cs where s: "s = c # cs" "\<forall>x \<in> set cs. isNonInitialNumeric x" "finite_number s"
    and r: "at_rest src st (c # cs @ rest)" and c: "isNumeric c \<or> c = 45 \<and> cs \<noteq> [] \<and> isNumeric (hd cs)"
    by (cases s) (auto simp: number_text_def Let_def split: if_splits)
  from at_rest_consume_while[OF at_rest_next[OF r], of isNonInitialNumeric "[c]"] s gap_start_stops(2)[OF g]
  obtain st' where "consume_while isNonInitialNumeric src [c] (advance src 1 st) = (c # cs, st')" "at_rest src st' rest"
    by auto
  moreover have "\<not> c \<le> 32" "\<not> isAlpha c" "c \<noteq> 64" using c by (auto simp: char_classes)
  moreover have "isInitialNumeric c (peek src st)"
    using c at_rest_peek[OF r] by (auto simp: isInitialNumeric_def)
  ultimately have "tokenize_loop src result st =
      tokenize_loop src (result @ [Token ''number'' st (number_value s)]) st'"
    using s at_rest_cur[OF r] by (subst tokenize_loop.simps) (simp add: Let_def)
  with NumItem \<open>at_rest src st' rest\<close> show ?thesis
    by (intro exI[of _ st'] exI[of _ "Token ''number'' st (number_value s)"]) simp
next
  case (StrItem q s)
  with r ok have r: "at_rest src st (q # quote_text q s @ q # rest)" and q: "q \<in> {39, 34, 96}"
    and s: "\<forall>c \<in> set s. 32 \<le> c" by simp_all
  from at_rest_string[OF at_rest_next[OF r] s q, of "[]"] obtain st' where
    "string_loop src q [] (advance src 1 st) = Inr (s, st')" "at_rest src st' (q # rest)" by auto
  moreover have "\<not> q \<le> 32" "\<not> isAlpha q" "q \<noteq> 64" "\<not> isInitialNumeric q (peek src st)"
    "q = 39 \<or> q = 34 \<or> q = 96" using q by (auto simp: char_classes)
  ultimately have "tokenize_loop src result st =
      tokenize_loop src (result @ [Token ''string'' st (VStr s)]) (advance src 1 st')"
    using at_rest_cur[OF r] by (subst tokenize_loop.simps) simp
  with StrItem at_rest_next[OF \<open>at_rest src st' (q # rest)\<close>] show ?thesis
    by (intro exI[of _ "advance src 1 st'"] exI[of _ "Token ''string'' st (VStr s)"]) simp
next
  case (OpItem c)
  with r ok have r: "at_rest src st (c # rest)" and c: "c \<in> set operators" by simp_all
  have "c \<in> {40, 41, 44, 59, 58, 46}" using c by (auto simp: operators_def units_def)
  then have "\<not> c \<le> 32" "\<not> isAlpha c" "c \<noteq> 64" "\<not> isInitialNumeric c (peek src st)"
    "c \<noteq> 39 \<and> c \<noteq> 34 \<and> c \<noteq> 96" "c \<noteq> 45" "c \<noteq> 47" by (auto simp: char_classes)
  then have "tokenize_loop src result st =
      tokenize_loop src (result @ [Token ''operator'' st (VStr [c])]) (advance src 1 st)"
    using c at_rest_cur[OF r] by (subst tokenize_loop.simps) simp
  with OpItem at_rest_next[OF r] show ?thesis
    by (intro exI[of _ "advance src 1 st"] exI[of _ "Token ''operator'' st (VStr [c])"]) simp
qed

lemma gap_text_start: "gap_ok g \<Longrightarrow> gap_start (gap_text g @ rest)"
  by (cases g) (auto simp: gap_start_def)

lemma source_step:
  assumes "at_rest src st (source_text xs)"
    "\<forall>(it, gs) \<in> set xs. item_ok it \<and> gs \<noteq> [] \<and> (\<forall>g \<in> set gs. gap_ok g)"
  shows "\<exists>ts. tokenize_loop src result st = Inr (result @ ts) \<and> list_all2 same_token ts (map fst xs)"
  using assms
proof (induction xs arbitrary: st result)
  case Nil
  then show ?case by (subst tokenize_loop.simps) (simp add: source_text_def at_rest_end)
next
  case (Cons x xs)
  obtain it gs where x: "x = (it, gs)" by force
  let ?rest = "concat (map gap_text gs) @ source_text xs"
  from Cons.prems x obtain g gs' where gs: "gs = g # gs'" and ok: "item_ok it" "\<forall>g \<in> set gs. gap_ok g"
    by (cases gs) auto
  have r: "at_rest src st (item_text it @ ?rest)" using Cons.prems(1) x by (simp add: source_text_def)
  have "gap_start ?rest" using gs ok gap_text_start[of g] by simp
  from item_step[OF r ok(1) this] obtain st1 t where 1:
    "tokenize_loop src result st = tokenize_loop src (result @ [t]) st1" "at_rest src st1 ?rest" "same_token t it"
    by blast
  from gaps_step[OF 1(2) ok(2)] obtain st2 where 2:
    "tokenize_loop src (result @ [t]) st1 = tokenize_loop src (result @ [t]) st2" "at_rest src st2 (source_text xs)"
    by blast
  from Cons.IH[OF 2(2), of "result @ [t]"] Cons.prems(2) obtain ts where
    "tokenize_loop src (result @ [t]) st2 = Inr ((result @ [t]) @ ts)" "list_all2 same_token ts (map fst xs)"
    by auto
  with 1 2 x show ?case by (intro exI[of _ "t # ts"]) simp
qed

text \<open>
  C22: The tokenizer reads back what is written. A source made of names, variables, numbers, quoted
  strings, whose quotes and backslashes are escaped by a backslash, and operators, each followed
  by white space or line comments, is tokenized without an error into exactly these tokens, in
  order, with their types and values.
\<close>

theorem tokenize_roundtrip:
  assumes "\<forall>(it, gs) \<in> set xs. item_ok it \<and> gs \<noteq> [] \<and> (\<forall>g \<in> set gs. gap_ok g)"
  shows "\<exists>ts. tokenize (source_text xs) = Inr ts
    \<and> map (\<lambda>t. (ttype t, tvalue t)) ts = map (item_token \<circ> fst) xs"
proof -
  from source_step[OF at_rest_begin assms, of "[]"] obtain ts where
    "tokenize (source_text xs) = Inr ts" "list_all2 same_token ts (map fst xs)"
    by (auto simp: tokenize_def)
  moreover from this(2) have "map (\<lambda>t. (ttype t, tvalue t)) ts = map (item_token \<circ> fst) xs"
    by (auto simp: list_all2_conv_all_nth same_token_def intro!: nth_equalityI)
  ultimately show ?thesis by blast
qed

definition demo_source :: "(item \<times> gap list) list" where
  "demo_source = [(NameItem (units ''LOAD''), [Blank 32]), (StrItem 39 (units ''a/b''), [Blank 10]),
     (NumItem (units ''42''), [LineComment (units '' rows'')]), (OpItem 59, [Blank 32])]"

theorem tokenize_roundtrip_witness:
  "\<exists>ts. tokenize (source_text demo_source) = Inr ts
    \<and> map (\<lambda>t. (ttype t, tvalue t)) ts = map (item_token \<circ> fst) demo_source"
proof (rule tokenize_roundtrip)
  show "\<forall>(it, gs) \<in> set demo_source. item_ok it \<and> gs \<noteq> [] \<and> (\<forall>g \<in> set gs. gap_ok g)"
    by code_simp
qed

lemma at_rest_unicode:
  assumes r: "at_rest src st (92 # 117 # a # b # c # d # rest)" and q: "q \<in> {39, 34, 96}"
    and v: "parseInt16 [a, b, c, d] = Some v" "0 \<le> v" "v \<le> 65535"
  shows "\<exists>st'. string_loop src q acc st = string_loop src q (acc @ [d]) st' \<and> at_rest src st' rest"
proof -
  have r1: "at_rest src (advance src 1 st) (117 # a # b # c # d # rest)"
    using at_rest_next[OF r] by simp
  have "at_rest src (advance src 4 (advance src 1 st)) (d # rest)"
    using at_rest_advance[of src _ "[117, a, b, c]" "d # rest" 4] r1 by simp
  moreover have "advance src 4 ((advance src 1 st)\<lparr>cur := x\<rparr>) = advance src 4 (advance src 1 st)" for x
    by (simp add: advance_def Let_def)
  moreover have "take 4 (drop (pos (advance src 1 st) + 1) src) = [a, b, c, d]"
    unfolding at_rest_tail[OF r1] by simp
  ultimately have e: "escape src 117 (advance src 1 st) = Inr (advance src 4 (advance src 1 st))"
    and r2: "at_rest src (advance src 4 (advance src 1 st)) (d # rest)"
    using v by (simp_all add: escape_def Let_def)
  have "string_loop src q acc st = string_loop src q (acc @ [d]) (advance src 1 (advance src 4 (advance src 1 st)))"
    using at_rest_cur[OF r] at_rest_cur[OF r1] at_rest_cur[OF r2] e q
    by (subst string_loop.simps) (auto simp: consume_def)
  with at_rest_next[OF r2] show ?thesis by auto
qed

lemma at_rest_comment:
  assumes "at_rest src st (xs @ 42 # rest)" "42 \<notin> set xs" "47 \<notin> set xs"
  shows "at_rest src (skip_while (\<lambda>st. cur st \<noteq> Some 42 \<and> peek src st \<noteq> Some 47) src st) (42 # rest)"
  using assms
proof (induction xs arbitrary: st)
  case Nil
  then show ?case by (subst skip_while.simps) (auto simp: at_rest_def)
next
  case (Cons c xs)
  have "at_rest src (advance src 1 st) (xs @ 42 # rest)" using at_rest_next Cons.prems(1) by simp
  moreover have "hd (xs @ 42 # rest) \<noteq> 47" using Cons.prems(3) by (cases xs) auto
  ultimately show ?case
    using Cons.IH Cons.prems at_rest_cur[of src st c "xs @ 42 # rest"] at_rest_peek[of src st c "xs @ 42 # rest"]
    by (subst skip_while.simps) simp
qed

lemma parseInt16_digits:
  assumes "a \<in> {48..57}" "b \<in> {48..57}" "c \<in> {48..57}" "d \<in> {48..57}"
  shows "\<exists>v. parseInt16 [a, b, c, d] = Some v \<and> 0 \<le> v \<and> v \<le> 65535"
  using assms by (auto simp: parseInt16_def js_white_def hex_digit_def Let_def)

text \<open>
  Two escapes of the language are not read. A string that consists of a Unicode escape of four
  digits becomes its last digit, because the cursor is moved over the digits after the character
  has been set; and a block comment that ends the source is reported as unterminated.
\<close>

theorem escape_and_comment_misread:
  assumes "a \<in> {48..57}" "b \<in> {48..57}" "c \<in> {48..57}" "d \<in> {48..57}"
    "42 \<notin> set xs" "47 \<notin> set xs"
  shows "tokenize [39, 92, 117, a, b, c, d, 39] = Inr [Token ''string'' (begin_cursor [39]) (VStr [d])]
    \<and> tokenize ([47, 42] @ xs @ [42, 47]) = Inl UnterminatedComment"
proof (rule conjI)
  let ?src = "[39, 92, 117, a, b, c, d, 39]"
  have r: "at_rest ?src (begin_cursor ?src) (39 # 92 # 117 # a # b # c # d # [39])" using at_rest_begin[of ?src] by simp
  obtain v where "parseInt16 [a, b, c, d] = Some v" "0 \<le> v" "v \<le> 65535"
    using parseInt16_digits[OF assms(1-4)] by blast
  from at_rest_unicode[OF at_rest_next[OF r], of 39, OF _ this, of "[]"] obtain st' where
    "string_loop ?src 39 [] (advance ?src 1 (begin_cursor ?src)) = string_loop ?src 39 [d] st'" "at_rest ?src st' [39]"
    by auto
  moreover have "string_loop ?src 39 [d] st' = Inr ([d], st')"
    using at_rest_cur[OF calculation(2)] by (subst string_loop.simps) simp
  ultimately have "tokenize ?src = tokenize_loop ?src [Token ''string'' (begin_cursor ?src) (VStr [d])] (advance ?src 1 st')"
    using at_rest_cur[OF r] unfolding tokenize_def
    by (subst tokenize_loop.simps) (simp add: char_classes)
  also have "\<dots> = Inr [Token ''string'' (begin_cursor ?src) (VStr [d])]"
    using at_rest_end[OF at_rest_next[OF \<open>at_rest ?src st' [39]\<close>]] by (subst tokenize_loop.simps) simp
  finally show "tokenize ?src = Inr [Token ''string'' (begin_cursor [39]) (VStr [d])]"
    by (simp add: begin_cursor_def Token_def)
next
  let ?src = "47 # 42 # xs @ [42, 47]"
  have r: "at_rest ?src (begin_cursor ?src) ?src" by (rule at_rest_begin)
  have "at_rest ?src (advance ?src 2 (begin_cursor ?src)) (xs @ [42, 47])"
    using at_rest_advance[of ?src "begin_cursor ?src" "[47, 42]" "xs @ [42, 47]" 2] r by simp
  from at_rest_comment[OF this assms(5,6)]
  have "at_rest ?src (advance ?src 2 (skip_while (\<lambda>st. cur st \<noteq> Some 42 \<and> peek ?src st \<noteq> Some 47) ?src
      (advance ?src 2 (begin_cursor ?src)))) []"
    by (intro at_rest_advance[where xs = "[42, 47]"]) simp_all
  from at_rest_end[OF this] at_rest_cur[OF r] at_rest_peek[OF r] have "tokenize ?src = Inl UnterminatedComment"
    unfolding tokenize_def by (subst tokenize_loop.simps) (simp add: char_classes Let_def)
  then show "tokenize ([47, 42] @ xs @ [42, 47]) = Inl UnterminatedComment" by simp
qed

theorem escape_and_comment_misread_witness:
  "tokenize [39, 92, 117, 48, 48, 52, 49, 39] = Inr [Token ''string'' (begin_cursor [39]) (VStr [49])]
   \<and> tokenize (units ''/*x*/'') = Inl UnterminatedComment"
  using escape_and_comment_misread[of 48 48 52 49 "units ''x''"] by (simp add: units_def)

end
