(* ===== verification/ControlParser.thy ===== *)
theory ControlParser
  imports Tokenizer
begin

text \<open>
  The parser of control statements: the recursive descent parser of \<open>loader/lib/Parser.js\<close> and the
  grammar that \<open>loader/lib/control_file.js\<close> builds with it. The grammar has no cycles, so a
  nonterminal object is the finite tree of its members; the number of a node, which nothing reads,
  is left out. \<open>toUpper\<close> stands for the Unicode tables behind \<open>toUpperCase\<close>.
\<close>

section \<open>Symbols and trees\<close>

datatype kind = Series | Alts | Option | Several

datatype sym =
    Term string
  | NonTerminal (visitorFunc: "string option") (kind: kind) (members: "sym list")
  | Unset

datatype tree =
    Leaf token
  | Node "string option" "tree option list"

definition strict :: "kind \<Rightarrow> bool" where
  "strict k = (case k of Series \<Rightarrow> True | Alts \<Rightarrow> True | Option \<Rightarrow> False | Several \<Rightarrow> False)"

definition strict_sym :: "sym \<Rightarrow> bool" where
  "strict_sym m = (case m of Term _ \<Rightarrow> True | NonTerminal _ k _ \<Rightarrow> strict k | Unset \<Rightarrow> False)"

definition ebnf :: "kind \<Rightarrow> string \<times> string \<times> string" where
  "ebnf k = (case k of Series \<Rightarrow> ('''', '''', '''') | Alts \<Rightarrow> (''('', ''| '', '')'')
     | Option \<Rightarrow> (''['', '''', '']'') | Several \<Rightarrow> (''{'', '''', ''}''))"

fun describe :: "sym \<Rightarrow> string" and describe_members :: "string \<Rightarrow> bool \<Rightarrow> sym list \<Rightarrow> string" where
  "describe (Term s) = s"
| "describe (NonTerminal v k ms) =
     (case ebnf k of (a, sep, b) \<Rightarrow> a @ '' '' @ describe_members sep False ms @ b)"
| "describe Unset = ''''"
| "describe_members sep later [] = ''''"
| "describe_members sep later (m # ms) =
     (if later then sep else '''') @ describe m @ '' '' @ describe_members sep True ms"

text \<open>
  The outcome of an evaluation: a tree or null with the index of the next token, a failure of the
  parser at a token, another exception, or a loop that never ends.
\<close>

datatype 'a outcome =
    Parsed 'a nat
  | Fails nat string
  | Throws js_error
  | Diverges

section \<open>Evaluation\<close>

definition token_matches :: "(ustr \<Rightarrow> ustr) \<Rightarrow> token \<Rightarrow> string \<Rightarrow> bool" where
  "token_matches toUpper t s \<longleftrightarrow> ''{'' @ ttype t @ ''}'' = s
     \<or> tvalue t = VStr (units s)
     \<or> (case tvalue t of VStr v \<Rightarrow> toUpper v = toUpper (units s) | VNum _ \<Rightarrow> False)"

definition omap :: "('a \<Rightarrow> 'b) \<Rightarrow> 'a outcome \<Rightarrow> 'b outcome" where
  "omap f r = (case r of Parsed x i \<Rightarrow> Parsed (f x) i
     | Fails i s \<Rightarrow> Fails i s | Throws e \<Rightarrow> Throws e | Diverges \<Rightarrow> Diverges)"

definition expect :: "bool \<Rightarrow> sym \<Rightarrow> tree option outcome \<Rightarrow> tree option outcome" where
  "expect st m r = (case r of
     Parsed None i \<Rightarrow> if st then Fails i (''Expected '' @ describe m) else r
   | _ \<Rightarrow> r)"

text \<open>
  \<open>eval\<close> is \<open>Parser.evaluate\<close>, and the others are \<open>evalSeries\<close>, \<open>evalAlternates\<close> and \<open>evalSeveral\<close>.
  A series returns its children when one of them at least is not null. The loop of \<open>evalSeveral\<close>
  runs forever when its inner series matches without moving on.
\<close>

function (sequential)
  eval :: "(ustr \<Rightarrow> ustr) \<Rightarrow> token list \<Rightarrow> sym \<Rightarrow> bool \<Rightarrow> nat \<Rightarrow> tree option outcome" and
  evalSeries :: "(ustr \<Rightarrow> ustr) \<Rightarrow> token list \<Rightarrow> bool \<Rightarrow> sym list \<Rightarrow> nat \<Rightarrow> tree option list \<Rightarrow> nat
    \<Rightarrow> tree option list option outcome" and
  evalAlternates :: "(ustr \<Rightarrow> ustr) \<Rightarrow> token list \<Rightarrow> sym list \<Rightarrow> nat \<Rightarrow> tree option outcome" and
  evalSeveral :: "(ustr \<Rightarrow> ustr) \<Rightarrow> token list \<Rightarrow> string option \<Rightarrow> sym list \<Rightarrow> tree option list \<Rightarrow> nat
    \<Rightarrow> tree option list outcome"
where
  "eval up ts m st i = (case js_get ts i of None \<Rightarrow> Parsed None i | Some t \<Rightarrow>
     expect st m (case m of
       Term s \<Rightarrow> if token_matches up t s then Parsed (Some (Leaf t)) (i + 1) else Parsed None i
     | Unset \<Rightarrow> Throws (ErrorMsg ''UNDEF EVAL'')
     | NonTerminal v k ms \<Rightarrow> (case k of
         Alts \<Rightarrow> omap (map_option (\<lambda>x. Node v [Some x])) (evalAlternates up ts ms i)
       | Several \<Rightarrow> omap (\<lambda>cs. if cs = [] then None else Some (Node v cs)) (evalSeveral up ts v ms [] i)
       | _ \<Rightarrow> omap (map_option (Node v)) (evalSeries up ts (strict k) ms 0 [] i))))"
| "evalSeries up ts st [] s cs i =
     (if cs = [] then Throws TypeError else Parsed (if s = 0 then None else Some cs) i)"
| "evalSeries up ts st (m # ms) s cs i =
     (case eval up ts m (st \<and> strict_sym m \<and> s > 0) i of
        Parsed r i' \<Rightarrow>
          (let s' = (if r = None then s else s + 1); cs' = cs @ [r] in
           if r = None \<and> strict_sym m then Parsed (if s' = 0 then None else Some cs') i'
           else evalSeries up ts st ms s' cs' i')
      | Fails a b \<Rightarrow> Fails a b | Throws e \<Rightarrow> Throws e | Diverges \<Rightarrow> Diverges)"
| "evalAlternates up ts [] i = Parsed None i"
| "evalAlternates up ts (m # ms) i = (case eval up ts m False i of
        Parsed None i' \<Rightarrow> evalAlternates up ts ms i'
      | r \<Rightarrow> r)"
| "evalSeveral up ts v ms acc i = (case evalSeries up ts False ms 0 [] i of
        Parsed None i' \<Rightarrow> Parsed acc i'
      | Parsed (Some cs) i' \<Rightarrow>
          if i < i' \<and> i' \<le> length ts then evalSeveral up ts v ms (acc @ [Some (Node v cs)]) i'
          else Diverges
      | Fails a b \<Rightarrow> Fails a b | Throws e \<Rightarrow> Throws e | Diverges \<Rightarrow> Diverges)"
  by pat_completeness auto
termination
  by (relation "inv_image (less_than <*lex*> less_than) (\<lambda>x. case x of
      Inl (Inl (up, ts, m, st, i)) \<Rightarrow> (2 * size m, 0)
    | Inl (Inr (up, ts, st, ms, s, cs, i)) \<Rightarrow> (2 * size_list size ms, 0)
    | Inr (Inl (up, ts, ms, i)) \<Rightarrow> (2 * size_list size ms, 0)
    | Inr (Inr (up, ts, v, ms, acc, i)) \<Rightarrow> (Suc (2 * size_list size ms), length ts - i))") auto

declare eval.simps [simp del] evalSeries.simps [simp del] evalAlternates.simps [simp del]
  evalSeveral.simps [simp del]

definition parse_statement :: "(ustr \<Rightarrow> ustr) \<Rightarrow> sym \<Rightarrow> token list \<Rightarrow> tree option outcome" where
  "parse_statement up g ts =
     (if ts = [] then Parsed None 0
      else case eval up ts g False 0 of
        Parsed r i \<Rightarrow> if i < length ts then Fails i ''Extra text after parsed statement.''
                      else Parsed r (tline (last ts))
      | r \<Rightarrow> r)"

section \<open>Every match consumes a token\<close>

definition matched :: "'a option \<Rightarrow> bool" where
  "matched r \<longleftrightarrow> r \<noteq> None"

definition nonempty :: "'a list \<Rightarrow> bool" where
  "nonempty xs \<longleftrightarrow> xs \<noteq> []"

lemma matched_simps [simp]:
  "\<not> matched None" "matched (Some x)" "matched (map_option f r) = matched r"
  "nonempty (xs @ [x])" "\<not> nonempty []"
  "matched (if xs = [] then None else Some (g xs)) = nonempty xs"
  by (simp_all add: matched_def nonempty_def)

text \<open>
  The contract of an evaluation that starts at \<open>i\<close> and returns at \<open>i'\<close>: it does not go back or past
  the end, and it has matched something, \<open>b\<close>, exactly when it has moved on.
\<close>

definition progress :: "nat \<Rightarrow> nat \<Rightarrow> bool \<Rightarrow> nat \<Rightarrow> bool" where
  "progress n i b i' \<longleftrightarrow> i \<le> i' \<and> (i \<le> n \<longrightarrow> i' \<le> n) \<and> (b \<longleftrightarrow> i < i')"

definition sound :: "nat \<Rightarrow> nat \<Rightarrow> ('a \<Rightarrow> bool) \<Rightarrow> 'a outcome \<Rightarrow> bool" where
  "sound n i b r = (case r of Parsed x i' \<Rightarrow> progress n i (b x) i' | Diverges \<Rightarrow> False | _ \<Rightarrow> True)"

lemma sound_simps [simp]:
  "sound n i b (Parsed x i') = progress n i (b x) i'"
  "sound n i b (Fails a s)" "sound n i b (Throws e)" "\<not> sound n i b Diverges"
  by (simp_all add: sound_def)

lemma progress_trans:
  "progress n i b i' \<Longrightarrow> progress n i' b' i'' \<Longrightarrow> progress n i (b \<or> b') i''"
  by (auto simp: progress_def)

lemma sound_expect: "sound n i matched r \<Longrightarrow> sound n i matched (expect st m r)"
  by (auto simp: expect_def sound_def progress_def split: outcome.splits option.splits)

lemma sound_omap: "sound n i b r \<Longrightarrow> (\<And>x. b' (f x) = b x) \<Longrightarrow> sound n i b' (omap f r)"
  by (cases r) (simp_all add: omap_def)

lemma eval_progress:
  "sound (length ts) i matched (eval up ts m st i)"
  "(s = 0 \<longrightarrow> i0 = i) \<Longrightarrow> progress (length ts) i0 (s > 0) i \<Longrightarrow>
     sound (length ts) i0 matched (evalSeries up ts st ms s cs i)"
  "sound (length ts) i matched (evalAlternates up ts ms i)"
  "progress (length ts) i0 (nonempty acc) i \<Longrightarrow> i \<le> length ts \<Longrightarrow>
     sound (length ts) i0 nonempty (evalSeveral up ts v ms acc i)"
proof (induction up ts m st i and up ts st ms s cs i and up ts ms i and up ts v ms acc i
    arbitrary: and i0 and and i0 rule: eval_evalSeries_evalAlternates_evalSeveral.induct)
  case (1 up ts m st i)
  show ?case
  proof (cases "js_get ts i")
    case None
    then show ?thesis by (simp add: eval.simps progress_def)
  next
    case (Some t)
    then have i: "i < length ts" by (simp add: js_get_Some_iff)
    show ?thesis
    proof (cases m)
      case (NonTerminal v k ms)
      show ?thesis
      proof (cases k)
        case Alts
        with 1(2)[OF Some NonTerminal] show ?thesis using i
          by (subst eval.simps) (auto simp: Some NonTerminal intro!: sound_expect elim!: sound_omap)
      next
        case Several
        have "sound (length ts) i nonempty (evalSeveral up ts v ms [] i)"
          using 1(4)[OF Some NonTerminal Several] i by (simp add: progress_def)
        with Several show ?thesis
          by (subst eval.simps) (auto simp: Some NonTerminal intro!: sound_expect elim!: sound_omap)
      next
        case Series
        have "sound (length ts) i matched (evalSeries up ts (strict k) ms 0 [] i)"
          using 1(1)[OF Some NonTerminal] Series i by (simp add: progress_def)
        with Series show ?thesis
          by (subst eval.simps) (auto simp: Some NonTerminal intro!: sound_expect elim!: sound_omap)
      next
        case Option
        have "sound (length ts) i matched (evalSeries up ts (strict k) ms 0 [] i)"
          using 1(3)[OF Some NonTerminal] Option i by (simp add: progress_def)
        with Option show ?thesis
          by (subst eval.simps) (auto simp: Some NonTerminal intro!: sound_expect elim!: sound_omap)
      qed
    qed (use Some i in \<open>subst eval.simps, auto simp: progress_def intro!: sound_expect\<close>)+
  qed
next
  case (2 up ts st s cs i)
  then show ?case by (subst evalSeries.simps) (auto simp: progress_def)
next
  case (3 up ts st m ms s cs i)
  have IH: "sound (length ts) i matched (eval up ts m (st \<and> strict_sym m \<and> 0 < s) i)" by (rule 3(1))
  show ?case
  proof (cases "eval up ts m (st \<and> strict_sym m \<and> 0 < s) i")
    case (Parsed r i')
    with IH have p: "progress (length ts) i (matched r) i'" by simp
    with 3(3,4) have p': "progress (length ts) i0 (0 < (if r = None then s else s + 1)) i'"
      "(if r = None then s else s + 1) = 0 \<longrightarrow> i0 = i'"
      by (auto simp: progress_def matched_def)
    show ?thesis
    proof (cases "r = None \<and> strict_sym m")
      case True
      with p' Parsed show ?thesis by (subst evalSeries.simps) (auto simp: Let_def)
    next
      case False
      from 3(2)[OF Parsed refl refl False p'(2,1)] False Parsed show ?thesis
        by (subst evalSeries.simps) (auto simp: Let_def)
    qed
  qed (use IH in \<open>subst evalSeries.simps, simp\<close>)+
next
  case (4 up ts i)
  then show ?case by (subst evalAlternates.simps) (simp add: progress_def)
next
  case (5 up ts m ms i)
  then show ?case
    by (subst evalAlternates.simps) (auto simp: progress_def split: outcome.splits option.splits)
next
  case (6 up ts v ms acc i)
  then show ?case
    by (subst evalSeveral.simps) (auto simp: progress_def split: outcome.splits option.splits)
qed

section \<open>Statements that are cut short\<close>

text \<open>
  \<open>cut k r r'\<close> relates an evaluation on a list of tokens to the one on its first \<open>k\<close> tokens: the
  same as long as it stays within them, and else it just stops at their end.
\<close>

definition cut :: "nat \<Rightarrow> 'a outcome \<Rightarrow> 'a outcome \<Rightarrow> bool" where
  "cut k r r' = (case r of Parsed x i' \<Rightarrow> if i' \<le> k then r' = r else (\<exists>x'. r' = Parsed x' k) | _ \<Rightarrow> True)"

lemma cut_simps [simp]:
  "cut k (Fails a b) r'" "cut k (Throws e) r'" "cut k Diverges r'"
  "cut k (Parsed x i') r' = (if i' \<le> k then r' = Parsed x i' else (\<exists>x'. r' = Parsed x' k))"
  by (simp_all add: cut_def)

lemma cut_omap: "cut k r r' \<Longrightarrow> cut k (omap f r) (omap f r')"
  by (cases r) (auto simp: omap_def split: if_splits)

lemma eval_end: "length ts \<le> i \<Longrightarrow> eval up ts m st i = Parsed None i"
  by (subst eval.simps) (simp add: js_get_def)

lemma evalSeries_end:
  "length ts \<le> i \<Longrightarrow> ms \<noteq> [] \<or> cs \<noteq> [] \<Longrightarrow>
   \<exists>r. evalSeries up ts st ms s cs i = Parsed r i \<and> (matched r \<longleftrightarrow> s > 0)"
proof (induction ms arbitrary: s cs)
  case (Cons m ms)
  then show ?case by (subst evalSeries.simps) (simp add: eval_end Let_def)
qed (subst evalSeries.simps, simp)

lemma evalAlternates_end: "length ts \<le> i \<Longrightarrow> evalAlternates up ts ms i = Parsed None i"
  by (induction ms) (subst evalAlternates.simps, simp add: eval_end)+

lemma evalSeveral_end:
  "length ts \<le> i \<Longrightarrow> ms \<noteq> [] \<Longrightarrow> evalSeveral up ts v ms acc i = Parsed acc i"
  using evalSeries_end[of ts i ms "[]" up False 0]
  by (subst evalSeveral.simps) (auto simp: matched_def)

lemma eval_expect:
  "eval up ts m st i = (if i < length ts then expect st m (eval up ts m False i) else Parsed None i)"
proof (cases "i < length ts")
  case True
  have e: "expect False m r = r" for r
    by (auto simp: expect_def split: outcome.splits option.splits)
  show ?thesis
    using True by (subst (1 2) eval.simps) (simp add: js_get_def e)
qed (simp add: eval_end)

lemma evalSeries_mono: "evalSeries up ts st ms s cs i = Parsed r i' \<Longrightarrow> i \<le> i'"
proof (induction ms arbitrary: s cs i)
  case Nil
  then show ?case by (subst (asm) evalSeries.simps) (auto split: if_splits)
next
  case (Cons m ms)
  let ?b = "st \<and> strict_sym m \<and> 0 < s"
  have "sound (length ts) i matched (eval up ts m ?b i)" by (rule eval_progress)
  with Cons.prems Cons.IH show ?case
    by (cases "eval up ts m ?b i"; subst (asm) evalSeries.simps)
      (fastforce simp: Let_def progress_def split: if_splits)+
qed

lemma evalSeveral_mono: "evalSeveral up ts v ms acc i = Parsed y j \<Longrightarrow> i \<le> j"
proof (induction "length ts - i" arbitrary: i acc rule: less_induct)
  case less
  show ?case
  proof (cases "evalSeries up ts False ms 0 [] i")
    case (Parsed r i')
    note mono = evalSeries_mono[OF this]
    show ?thesis
    proof (cases r)
      case None
      with less(2) Parsed mono show ?thesis by (simp add: evalSeveral.simps[of up ts v ms acc])
    next
      case (Some x)
      with less(2) Parsed have "i < i'" "i' \<le> length ts"
        "evalSeveral up ts v ms (acc @ [Some (Node v x)]) i' = Parsed y j"
        by (simp_all add: evalSeveral.simps[of up ts v ms acc] split: if_splits)
      with less(1)[of i' "acc @ [Some (Node v x)]"] show ?thesis by linarith
    qed
  qed (use less(2) in \<open>simp_all add: evalSeveral.simps[of up ts v ms acc]\<close>)
qed

lemma eval_cut:
  assumes k: "k \<le> length ts"
  shows
  "i \<le> k \<Longrightarrow> cut k (eval up ts m st i) (eval up (take k ts) m st i)"
  "i \<le> k \<Longrightarrow> s > 0 \<longrightarrow> 0 < i \<Longrightarrow> cut k (evalSeries up ts st ms s cs i) (evalSeries up (take k ts) st ms s cs i)"
  "i \<le> k \<Longrightarrow> cut k (evalAlternates up ts ms i) (evalAlternates up (take k ts) ms i)"
  "i \<le> k \<Longrightarrow> cut k (evalSeveral up ts v ms acc i) (evalSeveral up (take k ts) v ms acc i)"
  using k
proof (induction up ts m st i and up ts st ms s cs i and up ts ms i and up ts v ms acc i
    rule: eval_evalSeries_evalAlternates_evalSeveral.induct)
  case (1 up ts m st i)
  let ?p = "take k ts"
  have lp: "length ?p = k" using 1(6) by simp
  show ?case
  proof (cases "i = k")
    case True
    with lp eval_end[of ?p i] have "eval up ?p m st i = Parsed None i" by simp
    moreover have "sound (length ts) i matched (eval up ts m st i)" by (rule eval_progress)
    ultimately show ?thesis
      using True by (cases "eval up ts m st i") (auto simp: progress_def matched_def)
  next
    case False
    with 1(5,6) have i: "i < k" "i < length ts" by simp_all
    then obtain t where t: "js_get ts i = Some t" "js_get ?p i = Some t" by (simp add: js_get_def)
    have c: "cut k (eval up ts m False i) (eval up ?p m False i)"
    proof (cases m)
      case (NonTerminal v kd ms)
      have e: "expect False m r = r" for r m
        by (auto simp: expect_def split: outcome.splits option.splits)
      show ?thesis
        using 1(1-4)[OF t(1) NonTerminal] i 1(6) NonTerminal t
        by (subst (1 2) eval.simps) (cases kd; simp add: e cut_omap)
    qed (use i t in \<open>(subst eval.simps)+, auto simp: expect_def split: if_splits\<close>)+
    have "sound (length ?p) i matched (eval up ?p m False i)" by (rule eval_progress)
    then show ?thesis
      using c i lp unfolding eval_expect[of up ts m st] eval_expect[of up ?p m st]
      by (cases "eval up ts m False i")
        (auto simp: expect_def progress_def matched_def split: if_splits option.splits)
  qed
next
  case (2 up ts st s cs i)
  then show ?case by (subst (1 2) evalSeries.simps) simp
next
  case (3 up ts st m ms s cs i)
  let ?p = "take k ts" and ?b = "st \<and> strict_sym m \<and> 0 < s"
  have lp: "length ?p = k" using 3(5) by simp
  have c: "cut k (eval up ts m ?b i) (eval up ?p m ?b i)" using 3(1)[OF 3(3,5)] .
  show ?case
  proof (cases "eval up ts m ?b i")
    case (Parsed r i')
    let ?s = "if r = None then s else s + 1"
    have pr: "progress (length ts) i (matched r) i'" using eval_progress(1)[of ts i up m ?b] Parsed by simp
    show ?thesis
    proof (cases "i' \<le> k")
      case le: True
      with c Parsed have p: "eval up ?p m ?b i = Parsed r i'" by simp
      show ?thesis
      proof (cases "r = None \<and> strict_sym m")
        case True
        with Parsed p le show ?thesis by (subst (1 2) evalSeries.simps) (auto simp: Let_def)
      next
        case F: False
        have s: "0 < ?s \<longrightarrow> 0 < i'" using pr 3(4) by (auto simp: progress_def matched_def split: if_splits)
        from 3(2)[OF Parsed refl refl F le s 3(5)] F Parsed p show ?thesis
          by (subst (1 2) evalSeries.simps) (auto simp: Let_def)
      qed
    next
      case False
      with c Parsed obtain r' where p: "eval up ?p m ?b i = Parsed r' k" by auto
      have "\<exists>x. evalSeries up ?p st (m # ms) s cs i = Parsed x k"
        using p evalSeries_end[of ?p k ms "cs @ [r']" up st] lp
        by (subst evalSeries.simps) (auto simp: Let_def)
      moreover have "k < j" if "evalSeries up ts st (m # ms) s cs i = Parsed x j" for x j
      proof -
        have "r \<noteq> None" using pr False 3(3) by (auto simp: progress_def matched_def)
        with that Parsed have "evalSeries up ts st ms (Suc s) (cs @ [r]) i' = Parsed x j"
          by (subst (asm) evalSeries.simps) (auto simp: Let_def)
        from evalSeries_mono[OF this] pr False 3(3,5) show ?thesis by (auto simp: progress_def)
      qed
      ultimately show ?thesis
        by (cases "evalSeries up ts st (m # ms) s cs i") force+
    qed
  qed (subst evalSeries.simps, simp)+
next
  case (4 up ts i)
  then show ?case by (subst (1 2) evalAlternates.simps) simp
next
  case (5 up ts m ms i)
  let ?p = "take k ts"
  have lp: "length ?p = k" using 5(4) by simp
  have c: "cut k (eval up ts m False i) (eval up ?p m False i)" using 5(1)[OF 5(3,4)] .
  show ?case
  proof (cases "eval up ts m False i")
    case (Parsed r i')
    have pr: "progress (length ts) i (matched r) i'" using eval_progress(1)[of ts i up m False] Parsed by simp
    show ?thesis
    proof (cases r)
      case None
      with pr have "i' = i" by (auto simp: progress_def)
      with 5(2)[OF Parsed None] 5(3,4) c Parsed None show ?thesis
        by (subst (1 2) evalAlternates.simps) simp
    next
      case (Some x)
      with c Parsed show ?thesis
        using evalAlternates_end[of ?p k up ms] lp
        by (subst (1 2) evalAlternates.simps) (auto split: if_splits option.splits)
    qed
  qed (subst evalAlternates.simps, simp)+
next
  case (6 up ts v ms acc i)
  let ?p = "take k ts"
  have lp: "length ?p = k" using 6(4) by simp
  have c: "cut k (evalSeries up ts False ms 0 [] i) (evalSeries up ?p False ms 0 [] i)"
    using 6(1)[OF 6(3) _ 6(4)] by simp
  show ?case
  proof (cases "evalSeries up ts False ms 0 [] i")
    case (Parsed r i')
    have pr: "progress (length ts) i (matched r) i'" using eval_progress(2)[of 0 i i ts up False ms "[]"] Parsed
      by (simp add: progress_def)
    have pp: "sound (length ?p) i matched (evalSeries up ?p False ms 0 [] i)"
      by (rule eval_progress) (simp_all add: progress_def)
    have ms: "ms \<noteq> []" using Parsed by (auto simp: evalSeries.simps(1))
    show ?thesis
    proof (cases r)
      case None
      with pr have "i' = i" by (auto simp: progress_def)
      with c Parsed None 6(3) show ?thesis by (subst (1 2) evalSeveral.simps) simp
    next
      case (Some x)
      with pr have i': "i < i'" by (simp add: progress_def)
      show ?thesis
      proof (cases "i' \<le> k")
        case True
        with 6(2)[OF Parsed Some _ True 6(4)] c Parsed Some i' lp 6(4) show ?thesis
          by (subst (1 2) evalSeveral.simps) simp
      next
        case False
        with c Parsed obtain r' where p: "evalSeries up ?p False ms 0 [] i = Parsed r' k" by auto
        have "\<exists>x. evalSeveral up ?p v ms acc i = Parsed x k"
        proof (cases r')
          case None
          then show ?thesis using p by (subst evalSeveral.simps) simp
        next
          case (Some y)
          with p pp have "i < k" by (simp add: progress_def)
          with p Some lp evalSeveral_end[of ?p k ms up v] ms show ?thesis
            by (subst evalSeveral.simps) simp
        qed
        moreover have "k < j" if "evalSeveral up ts v ms acc i = Parsed y j" for y j
        proof -
          have n: "i' \<le> length ts \<and> evalSeveral up ts v ms (acc @ [Some (Node v x)]) i' = Parsed y j"
            using that unfolding evalSeveral.simps[of up ts v ms acc] Parsed Some
            by (simp split: if_splits)
          then have "i' \<le> j" using evalSeveral_mono by blast
          then show ?thesis using False by simp
        qed
        ultimately show ?thesis
          by (cases "evalSeveral up ts v ms acc i") force+
      qed
    qed
  qed (subst evalSeveral.simps, simp)+
qed

section \<open>The grammar of control statements\<close>

text \<open>
  The productions of \<open>control_file.js\<close>, each with the visitor function that its nonterminal was
  declared with, in an order in which every member is defined before its use.
\<close>

definition DataJSON :: sym where
  "DataJSON = NonTerminal (Some ''visitDataJSON'') Series
    [Term ''JSON'']"

definition DataCSV :: sym where
  "DataCSV = NonTerminal (Some ''visitDataCSV'') Series
    [Term ''CSV'']"

definition CommonDataFormat :: sym where
  "CommonDataFormat = NonTerminal (Some ''visitCommonDataFormat'') Alts
    [DataJSON, DataCSV]"

definition RandomData :: sym where
  "RandomData = NonTerminal (Some ''visitRandomData'') Series
    [Term ''RANDOM'', Term ''DATA'']"

definition IgnoredOptions :: sym where
  "IgnoredOptions = NonTerminal (Some ''visitIgnoredOptions'') Alts
    [Term ''LOCAL'', Term ''CONCURRENT'', Term ''LOW_PRIORITY'']"

definition FileData :: sym where
  "FileData = NonTerminal (Some ''visitFileData'') Series
    [Term ''INFILE'', Term ''{string}'']"

definition SpecificData :: sym where
  "SpecificData = NonTerminal (Some ''visitSpecificData'') Series
    [Term ''DATA'', NonTerminal None Option [IgnoredOptions],
     NonTerminal None Option [FileData]]"

definition DataSource :: sym where
  "DataSource = NonTerminal (Some ''visitDataSource'') Alts
    [RandomData, SpecificData]"

definition LogSpec :: sym where
  "LogSpec = NonTerminal (Some ''visitLogSpec'') Series
    [Term ''BADFILE'', Term ''{string}'']"

definition InsertMode :: sym where
  "InsertMode = NonTerminal (Some ''visitInsertMode'') Alts
    [Term ''INSERT'', Term ''REPLACE'', Term ''APPEND'', Term ''TRUNCATE'', Term ''IGNORE'']"

definition StringOrName :: sym where
  "StringOrName = NonTerminal (Some ''visitStringOrName'') Alts
    [Term ''{string}'', Term ''{name}'']"

definition SQLObject :: sym where
  "SQLObject = NonTerminal (Some ''visitSQLObject'') Series
    [StringOrName, NonTerminal None Option [Term ''.'', StringOrName]]"

definition Destination :: sym where
  "Destination = NonTerminal (Some ''visitDestination'') Series
    [Term ''INTO'', Term ''TABLE'', SQLObject]"

definition Charset :: sym where
  "Charset = NonTerminal (Some ''visitCharset'') Series
    [Term ''CHARACTER'', Term ''SET'', StringOrName]"

definition FieldSepOpt :: sym where
  "FieldSepOpt = NonTerminal (Some ''visitFieldSepOpt'') Alts
    [Term ''WHITESPACE'', Term ''{string}'']"

definition FieldsSeparated :: sym where
  "FieldsSeparated = NonTerminal (Some ''visitFieldsSeparated'') Series
    [NonTerminal None Alts [Term ''TERMINATED'', Term ''SEPARATED''], Term ''BY'',
     FieldSepOpt]"

definition FieldQuoteOpt :: sym where
  "FieldQuoteOpt = NonTerminal (Some ''visitFieldQuoteOpt'') Series
    [NonTerminal None Option [Term ''OPTIONALLY''], Term ''ENCLOSED'', Term ''BY'',
     Term ''{string}'', NonTerminal None Option [Term ''AND'', Term ''{string}'']]"

definition FieldEscapeOpt :: sym where
  "FieldEscapeOpt = NonTerminal (Some ''visitFieldEscapeOpt'') Series
    [Term ''ESCAPED'', Term ''BY'', Term ''{string}'']"

definition FieldOption :: sym where
  "FieldOption = NonTerminal (Some ''visitFieldOption'') Alts
    [FieldsSeparated, FieldQuoteOpt, FieldEscapeOpt]"

definition FieldSpec :: sym where
  "FieldSpec = NonTerminal (Some ''visitFieldSpec'') Series
    [NonTerminal None Alts [Term ''FIELDS'', Term ''COLUMNS''], FieldOption,
     NonTerminal None Several [FieldOption]]"

definition LineStartSpec :: sym where
  "LineStartSpec = NonTerminal (Some ''visitLineStartSpec'') Series
    [Term ''STARTING'', Term ''BY'', Term ''{string}'']"

definition LineEndSpec :: sym where
  "LineEndSpec = NonTerminal (Some ''visitLineEndSpec'') Series
    [Term ''TERMINATED'', Term ''BY'', Term ''{string}'']"

definition LineSpec :: sym where
  "LineSpec = NonTerminal (Some ''visitLineSpec'') Series
    [Term ''LINES'', NonTerminal None Option [LineStartSpec],
     NonTerminal None Option [LineEndSpec]]"

definition OptComments :: sym where
  "OptComments = NonTerminal (Some ''visitOptComments'') Series
    [Term ''COMMENTS'', Term ''STARTING'', Term ''BY'', Term ''{string}'']"

definition OptAtomic :: sym where
  "OptAtomic = NonTerminal (Some ''visitOptAtomic'') Series
    [Term ''IN'', Term ''ONE'', Term ''TRANSACTION'']"

definition Lines :: sym where
  "Lines = NonTerminal (Some ''visitLines'') Alts
    [Term ''LINE'', Term ''LINES'', Term ''ROW'', Term ''ROWS'']"

definition OptIgnore :: sym where
  "OptIgnore = NonTerminal (Some ''visitOptIgnore'') Series
    [NonTerminal None Alts [Term ''IGNORE'', Term ''SKIP''], Term ''{number}'', Lines]"

definition OptDolines :: sym where
  "OptDolines = NonTerminal (Some ''visitOptDolines'') Series
    [Term ''DO'', Term ''{number}'', Lines]"

definition OptWorker :: sym where
  "OptWorker = NonTerminal (Some ''visitOptWorker'') Series
    [Term ''WORKER'', Term ''{number}'', Term ''OF'', Term ''{number}'']"

definition OptSpeedMeasure :: sym where
  "OptSpeedMeasure = NonTerminal (Some ''visitOptSpeedMeasure'') Series
    [Term ''{number}'',
     NonTerminal None Alts [Term ''KB'', Term ''MB'', Term ''GB'', Term ''ROWS''],
     Term ''PER'', NonTerminal None Alts [Term ''HOUR'', Term ''MINUTE'', Term ''SECOND'',
     Term ''SEC'']]"

definition OptSpeed :: sym where
  "OptSpeed = NonTerminal (Some ''visitOptSpeed'') Series
    [Term ''SPEED'', NonTerminal None Alts [Term ''FAST'', Term ''SLOW'', OptSpeedMeasure]]"

definition Options :: sym where
  "Options = NonTerminal (Some ''visitOptions'') Alts
    [OptComments, OptAtomic, OptIgnore, OptDolines, OptWorker, OptSpeed]"

definition ColumnPosition :: sym where
  "ColumnPosition = NonTerminal (Some ''visitColumnPosition'') Series
    [Term ''POSITION'', Term ''('', Term ''{number}'', Term '':'', Term ''{number}'',
     Term '')'']"

definition ColumnDefn :: sym where
  "ColumnDefn = NonTerminal (Some ''visitColumnDefn'') Series
    [StringOrName, NonTerminal None Option [ColumnPosition]]"

definition ColumnList :: sym where
  "ColumnList = NonTerminal (Some ''visitColumnList'') Series
    [Term ''('', ColumnDefn, NonTerminal None Several [Term '','', ColumnDefn],
     Term '')'']"

definition ColumnsInHeader :: sym where
  "ColumnsInHeader = NonTerminal (Some ''visitColumnsInHeader'') Series
    [Term ''COLUMNS'', Term ''FROM'', Term ''HEADER'']"

definition ColumnListSpec :: sym where
  "ColumnListSpec = NonTerminal (Some ''visitColumnListSpec'') Alts
    [ColumnList, ColumnsInHeader]"

definition BeginData :: sym where
  "BeginData = NonTerminal (Some ''visitBeginData'') Series
    [Term ''BEGINDATA'']"

definition LoadDataStatement :: sym where
  "LoadDataStatement = NonTerminal (Some ''visitLoadDataStatement'') Series
    [Term ''LOAD'', NonTerminal None Option [CommonDataFormat], DataSource,
     NonTerminal None Option [LogSpec], NonTerminal None Option [InsertMode],
     Destination, NonTerminal None Option [Charset],
     NonTerminal None Option [FieldSpec], NonTerminal None Option [LineSpec],
     NonTerminal None Several [Options], NonTerminal None Option [ColumnListSpec],
     NonTerminal None Option [Term '';''], NonTerminal None Option [BeginData]]"

section \<open>Properties\<close>

text \<open>
  C23: Whatever the grammar and the tokens, an evaluation at any token ends: no repetition loops
  forever. It never goes back or past the end of the tokens, and it returns a tree exactly when it
  has consumed a token, so that a null result leaves the parser where it was.
\<close>

theorem evaluation_progresses:
  "case eval up ts m st i of
     Parsed r i' \<Rightarrow> i \<le> i' \<and> (i' \<le> max i (length ts)) \<and> (r = None) = (i' = i)
   | Diverges \<Rightarrow> False
   | _ \<Rightarrow> True"
proof (cases "length ts \<le> i")
  case False
  with eval_progress(1)[of ts i up m st] show ?thesis
    by (auto simp: sound_def progress_def matched_def split: outcome.splits)
qed (simp add: eval_end)

text \<open>
  Every statement that the parser accepts is also accepted when it is cut short after any of its
  tokens, whatever the grammar: the check for a missing symbol is only made when there is a token
  to look at, so at the end of the statement nothing that is required is missed.
\<close>

theorem truncated_statement_accepted:
  assumes "parse_statement up g ts = Parsed r n" "0 < k" "k \<le> length ts"
  shows "\<exists>r' n'. parse_statement up g (take k ts) = Parsed r' n'"
proof -
  have ts: "ts \<noteq> []" using assms(2,3) by auto
  with assms(1) obtain i where e: "eval up ts g False 0 = Parsed r i" "length ts \<le> i"
    by (auto simp: parse_statement_def split: outcome.splits if_splits)
  have "cut k (eval up ts g False 0) (eval up (take k ts) g False 0)"
    using eval_cut(1)[OF assms(3)] by blast
  with e assms(3) obtain x where "eval up (take k ts) g False 0 = Parsed x k"
    by (auto split: if_splits)
  with assms(2,3) ts show ?thesis by (simp add: parse_statement_def)
qed

definition ascii_upper :: "ustr \<Rightarrow> ustr" where
  "ascii_upper s = map (\<lambda>c. if 97 \<le> c \<and> c \<le> 122 then c - 32 else c) s"

definition demo_tokens :: "token list" where
  "demo_tokens = map (\<lambda>(ty, s). \<lparr>ttype = ty, tline = 1, tcolumn = 1, tvalue = VStr (units s)\<rparr>)
     [(''name'', ''LOAD''), (''name'', ''DATA''), (''name'', ''INFILE''), (''string'', ''a.txt''),
      (''name'', ''INTO''), (''name'', ''TABLE''), (''name'', ''t'')]"

lemma demo_parsed: "\<exists>r n. parse_statement ascii_upper LoadDataStatement demo_tokens = Parsed r n"
proof -
  have "case parse_statement ascii_upper LoadDataStatement demo_tokens of Parsed r n \<Rightarrow> True | _ \<Rightarrow> False"
    by code_simp
  then show ?thesis by (auto split: outcome.splits)
qed

theorem truncated_statement_accepted_witness:
  "\<exists>r n. parse_statement ascii_upper LoadDataStatement (take 2 demo_tokens) = Parsed r n"
proof -
  from demo_parsed obtain r n where "parse_statement ascii_upper LoadDataStatement demo_tokens = Parsed r n" by blast
  from truncated_statement_accepted[OF this, of 2] show ?thesis by (simp add: demo_tokens_def)
qed

end
