(* ===== verification/Promises.thy ===== *)
theory Promises
  imports Prelude "HOL-Library.Multiset"
begin

text \<open>
  The promises of \<open>jones-promises/lib/Promise.js\<close>: a heap of promise objects and the queue of
  callbacks that \<open>setImmediate\<close> runs one after the other. What the code calls without knowing it is
  part of the values: a thenable carries the calls its \<open>then\<close> makes before it returns, and the
  resolving functions it was given may be called later, by an event. A callback of the user is a
  function from its argument to what it returns or throws; what else it does to promises is events
  before it. \<open>progress_callbacks\<close> are only ever collected, and are left out.
\<close>

section \<open>Values, callbacks and the heap\<close>

text \<open>
  \<open>Prim t i\<close> is a primitive value other than \<open>undefined\<close>, truthy or not, \<open>Obj\<close> an object or
  function whose \<open>then\<close> is no function, \<open>BadThen e\<close> an object on which reading \<open>then\<close> throws
  \<open>e\<close>, and \<open>Exc\<close> an error made by the code or the language.
\<close>

datatype val =
    Undef
  | Null
  | Prim bool nat
  | Obj nat
  | Exc string
  | Prom nat
  | Thenable "(bool \<times> val) list" "val option"
  | BadThen val

definition truthy :: "val \<Rightarrow> bool" where
  "truthy v = (case v of Undef \<Rightarrow> False | Null \<Rightarrow> False | Prim t _ \<Rightarrow> t | _ \<Rightarrow> True)"

definition is_object :: "val \<Rightarrow> bool" where
  "is_object v = (case v of Undef \<Rightarrow> False | Prim _ _ \<Rightarrow> False | _ \<Rightarrow> True)"

text \<open>
  A callback: none or another falsy value, a value that is not callable, a function of the user, the
  two functions for missing callbacks, and the two resolving functions for a promise.
\<close>

datatype then_callback =
    NoFun
  | NotCallable
  | UserFun "val \<Rightarrow> val + val"
  | EmptyFulfilled
  | EmptyRejected
  | Resolve nat
  | Reject nat

definition is_function :: "then_callback \<Rightarrow> bool" where
  "is_function cb = (case cb of NoFun \<Rightarrow> False | NotCallable \<Rightarrow> False | _ \<Rightarrow> True)"

record promise =
  resolved :: bool
  result :: val
  err :: val
  fulfilled_callbacks :: "(then_callback \<times> nat) list"
  rejected_callbacks :: "(then_callback \<times> nat) list"

datatype task = Task (t_self: nat) (t_callback: then_callback) (t_new: nat) (t_value: val) (t_rejected: bool)

record heap =
  promises :: "promise list"
  tasks :: "task list"
  uncaught :: "val list"

type_synonym effect = "val option \<times> heap"

definition new_promise :: promise where
  "new_promise = \<lparr>resolved = False, result = Undef, err = Undef,
     fulfilled_callbacks = [], rejected_callbacks = []\<rparr>"

definition get_promise :: "heap \<Rightarrow> nat \<Rightarrow> promise" where
  "get_promise h p = (case js_get (promises h) p of None \<Rightarrow> new_promise | Some x \<Rightarrow> x)"

definition set_promise :: "heap \<Rightarrow> nat \<Rightarrow> promise \<Rightarrow> heap" where
  "set_promise h p x = h\<lparr>promises := (promises h)[p := x]\<rparr>"

definition setImmediate :: "task list \<Rightarrow> heap \<Rightarrow> heap" where
  "setImmediate ts h = h\<lparr>tasks := tasks h @ ts\<rparr>"

section \<open>Settling and then\<close>

definition fulfill :: "nat \<Rightarrow> val \<Rightarrow> heap \<Rightarrow> effect" where
  "fulfill p v h =
    (let x = get_promise h p in
     if resolved x
     then (Some (Exc ''Fatal User Exception: fulfill called after fulfill or reject''), h)
     else (None, setImmediate (map (\<lambda>(cb, np). Task p cb np v False) (fulfilled_callbacks x))
       (set_promise h p (x\<lparr>resolved := True, result := v, fulfilled_callbacks := []\<rparr>))))"

definition reject :: "nat \<Rightarrow> val \<Rightarrow> heap \<Rightarrow> effect" where
  "reject p e h =
    (let x = get_promise h p in
     if resolved x
     then (Some (Exc ''Fatal User Exception: reject called after fulfill or reject''), h)
     else (None, setImmediate (map (\<lambda>(cb, np). Task p cb np e False) (rejected_callbacks x))
       (set_promise h p (x\<lparr>resolved := True, err := e, rejected_callbacks := []\<rparr>))))"

definition promise_then :: "nat \<Rightarrow> then_callback \<Rightarrow> then_callback \<Rightarrow> heap \<Rightarrow> nat \<times> heap" where
  "promise_then p fcb rcb h =
    (let np = length (promises h); h = h\<lparr>promises := promises h @ [new_promise]\<rparr>;
         x = get_promise h p in
     (np, if resolved x then
            (if truthy (err x) then setImmediate [Task p rcb np (err x) True] h
             else setImmediate [Task p fcb np (result x) False] h)
          else set_promise h p (x\<lparr>
            fulfilled_callbacks := fulfilled_callbacks x
              @ [(if is_function fcb then fcb else EmptyFulfilled, np)],
            rejected_callbacks := rejected_callbacks x
              @ [(if is_function rcb then rcb else EmptyRejected, np)]\<rparr>)))"

text \<open>A resolving function that a thenable was given settles the promise unless it is settled.\<close>

definition resolving :: "bool \<Rightarrow> nat \<Rightarrow> val \<Rightarrow> heap \<Rightarrow> heap" where
  "resolving rej np v h =
     (if resolved (get_promise h np) then h else snd (if rej then reject np v h else fulfill np v h))"

section \<open>The resolution procedure\<close>

definition call :: "then_callback \<Rightarrow> val \<Rightarrow> heap \<Rightarrow> (val + val) \<times> heap" where
  "call cb v h = (case cb of
     NoFun \<Rightarrow> (Inl (Exc ''TypeError''), h)
   | NotCallable \<Rightarrow> (Inl (Exc ''TypeError''), h)
   | UserFun f \<Rightarrow> (f v, h)
   | EmptyFulfilled \<Rightarrow> (Inr v, h)
   | EmptyRejected \<Rightarrow> (Inl v, h)
   | Resolve np \<Rightarrow> (Inr Undef, resolving False np v h)
   | Reject np \<Rightarrow> (Inr Undef, resolving True np v h))"

definition adopt :: "nat \<Rightarrow> nat \<Rightarrow> val \<Rightarrow> heap \<Rightarrow> effect" where
  "adopt self np v h =
    (if is_object v then
       (if v = Prom self then (Some (Exc ''TypeError: Promise Resolution Procedure 2.3.1''), h)
        else case v of
          Null \<Rightarrow> reject np (Exc ''TypeError'') h
        | BadThen e \<Rightarrow> reject np e h
        | Prom q \<Rightarrow> (None, snd (promise_then q (Resolve np) (Reject np) h))
        | Thenable calls thrown \<Rightarrow>
            (let h = fold (\<lambda>(rej, y) h. resolving rej np y h) calls h in
             (None, case thrown of None \<Rightarrow> h | Some e \<Rightarrow> resolving True np e h))
        | _ \<Rightarrow> fulfill np v h)
     else fulfill np v h)"

definition thenPromiseFulfilledOrRejected ::
  "nat \<Rightarrow> then_callback \<Rightarrow> nat \<Rightarrow> val \<Rightarrow> bool \<Rightarrow> heap \<Rightarrow> effect" where
  "thenPromiseFulfilledOrRejected self cb np v isRejected h =
    (case (if cb = NoFun then (if isRejected then reject np v h else fulfill np v h)
           else case call cb v h of
             (Inl e, h) \<Rightarrow> (Some e, h)
           | (Inr r, h) \<Rightarrow> adopt self np r h) of
       (None, h) \<Rightarrow> (None, h)
     | (Some e, h) \<Rightarrow> reject np e h)"

section \<open>Events\<close>

datatype promise_event =
    New
  | Then nat then_callback then_callback
  | Fulfill nat val
  | RejectWith nat val
  | Settle bool nat val
  | RunTask

definition run_task :: "heap \<Rightarrow> heap" where
  "run_task h = (case tasks h of [] \<Rightarrow> h
     | Task self cb np v rej # ts \<Rightarrow>
         (case thenPromiseFulfilledOrRejected self cb np v rej (h\<lparr>tasks := ts\<rparr>) of
            (None, h) \<Rightarrow> h | (Some e, h) \<Rightarrow> h\<lparr>uncaught := uncaught h @ [e]\<rparr>))"

fun run_event :: "promise_event \<Rightarrow> heap \<Rightarrow> heap" where
  "run_event New h = h\<lparr>promises := promises h @ [new_promise]\<rparr>"
| "run_event (Then p f r) h = snd (promise_then p f r h)"
| "run_event (Fulfill p v) h = snd (fulfill p v h)"
| "run_event (RejectWith p e) h = snd (reject p e h)"
| "run_event (Settle rej np v) h = resolving rej np v h"
| "run_event RunTask h = run_task h"

definition empty_heap :: heap where
  "empty_heap = \<lparr>promises = [], tasks = [], uncaught = []\<rparr>"

section \<open>A promise settles once\<close>

text \<open>
  A registration, the promise that a \<open>then\<close> has returned, waits either in the callbacks of its promise
  or as a task. \<open>regs\<close> collects them.
\<close>

definition waiting :: "promise \<Rightarrow> nat multiset" where
  "waiting x = (if resolved x then {#} else mset (map snd (fulfilled_callbacks x)))"

definition regs :: "heap \<Rightarrow> nat multiset" where
  "regs h = mset (map t_new (tasks h)) + (\<Sum>x\<in>#mset (promises h). waiting x)"

definition wf_heap :: "heap \<Rightarrow> bool" where
  "wf_heap h \<longleftrightarrow>
     (\<forall>x \<in> set (promises h). \<not> resolved x \<longrightarrow>
        map snd (rejected_callbacks x) = map snd (fulfilled_callbacks x)) \<and>
     (\<forall>np. count (regs h) np \<le> 1) \<and> (\<forall>np \<in># regs h. np < length (promises h))"

definition keeps :: "heap \<Rightarrow> heap \<Rightarrow> bool" where
  "keeps h h' \<longleftrightarrow> (\<forall>p. resolved (get_promise h p) \<longrightarrow> resolved (get_promise h' p)
     \<and> result (get_promise h' p) = result (get_promise h p)
     \<and> err (get_promise h' p) = err (get_promise h p))"

definition tame :: "heap \<Rightarrow> heap \<Rightarrow> bool" where
  "tame h h' \<longleftrightarrow> keeps h h' \<and> (wf_heap h \<longrightarrow> wf_heap h')"

lemma tame_refl [simp]: "tame h h"
  by (simp add: tame_def keeps_def)

lemma tame_trans: "tame h h' \<Longrightarrow> tame h' h'' \<Longrightarrow> tame h h''"
  by (simp add: tame_def keeps_def)

lemma get_promise_nth: "p < length (promises h) \<Longrightarrow> get_promise h p = promises h ! p"
  by (simp add: get_promise_def js_get_def)

lemma get_promise_out: "\<not> p < length (promises h) \<Longrightarrow> get_promise h p = new_promise"
  by (simp add: get_promise_def js_get_def)

lemma get_set_promise: "get_promise (set_promise h p x) q =
   (if q = p \<and> p < length (promises h) then x else get_promise h q)"
  by (auto simp: get_promise_def set_promise_def js_get_def)

lemma get_promise_tasks [simp]:
  "get_promise (setImmediate ts h) p = get_promise h p"
  "get_promise (h\<lparr>tasks := ts\<rparr>) p = get_promise h p"
  "get_promise (h\<lparr>uncaught := es\<rparr>) p = get_promise h p"
  by (simp_all add: get_promise_def setImmediate_def)

lemma regs_set:
  assumes "p < length (promises h)"
  shows "regs (set_promise h p x) + waiting (promises h ! p) = regs h + waiting x"
proof -
  have "mset (promises h) = add_mset (promises h ! p) (mset (promises h) - {#promises h ! p#})"
    using assms by simp
  then have "(\<Sum>x\<in>#mset (promises h). waiting x) =
    waiting (promises h ! p) + (\<Sum>x\<in>#mset (promises h) - {#promises h ! p#}. waiting x)"
    by (metis image_mset_add_mset sum_mset.add_mset)
  then show ?thesis
    using assms by (simp add: regs_def set_promise_def mset_update ac_simps)
qed

lemma regs_setImmediate: "regs (setImmediate ts h) = regs h + mset (map t_new ts)"
  by (simp add: regs_def setImmediate_def ac_simps)

lemma t_new_map: "map t_new (map (\<lambda>(cb, np). Task p cb np v r) cs) = map snd cs"
  by (induction cs) auto

text \<open>The common part of \<open>fulfill\<close> and \<open>reject\<close>: a pending promise is resolved and its callbacks scheduled.\<close>

lemma tame_resolve:
  assumes "\<not> resolved (get_promise h p)" "resolved y"
    "cs = fulfilled_callbacks (get_promise h p) \<or> cs = rejected_callbacks (get_promise h p)"
  shows "tame h (setImmediate (map (\<lambda>(cb, np). Task p cb np v r) cs) (set_promise h p y))"
proof (cases "p < length (promises h)")
  case True
  let ?x = "promises h ! p"
  have x: "get_promise h p = ?x" using True by (rule get_promise_nth)
  let ?h = "setImmediate (map (\<lambda>(cb, np). Task p cb np v r) cs) (set_promise h p y)"
  have "keeps h ?h" using assms(1) by (auto simp: keeps_def get_set_promise)
  moreover have "wf_heap ?h" if wf: "wf_heap h"
  proof -
    have "map snd cs = map snd (fulfilled_callbacks ?x)"
      using wf assms x nth_mem[OF True] by (auto simp: wf_heap_def)
    then have "regs ?h = regs (set_promise h p y) + waiting ?x"
      using assms(1) x by (simp add: regs_setImmediate t_new_map waiting_def del: map_map)
    also have "\<dots> = regs h" using regs_set[OF True, of y] assms(2) by (simp add: waiting_def)
    finally have "regs ?h = regs h" .
    then show ?thesis
      using wf assms(2) by (auto simp: wf_heap_def setImmediate_def set_promise_def dest: set_update_subset_insert[THEN subsetD])
  qed
  ultimately show ?thesis by (simp add: tame_def)
next
  case False
  then have "cs = []" using assms(3) by (auto simp: get_promise_out new_promise_def)
  with False show ?thesis by (simp add: setImmediate_def set_promise_def list_update_beyond)
qed

lemma tame_fulfill: "tame h (snd (fulfill p v h))"
  by (auto simp: fulfill_def Let_def intro: tame_resolve)

lemma tame_reject: "tame h (snd (reject p v h))"
  by (auto simp: reject_def Let_def intro: tame_resolve)

lemma tame_resolving: "tame h (resolving rej np v h)"
  by (auto simp: resolving_def tame_fulfill tame_reject)

lemma tame_new: "tame h (h\<lparr>promises := promises h @ [new_promise]\<rparr>)"
proof -
  have "keeps h (h\<lparr>promises := promises h @ [new_promise]\<rparr>)"
    by (auto simp: keeps_def get_promise_def js_get_def nth_append new_promise_def)
  then show ?thesis
    by (auto simp: tame_def wf_heap_def regs_def new_promise_def waiting_def less_Suc_eq le_Suc_eq)
qed

lemma tame_then: "tame h (snd (promise_then p f r h))"
proof -
  let ?np = "length (promises h)"
  let ?h = "h\<lparr>promises := promises h @ [new_promise]\<rparr>"
  define x where "x = get_promise ?h p"
  have new: "tame h ?h" by (rule tame_new)
  have fresh: "count (regs ?h) ?np = 0" if "wf_heap h"
  proof -
    have "regs ?h = regs h" by (simp add: regs_def new_promise_def waiting_def)
    with that show ?thesis by (auto simp: wf_heap_def not_in_iff)
  qed
  have task: "tame h (setImmediate [Task p cb ?np v b] ?h)" for cb v b
  proof -
    have "wf_heap (setImmediate [Task p cb ?np v b] ?h)" if wf: "wf_heap h"
    proof -
      have "wf_heap ?h" using new wf by (simp add: tame_def)
      moreover have "count (regs ?h + {#?np#}) np \<le> 1" for np
        using fresh[OF wf] \<open>wf_heap ?h\<close> by (cases "np = ?np") (auto simp: wf_heap_def)
      ultimately show ?thesis
        by (auto simp: wf_heap_def regs_setImmediate) (auto simp: setImmediate_def)
    qed
    with new show ?thesis by (simp add: tame_def keeps_def)
  qed
  let ?y = "x\<lparr>fulfilled_callbacks := fulfilled_callbacks x @ [(f', ?np)],
        rejected_callbacks := rejected_callbacks x @ [(r', ?np)]\<rparr>"
  have pend: "tame h (set_promise ?h p (x\<lparr>fulfilled_callbacks := fulfilled_callbacks x @ [(f', ?np)],
        rejected_callbacks := rejected_callbacks x @ [(r', ?np)]\<rparr>))" if nr: "\<not> resolved x" for f' r'
  proof (cases "p < length (promises ?h)")
    case True
    let ?y = "x\<lparr>fulfilled_callbacks := fulfilled_callbacks x @ [(f', ?np)],
        rejected_callbacks := rejected_callbacks x @ [(r', ?np)]\<rparr>"
    have x: "x = promises ?h ! p" using True by (simp add: x_def get_promise_nth)
    have "regs (set_promise ?h p ?y) + waiting x = regs ?h + (waiting x + {#?np#})"
      using regs_set[OF True, of ?y] nr x by (simp add: waiting_def)
    then have regs: "regs (set_promise ?h p ?y) = add_mset ?np (regs ?h)" by simp
    have "wf_heap (set_promise ?h p ?y)" if wf: "wf_heap h"
    proof -
      have w: "wf_heap ?h" using new wf by (simp add: tame_def)
      have "map snd (rejected_callbacks x) = map snd (fulfilled_callbacks x)"
        using w nr x nth_mem[OF True] by (auto simp: wf_heap_def)
      moreover have "z = ?y \<or> z \<in> set (promises ?h)" if "z \<in> set (promises (set_promise ?h p ?y))" for z
        using that set_update_subset_insert[of "promises ?h" p ?y] by (auto simp: set_promise_def)
      ultimately have "\<forall>z \<in> set (promises (set_promise ?h p ?y)). \<not> resolved z \<longrightarrow>
          map snd (rejected_callbacks z) = map snd (fulfilled_callbacks z)"
        using w by (fastforce simp: wf_heap_def)
      with w fresh[OF wf] regs show ?thesis
        by (auto simp: wf_heap_def) (auto simp: set_promise_def)
    qed
    moreover have "keeps ?h (set_promise ?h p ?y)"
      using nr x_def by (auto simp: keeps_def get_set_promise)
    ultimately show ?thesis using new by (simp add: tame_def keeps_def)
  next
    case False
    then show ?thesis using new by (simp add: set_promise_def list_update_beyond)
  qed
  show ?thesis
    unfolding promise_then_def Let_def using task pend by (auto simp: x_def)
qed

lemma tame_adopt: "tame h (snd (adopt self np v h))"
proof -
  have "tame h (fold (\<lambda>(rej, y) h. resolving rej np y h) calls h)" for calls
  proof (induction calls arbitrary: h)
    case (Cons c calls)
    then show ?case by (cases c) (auto intro: tame_trans[OF tame_resolving])
  qed simp
  then show ?thesis
    by (auto simp: adopt_def Let_def tame_reject tame_fulfill tame_then
        intro: tame_trans tame_resolving split: val.split option.split)
qed

lemma tame_call: "call cb v h = (r, h') \<Longrightarrow> tame h h'"
  by (cases cb) (auto simp: call_def intro: tame_resolving)

lemma tame_thenPromise: "tame h (snd (thenPromiseFulfilledOrRejected self cb np v rej h))"
proof -
  let ?r = "if cb = NoFun then (if rej then reject np v h else fulfill np v h)
     else case call cb v h of (Inl e, h) \<Rightarrow> (Some e, h) | (Inr r, h) \<Rightarrow> adopt self np r h"
  have "tame h (snd ?r)"
    by (auto simp: tame_reject tame_fulfill intro: tame_call tame_trans[OF tame_call tame_adopt]
        split: prod.split sum.split)
  then show ?thesis
    unfolding thenPromiseFulfilledOrRejected_def
    by (cases ?r; cases "fst ?r") (auto intro: tame_trans[OF _ tame_reject])
qed

lemma tame_pop: "tasks h = t # ts \<Longrightarrow> tame h (h\<lparr>tasks := ts\<rparr>)"
  by (auto simp: tame_def keeps_def wf_heap_def regs_def split: if_splits)

lemma tame_run_task: "tame h (run_task h)"
proof (cases "tasks h")
  case (Cons t ts)
  obtain self cb np v rej where t: "t = Task self cb np v rej" by (cases t)
  obtain e h' where r: "thenPromiseFulfilledOrRejected self cb np v rej (h\<lparr>tasks := ts\<rparr>) = (e, h')" by force
  have "tame h h'"
    using tame_trans[OF tame_pop[OF Cons] tame_thenPromise[of _ self cb np v rej]] r by simp
  moreover have "tame h' (h'\<lparr>uncaught := es\<rparr>)" for es
    by (simp add: tame_def keeps_def wf_heap_def regs_def)
  ultimately show ?thesis
    using Cons t r by (cases e) (auto simp: run_task_def intro: tame_trans)
qed (simp add: run_task_def)

lemma tame_event: "tame h (run_event ev h)"
  by (cases ev) (simp_all add: tame_new tame_then tame_fulfill tame_reject tame_resolving tame_run_task)

lemma tame_run: "tame h (fold run_event evs h)"
  by (induction evs arbitrary: h) (auto intro: tame_trans tame_event)

lemma wf_empty: "wf_heap empty_heap"
  by (simp add: wf_heap_def empty_heap_def regs_def)

text \<open>
  C24: A promise settles once and a callback runs at most once. Whatever the users, the callbacks and
  the thenables do: from any reachable state on, a promise that is settled keeps its outcome
  forever, and every promise that a \<open>then\<close> has returned is registered at most once, as a callback
  of a pending promise or as a task.
\<close>

theorem promise_settles_once:
  assumes "h = fold run_event evs empty_heap"
  shows "keeps h (fold run_event evs' h) \<and> (\<forall>np. count (regs h) np \<le> 1)
    \<and> set_mset (regs h) \<subseteq> {..<length (promises h)}"
proof -
  have wf: "wf_heap h" using tame_run[of empty_heap evs] wf_empty assms by (simp add: tame_def)
  then show ?thesis
    using tame_run[of h evs'] by (auto simp: tame_def wf_heap_def)
qed

theorem promise_settles_once_witness:
  "keeps (fold run_event [New, Fulfill 0 Undef] empty_heap)
     (fold run_event [RejectWith 0 Null] (fold run_event [New, Fulfill 0 Undef] empty_heap))
   \<and> resolved (get_promise (fold run_event [New, Fulfill 0 Undef] empty_heap) 0)"
  using promise_settles_once[OF refl, of "[New, Fulfill 0 Undef]" "[RejectWith 0 Null]"]
  by (simp add: empty_heap_def get_promise_def js_get_def fulfill_def set_promise_def
      setImmediate_def new_promise_def)

section \<open>Chains\<close>

text \<open>
  The meaning of a chain of \<open>then\<close> calls: the outcome goes from link to link as in \<open>try\<close> and
  \<open>catch\<close>, a missing callback passes it on.
\<close>

datatype outcome = Fulfilled val | Rejected val

type_synonym link = "(val \<Rightarrow> val + val) option \<times> (val \<Rightarrow> val + val) option"

definition chain_step :: "outcome \<Rightarrow> link \<Rightarrow> outcome" where
  "chain_step out l = (case out of
     Fulfilled v \<Rightarrow> (case fst l of None \<Rightarrow> out
       | Some f \<Rightarrow> (case f v of Inr x \<Rightarrow> Fulfilled x | Inl e \<Rightarrow> Rejected e))
   | Rejected e \<Rightarrow> (case snd l of None \<Rightarrow> out
       | Some f \<Rightarrow> (case f e of Inr x \<Rightarrow> Fulfilled x | Inl e \<Rightarrow> Rejected e)))"

definition plain :: "val \<Rightarrow> bool" where
  "plain v = (case v of Undef \<Rightarrow> True | Prim _ _ \<Rightarrow> True | Obj _ \<Rightarrow> True | Exc _ \<Rightarrow> True | _ \<Rightarrow> False)"

fun plain_outcome :: "outcome \<Rightarrow> bool" where
  "plain_outcome (Fulfilled v) = plain v"
| "plain_outcome (Rejected e) = True"

definition plain_link :: "link \<Rightarrow> bool" where
  "plain_link l \<longleftrightarrow> (\<forall>f v x. (fst l = Some f \<or> snd l = Some f) \<longrightarrow> f v = Inr x \<longrightarrow> plain x)"

definition given :: "(val \<Rightarrow> val + val) option \<Rightarrow> then_callback" where
  "given f = (case f of None \<Rightarrow> NoFun | Some g \<Rightarrow> UserFun g)"

fun chain_events :: "nat \<Rightarrow> link list \<Rightarrow> promise_event list" where
  "chain_events n [] = []"
| "chain_events n (l # ls) = Then n (given (fst l)) (given (snd l)) # chain_events (Suc n) ls"

fun settle_event :: "outcome \<Rightarrow> promise_event" where
  "settle_event (Fulfilled v) = Fulfill 0 v"
| "settle_event (Rejected e) = RejectWith 0 e"

definition settled :: "heap \<Rightarrow> nat \<Rightarrow> outcome \<Rightarrow> bool" where
  "settled h p out \<longleftrightarrow> resolved (get_promise h p) \<and> (case out of
     Fulfilled v \<Rightarrow> result (get_promise h p) = v \<and> err (get_promise h p) = Undef
   | Rejected e \<Rightarrow> err (get_promise h p) = e \<and> result (get_promise h p) = Undef)"

definition linked :: "nat \<Rightarrow> link \<Rightarrow> promise" where
  "linked n l = new_promise\<lparr>
     fulfilled_callbacks := [(if fst l = None then EmptyFulfilled else given (fst l), Suc n)],
     rejected_callbacks := [(if snd l = None then EmptyRejected else given (snd l), Suc n)]\<rparr>"

fun chain_promises :: "nat \<Rightarrow> link list \<Rightarrow> promise list" where
  "chain_promises n [] = [new_promise]"
| "chain_promises n (l # ls) = linked n l # chain_promises (Suc n) ls"

lemma chain_built:
  "fold run_event (chain_events (length ps) ls) \<lparr>promises = ps @ [new_promise], tasks = [], uncaught = []\<rparr>
   = \<lparr>promises = ps @ chain_promises (length ps) ls, tasks = [], uncaught = []\<rparr>"
proof (induction ls arbitrary: ps)
  case (Cons l ls)
  have "run_event (Then (length ps) (given (fst l)) (given (snd l)))
      \<lparr>promises = ps @ [new_promise], tasks = [], uncaught = []\<rparr>
    = \<lparr>promises = (ps @ [linked (length ps) l]) @ [new_promise], tasks = [], uncaught = []\<rparr>"
    by (cases "fst l"; cases "snd l")
      (simp_all add: promise_then_def Let_def get_promise_def js_get_def nth_append new_promise_def
        set_promise_def given_def is_function_def linked_def)
  with Cons.IH[of "ps @ [linked (length ps) l]"] show ?case by simp
qed simp

definition settle_at :: "nat \<Rightarrow> outcome \<Rightarrow> heap \<Rightarrow> effect" where
  "settle_at n out h = (case out of Fulfilled v \<Rightarrow> fulfill n v h | Rejected e \<Rightarrow> reject n e h)"

definition settled_promise :: "outcome \<Rightarrow> promise \<Rightarrow> promise" where
  "settled_promise out x = (case out of
     Fulfilled v \<Rightarrow> x\<lparr>resolved := True, result := v, fulfilled_callbacks := []\<rparr>
   | Rejected e \<Rightarrow> x\<lparr>resolved := True, err := e, rejected_callbacks := []\<rparr>)"

definition chain_task :: "nat \<Rightarrow> link \<Rightarrow> outcome \<Rightarrow> task" where
  "chain_task n l out = (case out of
     Fulfilled v \<Rightarrow> Task n (if fst l = None then EmptyFulfilled else given (fst l)) (Suc n) v False
   | Rejected e \<Rightarrow> Task n (if snd l = None then EmptyRejected else given (snd l)) (Suc n) e False)"

lemma settle_chain:
  "settle_at (length ps) out \<lparr>promises = ps @ chain_promises (length ps) (l # ls), tasks = [], uncaught = us\<rparr>
   = (None, \<lparr>promises = (ps @ [settled_promise out (linked (length ps) l)]) @ chain_promises (Suc (length ps)) ls,
       tasks = [chain_task (length ps) l out], uncaught = us\<rparr>)"
  by (cases out) (simp_all add: settle_at_def fulfill_def reject_def Let_def get_promise_def js_get_def
      linked_def new_promise_def set_promise_def setImmediate_def settled_promise_def chain_task_def)

lemma chain_head: "\<exists>x xs. chain_promises n ls = x # xs \<and> \<not> resolved x"
  by (cases ls) (auto simp: new_promise_def linked_def)

lemma adopt_plain: "plain v \<Longrightarrow> adopt p np v h = fulfill np v h"
  by (cases v) (auto simp: plain_def adopt_def is_object_def)

lemma run_chain_task:
  assumes "plain_outcome out" "plain_link l" "\<not> resolved (get_promise h (Suc n))"
    "tasks h = [chain_task n l out]"
  shows "run_task h = snd (settle_at (Suc n) (chain_step out l) (h\<lparr>tasks := []\<rparr>))
    \<and> plain_outcome (chain_step out l)"
proof -
  let ?h = "h\<lparr>tasks := []\<rparr>"
  have f: "fst (fulfill (Suc n) v ?h) = None" "fst (reject (Suc n) v ?h) = None" for v
    using assms(3) by (simp_all add: fulfill_def reject_def Let_def)
  define F where "F v = snd (fulfill (Suc n) v ?h)" for v
  define R where "R v = snd (reject (Suc n) v ?h)" for v
  have f': "fulfill (Suc n) v ?h = (None, F v)" "reject (Suc n) v ?h = (None, R v)" for v
    by (simp_all add: prod_eq_iff F_def R_def f)
  show ?thesis
  proof (cases out)
    case (Fulfilled v)
    show ?thesis
    proof (cases "fst l")
      case None
      then show ?thesis using Fulfilled assms f'
        by (simp add: run_task_def chain_task_def thenPromiseFulfilledOrRejected_def call_def
            adopt_plain settle_at_def chain_step_def split: prod.splits)
    next
      case (Some g)
      then have "plain x" if "g v = Inr x" for x using assms(2) that by (auto simp: plain_link_def)
      then show ?thesis using Fulfilled Some assms f'
        by (cases "g v") (auto simp: run_task_def chain_task_def thenPromiseFulfilledOrRejected_def call_def
            adopt_plain settle_at_def chain_step_def given_def split: prod.splits)
    qed
  next
    case (Rejected e)
    show ?thesis
    proof (cases "snd l")
      case None
      then show ?thesis using Rejected assms f'
        by (simp add: run_task_def chain_task_def thenPromiseFulfilledOrRejected_def call_def
            settle_at_def chain_step_def split: prod.splits)
    next
      case (Some g)
      then have "plain x" if "g e = Inr x" for x using assms(2) that by (auto simp: plain_link_def)
      then show ?thesis using Rejected Some assms f'
        by (cases "g e") (auto simp: run_task_def chain_task_def thenPromiseFulfilledOrRejected_def call_def
            adopt_plain settle_at_def chain_step_def given_def split: prod.splits)
    qed
  qed
qed

lemma chain_runs:
  assumes "plain_outcome out" "\<forall>l \<in> set ls. plain_link l"
  shows "\<exists>h. fold run_event (replicate (length ls) RunTask)
      (snd (settle_at (length ps) out \<lparr>promises = ps @ chain_promises (length ps) ls, tasks = [], uncaught = []\<rparr>)) = h
    \<and> tasks h = [] \<and> uncaught h = [] \<and> settled h (length ps + length ls) (foldl chain_step out ls)"
  using assms
proof (induction ls arbitrary: ps out)
  case Nil
  show ?case
    by (cases out) (simp_all add: settle_at_def fulfill_def reject_def Let_def get_promise_def js_get_def
      new_promise_def set_promise_def setImmediate_def settled_def)
next
  case (Cons l ls)
  let ?ps = "ps @ [settled_promise out (linked (length ps) l)]"
  let ?h = "\<lparr>promises = ?ps @ chain_promises (Suc (length ps)) ls, tasks = [chain_task (length ps) l out], uncaught = []\<rparr>"
  have "\<not> resolved (get_promise ?h (Suc (length ps)))"
    using chain_head[of "Suc (length ps)" ls] by (auto simp: get_promise_def js_get_def nth_append)
  from run_chain_task[OF Cons.prems(1) _ this] Cons.prems(2)
  have "run_task ?h = snd (settle_at (Suc (length ps)) (chain_step out l) (?h\<lparr>tasks := []\<rparr>))"
    and p: "plain_outcome (chain_step out l)" by simp_all
  with settle_chain[of ps out l ls "[]"] Cons.IH[OF p, of ?ps] Cons.prems(2) show ?case by simp
qed

text \<open>
  C25: A chain of \<open>then\<close> calls on a pending promise computes what \<open>try\<close> and \<open>catch\<close> would. When the
  callbacks return plain values or throw, then after the first promise is fulfilled or rejected,
  with any reason, running as many tasks as there are links leaves the last promise settled with
  the outcome passed from link to link, no task waiting, and nothing uncaught.
\<close>

theorem chain_computes_outcome:
  assumes "plain_outcome out" "\<forall>l \<in> set ls. plain_link l"
    "h = fold run_event (New # chain_events 0 ls @ settle_event out # replicate (length ls) RunTask) empty_heap"
  shows "settled h (length ls) (foldl chain_step out ls) \<and> tasks h = [] \<and> uncaught h = []"
proof -
  have "run_event (settle_event out) h' = snd (settle_at 0 out h')" for h'
    by (cases out) (simp_all add: settle_at_def)
  with chain_built[of "[]" ls] chain_runs[OF assms(1,2), of "[]"] show ?thesis
    by (simp add: assms(3) empty_heap_def)
qed

definition demo_chain :: "link list" where
  "demo_chain = [(Some (\<lambda>v. Inl (Exc ''boom'')), None), (Some (\<lambda>v. Inr (Obj 1)), None),
     (None, Some (\<lambda>e. Inr (Prim True 7)))]"

theorem chain_computes_outcome_witness:
  "settled (fold run_event (New # chain_events 0 demo_chain @ RejectWith 0 Null # replicate 3 RunTask) empty_heap)
     3 (Fulfilled (Prim True 7))"
proof -
  have "\<forall>l \<in> set demo_chain. plain_link l"
    by (auto simp: demo_chain_def plain_link_def plain_def)
  moreover have "foldl chain_step (Rejected Null) demo_chain = Fulfilled (Prim True 7)"
    "length demo_chain = 3" "plain_outcome (Rejected Null)"
    by (simp_all add: demo_chain_def chain_step_def)
  ultimately show ?thesis
    using chain_computes_outcome[OF _ _ refl, of "Rejected Null" demo_chain]
    by (simp only: settle_event.simps append_Cons append_Nil) 
qed

text \<open>
  Three departures from the specification that the code cites. A callback that returns null
  rejects its promise with a TypeError, because the test for null compares the name of the type. A
  callback that returns the very promise it was registered on rejects, because the check for a
  cycle compares with the wrong promise. And a \<open>then\<close> on a promise that was rejected with a falsy
  reason schedules the callback for success, with \<open>undefined\<close>.
\<close>

theorem promise_departures:
  assumes "np < length (promises h)" "\<not> resolved (get_promise h np)"
    "resolved (get_promise h p)" "\<not> truthy (err (get_promise h p))" "p < length (promises h)"
  shows "err (get_promise (snd (thenPromiseFulfilledOrRejected q (UserFun (\<lambda>_. Inr Null)) np v rej h)) np)
      = Exc ''TypeError''
    \<and> err (get_promise (snd (thenPromiseFulfilledOrRejected q (UserFun (\<lambda>_. Inr (Prom q))) np v rej h)) np)
      = Exc ''TypeError: Promise Resolution Procedure 2.3.1''
    \<and> tasks (snd (promise_then p s r h)) = tasks h @ [Task p s (length (promises h)) (result (get_promise h p)) False]"
proof -
  have g: "get_promise (h\<lparr>promises := promises h @ [new_promise]\<rparr>) p = get_promise h p"
    using assms(5) by (simp add: get_promise_def js_get_def nth_append)
  have r: "reject np e h = (None, setImmediate (map (\<lambda>(cb, n). Task np cb n e False) (rejected_callbacks (get_promise h np)))
       (set_promise h np ((get_promise h np)\<lparr>resolved := True, err := e, rejected_callbacks := []\<rparr>)))" for e
    using assms(2) by (simp add: reject_def Let_def)
  have n: "err (get_promise (snd (thenPromiseFulfilledOrRejected q (UserFun (\<lambda>_. Inr Null)) np v rej h)) np)
      = Exc ''TypeError''"
    using assms(1) by (simp add: thenPromiseFulfilledOrRejected_def call_def adopt_def is_object_def r get_set_promise)
  have s: "err (get_promise (snd (thenPromiseFulfilledOrRejected q (UserFun (\<lambda>_. Inr (Prom q))) np v rej h)) np)
      = Exc ''TypeError: Promise Resolution Procedure 2.3.1''"
    using assms(1) by (simp add: thenPromiseFulfilledOrRejected_def call_def adopt_def is_object_def r get_set_promise)
  show ?thesis
    using n s assms(3,4) by (simp add: promise_then_def Let_def g) (simp add: setImmediate_def)
qed

definition demo_promises :: heap where
  "demo_promises = fold run_event [New, New, RejectWith 0 (Prim False 0)] empty_heap"

theorem promise_departures_witness:
  "tasks (snd (promise_then 0 (Resolve 1) (Reject 1) demo_promises)) = [Task 0 (Resolve 1) 2 Undef False]
   \<and> err (get_promise (snd (thenPromiseFulfilledOrRejected 0 (UserFun (\<lambda>_. Inr Null)) 1 Undef False demo_promises)) 1)
      = Exc ''TypeError''"
proof -
  have dp: "demo_promises = \<lparr>promises = [\<lparr>resolved = True, result = Undef, err = Prim False 0,
      fulfilled_callbacks = [], rejected_callbacks = []\<rparr>, new_promise], tasks = [], uncaught = []\<rparr>"
    by (simp add: demo_promises_def empty_heap_def reject_def Let_def get_promise_def js_get_def
        new_promise_def set_promise_def setImmediate_def)
  have d: "length (promises demo_promises) = 2" "\<not> resolved (get_promise demo_promises 1)"
    "resolved (get_promise demo_promises 0)" "\<not> truthy (err (get_promise demo_promises 0))"
    "result (get_promise demo_promises 0) = Undef" "tasks demo_promises = []"
    unfolding dp by (simp_all add: get_promise_def js_get_def new_promise_def truthy_def)
  show ?thesis
    using promise_departures[OF _ d(2-4), of 0 Undef False "Resolve 1" "Reject 1"]
    unfolding d by simp
qed

end
