(* ===== verification/DataScanner.thy ===== *)
theory DataScanner
  imports Prelude
begin

text \<open>
  The scanners of data files in \<open>loader/lib/Scanner.js\<close> (from line 262): the cursor over a read
  buffer, the line scanner that finds the records, and the field scanner that cuts a record into
  fields. The character under the cursor is \<open>None\<close> where the code has the empty string. A loop of
  the code that may never end is a partial function: \<open>None\<close> says that it does not return. A buffer is
  never empty: a read of size zero is the end of the file.
\<close>

section \<open>The cursor\<close>

record scan_options =
  fieldSep :: char
  fieldSepOnWhitespace :: bool
  fieldQuoteStart :: char
  fieldQuoteEnd :: char
  fieldQuoteEsc :: char
  lineStartString :: string
  lineEndString :: string
  commentStart :: "string option"

record scanner =
  sc_source :: string
  sc_i :: nat
  sc_c :: "char option"
  sc_lines :: nat

abbreviation newline :: char where
  "newline \<equiv> CHR 0x0A"

definition new_Scanner :: "string \<Rightarrow> nat \<Rightarrow> scanner" where
  "new_Scanner src start =
     \<lparr>sc_source = src, sc_i = start, sc_c = js_get src start, sc_lines = 0\<rparr>"

fun sc_advance :: "nat \<Rightarrow> scanner \<Rightarrow> scanner" where
  "sc_advance 0 s = s"
| "sc_advance (Suc n) s =
    (let s = (if sc_c s = Some newline then s\<lparr>sc_lines := Suc (sc_lines s)\<rparr> else s) in
     if length (sc_source s) \<le> Suc (sc_i s)
     then s\<lparr>sc_i := length (sc_source s) - 1, sc_c := None\<rparr>
     else sc_advance n (s\<lparr>sc_i := Suc (sc_i s), sc_c := js_get (sc_source s) (Suc (sc_i s))\<rparr>))"

text \<open>\<open>peek(0)\<close> reads the same character as \<open>peek(1)\<close>, because \<open>0 || 1\<close> is 1.\<close>

definition sc_peek :: "nat \<Rightarrow> scanner \<Rightarrow> char option" where
  "sc_peek chars s = js_get (sc_source s) (sc_i s + (if chars = 0 then 1 else chars))"

definition isQuote :: "scan_options \<Rightarrow> scanner \<Rightarrow> bool" where
  "isQuote opt s = (sc_c s = Some (fieldQuoteStart opt) \<or> sc_c s = Some (fieldQuoteEnd opt))"

definition isEsc :: "scan_options \<Rightarrow> scanner \<Rightarrow> bool" where
  "isEsc opt s = (sc_c s = Some (fieldQuoteEsc opt))"

definition not_above_space :: "char option \<Rightarrow> bool" where
  "not_above_space c = (case c of None \<Rightarrow> True | Some x \<Rightarrow> of_char x \<le> (32::nat))"

definition isWhitespace :: "scan_options \<Rightarrow> scanner \<Rightarrow> bool" where
  "isWhitespace opt s =
    (if sc_c s = Some newline \<or> sc_c s = Some (CHR 0x0D) then True
     else if fieldSepOnWhitespace opt then False
     else not_above_space (sc_c s) \<and> sc_c s \<noteq> Some (fieldSep opt))"

definition isStartQuote :: "scan_options \<Rightarrow> scanner \<Rightarrow> bool" where
  "isStartQuote opt s = (sc_c s = Some (fieldQuoteStart opt))"

text \<open>
  \<open>isFieldSeparator\<close> reads \<open>fieldSepOnWhitespace\<close> from the scanner, where it is never set, and not
  from its options.
\<close>

definition isFieldSeparator :: "scan_options \<Rightarrow> scanner \<Rightarrow> bool" where
  "isFieldSeparator opt s = (sc_c s = Some (fieldSep opt))"

text \<open>
  \<open>lineEndExtra\<close> is set when the end of a line is more than one character; then the code compares one
  character with it.
\<close>

definition lineEndExtra :: "scan_options \<Rightarrow> bool" where
  "lineEndExtra opt = (length (lineEndString opt) > 1)"

definition isEndOfLine :: "scan_options \<Rightarrow> scanner \<Rightarrow> bool" where
  "isEndOfLine opt s =
    (if lineEndExtra opt
     then (case sc_c s of None \<Rightarrow> lineEndString opt = [] | Some x \<Rightarrow> lineEndString opt = [x])
     else take (length (lineEndString opt)) (drop (sc_i s) (sc_source s)) = lineEndString opt)"

definition isAtEnd :: "scanner \<Rightarrow> bool" where
  "isAtEnd s = (length (sc_source s) \<le> 1 + sc_i s)"

definition isInlineComment :: "scan_options \<Rightarrow> scanner \<Rightarrow> bool" where
  "isInlineComment opt s = (case commentStart opt of None \<Rightarrow> False | Some t \<Rightarrow>
     t \<noteq> [] \<and> list_all (\<lambda>j. sc_peek j s = Some (t ! j)) [0..<length t])"

definition chr :: "scanner \<Rightarrow> string" where
  "chr s = (case sc_c s of None \<Rightarrow> [] | Some x \<Rightarrow> [x])"

text \<open>What is left to read; every step of the cursor that finds a character makes it smaller.\<close>

definition sc_left :: "scanner \<Rightarrow> nat" where
  "sc_left s = 2 * (length (sc_source s) - sc_i s) + (if sc_c s = None then 0 else 1)"

lemma sc_advance_source [simp]: "sc_source (sc_advance n s) = sc_source s"
  by (induction n s rule: sc_advance.induct) (simp_all add: Let_def)

lemma sc_advance_less: "sc_c (sc_advance (Suc n) s) \<noteq> None \<Longrightarrow> sc_left (sc_advance (Suc n) s) < sc_left s"
proof (induction n arbitrary: s)
  case 0
  then show ?case by (auto simp: Let_def sc_left_def js_get_def split: if_splits)
next
  case (Suc n)
  let ?s = "if sc_c s = Some newline then s\<lparr>sc_lines := Suc (sc_lines s)\<rparr> else s"
  let ?t = "?s\<lparr>sc_i := Suc (sc_i ?s), sc_c := js_get (sc_source ?s) (Suc (sc_i ?s))\<rparr>"
  from Suc.prems have in_range: "Suc (sc_i ?s) < length (sc_source ?s)"
    and step: "sc_advance (Suc (Suc n)) s = sc_advance (Suc n) ?t"
    by (auto simp: Let_def simp del: sc_advance.simps(2) simp: sc_advance.simps(2)[of "Suc n" s] split: if_splits)
  from Suc.IH[of ?t] Suc.prems have "sc_left (sc_advance (Suc n) ?t) < sc_left ?t"
    unfolding step by simp
  also have "sc_left ?t < sc_left s"
    using in_range by (auto simp: sc_left_def js_get_def)
  finally show ?case unfolding step .
qed

lemma sc_advance_stop: "sc_c (sc_advance (Suc n) s) = None \<Longrightarrow>
    sc_i (sc_advance (Suc n) s) = length (sc_source s) - 1"
proof (induction n arbitrary: s)
  case 0
  then show ?case by (auto simp: Let_def js_get_def split: if_splits)
next
  case (Suc n)
  then show ?case
    by (subst sc_advance.simps(2)) (auto simp: Let_def simp del: sc_advance.simps(2)
        simp: sc_advance.simps(2)[of "Suc n" s] split: if_splits)
qed

lemma sc_advance_le: "sc_i (sc_advance n s) \<le> max (sc_i s) (length (sc_source s) - 1)"
proof (induction n arbitrary: s)
  case (Suc n)
  show ?case
    using Suc[of "(if sc_c s = Some newline then s\<lparr>sc_lines := Suc (sc_lines s)\<rparr> else s)
      \<lparr>sc_i := Suc (sc_i s), sc_c := js_get (sc_source s) (Suc (sc_i s))\<rparr>"]
    by (auto simp: Let_def)
qed simp

declare sc_advance.simps(2) [simp del]

lemma sc_advance_left: "sc_c (sc_advance n s) \<noteq> None \<Longrightarrow> sc_left (sc_advance n s) \<le> sc_left s"
  using sc_advance_less[of "n - 1" s] by (cases n) auto

definition sc_rest :: "scanner \<Rightarrow> nat" where
  "sc_rest s = (if sc_c s = None then 0 else Suc (length (sc_source s) - sc_i s))"

lemma sc_advance_rest: "sc_c s = Some x \<Longrightarrow> sc_rest (sc_advance (Suc 0) s) < sc_rest s"
  by (auto simp: sc_rest_def sc_advance.simps(2) Let_def js_get_def)

section \<open>Loops that always end\<close>

text \<open>The code marks \<open>skipWhitespace\<close>, the search for the end of a line, and a quoted string.\<close>

function skipWhitespace :: "scan_options \<Rightarrow> scanner \<Rightarrow> scanner" where
  "skipWhitespace opt s =
    (if sc_c s \<noteq> None \<and> isWhitespace opt s then skipWhitespace opt (sc_advance 1 s) else s)"
  by auto
termination
  by (relation "measure (\<lambda>(opt, s). sc_rest s)") (auto intro: sc_advance_rest)

declare skipWhitespace.simps [simp del]

function skipToEndOfLine :: "scan_options \<Rightarrow> scanner \<Rightarrow> scanner" where
  "skipToEndOfLine opt s =
    (if sc_c s = None then s
     else if isEndOfLine opt s then sc_advance (length (lineEndString opt)) s
     else skipToEndOfLine opt (sc_advance 1 s))"
  by auto
termination
  by (relation "measure (\<lambda>(opt, s). sc_rest s)") (auto intro: sc_advance_rest)

declare skipToEndOfLine.simps [simp del]

text \<open>
  The body of the loop over a quoted string, after its first step: \<open>Inl\<close> of the value and the cursor
  when the loop ends there, \<open>Inr\<close> of both when its condition is tested next.
\<close>

definition quoted_body ::
  "scan_options \<Rightarrow> string \<Rightarrow> scanner \<Rightarrow> string \<times> scanner + string \<times> scanner" where
  "quoted_body opt acc s =
    (if isQuote opt s \<and> sc_c s = sc_peek 1 s then Inr (acc @ chr s, sc_advance 2 s)
     else if sc_c s = Some (fieldQuoteEnd opt) then Inl (acc, s)
     else if isEsc opt s then
       (let s = sc_advance 1 s in
        if isQuote opt s then Inr (acc @ chr s, sc_advance 1 s) else Inr (acc, s))
     else Inr (acc @ chr s, s))"

lemma quoted_body_source: "quoted_body opt acc s = Inr (acc', s') \<Longrightarrow> sc_source s' = sc_source s"
  by (auto simp: quoted_body_def Let_def split: if_splits)

lemma quoted_body_less:
  assumes "quoted_body opt acc s = Inr (acc', s')" "sc_c s' \<noteq> None"
  shows "sc_left s' \<le> sc_left s"
proof -
  have "s' = s \<or> s' = sc_advance 2 s \<or> s' = sc_advance 1 s \<or>
      (s' = sc_advance 1 (sc_advance 1 s) \<and> sc_c (sc_advance 1 s) \<noteq> None)"
    using assms(1) by (auto simp: quoted_body_def isQuote_def Let_def split: if_splits)
  then show ?thesis
    using assms(2) sc_advance_left[of 2 s] sc_advance_left[of 1 s] sc_advance_left[of 1 "sc_advance 1 s"]
    by (elim disjE) auto
qed

lemma quoted_step:
  assumes "quoted_body opt acc (sc_advance n s) = Inr (acc', s')" "sc_c s' = Some x" "0 < n"
  shows "sc_left s' < sc_left s"
proof -
  obtain m where n: "n = Suc m" using assms(3) by (cases n) auto
  have le: "sc_left s' \<le> sc_left (sc_advance n s)"
    using quoted_body_less assms by simp
  have "sc_c (sc_advance n s) \<noteq> None"
  proof
    assume none: "sc_c (sc_advance n s) = None"
    with assms(1) have "s' = sc_advance n s"
      by (auto simp: quoted_body_def isQuote_def isEsc_def split: if_splits)
    with none assms(2) show False by simp
  qed
  with le sc_advance_less[of m s] n show ?thesis by simp
qed

function quoted_loop :: "scan_options \<Rightarrow> string \<Rightarrow> scanner \<Rightarrow> string \<times> scanner" where
  "quoted_loop opt acc s =
    (case quoted_body opt acc (sc_advance 1 s) of
       Inl r \<Rightarrow> r
     | Inr r \<Rightarrow> if sc_c (snd r) = None then r else quoted_loop opt (fst r) (snd r))"
  by auto

termination
  by (relation "measure (\<lambda>(opt, acc, s). sc_left s)") (auto intro: quoted_step)

declare quoted_loop.simps [simp del]

definition handleQuotedString :: "scan_options \<Rightarrow> scanner \<Rightarrow> string \<times> scanner" where
  "handleQuotedString opt s = quoted_loop opt [] s"

lemma quoted_loop_source: "quoted_loop opt acc s = (v, s') \<Longrightarrow> sc_source s' = sc_source s"
proof (induction opt acc s rule: quoted_loop.induct)
  case (1 opt acc s)
  then show ?case
    by (subst (asm) quoted_loop.simps)
      (auto simp: quoted_body_def Let_def split: sum.splits if_splits dest: quoted_body_source)
qed

text \<open>Where a quoted string ends: further on, or at the end of the buffer.\<close>

lemma quoted_body_end: "quoted_body opt acc s = Inr (acc', s') \<Longrightarrow> sc_c s' = None \<Longrightarrow>
    s' = s \<or> Suc (sc_i s') \<ge> length (sc_source s')"
  using sc_advance_stop[of 1 s] sc_advance_stop[of 0 s] sc_advance_stop[of 0 "sc_advance 1 s"]
  by (auto simp: quoted_body_def Let_def numeral_2_eq_2 split: if_splits)

lemma quoted_loop_end:
  assumes "quoted_loop opt acc s = (v, s')"
  shows "sc_left s' < sc_left s \<or> (sc_c s' = None \<and> Suc (sc_i s') \<ge> length (sc_source s'))"
  using assms
proof (induction opt acc s rule: quoted_loop.induct)
  case (1 opt acc s)
  let ?a = "sc_advance 1 s"
  have stop: "sc_c ?a = None \<Longrightarrow> Suc (sc_i ?a) \<ge> length (sc_source s)"
    using sc_advance_stop[of 0 s] by simp
  show ?case
  proof (cases "quoted_body opt acc ?a")
    case (Inl r)
    with 1(2) have "s' = ?a" "sc_c ?a \<noteq> None"
      by (auto simp: quoted_loop.simps[of opt acc s] quoted_body_def Let_def split: if_splits)
    with sc_advance_less[of 0 s] show ?thesis by simp
  next
    case (Inr r)
    then obtain w t where b: "quoted_body opt acc ?a = Inr (w, t)" by (cases r) auto
    show ?thesis
    proof (cases "sc_c t")
      case None
      with 1(2) b have "s' = t" by (simp add: quoted_loop.simps[of opt acc s])
      with quoted_body_end[OF b None] stop None show ?thesis by auto
    next
      case (Some x)
      then have "quoted_loop opt w t = (v, s')"
        using 1(2) b by (simp add: quoted_loop.simps[of opt acc s])
      moreover have "sc_left t < sc_left s" using quoted_step[OF b Some] by simp
      ultimately show ?thesis using 1(1)[OF b] Some by auto
    qed
  qed
qed

section \<open>Records\<close>

definition indexOf :: "string \<Rightarrow> string \<Rightarrow> nat \<Rightarrow> nat option" where
  "indexOf src pat start =
     find (\<lambda>k. take (length pat) (drop k src) = pat) [start..<Suc (length src) - length pat]"

definition skipLinePrefix :: "scan_options \<Rightarrow> scanner \<Rightarrow> scanner" where
  "skipLinePrefix opt s =
    (if lineStartString opt = [] then s
     else case indexOf (sc_source s) (lineStartString opt) (sc_i s) of
       None \<Rightarrow> s
     | Some idx \<Rightarrow> if 0 < idx then
           (let n = idx + length (lineStartString opt) in
            skipWhitespace opt (s\<lparr>sc_i := n, sc_c := js_get (sc_source s) n\<rparr>))
         else s)"

record buffer_descriptor =
  bd_source :: string
  lineStart :: nat
  lineEnd :: nat
  lineHasFields :: bool
  atEnd :: bool

definition new_BufferDescriptor :: "string \<Rightarrow> buffer_descriptor" where
  "new_BufferDescriptor src =
     \<lparr>bd_source = src, lineStart = 0, lineEnd = 0, lineHasFields = False, atEnd = False\<rparr>"

fun skip_lines :: "scan_options \<Rightarrow> nat \<Rightarrow> scanner \<Rightarrow> scanner" where
  "skip_lines opt 0 s = s"
| "skip_lines opt (Suc n) s = (if isAtEnd s then s else skip_lines opt n (skipToEndOfLine opt s))"

definition skipPhysicalLines ::
  "scan_options \<Rightarrow> buffer_descriptor \<Rightarrow> nat \<Rightarrow> buffer_descriptor" where
  "skipPhysicalLines opt spec n =
    (let s = skip_lines opt n (new_Scanner (bd_source spec) (lineStart spec)) in
     spec\<lparr>atEnd := isAtEnd s, lineEnd := sc_i s\<rparr>)"

text \<open>The loop that looks for the start of a line, while it makes progress.\<close>

definition line_start_step :: "scan_options \<Rightarrow> scanner \<Rightarrow> scanner" where
  "line_start_step opt s =
    (let s = skipWhitespace opt s in if isInlineComment opt s then skipToEndOfLine opt s else s)"

lemma skipWhitespace_source [simp]: "sc_source (skipWhitespace opt s) = sc_source s"
  by (induction opt s rule: skipWhitespace.induct) (subst skipWhitespace.simps, simp)

lemma skipToEndOfLine_source [simp]: "sc_source (skipToEndOfLine opt s) = sc_source s"
  by (induction opt s rule: skipToEndOfLine.induct) (subst skipToEndOfLine.simps, simp)

lemma skipWhitespace_le: "sc_i (skipWhitespace opt s) \<le> max (sc_i s) (length (sc_source s) - 1)"
proof (induction opt s rule: skipWhitespace.induct)
  case (1 opt s)
  with sc_advance_le[of 1 s] show ?case by (subst skipWhitespace.simps) auto
qed

lemma skipToEndOfLine_le: "sc_i (skipToEndOfLine opt s) \<le> max (sc_i s) (length (sc_source s) - 1)"
proof (induction opt s rule: skipToEndOfLine.induct)
  case (1 opt s)
  with sc_advance_le[of 1 s] sc_advance_le[of "length (lineEndString opt)" s] show ?case
    by (subst skipToEndOfLine.simps) auto
qed

lemma line_start_step_source [simp]: "sc_source (line_start_step opt s) = sc_source s"
  by (simp add: line_start_step_def Let_def)

lemma line_start_step_le: "sc_i (line_start_step opt s) \<le> max (sc_i s) (length (sc_source s) - 1)"
  using skipWhitespace_le[of opt s] skipToEndOfLine_le[of opt "skipWhitespace opt s"]
  by (auto simp: line_start_step_def Let_def)

function find_line_start :: "scan_options \<Rightarrow> scanner \<Rightarrow> scanner" where
  "find_line_start opt s =
    (let t = line_start_step opt s in if sc_i s < sc_i t then find_line_start opt t else t)"
  by auto
termination
proof (relation "measure (\<lambda>(opt, s). length (sc_source s) - sc_i s)", goal_cases)
  case (2 opt s t)
  with line_start_step_le[of opt s] show ?case by auto
qed simp

declare find_line_start.simps [simp del]

text \<open>The loop that looks for the end of a line: whether it has seen a separator, and the cursor.\<close>

definition line_end_step :: "scan_options \<Rightarrow> bool \<Rightarrow> scanner \<Rightarrow> bool \<times> scanner" where
  "line_end_step opt hasFields s =
    (if isFieldSeparator opt s then (True, sc_advance 1 s)
     else if isStartQuote opt s then (hasFields, sc_advance 1 (snd (handleQuotedString opt s)))
     else (hasFields, sc_advance 1 s))"

lemma line_end_step_less: "sc_c (snd (line_end_step opt b s)) = Some x \<Longrightarrow>
    sc_left (snd (line_end_step opt b s)) < sc_left s"
proof -
  let ?q = "snd (handleQuotedString opt s)"
  assume some: "sc_c (snd (line_end_step opt b s)) = Some x"
  have q: "sc_left ?q < sc_left s \<or> (sc_c ?q = None \<and> Suc (sc_i ?q) \<ge> length (sc_source ?q))"
    unfolding handleQuotedString_def by (rule quoted_loop_end) (rule prod.collapse[symmetric])
  have "sc_c (sc_advance (Suc 0) ?q) = Some y \<Longrightarrow> sc_left ?q < sc_left s" for y
    using q by (auto simp: sc_advance.simps(2) Let_def)
  with some sc_advance_less[of 0 ?q] sc_advance_less[of 0 s] show ?thesis
    by (fastforce simp: line_end_step_def split: if_splits)
qed

function find_line_end :: "scan_options \<Rightarrow> bool \<Rightarrow> scanner \<Rightarrow> bool \<times> scanner" where
  "find_line_end opt hasFields s =
    (let r = line_end_step opt hasFields s in
     if sc_c (snd r) \<noteq> None \<and> \<not> isEndOfLine opt (snd r) then find_line_end opt (fst r) (snd r) else r)"
  by auto
termination
  by (relation "measure (\<lambda>(opt, b, s). sc_left s)") (auto simp: case_prod_beta intro: line_end_step_less)

declare find_line_end.simps [simp del]

definition line_scan :: "scan_options \<Rightarrow> buffer_descriptor \<Rightarrow> nat \<times> buffer_descriptor" where
  "line_scan opt spec =
    (let s = skipLinePrefix opt (find_line_start opt (new_Scanner (bd_source spec) (lineStart spec)));
         spec = spec\<lparr>lineStart := sc_i s\<rparr>;
         (hasFields, s) = find_line_end opt False s;
         spec = spec\<lparr>lineHasFields := hasFields, atEnd := isAtEnd s\<rparr> in
     (sc_lines s, if isEndOfLine opt s then spec\<lparr>lineEnd := sc_i s\<rparr> else spec))"

section \<open>Fields\<close>

text \<open>Both loops over the fields test only for the end of the line, not for the end of the buffer.\<close>

partial_function (option) unquoted_loop ::
  "scan_options \<Rightarrow> string \<Rightarrow> scanner \<Rightarrow> (string \<times> scanner) option" where
  "unquoted_loop opt acc s =
    (if isFieldSeparator opt s \<or> isEndOfLine opt s then Some (acc, s)
     else unquoted_loop opt (acc @ chr s) (sc_advance 1 s))"

definition getValueForDelimitedField ::
  "scan_options \<Rightarrow> scanner \<Rightarrow> (string \<times> scanner) option" where
  "getValueForDelimitedField opt s =
    (if isStartQuote opt s then Some (handleQuotedString opt s) else unquoted_loop opt [] s)"

partial_function (option) field_loop ::
  "scan_options \<Rightarrow> string list \<Rightarrow> scanner \<Rightarrow> string list option" where
  "field_loop opt acc s =
    (if isEndOfLine opt s then Some acc
     else if isFieldSeparator opt s then field_loop opt acc (sc_advance 1 s)
     else case getValueForDelimitedField opt s of None \<Rightarrow> None
       | Some vs \<Rightarrow> field_loop opt (acc @ [fst vs]) (snd vs))"

definition field_scan :: "scan_options \<Rightarrow> buffer_descriptor \<Rightarrow> string list option" where
  "field_scan opt spec = field_loop opt [] (new_Scanner (bd_source spec) (lineStart spec))"

definition getValueForFixedWidthField :: "nat \<Rightarrow> nat \<Rightarrow> scanner \<Rightarrow> string" where
  "getValueForFixedWidthField startPos endPos s =
     (let a = min startPos endPos; b = max startPos endPos in take (b - a) (drop a (sc_source s)))"

section \<open>Plain text\<close>

text \<open>A cursor between the text \<open>p\<close> before it and the text \<open>r\<close> from it on.\<close>

definition sc_at :: "string \<Rightarrow> string \<Rightarrow> scanner \<Rightarrow> bool" where
  "sc_at p r s = (sc_source s = p @ r \<and> sc_i s = length p \<and> sc_c s = js_get r 0)"

lemma sc_at_new: "sc_at p r (new_Scanner (p @ r) (length p))"
  by (simp add: sc_at_def new_Scanner_def js_get_def nth_append)

lemma sc_at_advance:
  assumes "sc_at p (x # y # r) s"
  shows "sc_at (p @ [x]) (y # r) (sc_advance (Suc 0) s)"
    "x \<noteq> newline \<Longrightarrow> sc_lines (sc_advance (Suc 0) s) = sc_lines s"
  using assms by (simp_all add: sc_at_def sc_advance.simps(2) Let_def js_get_def nth_append)

lemma sc_at_c: "sc_at p (x # r) s \<Longrightarrow> sc_c s = Some x"
  by (simp add: sc_at_def js_get_def)

lemma sc_at_peek: "sc_at p (x # r) s \<Longrightarrow> sc_peek (Suc 0) s = js_get r 0"
  by (auto simp: sc_at_def sc_peek_def js_get_def nth_append)

text \<open>Options with a newline at the end of each line, no prefix and no comments.\<close>

definition plain_options :: "scan_options \<Rightarrow> bool" where
  "plain_options opt = (lineEndString opt = [newline] \<and> lineStartString opt = [] \<and> commentStart opt = None
     \<and> fieldSep opt \<noteq> newline \<and> fieldQuoteStart opt \<noteq> newline \<and> fieldQuoteStart opt \<noteq> fieldSep opt)"

definition plain_char :: "scan_options \<Rightarrow> char \<Rightarrow> bool" where
  "plain_char opt x = (x \<noteq> newline \<and> x \<noteq> fieldSep opt \<and> x \<noteq> fieldQuoteStart opt)"

definition plain_field :: "scan_options \<Rightarrow> string \<Rightarrow> bool" where
  "plain_field opt f = (f \<noteq> [] \<and> list_all (plain_char opt) f)"

text \<open>A record starts with a character that is not skipped as white space.\<close>

definition plain_record :: "scan_options \<Rightarrow> string list \<Rightarrow> bool" where
  "plain_record opt fs = (fs \<noteq> [] \<and> list_all (plain_field opt) fs
     \<and> (32::nat) < of_char (hd (hd fs)))"

fun record_text :: "scan_options \<Rightarrow> string list \<Rightarrow> string" where
  "record_text opt [] = []"
| "record_text opt [f] = f"
| "record_text opt (f # fs) = f @ fieldSep opt # record_text opt fs"

lemma eol_at:
  assumes "sc_at p r s" "lineEndString opt = [newline]"
  shows "isEndOfLine opt s \<longleftrightarrow> take 1 r = [newline]"
  using assms by (simp add: isEndOfLine_def lineEndExtra_def sc_at_def)

lemma unquoted_plain:
  assumes "sc_at p (f @ x # r) s" "list_all (plain_char opt) f" "lineEndString opt = [newline]"
    "x = fieldSep opt \<or> x = newline"
  shows "\<exists>s'. unquoted_loop opt acc s = Some (acc @ f, s') \<and> sc_at (p @ f) (x # r) s'"
  using assms(1,2)
proof (induction f arbitrary: p acc s)
  case Nil
  have "isFieldSeparator opt s \<or> isEndOfLine opt s"
    using Nil assms(3,4) eol_at[of p "x # r" s opt] sc_at_c[of p x r s] by (auto simp: isFieldSeparator_def)
  with Nil show ?case by (subst unquoted_loop.simps) simp
next
  case (Cons y f)
  obtain z zs where r: "f @ x # r = z # zs" by (cases f) auto
  have at: "sc_at p (y # z # zs) s" using Cons.prems(1) r by simp
  have "\<not> isFieldSeparator opt s" "\<not> isEndOfLine opt s" "chr s = [y]"
    using Cons.prems(2) sc_at_c[OF at] eol_at[OF at assms(3)]
    by (auto simp: isFieldSeparator_def plain_char_def chr_def)
  with Cons.IH[of "p @ [y]" "sc_advance (Suc 0) s" "acc @ [y]"] sc_at_advance(1)[OF at] Cons.prems(2) r
  show ?case by (subst unquoted_loop.simps) simp
qed

lemma record_text_Cons:
  "record_text opt (f # fs) = f @ (if fs = [] then [] else fieldSep opt # record_text opt fs)"
  by (cases fs) simp_all

lemma plain_record_start:
  assumes "plain_record opt fs"
  obtains x t where "record_text opt fs = x # t" "(32::nat) < of_char x" "plain_char opt x"
proof -
  obtain x f gs where "fs = (x # f) # gs"
    using assms by (auto simp: plain_record_def plain_field_def neq_Nil_conv list_all_iff)
  with assms that show thesis
    by (auto simp: record_text_Cons plain_record_def plain_field_def)
qed

lemma value_plain:
  assumes "sc_at p (f @ x # r) s" "plain_field opt f" "plain_options opt" "x = fieldSep opt \<or> x = newline"
  shows "\<exists>s'. getValueForDelimitedField opt s = Some (f, s') \<and> sc_at (p @ f) (x # r) s'
    \<and> \<not> isEndOfLine opt s \<and> \<not> isFieldSeparator opt s"
proof -
  obtain y g where f: "f = y # g" using assms(2) by (auto simp: plain_field_def neq_Nil_conv)
  have c: "sc_c s = Some y" "plain_char opt y" using assms(1,2) f sc_at_c by (auto simp: plain_field_def)
  have "\<not> isEndOfLine opt s"
    using eol_at[OF assms(1)] assms(2,3) f by (auto simp: plain_options_def plain_field_def plain_char_def)
  with c unquoted_plain[OF assms(1) _ _ assms(4), of "[]"] assms(2,3) show ?thesis
    by (auto simp: getValueForDelimitedField_def isStartQuote_def isFieldSeparator_def plain_char_def
        plain_field_def plain_options_def)
qed

lemma field_loop_plain:
  assumes "sc_at p (record_text opt fs @ newline # r) s" "list_all (plain_field opt) fs" "plain_options opt"
  shows "field_loop opt acc s = Some (acc @ fs)"
  using assms(1,2)
proof (induction fs arbitrary: p acc s)
  case Nil
  with eol_at[OF Nil(1)] assms(3) show ?case
    by (subst field_loop.simps) (simp add: plain_options_def)
next
  case (Cons f fs)
  define x where "x = (if fs = [] then newline else fieldSep opt)"
  define u where "u = (if fs = [] then r else record_text opt fs @ newline # r)"
  have at: "sc_at p (f @ x # u) s"
    using Cons.prems(1) by (auto simp: record_text_Cons x_def u_def split: if_splits)
  have sep: "x = fieldSep opt \<or> x = newline" by (simp add: x_def)
  obtain s' where v: "getValueForDelimitedField opt s = Some (f, s')" "sc_at (p @ f) (x # u) s'"
    "\<not> isEndOfLine opt s" "\<not> isFieldSeparator opt s"
    using value_plain[OF at _ assms(3) sep] Cons.prems(2) by auto
  have step: "field_loop opt acc s = field_loop opt (acc @ [f]) s'"
    using v by (subst field_loop.simps) simp
  show ?case
  proof (cases "fs = []")
    case True
    with step eol_at[OF v(2)] assms(3) show ?thesis
      by (subst (asm) (2) field_loop.simps) (simp add: x_def plain_options_def)
  next
    case False
    then obtain g gs where fs: "fs = g # gs" by (cases fs) auto
    then obtain y ys where g: "u = y # ys" using Cons.prems(2)
      by (cases g) (auto simp: u_def record_text_Cons plain_field_def)
    have "sc_at (p @ f @ [x]) u (sc_advance (Suc 0) s')"
      using sc_at_advance(1)[of "p @ f" x y ys] v(2) g by simp
    then have "field_loop opt (acc @ [f]) (sc_advance (Suc 0) s') = Some (acc @ f # fs)"
      using Cons.IH[of "p @ f @ [x]" _ "acc @ [f]"] Cons.prems(2) False by (simp add: u_def)
    moreover have "\<not> isEndOfLine opt s'" "isFieldSeparator opt s'"
      using eol_at[OF v(2)] sc_at_c[OF v(2)] False assms(3)
      by (auto simp: x_def plain_options_def isFieldSeparator_def)
    ultimately show ?thesis unfolding step by (subst field_loop.simps) simp
  qed
qed

lemma find_line_end_plain:
  assumes "sc_at p (t @ newline # r) s" "t \<noteq> []" "list_all (\<lambda>x. x \<noteq> newline \<and> x \<noteq> fieldQuoteStart opt) t"
    "plain_options opt"
  shows "\<exists>s'. find_line_end opt b s = (b \<or> fieldSep opt \<in> set t, s') \<and> sc_at (p @ t) (newline # r) s'
    \<and> sc_lines s' = sc_lines s"
  using assms(1-3)
proof (induction t arbitrary: p b s)
  case (Cons x t)
  obtain y ys where r: "t @ newline # r = y # ys" by (cases t) auto
  have at: "sc_at p (x # y # ys) s" using Cons.prems(1) r by simp
  let ?s = "sc_advance (Suc 0) s"
  have s: "sc_at (p @ [x]) (t @ newline # r) ?s" "sc_lines ?s = sc_lines s" "sc_c ?s = Some y"
    using sc_at_advance[OF at] sc_at_c[of "p @ [x]" y ys] Cons.prems(3) r by simp_all
  have step: "line_end_step opt b s = (b \<or> fieldSep opt = x, ?s)"
    using sc_at_c[OF at] Cons.prems(3)
    by (auto simp: line_end_step_def isFieldSeparator_def isStartQuote_def)
  have eol: "isEndOfLine opt ?s \<longleftrightarrow> t = []"
    using eol_at[OF s(1), of opt] assms(4) Cons.prems(3)
    by (cases t) (auto simp: plain_options_def)
  show ?case
  proof (cases "t = []")
    case True
    with s eol step r show ?thesis by (subst find_line_end.simps) (simp add: Let_def)
  next
    case False
    with Cons.IH[of "p @ [x]" ?s "b \<or> fieldSep opt = x"] s eol step Cons.prems(3) show ?thesis
      by (subst find_line_end.simps) (auto simp: Let_def)
  qed
qed simp

lemma plain_fieldD:
  assumes "plain_field opt f"
  shows "list_all (\<lambda>x. x \<noteq> newline \<and> x \<noteq> fieldQuoteStart opt) f" "fieldSep opt \<notin> set f"
  using assms by (auto simp: plain_field_def plain_char_def list_all_iff)

lemma record_text_chars:
  assumes "plain_record opt fs" "plain_options opt"
  shows "list_all (\<lambda>x. x \<noteq> newline \<and> x \<noteq> fieldQuoteStart opt) (record_text opt fs)"
    "fieldSep opt \<in> set (record_text opt fs) \<longleftrightarrow> length fs > 1"
proof -
  have ne: "fieldSep opt \<noteq> fieldQuoteStart opt" and newlines: "fieldSep opt \<noteq> newline"
    using assms(2) by (auto simp: plain_options_def)
  have "list_all (plain_field opt) fs" using assms(1) by (simp add: plain_record_def)
  then have "list_all (\<lambda>x. x \<noteq> newline \<and> x \<noteq> fieldQuoteStart opt) (record_text opt fs)
    \<and> (fieldSep opt \<in> set (record_text opt fs) \<longleftrightarrow> length fs > 1)"
    using ne newlines by (induction fs) (simp_all add: record_text_Cons plain_fieldD)
  then show "list_all (\<lambda>x. x \<noteq> newline \<and> x \<noteq> fieldQuoteStart opt) (record_text opt fs)"
    "fieldSep opt \<in> set (record_text opt fs) \<longleftrightarrow> length fs > 1" by simp_all
qed

lemma line_start_plain:
  assumes "sc_at p (record_text opt fs @ newline # r) s" "plain_record opt fs" "plain_options opt"
  shows "skipLinePrefix opt (find_line_start opt s) = s"
proof -
  obtain x t where t: "record_text opt fs = x # t" "(32::nat) < of_char x" "plain_char opt x"
    using plain_record_start[OF assms(2)] .
  then have "sc_c s = Some x" using assms(1) sc_at_c by simp
  with t have "\<not> isWhitespace opt s"
    by (auto simp: isWhitespace_def not_above_space_def plain_char_def)
  with assms(3) have "line_start_step opt s = s"
    by (simp add: line_start_step_def skipWhitespace.simps isInlineComment_def plain_options_def)
  with assms(3) show ?thesis
    by (subst find_line_start.simps) (simp add: skipLinePrefix_def plain_options_def)
qed

text \<open>
  C26: A record of plain fields, written with the separator between the fields and a newline at the
  end, is found and cut as it was written, wherever it is in the buffer: the line scanner leaves
  the positions of its first character and of its newline, and the field scanner gives back the
  fields. Only the flag for the presence of fields is wrong: it is false for a record of one field.
\<close>

theorem plain_record_roundtrip:
  assumes "plain_options opt" "plain_record opt fs"
    "bd_source spec = p @ record_text opt fs @ newline # r" "lineStart spec = length p"
    "line_scan opt spec = (n, spec')"
  shows "field_scan opt spec' = Some fs \<and> n = 0 \<and> lineStart spec' = length p
    \<and> lineEnd spec' = length p + length (record_text opt fs) \<and> lineHasFields spec' = (length fs > 1)
    \<and> atEnd spec' = (r = [])"
proof -
  let ?s = "new_Scanner (bd_source spec) (lineStart spec)"
  have at: "sc_at p (record_text opt fs @ newline # r) ?s"
    using assms(3,4) sc_at_new by simp
  have ne: "record_text opt fs \<noteq> []" by (rule plain_record_start[OF assms(2)]) simp
  obtain s' where s': "find_line_end opt False ?s = (length fs > 1, s')"
    "sc_at (p @ record_text opt fs) (newline # r) s'" "sc_lines s' = 0"
    using find_line_end_plain[OF at ne record_text_chars(1)[OF assms(2,1)] assms(1), of False]
      record_text_chars(2)[OF assms(2,1)] by (auto simp: new_Scanner_def)
  have eol: "isEndOfLine opt s'" using eol_at[OF s'(2), of opt] assms(1) by (simp add: plain_options_def)
  have l: "(n, spec') = (0, spec\<lparr>lineStart := length p, lineHasFields := length fs > 1, atEnd := (r = []),
      lineEnd := length p + length (record_text opt fs)\<rparr>)"
    using assms(5) s' eol line_start_plain[OF at assms(2,1)] assms(4)
    by (simp add: line_scan_def Let_def isAtEnd_def sc_at_def) (simp add: new_Scanner_def)
  then have "field_scan opt spec' = field_loop opt [] ?s"
    using assms(4) by (simp add: field_scan_def)
  with field_loop_plain[OF at _ assms(1)] assms(2) l show ?thesis
    by (simp add: plain_record_def)
qed

definition tab_options :: scan_options where
  "tab_options = \<lparr>fieldSep = CHR 0x09, fieldSepOnWhitespace = False, fieldQuoteStart = CHR 0x22,
     fieldQuoteEnd = CHR 0x22, fieldQuoteEsc = CHR 0x5C, lineStartString = [],
     lineEndString = [newline], commentStart = None\<rparr>"

lemma tab_options_plain: "plain_options tab_options"
  by (simp add: plain_options_def tab_options_def)

theorem plain_record_roundtrip_witness:
  "field_scan tab_options (snd (line_scan tab_options
     (new_BufferDescriptor (record_text tab_options [''10'', ''ab''] @ newline # ''11'')))) = Some [''10'', ''ab'']"
proof -
  have "plain_record tab_options [''10'', ''ab'']"
    by (simp add: plain_record_def plain_field_def plain_char_def tab_options_def)
  from plain_record_roundtrip[OF tab_options_plain this _ _ prod.collapse[symmetric], of _ "[]" "''11''"]
  show ?thesis by (simp only: new_BufferDescriptor_def buffer_descriptor.simps append_Nil length_0_conv list.size)
qed

section \<open>The end of the buffer\<close>

text \<open>No end of a line is left, and the cursor is in the buffer.\<close>

definition no_eol :: "scanner \<Rightarrow> bool" where
  "no_eol s = (sc_i s < length (sc_source s) \<and> newline \<notin> set (drop (sc_i s) (sc_source s)))"

lemma sc_advance_mono: "sc_i s < length (sc_source s) \<Longrightarrow>
    sc_i s \<le> sc_i (sc_advance n s) \<and> sc_i (sc_advance n s) < length (sc_source s)"
proof (induction n arbitrary: s)
  case (Suc n)
  show ?case
    using Suc.prems Suc.IH[of "(if sc_c s = Some newline then s\<lparr>sc_lines := Suc (sc_lines s)\<rparr> else s)
      \<lparr>sc_i := Suc (sc_i s), sc_c := js_get (sc_source s) (Suc (sc_i s))\<rparr>"]
    by (auto simp: sc_advance.simps(2) Let_def)
qed simp

lemma no_eol_advance: "no_eol s \<Longrightarrow> no_eol (sc_advance n s)"
  using sc_advance_mono[of s n] set_drop_subset_set_drop[of "sc_i s" "sc_i (sc_advance n s)" "sc_source s"]
  by (auto simp: no_eol_def)

lemma no_eol_quoted_body:
  assumes "no_eol s"
  shows "quoted_body opt acc s = Inl (v, s') \<Longrightarrow> no_eol s'" "quoted_body opt acc s = Inr (v, s') \<Longrightarrow> no_eol s'"
  using assms by (auto simp: quoted_body_def Let_def no_eol_advance split: if_splits)

lemma no_eol_quoted: "no_eol s \<Longrightarrow> no_eol (snd (quoted_loop opt acc s))"
proof (induction opt acc s rule: quoted_loop.induct)
  case (1 opt acc s)
  note body = no_eol_quoted_body[OF no_eol_advance[OF 1(2)], of opt acc 1]
  show ?case
  proof (cases "quoted_body opt acc (sc_advance 1 s)")
    case (Inl r)
    with body(1)[of "fst r" "snd r"] show ?thesis by (simp add: quoted_loop.simps[of opt acc s])
  next
    case (Inr r)
    with body(2)[of "fst r" "snd r"] 1(1)[OF Inr] show ?thesis by (simp add: quoted_loop.simps[of opt acc s])
  qed
qed

lemma no_eol_unquoted: "unquoted_loop opt acc s = Some r \<Longrightarrow> no_eol s \<longrightarrow> no_eol (snd r)"
  by (rule unquoted_loop.raw_induct[where P = "\<lambda>opt acc s r. no_eol s \<longrightarrow> no_eol (snd r)"])
    (auto simp: no_eol_advance split: if_splits)

lemma no_eol_not_end: "no_eol s \<Longrightarrow> lineEndString opt = [newline] \<Longrightarrow> \<not> isEndOfLine opt s"
  by (cases "drop (sc_i s) (sc_source s)") (auto simp: no_eol_def isEndOfLine_def lineEndExtra_def)

lemma no_eol_value: "no_eol s \<Longrightarrow> getValueForDelimitedField opt s = Some r \<Longrightarrow> no_eol (snd r)"
  using no_eol_quoted[of s opt "[]"] no_eol_unquoted[of opt "[]" s r]
  by (auto simp: getValueForDelimitedField_def handleQuotedString_def split: if_splits)

lemma no_eol_field_loop:
  assumes "field_loop opt acc s = Some r"
  shows "lineEndString opt = [newline] \<longrightarrow> \<not> no_eol s"
proof (rule field_loop.raw_induct[where
      P = "\<lambda>opt acc s r. lineEndString opt = [newline] \<longrightarrow> \<not> no_eol s", OF _ assms], goal_cases)
  case (1 f opt acc s r)
  then show ?case
    using no_eol_not_end[of s opt] no_eol_advance[of s 1] no_eol_value[of s opt]
    by (fastforce split: if_splits option.splits)
qed

text \<open>
  The last record of a buffer that does not end in a newline is never read: the line scanner
  returns and reports the end of the buffer, but then the field scanner runs forever, because it
  tests only for the end of the line and the cursor stays on the last character.
\<close>

theorem unterminated_record_hangs:
  assumes "lineEndString opt = [newline]" "lineStart spec < length (bd_source spec)"
    "newline \<notin> set (drop (lineStart spec) (bd_source spec))"
  shows "field_scan opt spec = None"
proof (cases "field_scan opt spec")
  case (Some r)
  then have "\<not> no_eol (new_Scanner (bd_source spec) (lineStart spec))"
    using no_eol_field_loop assms(1) by (auto simp: field_scan_def)
  with assms(2,3) show ?thesis by (simp add: no_eol_def new_Scanner_def)
qed

theorem unterminated_record_hangs_witness:
  "field_scan tab_options (new_BufferDescriptor [CHR 0x31, CHR 0x09, CHR 0x32]) = None"
  by (rule unterminated_record_hangs) (simp_all add: tab_options_def new_BufferDescriptor_def)

section \<open>Quoted fields\<close>

definition quote_options :: "scan_options \<Rightarrow> bool" where
  "quote_options opt = (plain_options opt \<and> fieldQuoteEnd opt = fieldQuoteStart opt
     \<and> fieldQuoteEsc opt \<notin> {fieldSep opt, newline})"

definition quotable :: "scan_options \<Rightarrow> string \<Rightarrow> bool" where
  "quotable opt f = (f \<noteq> [] \<and> list_all (\<lambda>x. x \<noteq> fieldQuoteStart opt \<and> x \<noteq> fieldQuoteEsc opt) f)"

definition quoted :: "scan_options \<Rightarrow> string \<Rightarrow> string" where
  "quoted opt f = fieldQuoteStart opt # f @ [fieldQuoteEnd opt]"

fun doubled :: "scan_options \<Rightarrow> string list \<Rightarrow> string list" where
  "doubled opt [] = []"
| "doubled opt [f] = [f, [newline]]"
| "doubled opt (f # fs) = f # [fieldSep opt] # doubled opt fs"

lemma quoted_append: "quoted opt f @ r = fieldQuoteStart opt # f @ fieldQuoteEnd opt # r"
  by (simp add: quoted_def)

lemma quoted_plain:
  assumes "sc_at p (x # f @ fieldQuoteEnd opt # r) s"
    "list_all (\<lambda>y. y \<noteq> fieldQuoteStart opt \<and> y \<noteq> fieldQuoteEsc opt) f"
    "fieldQuoteEnd opt = fieldQuoteStart opt" "js_get r 0 \<noteq> Some (fieldQuoteEnd opt)"
  shows "\<exists>s'. quoted_loop opt acc s = (acc @ f, s') \<and> sc_at (p @ x # f) (fieldQuoteEnd opt # r) s'"
  using assms(1,2)
proof (induction f arbitrary: p x acc s)
  case Nil
  let ?s = "sc_advance (Suc 0) s"
  have at: "sc_at (p @ [x]) (fieldQuoteEnd opt # r) ?s" using sc_at_advance(1) Nil by simp
  have "quoted_body opt acc ?s = Inl (acc, ?s)"
    using sc_at_c[OF at] sc_at_peek[OF at] assms(4) by (simp add: quoted_body_def)
  with at show ?case by (subst quoted_loop.simps) simp
next
  case (Cons y f)
  let ?s = "sc_advance (Suc 0) s"
  have at: "sc_at (p @ [x]) (y # f @ fieldQuoteEnd opt # r) ?s" using sc_at_advance(1) Cons.prems(1) by simp
  have "quoted_body opt acc ?s = Inr (acc @ [y], ?s)" "sc_c ?s = Some y"
    using sc_at_c[OF at] Cons.prems(2) assms(3)
    by (simp_all add: quoted_body_def isQuote_def isEsc_def chr_def)
  with Cons.IH[OF at, of "acc @ [y]"] Cons.prems(2) show ?case by (subst quoted_loop.simps) simp
qed

lemma quoted_last:
  assumes "sc_at p [x, newline] s" "quote_options opt"
  shows "\<exists>s'. quoted_loop opt [] s = ([newline], s') \<and> isEndOfLine opt s'"
proof -
  let ?s = "sc_advance (Suc 0) s" and ?t = "sc_advance (Suc 0) (sc_advance (Suc 0) s)"
  have at: "sc_at (p @ [x]) [newline] ?s" using sc_at_advance(1) assms(1) by simp
  have t: "sc_c ?t = None" "sc_i ?t = length p + 1" "sc_source ?t = p @ [x, newline]"
    using at by (simp_all add: sc_at_def sc_advance.simps(2)[of 0 ?s] Let_def)
  have "quoted_body opt [] ?s = Inr ([newline], ?s)" "sc_c ?s = Some newline"
    using sc_at_c[OF at] assms(2)
    by (auto simp: quoted_body_def isQuote_def isEsc_def chr_def quote_options_def plain_options_def)
  moreover have "quoted_body opt [newline] ?t = Inr ([newline], ?t)"
    using t by (simp add: quoted_body_def isQuote_def isEsc_def chr_def)
  moreover have "isEndOfLine opt ?t"
    using t assms(2) by (simp add: isEndOfLine_def lineEndExtra_def quote_options_def plain_options_def)
  ultimately show ?thesis
    using t by (subst quoted_loop.simps, simp, subst quoted_loop.simps) simp
qed

lemma field_loop_quoted_value:
  assumes "sc_at p (fieldQuoteStart opt # r) s" "quote_options opt" "quoted_loop opt [] s = (v, s')"
  shows "field_loop opt acc s = field_loop opt (acc @ [v]) s'"
proof -
  have "\<not> isEndOfLine opt s" "\<not> isFieldSeparator opt s" "isStartQuote opt s"
    using assms(2) eol_at[OF assms(1), of opt] sc_at_c[OF assms(1)]
    by (auto simp: quote_options_def plain_options_def isFieldSeparator_def isStartQuote_def)
  with assms(3) show ?thesis
    by (subst field_loop.simps) (simp add: getValueForDelimitedField_def handleQuotedString_def)
qed

lemma field_loop_doubled:
  assumes "sc_at p (record_text opt (map (quoted opt) fs) @ [newline]) s" "fs \<noteq> []"
    "list_all (quotable opt) fs" "quote_options opt"
  shows "field_loop opt acc s = Some (acc @ doubled opt fs)"
  using assms(1-3)
proof (induction fs arbitrary: p acc s)
  case (Cons f fs)
  note opt = assms(4)[unfolded quote_options_def plain_options_def]
  define r where "r = (if fs = [] then [newline]
    else fieldSep opt # record_text opt (map (quoted opt) fs) @ [newline])"
  have at: "sc_at p (fieldQuoteStart opt # f @ fieldQuoteEnd opt # r) s"
    using Cons.prems(1) by (cases "fs = []") (simp_all add: record_text_Cons r_def quoted_append)
  have "js_get r 0 \<noteq> Some (fieldQuoteEnd opt)" using opt by (auto simp: r_def js_get_def)
  then obtain s1 where s1: "quoted_loop opt [] s = (f, s1)"
    "sc_at (p @ fieldQuoteStart opt # f) (fieldQuoteStart opt # r) s1"
    using quoted_plain[OF at, of "[]"] Cons.prems(3) opt by (auto simp: quotable_def)
  note first = field_loop_quoted_value[OF at assms(4) s1(1), of acc]
  show ?case
  proof (cases fs)
    case Nil
    then obtain s2 where s2: "quoted_loop opt [] s1 = ([newline], s2)" "isEndOfLine opt s2"
      using quoted_last[of "p @ fieldQuoteStart opt # f" "fieldQuoteStart opt" s1, OF _ assms(4)] s1(2)
      by (auto simp: r_def)
    then have "field_loop opt ((acc @ [f]) @ [[newline]]) s2 = Some ((acc @ [f]) @ [[newline]])"
      by (subst field_loop.simps) simp
    with first field_loop_quoted_value[OF s1(2) assms(4) s2(1), of "acc @ [f]"] Nil show ?thesis by simp
  next
    case (Cons g gs)
    define t where "t = tl (record_text opt (map (quoted opt) fs) @ [newline])"
    have g: "record_text opt (map (quoted opt) fs) @ [newline] = fieldQuoteStart opt # t"
      by (simp add: t_def Cons record_text_Cons quoted_def)
    have "js_get t 0 \<noteq> Some (fieldQuoteEnd opt)"
      using Cons.prems(3) opt Cons by (cases g) (auto simp: t_def record_text_Cons quoted_def quotable_def js_get_def)
    moreover have "sc_at (p @ fieldQuoteStart opt # f) (fieldQuoteStart opt # [fieldSep opt] @ fieldQuoteEnd opt # t) s1"
      using s1(2) opt g Cons by (simp add: r_def)
    ultimately obtain s2 where s2: "quoted_loop opt [] s1 = ([fieldSep opt], s2)"
      "sc_at ((p @ fieldQuoteStart opt # f) @ fieldQuoteStart opt # [fieldSep opt]) (fieldQuoteEnd opt # t) s2"
      using quoted_plain[of "p @ fieldQuoteStart opt # f" "fieldQuoteStart opt" "[fieldSep opt]" opt t s1 "[]"] opt
      by auto
    have "field_loop opt (acc @ [f] @ [[fieldSep opt]]) s2 = Some ((acc @ [f] @ [[fieldSep opt]]) @ doubled opt fs)"
      by (rule Cons.IH) (use s2(2) g opt Cons Cons.prems(3) in simp_all)
    with first field_loop_quoted_value[OF s1(2) assms(4) s2(1), of "acc @ [f]"] Cons show ?thesis by simp
  qed
qed simp

text \<open>
  A record of quoted fields is misread: \<open>handleQuotedString\<close> leaves the cursor on the closing quote,
  which the field scanner takes for the next opening quote, so every separator, and the newline,
  comes back as a field of its own, and a record of n fields has 2n.
\<close>

theorem quoted_fields_doubled:
  assumes "quote_options opt" "fs \<noteq> []" "list_all (quotable opt) fs"
    "bd_source spec = p @ record_text opt (map (quoted opt) fs) @ [newline]" "lineStart spec = length p"
  shows "field_scan opt spec = Some (doubled opt fs) \<and> length (doubled opt fs) = 2 * length fs"
proof -
  have "length (doubled opt fs) = 2 * length fs"
    by (induction fs rule: doubled.induct) simp_all
  with field_loop_doubled[OF _ assms(2,3,1), of p] assms(4,5) sc_at_new show ?thesis
    by (simp add: field_scan_def)
qed

theorem quoted_fields_doubled_witness:
  "field_scan tab_options (new_BufferDescriptor
     (record_text tab_options (map (quoted tab_options) [''a'', ''bc'']) @ [newline]))
   = Some [''a'', [CHR 0x09], ''bc'', [newline]]"
  using quoted_fields_doubled[of tab_options "[''a'', ''bc'']" "new_BufferDescriptor
     (record_text tab_options (map (quoted tab_options) [''a'', ''bc'']) @ [newline])" "[]"]
  by (simp add: quote_options_def quotable_def tab_options_plain new_BufferDescriptor_def)
    (simp add: tab_options_def)

text \<open>A comment mark of one character is looked for in the second column, not the first.\<close>

lemma comment_mark_off_by_one:
  "commentStart opt = Some [x] \<Longrightarrow> isInlineComment opt s \<longleftrightarrow> js_get (sc_source s) (Suc (sc_i s)) = Some x"
  by (simp add: isInlineComment_def sc_peek_def)

end
