(* ===== verification/Loader.thy ===== *)
theory Loader
  imports Prelude
begin

text \<open>
  The engine of the loader: \<open>Controller.js\<close>, \<open>DbWriter.js\<close> with its batch manager, and the data
  source of \<open>DataSource.js\<close> that makes rows without reading a file. The three objects call each
  other synchronously, so one record holds the state of all; a record of data is the number of
  its row. What arrives from outside is an event: the start, the outcome of a row of an executed
  batch, the timer, the reply to a commit or rollback, and the end of the log of bad records. The
  calls that leave the loader are kept in \<open>trace\<close>, in order. A function that returns \<open>None\<close> does not
  return: the code recurses until the stack is exhausted.
\<close>

section \<open>The state\<close>

record job =
  maxRows :: "nat option"
  skipRows :: nat
  workerId :: nat
  nWorkers :: nat
  inOneTransaction :: bool

datatype row_error = InsufficientSpace | TemporaryError | OtherError

datatype tx_state = TxIdle | TxActive | TxRollbackOnly

datatype tx_request = CommitSent | RollbackSent

datatype fatal =
    InfiniteTransaction
  | Loader_error row_error
  | Commit_error
  | Idle_commit
  | Rolled_back

datatype loader_output =
    Offered nat
  | Persist nat
  | ExecuteBatch "nat list"
  | RecordError nat
  | RecordStored nat
  | SendCommit
  | SendRollback
  | LoggerEnd
  | FinalCallback "fatal option" "(nat \<times> nat \<times> nat \<times> nat) option"

record loader =
  started :: bool
  running :: bool
  shutdown :: bool
  skipping :: bool
  rowsProcessed :: nat
  rowsSkipped :: nat
  rowsComplete :: nat
  rowsError :: nat
  tickNumber :: nat
  finishing :: bool
  ticker :: bool
  fatalError :: "fatal option"
  fibA :: nat
  fibB :: nat
  fibC :: nat
  goingUp :: bool
  op_batch :: "nat list"
  inflight :: "nat list"
  currentOpCount :: nat
  priorOpCount :: nat
  aborted :: bool
  atomic :: bool
  tx :: tx_state
  waiting :: "tx_request option"
  logger_ends :: nat
  crashed :: bool
  trace :: "loader_output list"

definition maxLead :: nat where "maxLead = 2000"
definition minLead :: nat where "minLead = 1000"

definition emit :: "loader_output \<Rightarrow> loader \<Rightarrow> loader" where
  "emit x s = s\<lparr>trace := trace s @ [x]\<rparr>"

section \<open>Batch sizes\<close>

definition batchSizeUp :: "loader \<Rightarrow> loader" where
  "batchSizeUp s = s\<lparr>fibA := fibB s, fibB := fibC s, fibC := fibB s + fibC s\<rparr>"

definition batchSizeDown :: "loader \<Rightarrow> loader" where
  "batchSizeDown s =
     (if 1 < fibC s then s\<lparr>fibC := fibB s, fibB := fibA s, fibA := fibB s - fibA s\<rparr> else s)"

definition batch_tick :: "nat \<Rightarrow> nat \<Rightarrow> loader \<Rightarrow> loader" where
  "batch_tick current prior s =
    (let s = (if current < prior then s\<lparr>goingUp := \<not> goingUp s\<rparr> else s) in
     if goingUp s then batchSizeUp s else batchSizeDown s)"

definition writer_onTick :: "loader \<Rightarrow> loader" where
  "writer_onTick s = (batch_tick (currentOpCount s) (priorOpCount s) s)
     \<lparr>priorOpCount := currentOpCount s, currentOpCount := 0\<rparr>"

section \<open>The writer\<close>

definition executeBatch :: "loader \<Rightarrow> loader" where
  "executeBatch s = (emit (ExecuteBatch (op_batch s)) s)
     \<lparr>inflight := inflight s @ op_batch s, op_batch := []\<rparr>"

definition loadItem :: "nat \<Rightarrow> loader \<Rightarrow> loader" where
  "loadItem r s =
    (let s = (emit (Persist r) s)\<lparr>op_batch := op_batch s @ [r]\<rparr> in
     if fibC s \<le> length (op_batch s) then executeBatch s else s)"

definition mark_rollback :: "loader \<Rightarrow> loader" where
  "mark_rollback s = (if tx s = TxActive then s\<lparr>tx := TxRollbackOnly\<rparr> else s)"

section \<open>The end of a load\<close>

definition loaderTransactionDidCommit :: "loader \<Rightarrow> loader" where
  "loaderTransactionDidCommit s = (emit LoggerEnd s)\<lparr>logger_ends := Suc (logger_ends s)\<rparr>"

definition loaderTransactionDidRollback :: "loader \<Rightarrow> loader" where
  "loaderTransactionDidRollback s = loaderTransactionDidCommit (s\<lparr>fatalError := Some Rolled_back\<rparr>)"

text \<open>
  \<open>end\<close> of the data source, \<open>loaderAborted\<close>, \<open>endAtomic\<close> and \<open>dsFinished\<close> call each other in a circle;
  each of the first takes the last as a parameter. A commit of an idle transaction calls back at
  once with an error.
\<close>

definition ds_end :: "(loader \<Rightarrow> loader option) \<Rightarrow> loader \<Rightarrow> loader option" where
  "ds_end fin s = (if running s then Some (s\<lparr>shutdown := True, running := False\<rparr>)
     else fin (s\<lparr>shutdown := True\<rparr>))"

definition loaderAborted :: "(loader \<Rightarrow> loader option) \<Rightarrow> fatal \<Rightarrow> loader \<Rightarrow> loader option" where
  "loaderAborted fin e s = ds_end fin (s\<lparr>fatalError := Some e\<rparr>)"

definition writer_commit :: "(loader \<Rightarrow> loader option) \<Rightarrow> loader \<Rightarrow> loader option" where
  "writer_commit fin s =
    (if tx s = TxActive then Some ((emit SendCommit s)\<lparr>waiting := Some CommitSent\<rparr>)
     else loaderAborted fin Idle_commit s)"

definition writer_rollback :: "loader \<Rightarrow> loader" where
  "writer_rollback s =
    (if tx s = TxIdle then loaderTransactionDidRollback s
     else (emit SendRollback s)\<lparr>waiting := Some RollbackSent\<rparr>)"

definition endAtomic :: "(loader \<Rightarrow> loader option) \<Rightarrow> loader \<Rightarrow> loader option" where
  "endAtomic fin s =
    (if atomic s
     then (if tx s = TxRollbackOnly then Some (writer_rollback s) else writer_commit fin s)
     else Some (loaderTransactionDidCommit s))"

definition commitIfComplete :: "(loader \<Rightarrow> loader option) \<Rightarrow> loader \<Rightarrow> loader option" where
  "commitIfComplete fin s =
    (if rowsProcessed s = rowsComplete s + rowsSkipped s then endAtomic fin s else Some s)"

lemmas finish_defs = commitIfComplete_def endAtomic_def writer_commit_def loaderAborted_def ds_end_def

partial_function (option) dsFinished :: "loader \<Rightarrow> loader option" where
  "dsFinished s =
    (let s = executeBatch (s\<lparr>finishing := True\<rparr>) in
     if rowsProcessed s \<noteq> rowsComplete s + rowsSkipped s then Some s
     else if \<not> atomic s then Some (loaderTransactionDidCommit s)
     else if tx s = TxRollbackOnly then Some (writer_rollback s)
     else if tx s = TxActive then Some ((emit SendCommit s)\<lparr>waiting := Some CommitSent\<rparr>)
     else if running s then Some (s\<lparr>fatalError := Some Idle_commit, shutdown := True, running := False\<rparr>)
     else dsFinished (s\<lparr>fatalError := Some Idle_commit, shutdown := True\<rparr>))"

text \<open>The circle as the code writes it.\<close>

lemma dsFinished_eq: "dsFinished s = commitIfComplete dsFinished (executeBatch (s\<lparr>finishing := True\<rparr>))"
  by (subst dsFinished.simps) (simp add: finish_defs Let_def)

section \<open>Rows\<close>

definition dsNewItem :: "job \<Rightarrow> (nat \<Rightarrow> bool) \<Rightarrow> loader \<Rightarrow> loader option" where
  "dsNewItem j accept s =
    (let r = rowsProcessed s;
         s = (emit (Offered r) s)\<lparr>rowsProcessed := Suc r\<rparr>;
         s = (if accept r then loadItem r s else s\<lparr>rowsSkipped := Suc (rowsSkipped s)\<rparr>) in
     Option.bind (if maxRows j = Some (rowsProcessed s) then ds_end dsFinished s else Some s) (\<lambda>s.
     let s = (if 1 < nWorkers j then s\<lparr>skipping := True\<rparr> else s) in
     Some (if rowsComplete s + maxLead < rowsProcessed s
       then executeBatch (s\<lparr>running := False\<rparr>) else s)))"

definition dsDiscardedItem :: "job \<Rightarrow> loader \<Rightarrow> loader option" where
  "dsDiscardedItem j s =
    (let s = s\<lparr>rowsProcessed := Suc (rowsProcessed s), rowsSkipped := Suc (rowsSkipped s)\<rparr> in
     Option.bind (if maxRows j = Some (rowsProcessed s) then ds_end dsFinished s else Some s) (\<lambda>s.
     Some (if skipRows j \<le> rowsSkipped s \<and> rowsProcessed s mod nWorkers j = workerId j
       then s\<lparr>skipping := False\<rparr> else s)))"

partial_function (option) run_loop :: "job \<Rightarrow> (nat \<Rightarrow> bool) \<Rightarrow> loader \<Rightarrow> loader option" where
  "run_loop j accept s =
    (if running s
     then Option.bind (if skipping s then dsDiscardedItem j s else dsNewItem j accept s) (run_loop j accept)
     else Some s)"

definition source_run :: "job \<Rightarrow> (nat \<Rightarrow> bool) \<Rightarrow> loader \<Rightarrow> loader option" where
  "source_run j accept s = Option.bind (run_loop j accept s) (\<lambda>s. if shutdown s then dsFinished s else Some s)"

definition runIfReady :: "job \<Rightarrow> (nat \<Rightarrow> bool) \<Rightarrow> loader \<Rightarrow> loader option" where
  "runIfReady j accept s = (if started s \<and> running s then source_run j accept s else Some s)"

definition isPaused :: "loader \<Rightarrow> bool" where
  "isPaused s = (\<not> (running s \<or> shutdown s))"

definition resume :: "job \<Rightarrow> (nat \<Rightarrow> bool) \<Rightarrow> loader \<Rightarrow> loader option" where
  "resume j accept s = runIfReady j accept (s\<lparr>running := True\<rparr>)"

definition source_start :: "job \<Rightarrow> (nat \<Rightarrow> bool) \<Rightarrow> loader \<Rightarrow> loader option" where
  "source_start j accept s = runIfReady j accept (s\<lparr>started := True, running := True\<rparr>)"

definition loaderRecordComplete ::
  "job \<Rightarrow> (nat \<Rightarrow> bool) \<Rightarrow> nat \<Rightarrow> bool \<Rightarrow> loader \<Rightarrow> loader option" where
  "loaderRecordComplete j accept r failed s =
    (let s = s\<lparr>rowsComplete := Suc (rowsComplete s)\<rparr>;
         s = (if failed then emit (RecordError r) (s\<lparr>rowsError := Suc (rowsError s)\<rparr>)
              else emit (RecordStored r) s) in
     Option.bind (if isPaused s \<and> rowsProcessed s < rowsComplete s + minLead
       then resume j accept s else Some s) (\<lambda>s.
     if finishing s then commitIfComplete dsFinished s
     else Some (s\<lparr>ticker := True\<rparr>)))"

definition writer_abort :: "row_error \<Rightarrow> loader \<Rightarrow> loader option" where
  "writer_abort e s =
    (if aborted s then Some s
     else loaderAborted dsFinished (Loader_error e) (mark_rollback (s\<lparr>aborted := True\<rparr>)))"

text \<open>
  The outcome of a row. On a temporary error the code reads \<open>this.batchManager\<close>, but a callback is
  called with \<open>this\<close> null, so an exception ends the program.
\<close>

definition rowCallback ::
  "job \<Rightarrow> (nat \<Rightarrow> bool) \<Rightarrow> nat \<Rightarrow> row_error option \<Rightarrow> loader \<Rightarrow> loader option" where
  "rowCallback j accept r res s =
    (let s = s\<lparr>currentOpCount := Suc (currentOpCount s)\<rparr> in
     case res of
       None \<Rightarrow> loaderRecordComplete j accept r False s
     | Some InsufficientSpace \<Rightarrow> writer_abort InsufficientSpace s
     | Some TemporaryError \<Rightarrow> Some (s\<lparr>crashed := True\<rparr>)
     | Some OtherError \<Rightarrow>
         loaderRecordComplete j accept r True (if atomic s then mark_rollback s else s))"

section \<open>Runs\<close>

definition new_Controller :: "job \<Rightarrow> loader" where
  "new_Controller j =
    (let s = \<lparr>started = False, running = False, shutdown = False, skipping = False,
       rowsProcessed = 0, rowsSkipped = 0, rowsComplete = 0, rowsError = 0, tickNumber = 0,
       finishing = False, ticker = False, fatalError = None, fibA = 0, fibB = 0, fibC = 1, goingUp = True,
       op_batch = [], inflight = [], currentOpCount = 0, priorOpCount = 0, aborted = False,
       atomic = inOneTransaction j, tx = (if inOneTransaction j then TxActive else TxIdle), waiting = None,
       logger_ends = 0, crashed = False, trace = []\<rparr> in
     if inOneTransaction j \<and> maxRows j \<in> {None, Some 0}
     then emit (FinalCallback (Some InfiniteTransaction) None) (s\<lparr>fatalError := Some InfiniteTransaction\<rparr>)
     else s)"

text \<open>The constructor also adds the rows to skip to the limit, when both are set.\<close>

definition adjust :: "job \<Rightarrow> job" where
  "adjust j = (case maxRows j of Some m \<Rightarrow>
     if skipRows j \<noteq> 0 \<and> m \<noteq> 0 then j\<lparr>maxRows := Some (m + skipRows j)\<rparr> else j | None \<Rightarrow> j)"

definition controller_run :: "job \<Rightarrow> (nat \<Rightarrow> bool) \<Rightarrow> loader \<Rightarrow> loader option" where
  "controller_run j accept s =
     source_start j accept (if workerId j \<noteq> 0 \<or> skipRows j \<noteq> 0 then s\<lparr>skipping := True\<rparr> else s)"

text \<open>The timer is stopped; nothing can start it again, since the source has finished.\<close>

definition loggerFinished :: "loader \<Rightarrow> loader" where
  "loggerFinished s = emit (FinalCallback (fatalError s)
     (Some (rowsProcessed s, rowsSkipped s, rowsComplete s, rowsError s))) (s\<lparr>ticker := False\<rparr>)"

definition onTick :: "loader \<Rightarrow> loader" where
  "onTick s = writer_onTick (s\<lparr>tickNumber := Suc (tickNumber s)\<rparr>)"

datatype loader_event =
    RowDone nat "row_error option"
  | Tick
  | TxDone bool
  | LoggerFinished

definition loader_step :: "job \<Rightarrow> (nat \<Rightarrow> bool) \<Rightarrow> loader_event \<Rightarrow> loader \<Rightarrow> loader option" where
  "loader_step j accept ev s =
    (if crashed s then Some s else
     case ev of
       RowDone r res \<Rightarrow> if r \<in> set (inflight s)
         then rowCallback j accept r res (s\<lparr>inflight := remove1 r (inflight s)\<rparr>) else Some s
     | Tick \<Rightarrow> Some (if ticker s then onTick s else s)
     | TxDone failed \<Rightarrow> (case waiting s of
           None \<Rightarrow> Some s
         | Some CommitSent \<Rightarrow>
             (let s = s\<lparr>waiting := None, tx := TxIdle\<rparr> in
              if failed then loaderAborted dsFinished Commit_error s else Some (loaderTransactionDidCommit s))
         | Some RollbackSent \<Rightarrow> Some (loaderTransactionDidRollback (s\<lparr>waiting := None, tx := TxIdle\<rparr>)))
     | LoggerFinished \<Rightarrow> Some (if 0 < logger_ends s
         then loggerFinished (s\<lparr>logger_ends := logger_ends s - 1\<rparr>) else s))"

fun loader_events :: "job \<Rightarrow> (nat \<Rightarrow> bool) \<Rightarrow> loader_event list \<Rightarrow> loader \<Rightarrow> loader option" where
  "loader_events j accept [] s = Some s"
| "loader_events j accept (ev # evs) s = Option.bind (loader_step j accept ev s) (loader_events j accept evs)"

text \<open>A load: the controller is made, told to run, and then the events happen.\<close>

definition load :: "job \<Rightarrow> (nat \<Rightarrow> bool) \<Rightarrow> loader_event list \<Rightarrow> loader option" where
  "load j0 accept evs =
    (let j = adjust j0 in
     Option.bind (controller_run j accept (new_Controller j)) (loader_events j accept evs))"

section \<open>What the end of a load leaves alone\<close>

definition offered :: "loader \<Rightarrow> nat list" where
  "offered s = List.map_filter (\<lambda>x. case x of Offered r \<Rightarrow> Some r | _ \<Rightarrow> None) (trace s)"

definition counters :: "loader \<Rightarrow> nat \<times> nat \<times> nat \<times> nat" where
  "counters s = (rowsProcessed s, rowsSkipped s, rowsComplete s, rowsError s)"

definition sizes :: "loader \<Rightarrow> nat \<times> nat \<times> nat" where
  "sizes s = (fibA s, fibB s, fibC s)"

definition pending :: "loader \<Rightarrow> nat" where
  "pending s = length (op_batch s) + length (inflight s)"

definition calm :: "loader \<Rightarrow> loader \<Rightarrow> bool" where
  "calm s s' \<longleftrightarrow> counters s' = counters s \<and> started s' = started s \<and> skipping s' = skipping s
     \<and> aborted s' = aborted s \<and> crashed s' = crashed s \<and> atomic s' = atomic s
     \<and> sizes s' = sizes s \<and> pending s' = pending s \<and> offered s' = offered s \<and> (running s' \<longrightarrow> running s)
     \<and> (shutdown s \<longrightarrow> shutdown s') \<and> (isPaused s' \<longrightarrow> isPaused s)"

lemma map_filter_append [simp]: "List.map_filter f (xs @ ys) = List.map_filter f xs @ List.map_filter f ys"
  by (simp add: List.map_filter_def)

lemma offered_simps [simp]:
  "offered (emit (Offered r) s) = offered s @ [r]"
  "offered (emit (Persist r) s) = offered s"
  "offered (emit (ExecuteBatch b) s) = offered s"
  "offered (emit (RecordError r) s) = offered s"
  "offered (emit (RecordStored r) s) = offered s"
  "offered (emit SendCommit s) = offered s"
  "offered (emit SendRollback s) = offered s"
  "offered (emit LoggerEnd s) = offered s"
  "offered (emit (FinalCallback e st) s) = offered s"
  by (simp_all add: offered_def emit_def List.map_filter_simps)

lemma offered_cong: "trace s = trace s' \<Longrightarrow> offered s = offered s'"
  by (simp add: offered_def)

lemma calm_refl [simp]: "calm s s"
  by (simp add: calm_def)

lemma calm_trans: "calm s t \<Longrightarrow> calm t u \<Longrightarrow> calm s u"
  by (auto simp: calm_def)

lemma calm_emit: "offered (emit x s) = offered s \<Longrightarrow> calm s (emit x s)"
  by (simp add: calm_def counters_def isPaused_def sizes_def pending_def) (simp add: emit_def)

lemma calm_executeBatch [simp]: "calm s (executeBatch s)"
  by (simp add: calm_def counters_def isPaused_def sizes_def pending_def executeBatch_def emit_def offered_def List.map_filter_simps)

lemma calm_update [simp]:
  "calm s (s\<lparr>finishing := a\<rparr>)" "calm s (s\<lparr>fatalError := e\<rparr>)" "calm s (s\<lparr>waiting := q\<rparr>)"
  "calm s (s\<lparr>tx := x\<rparr>)" "calm s (s\<lparr>logger_ends := n\<rparr>)" "calm s (s\<lparr>shutdown := True\<rparr>)"
  "calm s (s\<lparr>ticker := b\<rparr>)"
  by (simp_all add: calm_def counters_def isPaused_def sizes_def pending_def offered_def)

lemma calm_commit [simp]: "calm s (loaderTransactionDidCommit s)"
  unfolding loaderTransactionDidCommit_def by (rule calm_trans[OF calm_emit[of LoggerEnd]]) simp_all

lemma calm_writer_rollback [simp]: "calm s (writer_rollback s)"
  unfolding writer_rollback_def loaderTransactionDidRollback_def
  by (auto intro!: calm_trans[OF calm_update(2) calm_commit] calm_trans[OF calm_emit calm_update(3)])

lemma calm_send [simp]: "calm s ((emit SendCommit s)\<lparr>waiting := q\<rparr>)"
  by (rule calm_trans[OF calm_emit[of SendCommit]]) simp_all

lemma calm_stop: "calm s (s\<lparr>fatalError := e, shutdown := True\<rparr>)" "calm s (s\<lparr>fatalError := e, shutdown := True, running := False\<rparr>)"
  by (simp_all add: calm_def counters_def isPaused_def sizes_def pending_def offered_def)

lemma calm_stop2: "calm s (s\<lparr>shutdown := True, running := False\<rparr>)"
  by (simp add: calm_def counters_def isPaused_def sizes_def pending_def offered_def)

lemma calm_begin_end: "calm s (executeBatch (s\<lparr>finishing := True\<rparr>))"
  by (rule calm_trans[OF calm_update(1) calm_executeBatch])

lemma calm_dsFinished:
  assumes "dsFinished s = Some s'"
  shows "calm s s'"
proof (rule dsFinished.raw_induct[where P = calm, OF _ assms], goal_cases)
  case (1 f s s')
  let ?e = "executeBatch (s\<lparr>finishing := True\<rparr>)"
  have "calm ?e s'"
    using 1(2) calm_trans[OF calm_stop(1) 1(1)]
    by (auto simp: Let_def calm_stop split: if_splits)
  then show ?case by (rule calm_trans[OF calm_begin_end])
qed

lemma calm_ds_end: "ds_end dsFinished s = Some s' \<Longrightarrow> calm s s'"
  by (auto simp: ds_end_def calm_stop2 split: if_splits intro: calm_trans[OF calm_update(6)] calm_dsFinished)

lemma calm_commitIfComplete: "commitIfComplete dsFinished s = Some s' \<Longrightarrow> calm s s'"
  by (auto simp: commitIfComplete_def endAtomic_def writer_commit_def loaderAborted_def split: if_splits
      intro: calm_trans[OF calm_update(2)] dest!: calm_ds_end)

lemma calm_loaderAborted: "loaderAborted dsFinished e s = Some s' \<Longrightarrow> calm s s'"
  by (auto simp: loaderAborted_def intro: calm_trans[OF calm_update(2)] dest!: calm_ds_end)

section \<open>The invariant of the counters\<close>

definition wf_job :: "job \<Rightarrow> bool" where
  "wf_job j = (workerId j < nWorkers j)"

text \<open>The rows of one worker: every n-th row after the skipped ones.\<close>

definition my_row :: "job \<Rightarrow> nat \<Rightarrow> bool" where
  "my_row j r = (skipRows j \<le> r \<and> r mod nWorkers j = workerId j)"

fun fib :: "nat \<Rightarrow> nat" where
  "fib 0 = 0"
| "fib (Suc 0) = 1"
| "fib (Suc (Suc n)) = fib n + fib (Suc n)"

definition batch_sizes_ok :: "nat \<times> nat \<times> nat \<Rightarrow> bool" where
  "batch_sizes_ok t = (t = (0, 0, 1) \<or> (\<exists>k. t = (fib k, fib (k + 1), fib (k + 2))))"

definition rows_ok :: "job \<Rightarrow> loader \<Rightarrow> bool" where
  "rows_ok j s \<longleftrightarrow>
     (\<exists>lost. rowsProcessed s = rowsSkipped s + rowsComplete s + pending s + lost
        \<and> (0 < lost \<longleftrightarrow> aborted s \<or> crashed s))
   \<and> (rowsSkipped s < skipRows j \<longrightarrow> rowsSkipped s = rowsProcessed s)
   \<and> offered s = filter (my_row j) [0..<rowsProcessed s]
   \<and> rowsProcessed s \<le> rowsSkipped s + rowsComplete s + Suc maxLead
   \<and> (running s \<longrightarrow> rowsProcessed s \<le> rowsSkipped s + rowsComplete s + maxLead)
   \<and> batch_sizes_ok (sizes s)"

definition skip_ok :: "job \<Rightarrow> loader \<Rightarrow> bool" where
  "skip_ok j s \<longleftrightarrow> started s
     \<and> (skipping s \<longleftrightarrow> \<not> (skipRows j \<le> rowsSkipped s \<and> rowsProcessed s mod nWorkers j = workerId j))
     \<and> (isPaused s \<longrightarrow> skipRows j \<le> rowsSkipped s)"

definition loader_ok :: "job \<Rightarrow> loader \<Rightarrow> bool" where
  "loader_ok j s \<longleftrightarrow> rows_ok j s \<and> skip_ok j s"

lemma calmD:
  assumes "calm s s'"
  shows "rowsProcessed s' = rowsProcessed s" "rowsSkipped s' = rowsSkipped s" "rowsComplete s' = rowsComplete s"
    "rowsError s' = rowsError s" "started s' = started s" "skipping s' = skipping s" "aborted s' = aborted s"
    "crashed s' = crashed s" "offered s' = offered s" "sizes s' = sizes s" "pending s' = pending s"
    "running s' \<Longrightarrow> running s" "isPaused s' \<Longrightarrow> isPaused s"
  using assms by (simp_all add: calm_def counters_def)

lemma calm_ok:
  assumes "calm s s'" "loader_ok j s"
  shows "loader_ok j s'"
proof -
  have "rows_ok j s'"
    using assms(2) calmD(12)[OF assms(1)]
    unfolding loader_ok_def rows_ok_def calmD(1-11)[OF assms(1)] by simp
  moreover have "skip_ok j s'"
    using assms(2) calmD(13)[OF assms(1)]
    unfolding loader_ok_def skip_ok_def calmD(1-11)[OF assms(1)] by auto
  ultimately show ?thesis by (simp add: loader_ok_def)
qed

section \<open>One row\<close>

text \<open>What does not change in the middle of a load.\<close>

definition context_of :: "loader \<Rightarrow> bool \<times> bool \<times> bool \<times> bool \<times> bool \<times> tx_state \<times> tx_request option \<times> nat
    \<times> fatal option \<times> nat \<times> nat" where
  "context_of s = (started s, finishing s, aborted s, crashed s, atomic s, tx s, waiting s, logger_ends s,
     fatalError s, rowsComplete s, rowsError s)"

definition closings :: "loader \<Rightarrow> loader_output list" where
  "closings s = filter (\<lambda>x. case x of SendCommit \<Rightarrow> True | SendRollback \<Rightarrow> True | LoggerEnd \<Rightarrow> True
     | FinalCallback _ _ \<Rightarrow> True | _ \<Rightarrow> False) (trace s)"

lemma closings_simps [simp]:
  "closings (emit (Offered r) s) = closings s"
  "closings (emit (Persist r) s) = closings s"
  "closings (emit (ExecuteBatch b) s) = closings s"
  "closings (emit (RecordError r) s) = closings s"
  "closings (emit (RecordStored r) s) = closings s"
  "closings (emit SendCommit s) = closings s @ [SendCommit]"
  "closings (emit SendRollback s) = closings s @ [SendRollback]"
  "closings (emit LoggerEnd s) = closings s @ [LoggerEnd]"
  "closings (emit (FinalCallback e st) s) = closings s @ [FinalCallback e st]"
  by (simp_all add: closings_def emit_def)

definition after_row :: "job \<Rightarrow> loader \<Rightarrow> loader" where
  "after_row j s =
    (let s = (if maxRows j = Some (rowsProcessed s) then s\<lparr>shutdown := True, running := False\<rparr> else s);
         s = (if 1 < nWorkers j then s\<lparr>skipping := True\<rparr> else s) in
     if rowsComplete s + maxLead < rowsProcessed s then executeBatch (s\<lparr>running := False\<rparr>) else s)"

lemma after_row_facts:
  "context_of (after_row j s) = context_of s" "closings (after_row j s) = closings s"
  "offered (after_row j s) = offered s" "sizes (after_row j s) = sizes s"
  "rowsProcessed (after_row j s) = rowsProcessed s" "rowsSkipped (after_row j s) = rowsSkipped s"
  "pending (after_row j s) = pending s" "skipping (after_row j s) = (skipping s \<or> 1 < nWorkers j)"
  "running (after_row j s) \<longleftrightarrow> running s \<and> maxRows j \<noteq> Some (rowsProcessed s)
     \<and> rowsProcessed s \<le> rowsComplete s + maxLead"
  "shutdown (after_row j s) \<longleftrightarrow> shutdown s \<or> maxRows j = Some (rowsProcessed s)"
  by (auto simp: after_row_def Let_def sizes_def context_of_def executeBatch_def pending_def closings_def emit_def
      offered_def List.map_filter_simps)

lemma loadItem_facts:
  "context_of (loadItem r s) = context_of s" "closings (loadItem r s) = closings s"
  "offered (loadItem r s) = offered s" "sizes (loadItem r s) = sizes s"
  "rowsProcessed (loadItem r s) = rowsProcessed s" "rowsSkipped (loadItem r s) = rowsSkipped s"
  "pending (loadItem r s) = Suc (pending s)" "skipping (loadItem r s) = skipping s"
  "running (loadItem r s) = running s" "shutdown (loadItem r s) = shutdown s"
  by (auto simp: loadItem_def Let_def sizes_def context_of_def executeBatch_def pending_def closings_def emit_def
      offered_def List.map_filter_simps)

definition taken :: "(nat \<Rightarrow> bool) \<Rightarrow> loader \<Rightarrow> loader" where
  "taken accept s =
    (let r = rowsProcessed s; s = (emit (Offered r) s)\<lparr>rowsProcessed := Suc r\<rparr> in
     if accept r then loadItem r s else s\<lparr>rowsSkipped := Suc (rowsSkipped s)\<rparr>)"

lemma taken_facts:
  "context_of (taken accept s) = context_of s" "closings (taken accept s) = closings s"
  "offered (taken accept s) = offered s @ [rowsProcessed s]"
  "sizes (taken accept s) = sizes s"
  "rowsProcessed (taken accept s) = Suc (rowsProcessed s)"
  "rowsSkipped (taken accept s) = rowsSkipped s + (if accept (rowsProcessed s) then 0 else 1)"
  "pending (taken accept s) = pending s + (if accept (rowsProcessed s) then 1 else 0)"
  "skipping (taken accept s) = skipping s" "running (taken accept s) = running s" "shutdown (taken accept s) = shutdown s"
  by (simp_all add: taken_def Let_def loadItem_facts)
    (simp_all add: sizes_def context_of_def closings_def emit_def offered_def pending_def List.map_filter_simps)

lemma dsNewItem_eq: "running s \<Longrightarrow> dsNewItem j accept s = Some (after_row j (taken accept s))"
  using taken_facts(9)[of accept s]
  by (simp add: dsNewItem_def after_row_def taken_def ds_end_def Let_def)

definition discarded :: "job \<Rightarrow> loader \<Rightarrow> loader" where
  "discarded j s =
    (let s = s\<lparr>rowsProcessed := Suc (rowsProcessed s), rowsSkipped := Suc (rowsSkipped s)\<rparr>;
         s = (if maxRows j = Some (rowsProcessed s) then s\<lparr>shutdown := True, running := False\<rparr> else s) in
     if skipRows j \<le> rowsSkipped s \<and> rowsProcessed s mod nWorkers j = workerId j
     then s\<lparr>skipping := False\<rparr> else s)"

lemma discarded_facts:
  "context_of (discarded j s) = context_of s" "closings (discarded j s) = closings s"
  "offered (discarded j s) = offered s" "sizes (discarded j s) = sizes s"
  "rowsProcessed (discarded j s) = Suc (rowsProcessed s)" "rowsSkipped (discarded j s) = Suc (rowsSkipped s)"
  "pending (discarded j s) = pending s"
  "skipping (discarded j s) \<longleftrightarrow> skipping s \<and> \<not> (skipRows j \<le> Suc (rowsSkipped s)
     \<and> Suc (rowsProcessed s) mod nWorkers j = workerId j)"
  "running (discarded j s) \<longleftrightarrow> running s \<and> maxRows j \<noteq> Some (Suc (rowsProcessed s))"
  "shutdown (discarded j s) \<longleftrightarrow> shutdown s \<or> maxRows j = Some (Suc (rowsProcessed s))"
  by (simp_all add: discarded_def Let_def)
    (simp_all add: sizes_def context_of_def closings_def offered_def pending_def)

lemma dsDiscardedItem_eq: "running s \<Longrightarrow> dsDiscardedItem j s = Some (discarded j s)"
  by (simp add: dsDiscardedItem_def discarded_def ds_end_def Let_def)

text \<open>One step of the loop.\<close>

definition run_step :: "job \<Rightarrow> (nat \<Rightarrow> bool) \<Rightarrow> loader \<Rightarrow> loader" where
  "run_step j accept s = (if skipping s then discarded j s else after_row j (taken accept s))"

lemma run_loop_step: "run_loop j accept s = (if running s then run_loop j accept (run_step j accept s) else Some s)"
  by (subst run_loop.simps) (simp add: run_step_def dsDiscardedItem_eq dsNewItem_eq)

lemmas row_facts = run_step_def discarded_facts after_row_facts taken_facts

lemma context_simps:
  assumes "context_of s' = context_of s"
  shows "started s' = started s" "finishing s' = finishing s" "aborted s' = aborted s" "crashed s' = crashed s"
    "atomic s' = atomic s" "tx s' = tx s" "waiting s' = waiting s" "logger_ends s' = logger_ends s"
    "fatalError s' = fatalError s" "rowsComplete s' = rowsComplete s" "rowsError s' = rowsError s"
  using assms by (simp_all add: context_of_def)

lemma run_step_facts:
  "context_of (run_step j accept s) = context_of s" "closings (run_step j accept s) = closings s"
  "sizes (run_step j accept s) = sizes s" "rowsProcessed (run_step j accept s) = Suc (rowsProcessed s)"
  "shutdown (run_step j accept s) \<longleftrightarrow> shutdown s \<or> maxRows j = Some (Suc (rowsProcessed s))"
  by (simp_all add: row_facts)

lemma run_step_ok:
  assumes "loader_ok j s" "running s" "wf_job j"
  shows "loader_ok j (run_step j accept s)"
proof -
  let ?s = "run_step j accept s"
  note ok = assms(1)[unfolded loader_ok_def rows_ok_def skip_ok_def]
  have upt: "[0..<Suc p] = [0..<p] @ [p]" for p by simp
  have base: "started ?s" "aborted ?s = aborted s" "crashed ?s = crashed s" "rowsComplete ?s = rowsComplete s"
    "sizes ?s = sizes s" "rowsProcessed ?s = Suc (rowsProcessed s)"
    using ok run_step_facts(1)[THEN context_simps(1)] run_step_facts(1)[THEN context_simps(3)]
      run_step_facts(1)[THEN context_simps(4)] run_step_facts(1)[THEN context_simps(10)]
    by (simp_all add: run_step_facts)
  show ?thesis
  proof (cases "skipping s")
    case True
    then have s: "?s = discarded j s" by (simp add: run_step_def)
    have "\<not> my_row j (rowsProcessed s)" using ok True by (auto simp: my_row_def)
    with ok True assms(2) base show ?thesis
      unfolding loader_ok_def rows_ok_def skip_ok_def base upt
      by (auto simp: s discarded_facts isPaused_def)
  next
    case False
    then have s: "?s = after_row j (taken accept s)" by (simp add: run_step_def)
    have mine: "skipRows j \<le> rowsSkipped s" "rowsProcessed s mod nWorkers j = workerId j" using ok False by auto
    moreover have "rowsSkipped s \<le> rowsProcessed s" using ok by auto
    ultimately have "my_row j (rowsProcessed s)" by (simp add: my_row_def)
    moreover have "1 < nWorkers j \<longleftrightarrow> Suc (rowsProcessed s) mod nWorkers j \<noteq> workerId j"
      using mine(2) assms(3) by (auto simp: mod_Suc wf_job_def split: if_splits)
    moreover have "rowsComplete (taken accept s) = rowsComplete s"
      by (rule context_simps(10)[OF taken_facts(1)])
    ultimately show ?thesis
      using ok False assms(2) base mine(1)
      unfolding loader_ok_def rows_ok_def skip_ok_def base upt
      by (auto simp: s after_row_facts taken_facts isPaused_def)
  qed
qed

lemma run_loop_ok:
  assumes "run_loop j accept s = Some s'"
  shows "loader_ok j s \<longrightarrow> wf_job j \<longrightarrow> loader_ok j s' \<and> \<not> running s' \<and> context_of s' = context_of s
    \<and> closings s' = closings s \<and> (shutdown s \<longrightarrow> shutdown s')"
proof (rule run_loop.raw_induct[where P = "\<lambda>j accept s s'. loader_ok j s \<longrightarrow> wf_job j \<longrightarrow> loader_ok j s' \<and> \<not> running s'
      \<and> context_of s' = context_of s \<and> closings s' = closings s \<and> (shutdown s \<longrightarrow> shutdown s')", OF _ assms], goal_cases)
  case (1 f j accept s s')
  show ?case
  proof (cases "running s")
    case True
    with 1(2) have "f j accept (run_step j accept s) = Some s'"
      by (simp add: run_step_def dsDiscardedItem_eq dsNewItem_eq split: if_splits)
    from 1(1)[OF this] run_step_ok[of j s accept] True show ?thesis by (auto simp: run_step_facts)
  next
    case False
    with 1(2) show ?thesis by simp
  qed
qed

lemma run_loop_returns_upto:
  assumes "loader_ok j s" "wf_job j" "my_row j p" "rowsProcessed s \<le> p" "rowsComplete s + maxLead \<le> p"
  shows "\<exists>s'. run_loop j accept s = Some s'"
  using assms
proof (induction "p - rowsProcessed s" arbitrary: s)
  case (0 s)
  let ?s = "run_step j accept s"
  have "rowsProcessed s = p" using 0 by simp
  moreover from this have "\<not> skipping s"
    using 0(2,4) by (auto simp: loader_ok_def rows_ok_def skip_ok_def my_row_def)
  ultimately have "\<not> running ?s"
    using 0(6) context_simps(10)[OF taken_facts(1), of accept s] by (simp add: row_facts)
  then show ?case by (cases "running s") (simp_all add: run_loop_step[of _ _ s] run_loop_step[of _ _ ?s])
next
  case (Suc d s)
  have "\<exists>s'. run_loop j accept (run_step j accept s) = Some s'" if "running s"
    using Suc(1)[of "run_step j accept s"] Suc(2-) run_step_ok[of j s accept] that
      context_simps(10)[OF run_step_facts(1), of j accept s] by (simp add: run_step_facts)
  then show ?case by (subst run_loop_step) auto
qed

lemma run_loop_returns:
  assumes "loader_ok j s" "wf_job j"
  shows "\<exists>s'. run_loop j accept s = Some s'"
proof -
  define b where "b = rowsProcessed s + rowsComplete s + maxLead + skipRows j"
  have n: "0 < nWorkers j" using assms(2) by (simp add: wf_job_def)
  have le: "b \<le> nWorkers j * b + workerId j" using n by (simp add: trans_le_add1)
  moreover have "skipRows j \<le> b" by (simp add: b_def)
  ultimately have "my_row j (nWorkers j * b + workerId j)"
    using assms(2) by (simp add: my_row_def wf_job_def)
  then show ?thesis
    using run_loop_returns_upto[OF assms, of "nWorkers j * b + workerId j"] le by (simp add: b_def)
qed

section \<open>Ending\<close>

text \<open>The outputs that end a load happen in one order, and only when every row is accounted for.\<close>

definition committing :: "loader \<Rightarrow> bool" where
  "committing s = (SendCommit \<in> set (closings s))"

definition rolling_back :: "loader \<Rightarrow> bool" where
  "rolling_back s = (SendRollback \<in> set (closings s))"

definition logger_told :: "loader \<Rightarrow> bool" where
  "logger_told s = (LoggerEnd \<in> set (closings s))"

definition succeeded :: "loader \<Rightarrow> bool" where
  "succeeded s = list_ex (\<lambda>x. case x of FinalCallback None _ \<Rightarrow> True | _ \<Rightarrow> False) (closings s)"

definition ended :: "loader \<Rightarrow> bool" where
  "ended s = (committing s \<or> rolling_back s \<or> logger_told s)"

lemmas end_flags = committing_def rolling_back_def logger_told_def succeeded_def

definition sound_end :: "loader \<Rightarrow> bool" where
  "sound_end s \<longleftrightarrow>
     (ended s \<longrightarrow> rowsProcessed s = rowsComplete s + rowsSkipped s \<and> finishing s)
   \<and> (finishing s \<longrightarrow> shutdown s \<and> \<not> running s)
   \<and> (committing s \<longrightarrow> atomic s \<and> rowsError s = 0 \<and> \<not> aborted s)
   \<and> (rolling_back s \<longrightarrow> atomic s \<and> 0 < rowsError s)
   \<and> (atomic s \<and> tx s \<noteq> TxIdle \<longrightarrow> tx s = (if 0 < rowsError s \<or> aborted s then TxRollbackOnly else TxActive))
   \<and> (atomic s \<and> tx s = TxIdle \<longrightarrow> ended s)
   \<and> (\<not> atomic s \<longrightarrow> tx s = TxIdle)
   \<and> (waiting s = Some CommitSent \<longrightarrow> committing s)
   \<and> (waiting s = Some RollbackSent \<longrightarrow> rolling_back s)
   \<and> (0 < logger_ends s \<longrightarrow> logger_told s)
   \<and> (atomic s \<and> fatalError s = None \<and> logger_told s \<longrightarrow> committing s)
   \<and> (atomic s \<and> succeeded s \<longrightarrow> committing s)"

lemma sound_endD:
  assumes "sound_end s"
  shows "ended s \<Longrightarrow> rowsProcessed s = rowsComplete s + rowsSkipped s" "ended s \<Longrightarrow> finishing s"
    "finishing s \<Longrightarrow> shutdown s" "finishing s \<Longrightarrow> \<not> running s"
    "committing s \<Longrightarrow> atomic s" "committing s \<Longrightarrow> rowsError s = 0" "committing s \<Longrightarrow> \<not> aborted s"
    "rolling_back s \<Longrightarrow> atomic s" "waiting s = Some CommitSent \<Longrightarrow> committing s"
    "waiting s = Some RollbackSent \<Longrightarrow> rolling_back s" "0 < logger_ends s \<Longrightarrow> logger_told s"
    "rolling_back s \<Longrightarrow> 0 < rowsError s"
    "atomic s \<Longrightarrow> fatalError s = None \<Longrightarrow> logger_told s \<Longrightarrow> committing s"
    "atomic s \<Longrightarrow> succeeded s \<Longrightarrow> committing s"
  using assms unfolding sound_end_def by blast+

lemma flags_cong:
  assumes "closings s' = closings s"
  shows "committing s' = committing s" "rolling_back s' = rolling_back s" "logger_told s' = logger_told s"
    "succeeded s' = succeeded s" "ended s' = ended s"
  using assms by (simp_all add: end_flags ended_def)

text \<open>Nothing of a run of the source matters to it but that the source goes on or stops.\<close>

lemma sound_end_run:
  assumes "sound_end s" "\<not> finishing s" "context_of s' = context_of s" "closings s' = closings s"
  shows "sound_end s'"
  using assms(1,2) unfolding sound_end_def flags_cong[OF assms(4)] context_simps[OF assms(3)] by argo

definition good :: "job \<Rightarrow> loader \<Rightarrow> bool" where
  "good j s \<longleftrightarrow> loader_ok j s \<and> sound_end s"

text \<open>After the end no row is pending, so no outcome of a row can arrive.\<close>

lemma ended_no_pending:
  assumes "good j s" "ended s"
  shows "pending s = 0 \<and> \<not> aborted s \<and> \<not> crashed s"
proof -
  obtain lost where "rowsProcessed s = rowsSkipped s + rowsComplete s + pending s + lost"
    "0 < lost \<longleftrightarrow> aborted s \<or> crashed s"
    using assms(1) unfolding good_def loader_ok_def rows_ok_def by blast
  moreover have "rowsProcessed s = rowsComplete s + rowsSkipped s"
    using assms by (simp add: good_def sound_end_def)
  ultimately show ?thesis by simp
qed

lemma flag_simps [simp]:
  "committing (emit x s) \<longleftrightarrow> committing s \<or> x = SendCommit"
  "rolling_back (emit x s) \<longleftrightarrow> rolling_back s \<or> x = SendRollback"
  "logger_told (emit x s) \<longleftrightarrow> logger_told s \<or> x = LoggerEnd"
  "succeeded (emit x s) \<longleftrightarrow> succeeded s \<or> (\<exists>st. x = FinalCallback None st)"
  by (cases x; auto simp: end_flags split: option.splits)+

lemma emit_simps [simp]:
  "started (emit x s) = started s" "running (emit x s) = running s" "shutdown (emit x s) = shutdown s"
  "skipping (emit x s) = skipping s" "rowsProcessed (emit x s) = rowsProcessed s" "rowsSkipped (emit x s) = rowsSkipped s"
  "rowsComplete (emit x s) = rowsComplete s" "rowsError (emit x s) = rowsError s" "finishing (emit x s) = finishing s"
  "fatalError (emit x s) = fatalError s" "aborted (emit x s) = aborted s" "crashed (emit x s) = crashed s" "atomic (emit x s) = atomic s"
  "tx (emit x s) = tx s" "waiting (emit x s) = waiting s" "logger_ends (emit x s) = logger_ends s"
  "op_batch (emit x s) = op_batch s" "inflight (emit x s) = inflight s" "sizes (emit x s) = sizes s" "pending (emit x s) = pending s"
  by (simp_all add: emit_def sizes_def pending_def)

lemma closings_update [simp]:
  "closings (s\<lparr>finishing := b\<rparr>) = closings s" "closings (s\<lparr>shutdown := b\<rparr>) = closings s"
  "closings (s\<lparr>running := b\<rparr>) = closings s" "closings (s\<lparr>waiting := q\<rparr>) = closings s"
  "closings (s\<lparr>tx := x\<rparr>) = closings s" "closings (s\<lparr>logger_ends := n\<rparr>) = closings s"
  "closings (s\<lparr>fatalError := e\<rparr>) = closings s" "closings (s\<lparr>ticker := b\<rparr>) = closings s"
  "closings (s\<lparr>inflight := l\<rparr>) = closings s" "closings (s\<lparr>op_batch := l\<rparr>) = closings s"
  "closings (s\<lparr>currentOpCount := n\<rparr>) = closings s" "closings (s\<lparr>rowsComplete := n\<rparr>) = closings s"
  "closings (s\<lparr>rowsError := n\<rparr>) = closings s" "closings (s\<lparr>crashed := b\<rparr>) = closings s" "closings (s\<lparr>aborted := b\<rparr>) = closings s"
  by (simp_all add: closings_def)

lemmas flags_update [simp] = closings_update[THEN flags_cong(1)] closings_update[THEN flags_cong(2)]
  closings_update[THEN flags_cong(3)] closings_update[THEN flags_cong(4)]

text \<open>What \<open>commitIfComplete\<close> does once the source has finished.\<close>

lemma commit_if_complete:
  assumes "sound_end s" "finishing s" "atomic s \<longrightarrow> tx s \<noteq> TxIdle"
    "rowsProcessed s = rowsComplete s + rowsSkipped s \<longrightarrow> \<not> aborted s"
  obtains s' where "commitIfComplete dsFinished s = Some s'" "sound_end s'"
proof -
  note e = assms(1)[unfolded sound_end_def ended_def]
  consider (wait) "rowsProcessed s \<noteq> rowsComplete s + rowsSkipped s"
    | (plain) "rowsProcessed s = rowsComplete s + rowsSkipped s" "\<not> atomic s"
    | (rollback) "rowsProcessed s = rowsComplete s + rowsSkipped s" "atomic s" "tx s = TxRollbackOnly" "0 < rowsError s"
    | (commit) "rowsProcessed s = rowsComplete s + rowsSkipped s" "atomic s" "tx s = TxActive" "\<not> 0 < rowsError s"
    using e assms(3,4) by (metis tx_state.distinct(5))
  then show thesis
  proof cases
    case wait
    then show thesis using that[of s] assms(1) by (simp add: commitIfComplete_def)
  next
    case plain
    let ?t = "loaderTransactionDidCommit s"
    have "commitIfComplete dsFinished s = Some ?t"
      using plain by (simp add: commitIfComplete_def endAtomic_def)
    moreover have "sound_end ?t"
      using e plain assms(2) unfolding sound_end_def ended_def loaderTransactionDidCommit_def by auto
    ultimately show thesis using that by blast
  next
    case rollback
    let ?t = "(emit SendRollback s)\<lparr>waiting := Some RollbackSent\<rparr>"
    have "commitIfComplete dsFinished s = Some ?t"
      using rollback by (simp add: commitIfComplete_def endAtomic_def writer_rollback_def)
    moreover have "sound_end ?t"
      using e rollback assms(2) unfolding sound_end_def ended_def by auto
    ultimately show thesis using that by blast
  next
    case commit
    let ?t = "(emit SendCommit s)\<lparr>waiting := Some CommitSent\<rparr>"
    have "commitIfComplete dsFinished s = Some ?t"
      using commit by (simp add: commitIfComplete_def endAtomic_def writer_commit_def)
    moreover have "sound_end ?t"
      using e commit assms(2,4) unfolding sound_end_def ended_def by auto
    ultimately show thesis using that by blast
  qed
qed

text \<open>What the soundness of the end is about, besides the state of the source.\<close>

definition summary :: "loader \<Rightarrow> (bool \<times> bool \<times> bool \<times> bool) \<times> (nat \<times> nat \<times> nat \<times> nat) \<times> bool \<times> bool \<times> tx_state
    \<times> tx_request option \<times> nat \<times> fatal option" where
  "summary s = ((committing s, rolling_back s, logger_told s, succeeded s), counters s, aborted s, atomic s, tx s,
     waiting s, logger_ends s, fatalError s)"

lemma sound_end_same:
  assumes "summary s' = summary s" "sound_end s" "finishing s' \<longrightarrow> shutdown s' \<and> \<not> running s'"
    "finishing s \<longrightarrow> finishing s'"
  shows "sound_end s'"
proof -
  have "committing s' = committing s" "rolling_back s' = rolling_back s" "logger_told s' = logger_told s"
    "succeeded s' = succeeded s" "rowsProcessed s' = rowsProcessed s" "rowsSkipped s' = rowsSkipped s"
    "rowsComplete s' = rowsComplete s" "rowsError s' = rowsError s" "aborted s' = aborted s" "atomic s' = atomic s"
    "tx s' = tx s" "waiting s' = waiting s" "logger_ends s' = logger_ends s" "fatalError s' = fatalError s"
    using assms(1) by (simp_all add: summary_def counters_def)
  note eq = this
  show ?thesis using assms(2-4) unfolding sound_end_def ended_def eq by argo
qed

lemma sound_end_fatal: "sound_end s \<Longrightarrow> sound_end (s\<lparr>fatalError := Some e\<rparr>)"
proof -
  let ?t = "s\<lparr>fatalError := Some e\<rparr>"
  assume e: "sound_end s"
  have eq: "rowsProcessed ?t = rowsProcessed s" "rowsSkipped ?t = rowsSkipped s" "rowsComplete ?t = rowsComplete s"
    "rowsError ?t = rowsError s" "shutdown ?t = shutdown s" "running ?t = running s" "finishing ?t = finishing s"
    "atomic ?t = atomic s" "waiting ?t = waiting s" "logger_ends ?t = logger_ends s" "aborted ?t = aborted s" "tx ?t = tx s"
    "(fatalError ?t = None) = False"
    by simp_all
  show ?thesis using e unfolding sound_end_def ended_def flags_update eq by argo
qed

lemma sound_end_tx:
  assumes "sound_end s" "atomic s \<longrightarrow> tx s \<noteq> TxIdle"
  shows "aborted s \<and> atomic s \<longrightarrow> tx s = TxRollbackOnly"
proof -
  have "atomic s \<and> tx s \<noteq> TxIdle \<longrightarrow> tx s = (if 0 < rowsError s \<or> aborted s then TxRollbackOnly else TxActive)"
    using assms(1) unfolding sound_end_def by blast
  with assms(2) show ?thesis by auto
qed

lemma executeBatch_end [simp]: "sound_end (executeBatch s) = sound_end s"
  by (simp add: executeBatch_def sound_end_def ended_def)

lemma executeBatch_context: "context_of (executeBatch s) = context_of s"
  "rowsProcessed (executeBatch s) = rowsProcessed s" "rowsSkipped (executeBatch s) = rowsSkipped s"
  by (simp_all add: executeBatch_def context_of_def)

lemma finished_good:
  assumes "sound_end s" "shutdown s" "\<not> running s" "atomic s \<longrightarrow> tx s \<noteq> TxIdle"
    "rowsProcessed s = rowsComplete s + rowsSkipped s \<longrightarrow> \<not> aborted s"
  obtains s' where "dsFinished s = Some s'" "sound_end s'"
proof -
  let ?t = "executeBatch (s\<lparr>finishing := True\<rparr>)"
  have "sound_end (s\<lparr>finishing := True\<rparr>)"
    by (rule sound_end_same[OF _ assms(1)]) (simp_all add: summary_def counters_def assms(2,3))
  moreover have "finishing ?t" "atomic ?t = atomic s" "tx ?t = tx s" "aborted ?t = aborted s"
    "rowsComplete ?t = rowsComplete s"
    using executeBatch_context(1)[THEN context_simps(2), of "s\<lparr>finishing := True\<rparr>"]
      executeBatch_context(1)[THEN context_simps(5), of "s\<lparr>finishing := True\<rparr>"]
      executeBatch_context(1)[THEN context_simps(6), of "s\<lparr>finishing := True\<rparr>"]
      executeBatch_context(1)[THEN context_simps(3), of "s\<lparr>finishing := True\<rparr>"]
      executeBatch_context(1)[THEN context_simps(10), of "s\<lparr>finishing := True\<rparr>"] by simp_all
  ultimately have "sound_end ?t" "finishing ?t" "atomic ?t \<longrightarrow> tx ?t \<noteq> TxIdle"
    "rowsProcessed ?t = rowsComplete ?t + rowsSkipped ?t \<longrightarrow> \<not> aborted ?t"
    using assms(4,5) by (simp_all add: executeBatch_context(2,3))
  then obtain s' where "commitIfComplete dsFinished ?t = Some s'" "sound_end s'"
    by (rule commit_if_complete)
  then show thesis using that by (simp add: dsFinished_eq)
qed

lemma incomplete_if_aborted:
  assumes "loader_ok j s"
  shows "rowsProcessed s = rowsComplete s + rowsSkipped s \<longrightarrow> \<not> aborted s \<and> \<not> crashed s \<and> pending s = 0"
proof -
  obtain lost where "rowsProcessed s = rowsSkipped s + rowsComplete s + pending s + lost"
    "0 < lost \<longleftrightarrow> aborted s \<or> crashed s"
    using assms(1) unfolding loader_ok_def rows_ok_def by blast
  then show ?thesis by auto
qed

lemma calm_context: "calm s s' \<Longrightarrow> atomic s' = atomic s"
  by (simp add: calm_def)

text \<open>The transaction stays open until the reply to its commit or rollback.\<close>

definition tx_open :: "loader \<Rightarrow> bool" where
  "tx_open s = (atomic s \<longrightarrow> tx s \<noteq> TxIdle)"

lemma dsFinished_tx: "sound_end s \<Longrightarrow> tx_open s \<Longrightarrow> dsFinished s = Some s' \<Longrightarrow> tx_open s'"
  by (subst (asm) dsFinished.simps, cases "tx s")
    (auto simp: tx_open_def Let_def executeBatch_def loaderTransactionDidCommit_def writer_rollback_def split: if_splits)

lemma run_good:
  assumes "good j s" "wf_job j" "\<not> finishing s" "tx_open s"
  obtains s' where "source_run j accept s = Some s'" "good j s'" "tx_open s'"
proof -
  obtain t where t: "run_loop j accept s = Some t"
    using run_loop_returns[of j s accept] assms unfolding good_def by blast
  have ok: "loader_ok j t" "\<not> running t" "context_of t = context_of s" "closings t = closings s"
    using run_loop_ok[OF t] assms by (auto simp: good_def)
  have e: "sound_end t" using sound_end_run[OF _ assms(3) ok(3,4)] assms(1) by (simp add: good_def)
  have o: "tx_open t" using assms(4) by (simp add: tx_open_def context_simps[OF ok(3)])
  show thesis
  proof (cases "shutdown t")
    case False
    then show thesis using that[of t] t ok(1) e o by (simp add: source_run_def good_def)
  next
    case True
    obtain s' where s': "dsFinished t = Some s'" "sound_end s'"
      using finished_good[OF e True ok(2)] incomplete_if_aborted[OF ok(1)] o by (metis tx_open_def)
    then have "good j s'" using calm_ok[OF calm_dsFinished ok(1)] by (simp add: good_def)
    with s' True t show thesis using that[of s'] dsFinished_tx[OF e o] by (simp add: source_run_def)
  qed
qed

section \<open>The outcome of a row\<close>

definition completed :: "nat \<Rightarrow> bool \<Rightarrow> loader \<Rightarrow> loader" where
  "completed r failed s =
    (let s = s\<lparr>rowsComplete := Suc (rowsComplete s)\<rparr> in
     if failed then emit (RecordError r) (s\<lparr>rowsError := Suc (rowsError s)\<rparr>) else emit (RecordStored r) s)"

lemma loaderRecordComplete_eq:
  "loaderRecordComplete j accept r failed s =
    Option.bind (if isPaused (completed r failed s) \<and> rowsProcessed s < Suc (rowsComplete s) + minLead
      then resume j accept (completed r failed s) else Some (completed r failed s)) (\<lambda>s.
    if finishing s then commitIfComplete dsFinished s else Some (s\<lparr>ticker := True\<rparr>))"
  by (simp add: loaderRecordComplete_def completed_def Let_def)

text \<open>The state in which the outcome of a row is looked at: the row has left, nothing else has changed.\<close>

definition arrived :: "loader \<Rightarrow> loader \<Rightarrow> bool" where
  "arrived s u \<longleftrightarrow> pending s = Suc (pending u) \<and> counters u = counters s \<and> offered u = offered s \<and> sizes u = sizes s
     \<and> aborted u = aborted s \<and> crashed u = crashed s \<and> started u = started s \<and> skipping u = skipping s
     \<and> running u = running s \<and> shutdown u = shutdown s \<and> finishing u = finishing s \<and> closings u = closings s
     \<and> atomic u = atomic s \<and> waiting u = waiting s \<and> logger_ends u = logger_ends s \<and> fatalError u = fatalError s"

lemma arrivedD:
  assumes "arrived s u"
  shows "pending s = Suc (pending u)" "rowsProcessed u = rowsProcessed s" "rowsSkipped u = rowsSkipped s"
    "rowsComplete u = rowsComplete s" "rowsError u = rowsError s" "offered u = offered s" "sizes u = sizes s"
    "aborted u = aborted s" "crashed u = crashed s" "started u = started s" "skipping u = skipping s"
    "running u = running s" "shutdown u = shutdown s" "finishing u = finishing s" "closings u = closings s"
    "atomic u = atomic s" "waiting u = waiting s" "logger_ends u = logger_ends s" "fatalError u = fatalError s"
    "isPaused u = isPaused s"
  using assms by (simp_all add: arrived_def counters_def isPaused_def)

lemma arrived_not_ended:
  assumes "good j s" "arrived s u"
  shows "\<not> ended s" "tx_open s"
proof -
  show n: "\<not> ended s" using ended_no_pending[OF assms(1)] arrivedD(1)[OF assms(2)] by auto
  then show "tx_open s" using assms(1) unfolding good_def sound_end_def tx_open_def by argo
qed

lemma completed_facts:
  "rowsProcessed (completed r f s) = rowsProcessed s" "rowsSkipped (completed r f s) = rowsSkipped s"
  "rowsComplete (completed r f s) = Suc (rowsComplete s)"
  "rowsError (completed r f s) = rowsError s + (if f then 1 else 0)"
  "pending (completed r f s) = pending s" "offered (completed r f s) = offered s" "sizes (completed r f s) = sizes s"
  "aborted (completed r f s) = aborted s" "crashed (completed r f s) = crashed s" "started (completed r f s) = started s"
  "skipping (completed r f s) = skipping s" "running (completed r f s) = running s"
  "shutdown (completed r f s) = shutdown s" "finishing (completed r f s) = finishing s"
  "closings (completed r f s) = closings s" "atomic (completed r f s) = atomic s" "tx (completed r f s) = tx s"
  "waiting (completed r f s) = waiting s" "logger_ends (completed r f s) = logger_ends s"
  "fatalError (completed r f s) = fatalError s"
  by (simp_all add: completed_def Let_def) (simp_all add: offered_def sizes_def pending_def closings_def)

lemma completed_good:
  assumes "good j s" "arrived s u" "tx u = (if failed \<and> atomic s then TxRollbackOnly else tx s)"
  shows "good j (completed r failed u)" "tx_open (completed r failed u)"
proof -
  note a = arrivedD[OF assms(2)] and c = completed_facts[of r failed u]
  have ok: "loader_ok j s" and e: "sound_end s" using assms(1) by (simp_all add: good_def)
  have p: "isPaused (completed r failed u) = isPaused s" by (simp add: isPaused_def c a)
  obtain lost where "rowsProcessed s = rowsSkipped s + rowsComplete s + pending s + lost"
    "0 < lost \<longleftrightarrow> aborted s \<or> crashed s"
    using ok unfolding loader_ok_def rows_ok_def by blast
  then have "\<exists>lost. rowsProcessed s = rowsSkipped s + Suc (rowsComplete s) + pending u + lost \<and> (0 < lost \<longleftrightarrow> aborted s \<or> crashed s)"
    using a(1) by auto
  with ok have "loader_ok j (completed r failed u)"
    unfolding loader_ok_def rows_ok_def skip_ok_def p c a by auto
  moreover have "sound_end (completed r failed u)"
  proof -
    have n: "\<not> committing s" "\<not> rolling_back s" "\<not> logger_told s"
      using arrived_not_ended(1)[OF assms(1,2)] by (simp_all add: ended_def)
    have f: "committing (completed r failed u) = committing s" "rolling_back (completed r failed u) = rolling_back s"
      "logger_told (completed r failed u) = logger_told s" "succeeded (completed r failed u) = succeeded s"
      using flags_cong[of "completed r failed u" s] c(15) a(15) by simp_all
    show ?thesis
      using e n assms(3) arrived_not_ended(2)[OF assms(1,2)]
      unfolding sound_end_def ended_def f c a tx_open_def by (cases failed) auto
  qed
  ultimately show "good j (completed r failed u)" by (simp add: good_def)
  show "tx_open (completed r failed u)"
    using assms(3) arrived_not_ended(2)[OF assms(1,2)] by (auto simp: tx_open_def c a)
qed

lemma calm_keeps: "calm s s' \<Longrightarrow> sound_end s' \<Longrightarrow> good j s \<Longrightarrow> good j s'"
  by (simp add: good_def calm_ok)

lemma record_complete_good:
  assumes "good j s" "arrived s u" "tx u = (if failed \<and> atomic s then TxRollbackOnly else tx s)" "wf_job j"
  obtains s' where "loaderRecordComplete j accept r failed u = Some s'" "good j s'"
proof -
  let ?c = "completed r failed u"
  have c: "good j ?c" "tx_open ?c" using completed_good[OF assms(1-3)] by simp_all
  obtain t where t: "(if isPaused ?c \<and> rowsProcessed u < Suc (rowsComplete u) + minLead
      then resume j accept ?c else Some ?c) = Some t" "good j t" "tx_open t"
  proof (cases "isPaused ?c \<and> rowsProcessed u < Suc (rowsComplete u) + minLead")
    case True
    let ?r = "?c\<lparr>running := True\<rparr>"
    have p: "\<not> shutdown ?c" "started ?c" using True c(1) by (simp_all add: isPaused_def good_def loader_ok_def skip_ok_def)
    have f: "\<not> finishing ?c" using c(1) p(1) by (auto simp: good_def sound_end_def)
    have "sound_end ?r"
      using c(1) f by (intro sound_end_same[of ?r ?c]) (simp_all add: good_def summary_def counters_def)
    moreover have "loader_ok j ?r"
      using c(1) True unfolding good_def loader_ok_def rows_ok_def skip_ok_def
      by (simp add: isPaused_def offered_cong[of ?r ?c] sizes_def pending_def completed_facts maxLead_def minLead_def)
    ultimately have "good j ?r" by (simp add: good_def)
    moreover have "tx_open ?r" using c(2) by (simp add: tx_open_def)
    ultimately obtain s' where "source_run j accept ?r = Some s'" "good j s'" "tx_open s'"
      using run_good[of j ?r accept] assms(4) f by auto
    then show thesis using that[of s'] True p(2) by (simp add: resume_def runIfReady_def)
  next
    case False
    with c show thesis by (intro that[of ?c]) auto
  qed
  have "\<exists>s'. (if finishing t then commitIfComplete dsFinished t else Some (t\<lparr>ticker := True\<rparr>)) = Some s' \<and> good j s'"
  proof (cases "finishing t")
    case True
    have e: "sound_end t" and o: "atomic t \<longrightarrow> tx t \<noteq> TxIdle" using t by (simp_all add: good_def tx_open_def)
    have "rowsProcessed t = rowsComplete t + rowsSkipped t \<longrightarrow> \<not> aborted t"
      using incomplete_if_aborted t(2) by (auto simp: good_def)
    then obtain s' where "commitIfComplete dsFinished t = Some s'" "sound_end s'"
      using commit_if_complete[OF e True o] by blast
    then show ?thesis using True calm_keeps[OF calm_commitIfComplete _ t(2)] by simp
  next
    case False
    have e: "sound_end t" using t(2) by (simp add: good_def)
    have "sound_end (t\<lparr>ticker := True\<rparr>)"
      by (rule sound_end_same[OF _ e]) (simp_all add: summary_def counters_def False)
    then have "good j (t\<lparr>ticker := True\<rparr>)" by (rule calm_keeps[OF calm_update(7) _ t(2)])
    with False show ?thesis by simp
  qed
  then obtain s' where s': "(if finishing t then commitIfComplete dsFinished t else Some (t\<lparr>ticker := True\<rparr>)) = Some s'"
    "good j s'" by blast
  have "loaderRecordComplete j accept r failed u = Some s'"
    unfolding loaderRecordComplete_eq completed_facts t(1) using s'(1) by simp
  then show thesis using that s'(2) by blast
qed

text \<open>A row that is dropped, by an abort or a crash, is missing from the counters from then on.\<close>

lemma dropped_good:
  assumes "good j s" "arrived s u" "a \<or> c" "aborted s \<longrightarrow> a" "crashed s \<longrightarrow> c"
    "tx u = (if a \<and> atomic s then TxRollbackOnly else tx s)"
  shows "good j (u\<lparr>aborted := a, crashed := c\<rparr>)" "tx_open (u\<lparr>aborted := a, crashed := c\<rparr>)"
proof -
  let ?v = "u\<lparr>aborted := a, crashed := c\<rparr>"
  note d = arrivedD[OF assms(2)]
  have ok: "loader_ok j s" and e: "sound_end s" using assms(1) by (simp_all add: good_def)
  obtain lost where "rowsProcessed s = rowsSkipped s + rowsComplete s + pending s + lost"
    using ok unfolding loader_ok_def rows_ok_def by blast
  then have l: "\<exists>lost. rowsProcessed s = rowsSkipped s + rowsComplete s + pending u + lost \<and> 0 < lost"
    using d(1) by auto
  have v: "isPaused ?v = isPaused s" "offered ?v = offered s" "pending ?v = pending u" "sizes ?v = sizes s"
    "closings ?v = closings s"
    using d by (simp_all add: isPaused_def offered_def pending_def sizes_def closings_def)
  have "loader_ok j ?v"
    using ok l assms(3) unfolding loader_ok_def rows_ok_def skip_ok_def v by (simp add: d)
  moreover have "sound_end ?v"
  proof -
    have n: "\<not> committing s" "\<not> rolling_back s" "\<not> logger_told s" "atomic s \<longrightarrow> tx s \<noteq> TxIdle"
      using arrived_not_ended[OF assms(1,2)] by (simp_all add: ended_def tx_open_def)
    have f: "rowsProcessed ?v = rowsProcessed s" "rowsSkipped ?v = rowsSkipped s" "rowsComplete ?v = rowsComplete s"
      "rowsError ?v = rowsError s" "shutdown ?v = shutdown s" "running ?v = running s" "finishing ?v = finishing s"
      "atomic ?v = atomic s" "waiting ?v = waiting s" "logger_ends ?v = logger_ends s" "fatalError ?v = fatalError s"
      "aborted ?v = a" "tx ?v = (if a \<and> atomic s then TxRollbackOnly else tx s)"
      using d assms(6) by simp_all
    show ?thesis
      using e n assms(4) unfolding sound_end_def ended_def flags_cong[OF v(5)] f by (cases a) auto
  qed
  ultimately show "good j ?v" by (simp add: good_def)
  show "tx_open ?v" using assms(6) arrived_not_ended(2)[OF assms(1,2)] by (simp add: tx_open_def d)
qed

lemma loader_update_same: "s\<lparr>aborted := aborted s, crashed := crashed s\<rparr> = s"
  by simp

lemma abort_good:
  assumes "good j s" "arrived s u" "tx u = tx s"
  obtains s' where "writer_abort e u = Some s'" "good j s'"
proof (cases "aborted s")
  case True
  have "tx s = (if True \<and> atomic s then TxRollbackOnly else tx s)"
    using assms(1) arrived_not_ended(2)[OF assms(1,2)] True by (auto simp: good_def sound_end_def tx_open_def)
  then have "good j (u\<lparr>aborted := aborted u, crashed := crashed u\<rparr>)"
    using dropped_good(1)[OF assms(1,2), of True "crashed s"] assms(3) True arrivedD(8,9)[OF assms(2)] by simp
  then have "good j u" by simp
  with True show thesis using that[of u] arrivedD(8)[OF assms(2)] by (simp add: writer_abort_def)
next
  case False
  let ?v = "mark_rollback (u\<lparr>aborted := True\<rparr>)"
  let ?w = "?v\<lparr>fatalError := Some (Loader_error e)\<rparr>"
  define u' where "u' = u\<lparr>tx := tx ?v\<rparr>"
  have a: "arrived s u'"
    using assms(2) by (simp add: u'_def arrived_def counters_def offered_def sizes_def pending_def)
  have na: "\<not> atomic s \<Longrightarrow> tx s = TxIdle" using assms(1) unfolding good_def sound_end_def by blast
  have "tx u' = (if tx s = TxActive then TxRollbackOnly else tx s)"
    by (simp add: u'_def mark_rollback_def assms(3))
  then have "tx u' = (if True \<and> atomic s then TxRollbackOnly else tx s)"
    using arrived_not_ended(2)[OF assms(1,2)] na by (cases "tx s"; cases "atomic s") (simp_all add: tx_open_def)
  moreover have "?v = u'\<lparr>aborted := True, crashed := crashed u\<rparr>"
    by (simp add: u'_def mark_rollback_def)
  ultimately have v: "good j ?v" "tx_open ?v"
    using dropped_good[OF assms(1) a, of True "crashed s"] arrivedD(9)[OF assms(2)] by simp_all
  have f: "writer_abort e u = ds_end dsFinished ?w"
    using False arrivedD(8)[OF assms(2)] by (simp add: writer_abort_def loaderAborted_def)
  have w: "loader_ok j ?w" using v(1) calm_ok[OF calm_update(2)] by (simp add: good_def)
  have e': "sound_end ?w" using v(1) by (simp add: good_def sound_end_fatal)
  show thesis
  proof (cases "running ?w")
    case True
    have "sound_end (?w\<lparr>shutdown := True, running := False\<rparr>)"
      by (rule sound_end_same[OF _ e']) (simp_all add: summary_def counters_def)
    then have "good j (?w\<lparr>shutdown := True, running := False\<rparr>)"
      using calm_ok[OF calm_stop2 w] by (simp add: good_def)
    with True f show thesis using that by (simp add: ds_end_def)
  next
    case run: False
    let ?x = "?w\<lparr>shutdown := True\<rparr>"
    have x: "sound_end ?x" by (rule sound_end_same[OF _ e']) (use run in \<open>simp_all add: summary_def counters_def\<close>)
    have y: "loader_ok j ?x" by (rule calm_ok[OF calm_update(6) w])
    have o: "atomic ?x \<longrightarrow> tx ?x \<noteq> TxIdle" using v(2) by (simp add: tx_open_def)
    have i: "rowsProcessed ?x = rowsComplete ?x + rowsSkipped ?x \<longrightarrow> \<not> aborted ?x"
      using incomplete_if_aborted[OF y] by blast
    obtain s' where d: "dsFinished ?x = Some s'" "sound_end s'"
      by (rule finished_good[OF x _ _ o i]) (use run in simp_all)
    have "good j s'" using calm_ok[OF calm_dsFinished[OF d(1)] y] d(2) by (simp add: good_def)
    moreover have "writer_abort e u = Some s'" using f run d(1) by (simp add: ds_end_def)
    ultimately show thesis using that by blast
  qed
qed

section \<open>Every event\<close>

lemma batch_sizes_up: "batch_sizes_ok (a, b, c) \<Longrightarrow> batch_sizes_ok (b, c, b + c)"
proof -
  assume "batch_sizes_ok (a, b, c)"
  then consider "(a, b, c) = (0, 0, 1)" | k where "(a, b, c) = (fib k, fib (k + 1), fib (k + 2))"
    by (auto simp: batch_sizes_ok_def)
  then show ?thesis
  proof cases
    case 1
    then have "(b, c, b + c) = (fib 0, fib (0 + 1), fib (0 + 2))" by (simp add: numeral_2_eq_2)
    then show ?thesis unfolding batch_sizes_ok_def by blast
  next
    case (2 k)
    then have "(b, c, b + c) = (fib (Suc k), fib (Suc k + 1), fib (Suc k + 2))" by simp
    then show ?thesis unfolding batch_sizes_ok_def by blast
  qed
qed

lemma batch_sizes_down: "batch_sizes_ok (a, b, c) \<Longrightarrow> 1 < c \<Longrightarrow> batch_sizes_ok (b - a, a, b)"
proof -
  assume "batch_sizes_ok (a, b, c)" "1 < c"
  then obtain k where k: "(a, b, c) = (fib k, fib (k + 1), fib (k + 2))" by (auto simp: batch_sizes_ok_def)
  with \<open>1 < c\<close> obtain m where "k = Suc m" by (cases k) (auto simp: numeral_2_eq_2)
  with k have "(b - a, a, b) = (fib m, fib (m + 1), fib (m + 2))" by simp
  then show ?thesis unfolding batch_sizes_ok_def by blast
qed

lemma batch_tick_sizes: "batch_sizes_ok (sizes s) \<Longrightarrow> batch_sizes_ok (sizes (batch_tick n m s))"
  using batch_sizes_up[of "fibA s" "fibB s" "fibC s"] batch_sizes_down[of "fibA s" "fibB s" "fibC s"]
  by (auto simp: batch_tick_def Let_def batchSizeUp_def batchSizeDown_def sizes_def)

lemma onTick_same:
  "summary (onTick s) = summary s" "finishing (onTick s) = finishing s" "shutdown (onTick s) = shutdown s"
  "running (onTick s) = running s" "started (onTick s) = started s" "skipping (onTick s) = skipping s"
  "pending (onTick s) = pending s" "offered (onTick s) = offered s" "crashed (onTick s) = crashed s"
  "rowsProcessed (onTick s) = rowsProcessed s" "rowsSkipped (onTick s) = rowsSkipped s"
  "rowsComplete (onTick s) = rowsComplete s" "aborted (onTick s) = aborted s" "isPaused (onTick s) = isPaused s"
  by (auto simp: onTick_def writer_onTick_def batch_tick_def Let_def batchSizeUp_def batchSizeDown_def
      summary_def counters_def pending_def offered_def end_flags closings_def isPaused_def)

lemma onTick_good: "good j s \<Longrightarrow> good j (onTick s)"
proof -
  assume g: "good j s"
  have "sizes (onTick s) = sizes (batch_tick (currentOpCount s) (priorOpCount s) (s\<lparr>tickNumber := Suc (tickNumber s)\<rparr>))"
    by (simp add: onTick_def writer_onTick_def sizes_def)
  then have "batch_sizes_ok (sizes (onTick s))"
    using g batch_tick_sizes[of "s\<lparr>tickNumber := Suc (tickNumber s)\<rparr>"]
    by (simp add: good_def loader_ok_def rows_ok_def) (simp add: sizes_def)
  then have "loader_ok j (onTick s)"
    using g unfolding good_def loader_ok_def rows_ok_def skip_ok_def onTick_same by simp
  moreover have e: "sound_end s" using g by (simp add: good_def)
  then have "finishing s \<longrightarrow> shutdown s \<and> \<not> running s" unfolding sound_end_def by blast
  then have "sound_end (onTick s)"
    by (intro sound_end_same[OF onTick_same(1) e]) (simp_all add: onTick_same)
  ultimately show ?thesis by (simp add: good_def)
qed

lemma arrived_row:
  assumes "r \<in> set (inflight s)"
  defines "u \<equiv> s\<lparr>inflight := remove1 r (inflight s), currentOpCount := Suc (currentOpCount s)\<rparr>"
  shows "arrived s u" "arrived s (if atomic u then mark_rollback u else u)"
proof -
  have "length (inflight s) = Suc (length (remove1 r (inflight s)))"
    using assms(1) by (simp add: length_remove1) (metis Suc_pred length_pos_if_in_set)
  then show "arrived s u" "arrived s (if atomic u then mark_rollback u else u)"
    by (simp_all add: u_def arrived_def counters_def pending_def sizes_def offered_def mark_rollback_def closings_def)
qed

lemma row_event:
  assumes "good j s" "r \<in> set (inflight s)" "wf_job j"
  obtains s' where "rowCallback j accept r res (s\<lparr>inflight := remove1 r (inflight s)\<rparr>) = Some s'" "good j s'"
proof -
  let ?u = "s\<lparr>inflight := remove1 r (inflight s), currentOpCount := Suc (currentOpCount s)\<rparr>"
  let ?x = "if atomic ?u then mark_rollback ?u else ?u"
  have a: "arrived s ?u" "arrived s ?x" using arrived_row[OF assms(2)] by simp_all
  have x: "tx ?x = (if True \<and> atomic s then TxRollbackOnly else tx s)"
    using arrived_not_ended(2)[OF assms(1) a(1)] by (cases "tx s") (simp_all add: mark_rollback_def tx_open_def)
  consider "res = None" | "res = Some InsufficientSpace" | "res = Some TemporaryError" | "res = Some OtherError"
    by (cases res; cases "the res") simp_all
  then show thesis
  proof cases
    case 1
    have t: "tx ?u = (if False \<and> atomic s then TxRollbackOnly else tx s)" by simp
    obtain s' where "loaderRecordComplete j accept r False ?u = Some s'" "good j s'"
      by (rule record_complete_good[OF assms(1) a(1) t assms(3)])
    with 1 show thesis by (intro that[of s']) (simp_all add: rowCallback_def)
  next
    case 2
    have t: "tx ?u = tx s" by simp
    obtain s' where "writer_abort InsufficientSpace ?u = Some s'" "good j s'"
      by (rule abort_good[OF assms(1) a(1) t])
    with 2 show thesis by (intro that[of s']) (simp_all add: rowCallback_def)
  next
    case 3
    have t: "tx ?u = (if aborted s \<and> atomic s then TxRollbackOnly else tx s)"
      using sound_end_tx[of s] assms(1) arrived_not_ended(2)[OF assms(1) a(1)] by (auto simp: good_def tx_open_def)
    have "good j (?u\<lparr>aborted := aborted s, crashed := True\<rparr>)"
      by (rule dropped_good(1)[OF assms(1) a(1) _ _ _ t]) simp_all
    with 3 show thesis by (intro that[of "?u\<lparr>crashed := True\<rparr>"]) (simp_all add: rowCallback_def)
  next
    case 4
    obtain s' where "loaderRecordComplete j accept r True ?x = Some s'" "good j s'"
      by (rule record_complete_good[OF assms(1) a(2) x assms(3)])
    with 4 show thesis by (intro that[of s']) (simp_all add: rowCallback_def)
  qed
qed

text \<open>A commit that fails: the circle of calls never ends.\<close>

lemma dsFinished_diverges:
  assumes "dsFinished s = Some s'"
  shows "\<not> (atomic s \<and> tx s = TxIdle \<and> \<not> running s \<and> rowsProcessed s = rowsComplete s + rowsSkipped s)"
proof (rule dsFinished.raw_induct[where P = "\<lambda>s s'. \<not> (atomic s \<and> tx s = TxIdle \<and> \<not> running s
      \<and> rowsProcessed s = rowsComplete s + rowsSkipped s)", OF _ assms], goal_cases)
  case (1 f s s')
  show ?case
  proof
    assume "atomic s \<and> tx s = TxIdle \<and> \<not> running s \<and> rowsProcessed s = rowsComplete s + rowsSkipped s"
    with 1(2) 1(1)[of "executeBatch (s\<lparr>finishing := True\<rparr>)\<lparr>fatalError := Some Idle_commit, shutdown := True\<rparr>" s']
    show False by (simp add: Let_def executeBatch_def)
  qed
qed

lemma failed_commit:
  assumes "good j s" "waiting s = Some CommitSent" "\<not> crashed s"
  shows "loader_step j accept (TxDone True) s = None"
proof -
  have e: "committing s" "finishing s" "atomic s" "\<not> running s" "rowsProcessed s = rowsComplete s + rowsSkipped s"
    using sound_endD(1-9)[of s] assms(1,2) by (auto simp: good_def ended_def)
  have "\<not> (\<exists>s'. dsFinished (s\<lparr>waiting := None, tx := TxIdle, fatalError := Some Commit_error, shutdown := True\<rparr>) = Some s')"
    using dsFinished_diverges e by fastforce
  then have "dsFinished (s\<lparr>waiting := None, tx := TxIdle, fatalError := Some Commit_error, shutdown := True\<rparr>) = None"
    by (metis option.exhaust)
  then show ?thesis using assms(2,3) e(4) by (simp add: loader_step_def Let_def loaderAborted_def ds_end_def)
qed

lemma tx_done_good:
  assumes "good j s" "waiting s = Some q" "e = fatalError s \<and> q = CommitSent \<or> e = Some Rolled_back"
  shows "good j (loaderTransactionDidCommit (s\<lparr>waiting := None, tx := TxIdle, fatalError := e\<rparr>))"
proof -
  let ?t = "s\<lparr>waiting := None, tx := TxIdle, fatalError := e\<rparr>"
  let ?d = "loaderTransactionDidCommit ?t"
  have c: "calm s ?d"
    by (intro calm_trans[OF calm_update(3) calm_trans[OF calm_update(4) calm_trans[OF calm_update(2) calm_commit]]])
  have f: "committing ?d = committing s" "rolling_back ?d = rolling_back s" "logger_told ?d = True"
    "succeeded ?d = succeeded s" "rowsProcessed ?d = rowsProcessed s" "rowsSkipped ?d = rowsSkipped s"
    "rowsComplete ?d = rowsComplete s" "rowsError ?d = rowsError s" "shutdown ?d = shutdown s" "running ?d = running s"
    "finishing ?d = finishing s" "atomic ?d = atomic s" "waiting ?d = None" "aborted ?d = aborted s" "tx ?d = TxIdle"
    "fatalError ?d = e"
    by (simp_all add: loaderTransactionDidCommit_def)
  have e: "sound_end s" using assms(1) by (simp add: good_def)
  have en: "committing s \<or> rolling_back s" using sound_endD(9,10)[OF e] assms(2) by (cases q) simp_all
  have q: "q = CommitSent \<longrightarrow> committing s" using sound_endD(9)[OF e] assms(2) by simp
  have en': "ended s" using en by (auto simp: ended_def)
  have "sound_end ?d"
    unfolding sound_end_def ended_def f
    by (simp, intro conjI impI) (use sound_endD(1-8,12,14)[OF e] en en' q assms(3) in \<open>blast+\<close>)
  then show ?thesis using calm_keeps[OF c _ assms(1)] by simp
qed

lemma final_good:
  assumes "good j s" "0 < logger_ends s"
  shows "good j (loggerFinished (s\<lparr>logger_ends := logger_ends s - 1\<rparr>))"
proof -
  let ?u = "s\<lparr>logger_ends := logger_ends s - 1, ticker := False\<rparr>"
  let ?f = "loggerFinished (s\<lparr>logger_ends := logger_ends s - 1\<rparr>)"
  have f: "?f = emit (FinalCallback (fatalError s) (Some (rowsProcessed s, rowsSkipped s, rowsComplete s, rowsError s))) ?u"
    by (simp add: loggerFinished_def)
  have c: "calm s ?f"
    unfolding f by (rule calm_trans[OF calm_trans[OF calm_update(5) calm_update(7)] calm_emit]) simp
  have e: "sound_end s" and t: "logger_told s"
    using assms sound_endD(11)[of s] by (simp_all add: good_def)
  have g: "committing ?f = committing s" "rolling_back ?f = rolling_back s" "logger_told ?f = logger_told s"
    "succeeded ?f \<longleftrightarrow> succeeded s \<or> fatalError s = None" "rowsProcessed ?f = rowsProcessed s"
    "rowsSkipped ?f = rowsSkipped s" "rowsComplete ?f = rowsComplete s" "rowsError ?f = rowsError s"
    "shutdown ?f = shutdown s" "running ?f = running s" "finishing ?f = finishing s" "atomic ?f = atomic s"
    "waiting ?f = waiting s" "aborted ?f = aborted s" "tx ?f = tx s" "fatalError ?f = fatalError s"
    unfolding f by simp_all
  have "sound_end ?f"
    using e t unfolding sound_end_def ended_def g by (elim conjE) (intro conjI impI; blast)
  then show ?thesis using calm_keeps[OF c _ assms(1)] by simp
qed

lemma step_good:
  assumes "good j s" "wf_job j" "\<not> (ev = TxDone True \<and> waiting s = Some CommitSent \<and> \<not> crashed s)"
  obtains s' where "loader_step j accept ev s = Some s'" "good j s'"
proof (cases "crashed s")
  case True
  then show thesis using that[of s] assms(1) by (simp add: loader_step_def)
next
  case alive: False
  show thesis
  proof (cases ev)
    case (RowDone r res)
    show thesis
    proof (cases "r \<in> set (inflight s)")
      case True
      obtain s' where "rowCallback j accept r res (s\<lparr>inflight := remove1 r (inflight s)\<rparr>) = Some s'" "good j s'"
        by (rule row_event[OF assms(1) True assms(2)])
      with True alive RowDone show thesis using that[of s'] by (simp add: loader_step_def)
    next
      case False
      with alive RowDone show thesis using that[of s] assms(1) by (simp add: loader_step_def)
    qed
  next
    case Tick
    with alive show thesis
      using that[of "if ticker s then onTick s else s"] assms(1) onTick_good by (simp add: loader_step_def)
  next
    case (TxDone failed)
    show thesis
    proof (cases "waiting s")
      case None
      with alive TxDone show thesis using that[of s] assms(1) by (simp add: loader_step_def)
    next
      case (Some q)
      show thesis
      proof (cases q)
        case CommitSent
        with Some TxDone assms(3) alive have "\<not> failed" by simp
        with alive TxDone Some CommitSent show thesis
          using that[of "loaderTransactionDidCommit (s\<lparr>waiting := None, tx := TxIdle\<rparr>)"]
            tx_done_good[OF assms(1) Some, of "fatalError s"] by (simp add: loader_step_def Let_def)
      next
        case RollbackSent
        with alive TxDone Some show thesis
          using that[of "loaderTransactionDidRollback (s\<lparr>waiting := None, tx := TxIdle\<rparr>)"]
            tx_done_good[OF assms(1) Some, of "Some Rolled_back"]
          by (simp add: loader_step_def loaderTransactionDidRollback_def)
      qed
    qed
  next
    case LoggerFinished
    with alive show thesis
      using that[of "if 0 < logger_ends s then loggerFinished (s\<lparr>logger_ends := logger_ends s - 1\<rparr>) else s"]
        assms(1) final_good[OF assms(1)] by (simp add: loader_step_def)
  qed
qed

text \<open>Between two events the source is not running, and an abort has told it to end.\<close>

definition at_rest :: "loader \<Rightarrow> bool" where
  "at_rest s = (\<not> running s \<and> (aborted s \<longrightarrow> shutdown s))"

lemma calm_rest: "calm s s' \<Longrightarrow> at_rest s \<Longrightarrow> at_rest s'"
  by (auto simp: at_rest_def calm_def)

lemma source_run_rest:
  assumes "source_run j accept s = Some s'" "loader_ok j s" "wf_job j" "aborted s \<longrightarrow> shutdown s"
  shows "at_rest s'"
proof -
  obtain t where t: "run_loop j accept s = Some t" "(if shutdown t then dsFinished t else Some t) = Some s'"
    using assms(1) by (auto simp: source_run_def bind_eq_Some_conv)
  have "\<not> running t" "context_of t = context_of s" "shutdown s \<longrightarrow> shutdown t"
    using run_loop_ok[OF t(1)] assms(2,3) by simp_all
  then have "at_rest t" using assms(4) context_simps(3)[of t s] by (simp add: at_rest_def)
  with t(2) show ?thesis using calm_rest[OF calm_dsFinished] by (cases "shutdown t") simp_all
qed

lemma started_good:
  assumes "wf_job j"
  obtains s where "controller_run j accept (new_Controller j) = Some s" "good j s" "at_rest s"
proof -
  let ?b = "workerId j \<noteq> 0 \<or> skipRows j \<noteq> 0"
  let ?s = "(if ?b then (new_Controller j)\<lparr>skipping := True\<rparr> else new_Controller j)\<lparr>started := True, running := True\<rparr>"
  have t: "trace ?s = [] \<or> trace ?s = [FinalCallback (Some InfiniteTransaction) None]"
    by (simp add: new_Controller_def Let_def emit_def)
  then have o: "offered ?s = []" and c: "\<not> committing ?s" "\<not> rolling_back ?s" "\<not> logger_told ?s" "\<not> succeeded ?s"
    by (auto simp: offered_def end_flags closings_def List.map_filter_simps)
  have f: "rowsProcessed ?s = 0" "rowsSkipped ?s = 0" "rowsComplete ?s = 0" "rowsError ?s = 0" "pending ?s = 0"
    "sizes ?s = (0, 0, 1)" "aborted ?s = False" "crashed ?s = False" "running ?s = True" "finishing ?s = False"
    "started ?s = True" "skipping ?s = ?b" "waiting ?s = None" "logger_ends ?s = 0"
    "tx ?s = (if atomic ?s then TxActive else TxIdle)"
    by (simp_all add: new_Controller_def Let_def emit_def sizes_def pending_def)
  have "loader_ok j ?s"
    unfolding loader_ok_def rows_ok_def skip_ok_def f o using assms
    by (auto simp: isPaused_def batch_sizes_ok_def wf_job_def new_Controller_def Let_def emit_def)
  moreover have "sound_end ?s"
    using c unfolding sound_end_def ended_def f by simp
  ultimately have g: "good j ?s" by (simp add: good_def)
  have nf: "\<not> finishing ?s" by (subst f(10)) (rule notI)
  have o: "tx_open ?s" unfolding tx_open_def by (subst f(15)) simp
  obtain s' where "source_run j accept ?s = Some s'" "good j s'"
    by (rule run_good[OF g assms nf o])
  moreover from this have "at_rest s'"
    using source_run_rest[of j accept ?s s'] assms g f(7) by (simp add: good_def)
  ultimately show thesis
    using that[of s'] by (auto simp: controller_run_def source_start_def runIfReady_def f)
qed

lemma wf_adjust: "wf_job j \<Longrightarrow> wf_job (adjust j)"
  by (simp add: wf_job_def adjust_def split: option.splits)

lemma events_good: "good j s \<Longrightarrow> wf_job j \<Longrightarrow> loader_events j accept evs s = Some s' \<Longrightarrow> good j s'"
proof (induction evs arbitrary: s)
  case (Cons ev evs)
  then obtain t where t: "loader_step j accept ev s = Some t" "loader_events j accept evs t = Some s'"
    by (auto simp: bind_eq_Some_conv)
  then have "\<not> (ev = TxDone True \<and> waiting s = Some CommitSent \<and> \<not> crashed s)"
    using failed_commit[OF Cons.prems(1), of accept] by (cases "crashed s") auto
  then obtain u where "loader_step j accept ev s = Some u" "good j u"
    by (rule step_good[OF Cons.prems(1,2)])
  with t Cons show ?case by simp
qed simp

lemma load_good:
  assumes "wf_job j" "load j accept evs = Some s"
  shows "good (adjust j) s"
proof -
  obtain t where "controller_run (adjust j) accept (new_Controller (adjust j)) = Some t" "good (adjust j) t"
    by (rule started_good[OF wf_adjust[OF assms(1)]])
  with assms(2) events_good[OF _ wf_adjust[OF assms(1)]] show ?thesis by (simp add: load_def Let_def)
qed

section \<open>Loads that never end\<close>

text \<open>
  The source stands still, because a row was lost in an abort, or because the skipped rows alone
  keep the lead of the source above the limit for resuming: skipped rows count as processed but
  never as complete.
\<close>

definition stalled :: "loader \<Rightarrow> bool" where
  "stalled s = (\<not> running s \<and> (if shutdown s then aborted s else minLead \<le> rowsSkipped s))"

definition same_stall :: "loader \<Rightarrow> loader \<Rightarrow> bool" where
  "same_stall s s' \<longleftrightarrow> stalled s' \<and> rowsProcessed s' = rowsProcessed s \<and> closings s' = closings s"

lemma stalled_not_ended: "good j s \<Longrightarrow> stalled s \<Longrightarrow> \<not> ended s"
  using ended_no_pending[of j s] sound_endD(2,3)[of s] by (auto simp: stalled_def good_def)

lemma mark_rollback_keeps:
  "running (mark_rollback s) = running s" "rowsProcessed (mark_rollback s) = rowsProcessed s"
  "rowsComplete (mark_rollback s) = rowsComplete s" "rowsSkipped (mark_rollback s) = rowsSkipped s"
  "aborted (mark_rollback s) = aborted s" "closings (mark_rollback s) = closings s"
  by (simp_all add: mark_rollback_def)

lemma executeBatch_keeps:
  "running (executeBatch s) = running s" "shutdown (executeBatch s) = shutdown s" "aborted (executeBatch s) = aborted s"
  "rowsProcessed (executeBatch s) = rowsProcessed s" "closings (executeBatch s) = closings s"
  by (simp_all add: executeBatch_def)

lemma dsFinished_incomplete:
  assumes "rowsProcessed s \<noteq> rowsComplete s + rowsSkipped s"
  shows "dsFinished s = Some (executeBatch (s\<lparr>finishing := True\<rparr>))"
  by (subst dsFinished_eq) (use assms in \<open>simp add: commitIfComplete_def executeBatch_def\<close>)

lemma stalled_abort:
  assumes "good j s" "arrived s u" "tx u = tx s" "writer_abort e u = Some s'" "\<not> running s"
    "aborted s \<longrightarrow> stalled s"
  shows "same_stall s s'"
proof -
  note d = arrivedD[OF assms(2)]
  note r = assms(5)
  show ?thesis
  proof (cases "aborted s")
    case True
    then have "s' = u" using assms(4) d(8) by (simp add: writer_abort_def)
    with True assms(6) show ?thesis by (simp add: same_stall_def stalled_def d)
  next
    case False
    let ?x = "mark_rollback (u\<lparr>aborted := True\<rparr>)\<lparr>fatalError := Some (Loader_error e), shutdown := True\<rparr>"
    have x: "dsFinished ?x = Some s'"
      using assms(4) False r d(8,12) by (simp add: writer_abort_def loaderAborted_def ds_end_def mark_rollback_keeps(1))
    obtain lost where "rowsProcessed s = rowsSkipped s + rowsComplete s + pending s + lost"
      using assms(1) unfolding good_def loader_ok_def rows_ok_def by blast
    then have "rowsProcessed u \<noteq> rowsComplete u + rowsSkipped u" using d(1-4) by simp
    then have "s' = executeBatch (?x\<lparr>finishing := True\<rparr>)"
      using x dsFinished_incomplete[of ?x] by (simp add: mark_rollback_keeps)
    then show ?thesis
      using r by (simp add: same_stall_def stalled_def executeBatch_keeps mark_rollback_keeps d)
  qed
qed

lemma stalled_complete:
  assumes "good j s" "arrived s u" "tx u = (if f \<and> atomic s then TxRollbackOnly else tx s)" "stalled s"
    "loaderRecordComplete j accept r f u = Some s'"
  shows "same_stall s s'"
proof -
  let ?c = "completed r f u"
  note d = arrivedD[OF assms(2)] and c = completed_facts[of r f u]
  have g: "good j ?c" by (rule completed_good(1)[OF assms(1-3)])
  obtain lost where l: "rowsProcessed s = rowsSkipped s + rowsComplete s + pending s + lost"
    using assms(1) unfolding good_def loader_ok_def rows_ok_def by blast
  have no: "\<not> (isPaused ?c \<and> rowsProcessed u < Suc (rowsComplete u) + minLead)"
    using assms(4) l d(1) by (auto simp: stalled_def isPaused_def c d split: if_splits)
  then have s': "(if finishing ?c then commitIfComplete dsFinished ?c else Some (?c\<lparr>ticker := True\<rparr>)) = Some s'"
    using assms(5) by (auto simp: loaderRecordComplete_eq c)
  have st: "same_stall s ?c" using assms(4) by (simp add: same_stall_def stalled_def c d)
  show ?thesis
  proof (cases "finishing ?c")
    case True
    then have "aborted ?c"
      using sound_endD(3)[of ?c] g st by (auto simp: good_def same_stall_def stalled_def)
    then have "rowsProcessed ?c \<noteq> rowsComplete ?c + rowsSkipped ?c"
      using incomplete_if_aborted[of j ?c] g by (auto simp: good_def)
    then have "s' = ?c" using s' True by (simp add: commitIfComplete_def)
    with st show ?thesis by simp
  next
    case False
    then have "s' = ?c\<lparr>ticker := True\<rparr>" using s' by simp
    with st show ?thesis by (simp add: same_stall_def stalled_def)
  qed
qed

text \<open>The three ways an outcome of a row is dealt with.\<close>

lemma row_done_cases:
  assumes "good j s" "loader_step j accept (RowDone r res) s = Some s'"
  obtains (ignored) "s' = s"
  | (complete) u f where "arrived s u" "tx u = (if f \<and> atomic s then TxRollbackOnly else tx s)"
      "loaderRecordComplete j accept r f u = Some s'"
  | (abort) u e where "arrived s u" "tx u = tx s" "writer_abort e u = Some s'"
  | (crash) u where "arrived s u" "s' = u\<lparr>crashed := True\<rparr>"
proof (cases "crashed s \<or> r \<notin> set (inflight s)")
  case True
  with assms(2) ignored show thesis by (cases "crashed s") (simp_all add: loader_step_def)
next
  case False
  let ?u = "s\<lparr>inflight := remove1 r (inflight s), currentOpCount := Suc (currentOpCount s)\<rparr>"
  let ?x = "if atomic ?u then mark_rollback ?u else ?u"
  have a: "arrived s ?u" "arrived s ?x" using arrived_row[of r s] False by simp_all
  have x: "tx ?x = (if True \<and> atomic s then TxRollbackOnly else tx s)"
    using arrived_not_ended(2)[OF assms(1) a(1)] by (cases "tx s") (simp_all add: mark_rollback_def tx_open_def)
  have cb: "rowCallback j accept r res (s\<lparr>inflight := remove1 r (inflight s)\<rparr>) = Some s'"
    using assms(2) False by (simp add: loader_step_def)
  consider "res = None" | "res = Some InsufficientSpace" | "res = Some TemporaryError" | "res = Some OtherError"
    by (cases res; cases "the res") simp_all
  then show thesis
  proof cases
    case 1
    with cb have "loaderRecordComplete j accept r False ?u = Some s'" by (simp add: rowCallback_def)
    with a(1) show thesis by (intro complete[of ?u False]) simp_all
  next
    case 2
    with cb have "writer_abort InsufficientSpace ?u = Some s'" by (simp add: rowCallback_def)
    with a(1) show thesis by (intro abort[of ?u InsufficientSpace]) simp_all
  next
    case 3
    with cb a(1) show thesis by (intro crash[of ?u]) (simp_all add: rowCallback_def)
  next
    case 4
    with cb have "loaderRecordComplete j accept r True ?x = Some s'"
      by (cases "atomic s") (simp_all add: rowCallback_def Let_def)
    then show thesis by (rule complete[OF a(2) x])
  qed
qed

lemma stalled_step:
  assumes "good j s" "stalled s" "loader_step j accept ev s = Some s'"
  shows "same_stall s s'"
proof -
  have e: "sound_end s" and refl: "same_stall s s" using assms(1,2) by (simp_all add: good_def same_stall_def)
  have ne: "\<not> committing s" "\<not> rolling_back s" "\<not> logger_told s"
    using stalled_not_ended[OF assms(1,2)] by (simp_all add: ended_def)
  have w: "waiting s = None" "logger_ends s = 0"
    using sound_endD(9-11)[OF e] ne by (cases "waiting s"; cases "the (waiting s)"; auto)+
  show ?thesis
  proof (cases ev)
    case (RowDone r res)
    show ?thesis
      using assms(1) assms(3)[unfolded RowDone]
    proof (cases rule: row_done_cases)
      case (complete u f)
      show ?thesis by (rule stalled_complete[OF assms(1) complete(1,2) assms(2) complete(3)])
    next
      case (abort u e)
      show ?thesis
        by (rule stalled_abort[OF assms(1) abort]) (use assms(2) in \<open>simp_all add: stalled_def\<close>)
    next
      case (crash u)
      with assms(2) show ?thesis by (simp add: same_stall_def stalled_def arrivedD[OF crash(1)])
    qed (simp add: refl)
  next
    case Tick
    have "same_stall s (onTick s)"
      using assms(2) onTick_same(2,3,4,10,11,13) by (simp add: same_stall_def stalled_def)
        (auto simp: onTick_def writer_onTick_def batch_tick_def Let_def batchSizeUp_def batchSizeDown_def closings_def)
    with Tick assms(3) refl show ?thesis by (auto simp: loader_step_def split: if_splits)
  next
    case (TxDone failed)
    with assms(3) refl w show ?thesis by (auto simp: loader_step_def split: if_splits)
  next
    case LoggerFinished
    with assms(3) refl w show ?thesis by (auto simp: loader_step_def split: if_splits)
  qed
qed

lemma stalled_events:
  "good j s \<Longrightarrow> wf_job j \<Longrightarrow> stalled s \<Longrightarrow> loader_events j accept evs s = Some s' \<Longrightarrow> same_stall s s'"
proof (induction evs arbitrary: s)
  case (Cons ev evs)
  then obtain t where t: "loader_step j accept ev s = Some t" "loader_events j accept evs t = Some s'"
    by (auto simp: bind_eq_Some_conv)
  have st: "same_stall s t" by (rule stalled_step[OF Cons.prems(1,3) t(1)])
  have "good j t"
    using events_good[OF Cons.prems(1,2), of accept "[ev]" t] t(1) by simp
  from Cons.IH[OF this Cons.prems(2) _ t(2)] st show ?case by (auto simp: same_stall_def)
qed (auto simp: same_stall_def)

lemma complete_rest:
  assumes "good j s" "arrived s u" "tx u = (if f \<and> atomic s then TxRollbackOnly else tx s)" "wf_job j" "at_rest s"
    "loaderRecordComplete j accept r f u = Some s'"
  shows "at_rest s'"
proof -
  let ?c = "completed r f u"
  note d = arrivedD[OF assms(2)] and c = completed_facts[of r f u]
  have ok: "loader_ok j ?c" using completed_good(1)[OF assms(1-3)] by (simp add: good_def)
  have ac: "at_rest ?c" using assms(5) by (simp add: at_rest_def c d)
  obtain t where t: "(if isPaused ?c \<and> rowsProcessed u < Suc (rowsComplete u) + minLead
      then resume j accept ?c else Some ?c) = Some t"
    "(if finishing t then commitIfComplete dsFinished t else Some (t\<lparr>ticker := True\<rparr>)) = Some s'"
    using assms(6) unfolding loaderRecordComplete_eq by (auto simp: bind_eq_Some_conv)
  have "at_rest t"
  proof (cases "isPaused ?c \<and> rowsProcessed u < Suc (rowsComplete u) + minLead")
    case True
    let ?r = "?c\<lparr>running := True\<rparr>"
    have "loader_ok j ?r"
      using ok True unfolding loader_ok_def rows_ok_def skip_ok_def
      by (simp add: isPaused_def offered_cong[of ?r ?c] sizes_def pending_def c maxLead_def minLead_def)
    moreover have "source_run j accept ?r = Some t"
      using True t(1) ok by (simp add: resume_def runIfReady_def loader_ok_def skip_ok_def)
    ultimately show ?thesis using source_run_rest[OF _ _ assms(4)] ac by (simp add: at_rest_def)
  next
    case False
    with t(1) ac show ?thesis by (auto split: if_splits)
  qed
  with t(2) show ?thesis
    using calm_rest[OF calm_commitIfComplete] calm_rest[OF calm_update(7), of t True] by (cases "finishing t") simp_all
qed

lemma abort_rest:
  assumes "arrived s u" "at_rest s" "writer_abort e u = Some s'"
  shows "at_rest s'"
proof (cases "aborted u")
  case True
  with assms(3) have "s' = u" by (simp add: writer_abort_def)
  with assms(2) show ?thesis by (simp add: at_rest_def arrivedD[OF assms(1)])
next
  case False
  let ?x = "mark_rollback (u\<lparr>aborted := True\<rparr>)\<lparr>fatalError := Some (Loader_error e), shutdown := True\<rparr>"
  have "dsFinished ?x = Some s'" "at_rest ?x"
    using assms(2,3) False arrivedD(12)[OF assms(1)]
    by (simp_all add: writer_abort_def loaderAborted_def ds_end_def mark_rollback_keeps at_rest_def)
  then show ?thesis using calm_rest[OF calm_dsFinished] by blast
qed

lemma step_rest:
  assumes "good j s" "wf_job j" "at_rest s" "loader_step j accept ev s = Some s'"
  shows "at_rest s'"
proof (cases ev)
  case (RowDone r res)
  show ?thesis
    using assms(1) assms(4)[unfolded RowDone]
  proof (cases rule: row_done_cases)
    case (complete u f)
    show ?thesis by (rule complete_rest[OF assms(1) complete(1,2) assms(2,3) complete(3)])
  next
    case (abort u e)
    show ?thesis by (rule abort_rest[OF abort(1) assms(3) abort(3)])
  next
    case (crash u)
    with assms(3) show ?thesis by (simp add: at_rest_def arrivedD[OF crash(1)])
  qed (simp add: assms(3))
next
  case Tick
  have "at_rest (onTick s)" using assms(3) onTick_same(3,4,13)[of s] by (simp add: at_rest_def)
  with Tick assms(3,4) show ?thesis by (auto simp: loader_step_def split: if_splits)
next
  case (TxDone failed)
  have "at_rest (s\<lparr>waiting := None, tx := TxIdle\<rparr>)" using assms(3) by (simp add: at_rest_def)
  with TxDone assms(3,4) show ?thesis
    using calm_rest[OF calm_loaderAborted] calm_rest[OF calm_commit] calm_rest[OF calm_update(2)]
    by (fastforce simp: loader_step_def Let_def loaderTransactionDidRollback_def split: if_splits option.splits tx_request.splits)
next
  case LoggerFinished
  with assms(3,4) show ?thesis
    by (auto simp: loader_step_def at_rest_def loggerFinished_def split: if_splits)
qed

section \<open>Properties of the loader\<close>

text \<open>
  C27: The loader returns from its start and from every event, whatever the rows do, except from one:
  the reply that the commit has failed, from which it never returns. There the writer reports an
  abort, the source its end, and the controller commits again, now a transaction that is idle and
  calls back with an error at once, and so on until the stack is exhausted.
\<close>

theorem loader_returns:
  assumes "wf_job j" "load j accept evs = Some s"
  shows "loader_step (adjust j) accept ev s = None
    \<longleftrightarrow> ev = TxDone True \<and> waiting s = Some CommitSent \<and> \<not> crashed s"
proof (cases "ev = TxDone True \<and> waiting s = Some CommitSent \<and> \<not> crashed s")
  case True
  then show ?thesis using failed_commit[OF load_good[OF assms]] by simp
next
  case False
  obtain s' where "loader_step (adjust j) accept ev s = Some s'"
    by (rule step_good[OF load_good[OF assms] wf_adjust[OF assms(1)] False])
  with False show ?thesis by simp
qed

text \<open>
  C28: Each worker offers exactly its share of the rows, in order: of the rows that the source has passed,
  those after the rows to skip whose number is the worker's modulo the number of workers.
\<close>

theorem worker_rows:
  assumes "wf_job j" "load j accept evs = Some s"
  shows "offered s = filter (\<lambda>r. skipRows j \<le> r \<and> r mod nWorkers j = workerId j) [0..<rowsProcessed s]"
proof -
  have "my_row (adjust j) = (\<lambda>r. skipRows j \<le> r \<and> r mod nWorkers j = workerId j)"
    by (auto simp: my_row_def adjust_def split: option.splits)
  with load_good[OF assms] show ?thesis by (simp add: good_def loader_ok_def rows_ok_def)
qed

lemma fib_pos: "0 < fib (Suc k)"
  by (induction k rule: fib.induct) simp_all

text \<open>
  C29: The loader stays within its bounds. At most 2001 rows are in memory, waiting in the batch or for
  their outcome, so the pauses keep the source from running ahead; and the batch size is always a
  positive Fibonacci number.
\<close>

theorem loader_bounds:
  assumes "wf_job j" "load j accept evs = Some s"
  shows "length (op_batch s) + length (inflight s) \<le> 2001 \<and> 0 < fibC s \<and> (\<exists>k. fibC s = fib k)"
proof -
  have ok: "loader_ok (adjust j) s" using load_good[OF assms] by (simp add: good_def)
  then have "rowsProcessed s \<le> rowsSkipped s + rowsComplete s + Suc maxLead"
    "rowsSkipped s + rowsComplete s + pending s \<le> rowsProcessed s"
    unfolding loader_ok_def rows_ok_def by auto
  then have "pending s \<le> 2001" by (simp add: maxLead_def)
  moreover consider "fibC s = fib 1" | k where "fibC s = fib (k + 2)"
    using ok by (auto simp: loader_ok_def rows_ok_def batch_sizes_ok_def sizes_def)
  then have "0 < fibC s \<and> (\<exists>k. fibC s = fib k)"
    by cases (metis One_nat_def fib_pos, metis add_2_eq_Suc' fib_pos)
  ultimately show ?thesis by (simp add: pending_def)
qed

text \<open>
  C30: A load in one transaction is all or nothing. If the commit is sent, every row that the source has
  passed has been stored or skipped, none with an error and none lost; a load that reports success
  has sent the commit; and one that sends a rollback does not send a commit.
\<close>

theorem atomic_load:
  assumes "wf_job j" "load j accept evs = Some s" "atomic s"
  shows "(SendCommit \<in> set (trace s) \<longrightarrow> rowsError s = 0 \<and> rowsProcessed s = rowsSkipped s + rowsComplete s
      \<and> op_batch s = [] \<and> inflight s = [])
    \<and> (FinalCallback None st \<in> set (trace s) \<longrightarrow> SendCommit \<in> set (trace s))
    \<and> \<not> (SendCommit \<in> set (trace s) \<and> SendRollback \<in> set (trace s))"
proof -
  have g: "good (adjust j) s" by (rule load_good[OF assms(1,2)])
  then have e: "sound_end s" by (simp add: good_def)
  have m: "SendCommit \<in> set (trace s) \<longleftrightarrow> committing s" "SendRollback \<in> set (trace s) \<longleftrightarrow> rolling_back s"
    "FinalCallback None st \<in> set (trace s) \<Longrightarrow> succeeded s"
    by (auto simp: end_flags closings_def list_ex_iff intro!: bexI[of _ "FinalCallback None st"])
  have "committing s \<Longrightarrow> pending s = 0" using ended_no_pending[OF g] by (simp add: ended_def)
  then show ?thesis
    using sound_endD(1,6,12,14)[OF e] assms(3) unfolding m ended_def
    by (auto simp: pending_def dest!: m(3))
qed

text \<open>
  C31: A load whose skipped rows reach 1000 before its source pauses never goes on. In a state where the
  source is paused and 1000 rows have been skipped, because they were to be skipped or belong to
  other workers, no sequence of events makes it pass another row, end the load or call back.
\<close>

theorem skipped_rows_stall:
  assumes "wf_job j" "load j accept evs = Some s" "isPaused s" "1000 \<le> rowsSkipped s"
    "loader_events (adjust j) accept evs' s = Some s'"
  shows "rowsProcessed s' = rowsProcessed s \<and> closings s' = closings s"
proof -
  have "stalled s" using assms(3,4) by (simp add: stalled_def isPaused_def minLead_def)
  from stalled_events[OF load_good[OF assms(1,2)] wf_adjust[OF assms(1)] this assms(5)]
  show ?thesis by (simp add: same_stall_def)
qed

lemma load_at_rest:
  assumes "wf_job j" "load j accept evs = Some s"
  shows "at_rest s"
proof -
  let ?j = "adjust j"
  have wf: "wf_job ?j" by (rule wf_adjust[OF assms(1)])
  have evs: "loader_events ?j accept evs t = Some s' \<Longrightarrow> good ?j t \<Longrightarrow> at_rest t \<Longrightarrow> at_rest s'" for evs t s'
  proof (induction evs arbitrary: t)
    case (Cons ev evs)
    then obtain u where u: "loader_step ?j accept ev t = Some u" "loader_events ?j accept evs u = Some s'"
      by (auto simp: bind_eq_Some_conv)
    have "good ?j u" using events_good[OF Cons.prems(2) wf, of accept "[ev]"] u(1) by simp
    with Cons.IH[OF u(2)] step_rest[OF Cons.prems(2) wf Cons.prems(3) u(1)] show ?case by simp
  qed simp
  obtain t where t: "controller_run ?j accept (new_Controller ?j) = Some t" "loader_events ?j accept evs t = Some s"
    using assms(2) by (auto simp: load_def Let_def bind_eq_Some_conv)
  obtain u where "controller_run ?j accept (new_Controller ?j) = Some u" "good ?j u" "at_rest u"
    by (rule started_good[OF wf])
  with t(1) evs[OF t(2)] show ?thesis by simp
qed

text \<open>
  A load in which a row fails because the table is full never ends: the row is neither complete nor
  skipped, so the controller waits for it forever. From that event on the source passes no row, and no
  commit, rollback or final callback follows, although the code means to roll back.
\<close>

theorem full_table_never_ends:
  assumes "wf_job j" "load j accept evs = Some s" "r \<in> set (inflight s)" "\<not> crashed s"
    "loader_events (adjust j) accept (RowDone r (Some InsufficientSpace) # evs') s = Some s'"
  shows "rowsProcessed s' = rowsProcessed s \<and> closings s' = closings s"
proof -
  have g: "good (adjust j) s" by (rule load_good[OF assms(1,2)])
  let ?u = "s\<lparr>inflight := remove1 r (inflight s), currentOpCount := Suc (currentOpCount s)\<rparr>"
  have a: "arrived s ?u" by (rule arrived_row(1)[OF assms(3)])
  obtain t where t: "loader_step (adjust j) accept (RowDone r (Some InsufficientSpace)) s = Some t"
    "loader_events (adjust j) accept evs' t = Some s'"
    using assms(5) by (auto simp: bind_eq_Some_conv)
  have w: "writer_abort InsufficientSpace ?u = Some t"
    using t(1) assms(3,4) by (simp add: loader_step_def rowCallback_def)
  have st: "same_stall s t"
    by (rule stalled_abort[OF g a _ w])
      (use load_at_rest[OF assms(1,2)] in \<open>simp_all add: at_rest_def stalled_def\<close>)
  have "good (adjust j) t"
    using events_good[OF g wf_adjust[OF assms(1)], of accept "[RowDone r (Some InsufficientSpace)]"] t(1) by simp
  from stalled_events[OF this wf_adjust[OF assms(1)] _ t(2)] st show ?thesis by (simp add: same_stall_def)
qed

section \<open>Small loads\<close>

definition every_row :: "nat \<Rightarrow> bool" where "every_row r = True"

definition one_row :: job where
  "one_row = \<lparr>maxRows = Some 1, skipRows = 0, workerId = 0, nWorkers = 1, inOneTransaction = True\<rparr>"

definition second_of_two :: job where
  "second_of_two = \<lparr>maxRows = Some 3, skipRows = 0, workerId = 1, nWorkers = 2, inOneTransaction = False\<rparr>"

definition skip_many :: job where
  "skip_many = \<lparr>maxRows = None, skipRows = 1000, workerId = 0, nWorkers = 1, inOneTransaction = False\<rparr>"

lemma demo_jobs [simp]: "wf_job one_row" "wf_job second_of_two" "wf_job skip_many"
  "adjust one_row = one_row" "adjust second_of_two = second_of_two" "adjust skip_many = skip_many"
  by (simp_all add: wf_job_def adjust_def one_row_def second_of_two_def skip_many_def)

lemmas load_eval = load_def controller_run_def source_start_def runIfReady_def source_run_def
  run_loop_step run_step_def after_row_def taken_def discarded_def Let_def new_Controller_def
  loadItem_def executeBatch_def emit_def maxLead_def adjust_def

lemma one_row_loaded:
  "load one_row every_row [] = Some s \<Longrightarrow> inflight s = [0] \<and> finishing s \<and> \<not> crashed s \<and> rowsProcessed s = 1
    \<and> rowsComplete s = 0 \<and> rowsSkipped s = 0 \<and> atomic s \<and> tx s = TxActive \<and> waiting s = None \<and> shutdown s \<and> \<not> running s"
  by (auto simp: load_eval one_row_def every_row_def dsFinished.simps)

lemma second_of_two_loaded: "load second_of_two every_row [] = Some s \<Longrightarrow> rowsProcessed s = 3"
  by (auto simp: load_eval second_of_two_def every_row_def dsFinished.simps)

lemma load_exists:
  assumes "wf_job j"
  obtains s where "load j accept [] = Some s"
proof -
  obtain s where "controller_run (adjust j) accept (new_Controller (adjust j)) = Some s"
    by (rule started_good[OF wf_adjust[OF assms]])
  then show thesis using that by (simp add: load_def Let_def)
qed

lemma one_row_committing:
  obtains s where "load one_row every_row [RowDone 0 None] = Some s" "waiting s = Some CommitSent" "\<not> crashed s" "atomic s"
proof -
  obtain t where t: "load one_row every_row [] = Some t" by (rule load_exists[of one_row]) simp_all
  let ?s = "(emit SendCommit (emit (RecordStored 0) (t\<lparr>inflight := [], currentOpCount := Suc (currentOpCount t),
    rowsComplete := 1\<rparr>)))\<lparr>waiting := Some CommitSent\<rparr>"
  have "loader_step one_row every_row (RowDone 0 None) t = Some ?s"
    using one_row_loaded[OF t]
    by (simp add: loader_step_def rowCallback_def loaderRecordComplete_def isPaused_def Let_def
        commitIfComplete_def endAtomic_def writer_commit_def)
  then have "load one_row every_row [RowDone 0 None] = Some ?s"
    using t by (simp add: load_def Let_def bind_eq_Some_conv)
  with one_row_loaded[OF t] show thesis by (intro that[of ?s]) simp_all
qed

theorem loader_returns_witness:
  "\<exists>s. load one_row every_row [RowDone 0 None] = Some s \<and> loader_step one_row every_row (TxDone True) s = None"
proof -
  obtain s where s: "load one_row every_row [RowDone 0 None] = Some s" "waiting s = Some CommitSent" "\<not> crashed s"
    by (rule one_row_committing)
  with loader_returns[OF _ s(1), of "TxDone True"] show ?thesis by auto
qed

theorem worker_rows_witness:
  "\<exists>s. load second_of_two every_row [] = Some s \<and> offered s = [1]"
proof -
  obtain s where s: "load second_of_two every_row [] = Some s" by (rule load_exists[of second_of_two]) simp_all
  have "filter (\<lambda>r. skipRows second_of_two \<le> r \<and> r mod nWorkers second_of_two = workerId second_of_two) [0..<3] = [1]"
    by (simp add: second_of_two_def upt_rec)
  with worker_rows[OF _ s] second_of_two_loaded[OF s] s show ?thesis by auto
qed

theorem loader_bounds_witness:
  "\<exists>s. load one_row every_row [] = Some s \<and> length (op_batch s) + length (inflight s) \<le> 2001 \<and> 0 < fibC s"
proof -
  obtain s where s: "load one_row every_row [] = Some s" by (rule load_exists[of one_row]) simp_all
  with loader_bounds[OF _ s] show ?thesis by auto
qed

theorem atomic_load_witness:
  "\<exists>s. load one_row every_row [RowDone 0 None] = Some s \<and> rowsError s = 0 \<and> inflight s = [] \<and> SendCommit \<in> set (trace s)"
proof -
  obtain s where s: "load one_row every_row [RowDone 0 None] = Some s" "waiting s = Some CommitSent" "atomic s"
    by (rule one_row_committing)
  have "SendCommit \<in> set (trace s)"
    using sound_endD(9)[of s] load_good[OF _ s(1)] s(2) by (simp add: good_def committing_def closings_def)
  with atomic_load[OF _ s(1,3)] s(1) show ?thesis by auto
qed

lemma run_loop_shutdown:
  assumes "run_loop j accept s = Some s'"
  shows "maxRows j = None \<longrightarrow> shutdown s' = shutdown s"
proof (rule run_loop.raw_induct[where P = "\<lambda>j accept s s'. maxRows j = None \<longrightarrow> shutdown s' = shutdown s", OF _ assms], goal_cases)
  case (1 f j accept s s')
  show ?case
  proof (cases "running s")
    case True
    with 1(2) have "f j accept (run_step j accept s) = Some s'"
      by (simp add: run_step_def dsDiscardedItem_eq dsNewItem_eq split: if_splits)
    from 1(1)[OF this] show ?thesis by (simp add: run_step_facts)
  next
    case False
    with 1(2) show ?thesis by simp
  qed
qed

lemma skip_many_simps:
  "maxRows skip_many = None" "skipRows skip_many = 1000" "workerId skip_many = 0" "inOneTransaction skip_many = False"
  by (simp_all add: skip_many_def)

lemma skip_many_paused:
  assumes "load skip_many accept [] = Some s"
  shows "isPaused s" "1000 \<le> rowsSkipped s"
proof -
  have ok: "good skip_many s" "at_rest s"
    using load_good[OF _ assms] load_at_rest[OF _ assms] by simp_all
  let ?t = "(new_Controller skip_many)\<lparr>skipping := True, started := True, running := True\<rparr>"
  obtain u where u: "run_loop skip_many accept ?t = Some u" "(if shutdown u then dsFinished u else Some u) = Some s"
    using assms
    by (auto simp: load_def Let_def controller_run_def source_start_def runIfReady_def source_run_def bind_eq_Some_conv
        skip_many_simps)
  have t: "\<not> shutdown ?t" by (simp add: new_Controller_def skip_many_simps Let_def)
  have "maxRows skip_many = None" by (simp add: skip_many_def)
  then have "\<not> shutdown u" using run_loop_shutdown[OF u(1)] t by simp
  with u(2) ok(2) show p: "isPaused s" by (simp add: at_rest_def isPaused_def)
  have "skipRows skip_many \<le> rowsSkipped s"
    using ok(1) p unfolding good_def loader_ok_def skip_ok_def by simp
  then show "1000 \<le> rowsSkipped s" by (simp add: skip_many_def)
qed

theorem skipped_rows_stall_witness:
  "\<exists>s. load skip_many every_row [] = Some s \<and> isPaused s
    \<and> map_option rowsProcessed (loader_events skip_many every_row [RowDone 1000 None] s) = Some (rowsProcessed s)"
proof -
  obtain s where s: "load skip_many every_row [] = Some s" by (rule load_exists[of skip_many]) simp_all
  note p = skip_many_paused[OF s]
  have g: "good skip_many s" using load_good[OF _ s] by simp
  obtain t where "loader_step skip_many every_row (RowDone 1000 None) s = Some t"
    by (rule step_good[OF g, of "RowDone 1000 None"]) simp_all
  then have "loader_events skip_many every_row [RowDone 1000 None] s = Some t" by simp
  with skipped_rows_stall[OF _ s p, of "[RowDone 1000 None]" t] s p show ?thesis by simp
qed

theorem full_table_never_ends_witness:
  "\<exists>s. load one_row every_row [] = Some s
    \<and> map_option closings (loader_events one_row every_row [RowDone 0 (Some InsufficientSpace), TxDone False] s) = Some (closings s)"
proof -
  let ?e = "RowDone 0 (Some InsufficientSpace)"
  obtain s where s: "load one_row every_row [] = Some s" by (rule load_exists[of one_row]) simp_all
  have g: "good one_row s" using load_good[OF _ s] by simp
  obtain t where t: "loader_step one_row every_row ?e s = Some t" "good one_row t"
    by (rule step_good[OF g, of ?e]) simp_all
  obtain u where u: "loader_step one_row every_row (TxDone False) t = Some u"
    by (rule step_good[OF t(2), of "TxDone False"]) simp_all
  from t u have "loader_events one_row every_row [?e, TxDone False] s = Some u" by simp
  with full_table_never_ends[OF _ s, of 0 "[TxDone False]" u] one_row_loaded[OF s] s show ?thesis by simp
qed

end
