(* ===== verification/MySQLTime.thy ===== *)
theory MySQLTime
  imports Prelude
begin

text \<open>
  The interchange format of MySQL TIME and DATETIME values, \<open>common/MySQLTime.js\<close>: the readers of
  time, date and datetime strings, the printers, and the conversions from and to a JavaScript
  \<open>Date\<close> in UTC. A number is \<open>Some\<close> whole number or \<open>None\<close> for NaN; whole numbers are exact, as
  they are in the code below 2 to the 53rd. The conversions in local time do the same with the time
  zone of the host and are left out.
\<close>

section \<open>Numbers and dates of the language\<close>

type_synonym num = "int option"

text \<open>
  The number a text denotes: NaN, infinite with its sign, or \<open>Dec m e\<close> for \<open>m\<close> times ten to the
  \<open>e\<close>th.
\<close>

datatype number = NaN | Infinite bool | Dec int int

definition is_space :: "char \<Rightarrow> bool" where
  "is_space c \<longleftrightarrow> of_char c \<in> ({9, 10, 11, 12, 13, 32, 160} :: nat set)"

definition is_digit :: "char \<Rightarrow> bool" where
  "is_digit c \<longleftrightarrow> digit_val c \<noteq> None"

definition trim :: "string \<Rightarrow> string" where
  "trim s = rev (dropWhile is_space (rev (dropWhile is_space s)))"

definition decimal_value :: "string \<Rightarrow> nat" where
  "decimal_value s = (case str_nat 0 s of Some n \<Rightarrow> n | None \<Rightarrow> 0)"

definition radix_digit :: "char \<Rightarrow> nat" where
  "radix_digit c =
     (let n = of_char c in
      if 48 \<le> n \<and> n \<le> 57 then n - 48
      else if 65 \<le> n \<and> n \<le> 90 then n - 55
      else if 97 \<le> n \<and> n \<le> 122 then n - 87 else 36)"

definition radix_number :: "nat \<Rightarrow> string \<Rightarrow> number" where
  "radix_number b s =
     (if s \<noteq> [] \<and> (\<forall>c\<in>set s. radix_digit c < b)
      then Dec (int (foldl (\<lambda>n c. b * n + radix_digit c) 0 s)) 0 else NaN)"

text \<open>An optional sign and the rest of the text.\<close>

definition split_sign :: "string \<Rightarrow> int \<times> string" where
  "split_sign s = (case s of [] \<Rightarrow> (1, [])
     | c # cs \<Rightarrow> if c = CHR ''-'' then (-1, cs) else if c = CHR ''+'' then (1, cs) else (1, s))"

definition exponent :: "string \<Rightarrow> int option" where
  "exponent s = (case s of [] \<Rightarrow> Some 0
     | c # cs \<Rightarrow>
         if c \<in> {CHR ''e'', CHR ''E''} then
           (let (sg, ds) = split_sign cs in
            if ds \<noteq> [] \<and> list_all is_digit ds then Some (sg * int (decimal_value ds)) else None)
         else None)"

definition decimal_number :: "string \<Rightarrow> number" where
  "decimal_number s =
     (let (sg, t) = split_sign s;
          i = takeWhile is_digit t; r = dropWhile is_digit t;
          (f, r') = (case r of c # cs \<Rightarrow> if c = CHR ''.'' then (takeWhile is_digit cs, dropWhile is_digit cs)
                                       else ([], r) | [] \<Rightarrow> ([], r))
      in if t = ''Infinity'' then Infinite (sg = 1)
         else if i @ f = [] then NaN
         else (case exponent r' of None \<Rightarrow> NaN
               | Some e \<Rightarrow> Dec (sg * int (decimal_value (i @ f))) (e - int (length f))))"

definition js_number :: "string \<Rightarrow> number" where
  "js_number s =
     (let t = trim s in
      if t = [] then Dec 0 0
      else if take 2 t \<in> {''0x'', ''0X''} then radix_number 16 (drop 2 t)
      else if take 2 t \<in> {''0o'', ''0O''} then radix_number 8 (drop 2 t)
      else if take 2 t \<in> {''0b'', ''0B''} then radix_number 2 (drop 2 t)
      else decimal_number t)"

definition positive :: "number \<Rightarrow> bool" where
  "positive n = (case n of NaN \<Rightarrow> False | Infinite p \<Rightarrow> p | Dec m _ \<Rightarrow> 0 < m)"

text \<open>
  A whole number, or \<open>None\<close>: for NaN, and for the infinite numbers, which the comparisons and the
  dates below treat like NaN.
\<close>

definition whole :: "number \<Rightarrow> num" where
  "whole n = (case n of Dec m e \<Rightarrow> Some (if 0 \<le> e then m * 10 ^ nat e else m div 10 ^ nat (- e)) | _ \<Rightarrow> None)"

text \<open>\<open>parseInt(s, 10)\<close>.\<close>

definition parseInt10 :: "string \<Rightarrow> num" where
  "parseInt10 s =
     (let (sg, t) = split_sign (dropWhile is_space s); ds = takeWhile is_digit t in
      if ds = [] then None else Some (sg * int (decimal_value ds)))"

definition num_str :: "num \<Rightarrow> string" where
  "num_str n = (case n of None \<Rightarrow> ''NaN'' | Some i \<Rightarrow> int_str i)"

definition num_less :: "num \<Rightarrow> int \<Rightarrow> bool" where
  "num_less n k = (case n of None \<Rightarrow> False | Some i \<Rightarrow> i < k)"

text \<open>A date is the number of milliseconds since 1970, or \<open>None\<close> when it is invalid.\<close>

definition ms_per_day :: int where "ms_per_day = 86400000"

definition day_from_year :: "int \<Rightarrow> int" where
  "day_from_year y =
     365 * (y - 1970) + (y - 1969) div 4 - (y - 1901) div 100 + (y - 1601) div 400"

definition leap_year :: "int \<Rightarrow> bool" where
  "leap_year y \<longleftrightarrow> y mod 4 = 0 \<and> (y mod 100 \<noteq> 0 \<or> y mod 400 = 0)"

definition month_starts :: "bool \<Rightarrow> int list" where
  "month_starts l =
     (if l then [0, 31, 60, 91, 121, 152, 182, 213, 244, 274, 305, 335]
      else [0, 31, 59, 90, 120, 151, 181, 212, 243, 273, 304, 334])"

text \<open>
  The year of a day: an estimate from the mean length of a year, off by one at most.
\<close>

definition year_from_day :: "int \<Rightarrow> int" where
  "year_from_day d =
     (let y = 1970 + d * 400 div 146097 in
      if d < day_from_year y then y - 1
      else if day_from_year (y + 1) \<le> d then y + 1 else y)"

definition month_from_day :: "bool \<Rightarrow> int \<Rightarrow> nat" where
  "month_from_day l d = length (filter (\<lambda>s. s \<le> d) (month_starts l)) - 1"

definition make_day :: "int \<Rightarrow> int \<Rightarrow> int \<Rightarrow> int" where
  "make_day y m d =
     (let ym = y + m div 12 in
      day_from_year ym + month_starts (leap_year ym) ! nat (m mod 12) + d - 1)"

definition make_time :: "int \<Rightarrow> int \<Rightarrow> int \<Rightarrow> int \<Rightarrow> int" where
  "make_time h m s ms = h * 3600000 + m * 60000 + s * 1000 + ms"

definition time_clip :: "int \<Rightarrow> num" where
  "time_clip t = (if \<bar>t\<bar> \<le> 8640000000000000 then Some t else None)"

definition Date_UTC :: "num \<Rightarrow> num \<Rightarrow> num \<Rightarrow> num \<Rightarrow> num \<Rightarrow> num \<Rightarrow> num \<Rightarrow> num" where
  "Date_UTC y m d h mi s ms =
     (case (y, m, d, h, mi, s, ms) of
        (Some y, Some m, Some d, Some h, Some mi, Some s, Some ms) \<Rightarrow>
          time_clip (make_day (if 0 \<le> y \<and> y \<le> 99 then 1900 + y else y) m d * ms_per_day + make_time h mi s ms)
      | _ \<Rightarrow> None)"

definition getUTCFullYear :: "int \<Rightarrow> int" where
  "getUTCFullYear t = year_from_day (t div ms_per_day)"

definition day_in_year :: "int \<Rightarrow> int" where
  "day_in_year t = t div ms_per_day - day_from_year (getUTCFullYear t)"

definition getUTCMonth :: "int \<Rightarrow> int" where
  "getUTCMonth t = int (month_from_day (leap_year (getUTCFullYear t)) (day_in_year t))"

definition getUTCDate :: "int \<Rightarrow> int" where
  "getUTCDate t = day_in_year t - month_starts (leap_year (getUTCFullYear t)) ! nat (getUTCMonth t) + 1"

definition getUTCHours :: "int \<Rightarrow> int" where
  "getUTCHours t = t mod ms_per_day div 3600000"

definition getUTCMinutes :: "int \<Rightarrow> int" where
  "getUTCMinutes t = t mod 3600000 div 60000"

definition getUTCSeconds :: "int \<Rightarrow> int" where
  "getUTCSeconds t = t mod 60000 div 1000"

definition getUTCMilliseconds :: "int \<Rightarrow> int" where
  "getUTCMilliseconds t = t mod 1000"

section \<open>The class\<close>

text \<open>
  Year, month and day are texts when they come from a string, numbers when they come from a date.
\<close>

datatype dpart = DNum num | DText string | DUndef

record mtime =
  sign :: int
  year :: dpart
  month :: dpart
  day :: dpart
  hour :: num
  minute :: num
  second :: num
  microsec :: num
  fsp :: nat
  valid :: bool

definition new_MySQLTime :: mtime where
  "new_MySQLTime = \<lparr>sign = 1, year = DNum (Some 0), month = DNum (Some 0), day = DNum (Some 0),
     hour = Some 0, minute = Some 0, second = Some 0, microsec = Some 0, fsp = 0, valid = True\<rparr>"

definition is_letter :: "char \<Rightarrow> bool" where
  "is_letter c = (let n = of_char c :: nat in (64 < n \<and> n < 91) \<or> (96 < n \<and> n < 123))"

text \<open>The loop over the characters: the digits, the decimal part and the number of colons.\<close>

fun time_loop :: "string \<Rightarrow> string \<Rightarrow> nat \<Rightarrow> string \<times> string \<times> nat" where
  "time_loop [] numValue colons = (numValue, [], colons)"
| "time_loop (c # cs) numValue colons =
     (if is_digit c then time_loop cs (numValue @ [c]) colons
      else if c = CHR ''.'' then (numValue, cs, colons)
      else if c = CHR '':'' then time_loop cs numValue (Suc colons)
      else if is_letter c then (numValue, [], colons)
      else time_loop cs numValue colons)"

definition time_chars :: "string \<Rightarrow> string \<times> string \<times> nat" where
  "time_chars s = (case s of
       c # cs \<Rightarrow> if c = CHR ''+'' \<or> c = CHR ''-'' then time_loop cs [c] 0 else time_loop s [] 0
     | [] \<Rightarrow> time_loop [] [] 0)"

text \<open>The decimal part as microseconds.\<close>

fun shrink :: "nat \<Rightarrow> int \<Rightarrow> int" where
  "shrink n v = (if 6 < n then shrink (n - 1) (v div 10) else v)"

declare shrink.simps [simp del]

definition expand :: "nat \<Rightarrow> int \<Rightarrow> int" where
  "expand n v = (if n < 6 then v * 10 ^ (6 - n) else v)"

definition set_microsec :: "string \<Rightarrow> mtime \<Rightarrow> mtime" where
  "set_microsec decimalPart t =
     (if positive (js_number decimalPart)
      then t\<lparr>microsec := map_option (\<lambda>v. expand (length decimalPart) (shrink (length decimalPart) v))
                           (parseInt10 decimalPart)\<rparr>
      else t)"

definition initializeFromTimeString :: "string \<Rightarrow> mtime \<Rightarrow> mtime" where
  "initializeFromTimeString s t =
     (let (numValue, decimalPart, colons) = time_chars s;
          n = parseInt10 numValue;
          neg = num_less n 0;
          n' = (if neg then map_option uminus n else n);
          t1 = (if neg then t\<lparr>sign := -1\<rparr> else t);
          t2 = set_microsec decimalPart
                 (t1\<lparr>hour := map_option (\<lambda>v. v div 10000) n',
                     minute := map_option (\<lambda>v. (v div 100) mod 100) n',
                     second := map_option (\<lambda>v. v mod 100) n'\<rparr>)
      in if hour t2 = Some 0 \<and> colons = 1
         then t2\<lparr>hour := minute t2, minute := second t2, second := Some 0\<rparr> else t2)"

fun split_by :: "(char \<Rightarrow> bool) \<Rightarrow> string \<Rightarrow> string list" where
  "split_by p [] = [[]]"
| "split_by p (c # cs) = (if p c then [] # split_by p cs
     else (case split_by p cs of [] \<Rightarrow> [[c]] | w # ws \<Rightarrow> (c # w) # ws))"

definition part :: "string list \<Rightarrow> nat \<Rightarrow> dpart" where
  "part xs i = (case js_get xs i of None \<Rightarrow> DUndef | Some w \<Rightarrow> DText w)"

definition initializeFromDateString :: "string \<Rightarrow> mtime \<Rightarrow> mtime" where
  "initializeFromDateString s t =
     (let parts = split_by (\<lambda>c. \<not> is_letter c \<and> \<not> is_digit c) s in
      t\<lparr>year := part parts 0, month := part parts 1, day := part parts 2\<rparr>)"

definition initializeFromDateTimeString :: "string \<Rightarrow> mtime \<Rightarrow> mtime res" where
  "initializeFromDateTimeString s t =
     (let parts = split_by (\<lambda>c. c = CHR '' '') s;
          t1 = initializeFromDateString (hd parts) t in
      case js_get parts 1 of
        None \<Rightarrow> Inl TypeError
      | Some w \<Rightarrow> Inr (initializeFromTimeString w t1))"

definition initializeFromJsDateUTC :: "num \<Rightarrow> mtime \<Rightarrow> mtime" where
  "initializeFromJsDateUTC d t =
     t\<lparr>year := DNum (map_option getUTCFullYear d),
       month := DNum (map_option (\<lambda>x. getUTCMonth x + 1) d),
       day := DNum (map_option getUTCDate d),
       hour := map_option getUTCHours d,
       minute := map_option getUTCMinutes d,
       second := map_option getUTCSeconds d,
       microsec := map_option (\<lambda>x. getUTCMilliseconds x * 1000) d\<rparr>"

definition part_num :: "dpart \<Rightarrow> num" where
  "part_num p = (case p of DNum n \<Rightarrow> n | DText s \<Rightarrow> whole (js_number s) | DUndef \<Rightarrow> None)"

text \<open>\<open>Date.UTC\<close> takes the whole part of the milliseconds, towards zero.\<close>

definition toJsDateUTC :: "mtime \<Rightarrow> num" where
  "toJsDateUTC t =
     Date_UTC (part_num (year t)) (map_option (\<lambda>m. m - 1) (part_num (month t))) (part_num (day t))
       (hour t) (minute t) (second t)
       (map_option (\<lambda>v. if 0 \<le> v then v div 1000 else - ((- v) div 1000)) (microsec t))"

definition part_str :: "dpart \<Rightarrow> string" where
  "part_str p = (case p of DNum n \<Rightarrow> num_str n | DText s \<Rightarrow> s | DUndef \<Rightarrow> ''undefined'')"

text \<open>Ten or more is not padded; a text is compared as the number it denotes.\<close>

definition pad_num :: "num \<Rightarrow> string" where
  "pad_num n = (if num_less n 10 then ''0'' else []) @ num_str n"

definition pad_part :: "dpart \<Rightarrow> string" where
  "pad_part p = (if num_less (part_num p) 10 then ''0'' else []) @ part_str p"

definition toDateString :: "mtime \<Rightarrow> string" where
  "toDateString t = part_str (year t) @ ''-'' @ pad_part (month t) @ ''-'' @ pad_part (day t)"

definition pad_front :: "nat \<Rightarrow> string \<Rightarrow> string" where
  "pad_front k s = replicate (k - length s) (CHR ''0'') @ s"

function cut_fraction :: "nat \<Rightarrow> int \<Rightarrow> int" where
  "cut_fraction p v = (if p < 6 then cut_fraction (Suc p) (v div 10) else v)"
  by pat_completeness auto
termination
  by (relation "measure (\<lambda>(p, v). 6 - p)") auto

declare cut_fraction.simps [simp del]

definition fraction :: "num \<Rightarrow> nat \<Rightarrow> string" where
  "fraction fsec p =
     (case fsec of
        Some v \<Rightarrow> if 0 < v then pad_front p (int_str (cut_fraction p v)) else pad_front p []
      | None \<Rightarrow> pad_front p [])"

definition toTimeString :: "mtime \<Rightarrow> string" where
  "toTimeString t =
     (if sign t = -1 then ''-'' else []) @ pad_num (hour t) @ '':'' @ pad_num (minute t) @ '':'' @
     pad_num (second t) @
     (if fsp t \<noteq> 0 then ''.'' @ fraction (microsec t) (fsp t) else [])"

definition toDateTimeString :: "mtime \<Rightarrow> string" where
  "toDateTimeString t = toDateString t @ '' '' @ toTimeString t"

section \<open>Dates\<close>

lemma div_between:
  fixes x n :: int
  assumes "0 < n"
  shows "n * (x div n) \<le> x" "x < n * (x div n) + n"
  using assms pos_mod_bound[of n x] pos_mod_sign[of n x] mult_div_mod_eq[of n x] by linarith+

lemma year_from_day_bounds:
  "day_from_year (year_from_day d) \<le> d" "d < day_from_year (year_from_day d + 1)"
proof -
  define k where "k = d * 400 div 146097"
  have k: "146097 * k \<le> d * 400" "d * 400 < 146097 * k + 146097"
    using div_between[of 146097 "d * 400"] by (simp_all add: k_def)
  have "day_from_year (1969 + k) \<le> d" "d < day_from_year (1972 + k)"
    using k div_between[of 4 k] div_between[of 100 "k + 68"] div_between[of 400 "k + 368"]
      div_between[of 4 "k + 3"] div_between[of 100 "k + 71"] div_between[of 400 "k + 371"]
    by (simp_all add: day_from_year_def add.commute)
  then show "day_from_year (year_from_day d) \<le> d" "d < day_from_year (year_from_day d + 1)"
    by (simp_all add: year_from_day_def k_def[symmetric] Let_def add.commute)
qed

lemma month_from_day_less: "month_from_day l d < 12"
proof -
  have "length (filter (\<lambda>s. s \<le> d) (month_starts l)) \<le> length (month_starts l)" by simp
  also have "\<dots> = 12" by (simp add: month_starts_def)
  finally show ?thesis by (simp add: month_from_day_def)
qed

lemma time_of_day: "make_time (getUTCHours t) (getUTCMinutes t) (getUTCSeconds t) (getUTCMilliseconds t) = t mod ms_per_day"
proof -
  have "t mod 60000 = t mod 60000 div 1000 * 1000 + t mod 1000"
    using mod_mod_cancel[of 1000 60000 t] div_mult_mod_eq[of "t mod 60000" 1000] by simp
  moreover have "t mod 3600000 = t mod 3600000 div 60000 * 60000 + t mod 60000"
    using mod_mod_cancel[of 60000 3600000 t] div_mult_mod_eq[of "t mod 3600000" 60000] by simp
  moreover have "t mod 86400000 = t mod 86400000 div 3600000 * 3600000 + t mod 3600000"
    using mod_mod_cancel[of 3600000 86400000 t] div_mult_mod_eq[of "t mod 86400000" 3600000] by simp
  ultimately show ?thesis
    by (simp add: make_time_def getUTCHours_def getUTCMinutes_def getUTCSeconds_def
        getUTCMilliseconds_def ms_per_day_def)
qed

lemma make_day_restores:
  assumes "y = getUTCFullYear t"
  shows "make_day y (getUTCMonth t) (getUTCDate t) = t div ms_per_day"
  using month_from_day_less[of "leap_year (getUTCFullYear t)" "day_in_year t"] assms
  by (simp add: make_day_def getUTCDate_def getUTCMonth_def day_in_year_def)

lemma later_century: "make_day (1900 + y) (getUTCMonth t) (getUTCDate t) > make_day y (getUTCMonth t) (getUTCDate t)"
proof -
  define k where "k = getUTCMonth t"
  have "0 \<le> k" "k < 12"
    using month_from_day_less[of "leap_year (getUTCFullYear t)" "day_in_year t"]
    by (simp_all add: k_def getUTCMonth_def)
  moreover have "month_starts l ! i \<le> month_starts l' ! i + 1" if "i < 12" for l l' i
  proof -
    have "i \<in> {0, 1, 2, 3, 4, 5, 6, 7, 8, 9, 10, 11}"
      using that by simp presburger
    then show ?thesis by (auto simp: month_starts_def)
  qed
  note this[of "nat k" "leap_year y" "leap_year (1900 + y)"]
  moreover have "day_from_year y + 1 < day_from_year (1900 + y)"
    using div_between[of 4 "y - 1969"] div_between[of 100 "y - 1901"] div_between[of 400 "y - 1601"]
      div_between[of 4 "y - 69"] div_between[of 100 "y - 1"] div_between[of 400 "y + 299"]
    by (simp add: day_from_year_def algebra_simps)
  ultimately show ?thesis
    by (simp add: make_day_def k_def[symmetric] Let_def nat_less_iff)
qed

text \<open>
  C33: A date of the language that is written to a MySQL time in UTC and read back is the same to
  the millisecond, exactly when its year is not one of 0 to 99: \<open>Date.UTC\<close>, with which the time is
  read, takes those for years of the twentieth century.
\<close>

theorem utc_date_roundtrip:
  assumes "\<bar>d\<bar> \<le> 8640000000000000"
  shows "toJsDateUTC (initializeFromJsDateUTC (Some d) t) = Some d \<longleftrightarrow>
    getUTCFullYear d \<notin> {0..99}"
proof -
  define y where "y = getUTCFullYear d"
  have day: "d = d div ms_per_day * ms_per_day + d mod ms_per_day" by simp
  have ms: "0 \<le> getUTCMilliseconds d" by (simp add: getUTCMilliseconds_def)
  have eq: "toJsDateUTC (initializeFromJsDateUTC (Some d) t) =
    time_clip (make_day (if 0 \<le> y \<and> y \<le> 99 then 1900 + y else y) (getUTCMonth d) (getUTCDate d)
      * ms_per_day + d mod ms_per_day)"
    using ms by (simp add: toJsDateUTC_def initializeFromJsDateUTC_def Date_UTC_def part_num_def
        time_of_day y_def)
  show ?thesis
  proof (cases "0 \<le> y \<and> y \<le> 99")
    case True
    have "make_day (1900 + y) (getUTCMonth d) (getUTCDate d) * ms_per_day + d mod ms_per_day \<noteq> d"
      using later_century[of y d] make_day_restores[of y d] day by (simp add: y_def ms_per_day_def)
    with True show ?thesis unfolding eq y_def[symmetric] by (simp add: time_clip_def)
  next
    case False
    then show ?thesis
      using assms day make_day_restores[of y d] unfolding eq y_def[symmetric]
      by (auto simp: time_clip_def y_def)
  qed
qed

theorem utc_date_roundtrip_witness:
  "toJsDateUTC (initializeFromJsDateUTC (Some 1700000000123) new_MySQLTime) = Some 1700000000123"
  using utc_date_roundtrip[of 1700000000123 new_MySQLTime]
  by (simp add: getUTCFullYear_def year_from_day_def day_from_year_def ms_per_day_def)

section \<open>Time strings\<close>

lemma is_digit_digit_char [simp]: "d < 10 \<Longrightarrow> is_digit (digit_char d)"
  by (simp add: is_digit_def)

lemma digits_nat_str [simp]: "list_all is_digit (nat_str n)"
  by (induction n rule: nat_str.induct) (subst nat_str.simps, simp)

lemma str_nat_shift: "str_nat a s = map_option (\<lambda>n. a * 10 ^ length s + n) (str_nat 0 s)"
proof (induction s arbitrary: a)
  case (Cons c s)
  show ?case
  proof (cases "digit_val c")
    case (Some d)
    show ?thesis
      using Cons.IH[of "10 * a + d"] Cons.IH[of d] Some
      by (cases "str_nat 0 s") (simp_all add: algebra_simps)
  qed simp
qed simp

lemma str_nat_digits: "list_all is_digit s \<Longrightarrow> str_nat 0 s = Some (decimal_value s)"
proof -
  assume "list_all is_digit s"
  then have "str_nat 0 s \<noteq> None"
  proof (induction s rule: rev_induct)
    case (snoc c s)
    then show ?case by (auto simp: str_nat_append is_digit_def)
  qed simp
  then show ?thesis by (auto simp: decimal_value_def)
qed

lemma decimal_value_append:
  assumes "list_all is_digit xs" "list_all is_digit ys"
  shows "decimal_value (xs @ ys) = decimal_value xs * 10 ^ length ys + decimal_value ys"
  using assms str_nat_digits[of "xs @ ys"]
  by (simp add: str_nat_append str_nat_digits str_nat_shift[of "decimal_value xs"])

lemma decimal_value_Nil: "decimal_value [] = 0"
  by (simp add: decimal_value_def)

lemma decimal_value_nat_str [simp]: "decimal_value (nat_str n) = n"
  by (simp add: decimal_value_def)

definition padded :: "nat \<Rightarrow> string" where
  "padded n = (if n < 10 then ''0'' else []) @ nat_str n"

lemma digit_zero: "is_digit (CHR ''0'')" "digit_val (CHR ''0'') = Some 0"
  by (simp_all add: is_digit_def digit_val_def Let_def)

lemma padded_facts:
  "list_all is_digit (padded n)" "decimal_value (padded n) = n" "padded n \<noteq> []"
  by (simp_all add: padded_def digit_zero decimal_value_def)

lemma nat_str_length:
  assumes "n < 10 ^ k" "0 < k"
  shows "length (nat_str n) \<le> k"
  using assms
proof (induction n arbitrary: k rule: nat_str.induct)
  case (1 n)
  show ?case
  proof (cases "n < 10")
    case True
    with 1 show ?thesis by (subst nat_str.simps) simp
  next
    case False
    with "1.prems" obtain j where "k = Suc j" "0 < j" by (cases k; cases "k - 1") auto
    with 1 False show ?thesis by (subst nat_str.simps) (simp add: div_less_iff_less_mult)
  qed
qed

lemma padded_length: "n < 100 \<Longrightarrow> length (padded n) = 2"
  by (auto simp: padded_def nat_str.simps)

lemma pad_num_nat: "pad_num (Some (int n)) = padded n"
  by (simp add: pad_num_def padded_def num_less_def num_str_def int_str_def)

lemma time_loop_digits:
  "list_all is_digit ds \<Longrightarrow> time_loop (ds @ s) acc k = time_loop s (acc @ ds) k"
  by (induction ds arbitrary: acc) auto

lemma char_tests: "\<not> is_digit (CHR '':'')" "\<not> is_digit (CHR ''.'')" "\<not> is_digit (CHR ''-'')" "\<not> is_digit (CHR ''+'')"
   "\<not> is_digit (CHR ''x'')"  "\<not> is_digit (CHR ''X'')"  "\<not> is_digit (CHR ''o'')"  "\<not> is_digit (CHR ''O'')" "\<not> is_digit (CHR ''b'')"  "\<not> is_digit (CHR ''B'')"  "\<not> is_digit (CHR ''I'')"
  by (simp_all add: is_digit_def digit_val_def Let_def)

lemma is_space_digit: "is_digit c \<Longrightarrow> \<not> is_space c"
  by (auto simp: is_digit_def digit_val_def is_space_def Let_def split: if_splits)

lemma takeWhile_digits [simp]: "list_all is_digit s \<Longrightarrow> takeWhile is_digit s = s" "list_all is_digit s \<Longrightarrow> dropWhile is_digit s = []"
  by (simp_all add: list_all_iff)

lemma split_sign_digits: "list_all is_digit s \<Longrightarrow> split_sign s = (1, s)"
  by (cases s) (auto simp: split_sign_def char_tests)

lemma dropWhile_space_digits: "list_all is_digit s \<Longrightarrow> dropWhile is_space s = s"
  by (cases s) (auto simp: is_space_digit)

lemma parseInt10_digits: "list_all is_digit s \<Longrightarrow> s \<noteq> [] \<Longrightarrow> parseInt10 s = Some (int (decimal_value s))"
  by (simp add: parseInt10_def dropWhile_space_digits split_sign_digits)

lemma parseInt10_minus: "list_all is_digit s \<Longrightarrow> s \<noteq> [] \<Longrightarrow> parseInt10 (CHR ''-'' # s) = Some (- int (decimal_value s))"
  by (simp add: parseInt10_def split_sign_def is_space_def)

lemma js_number_digits: "list_all is_digit s \<Longrightarrow> s \<noteq> [] \<Longrightarrow> js_number s = Dec (int (decimal_value s)) 0"
proof -
  assume s: "list_all is_digit s" "s \<noteq> []"
  then have "list_all is_digit (rev s)" by simp
  then have trim: "trim s = s" using s by (simp add: trim_def dropWhile_space_digits)
  have "take 2 s \<noteq> [c, d]" if "\<not> is_digit d" for c d
    using s that by (metis in_set_takeD list.set_intros(1,2) list_all_iff)
  moreover have "s \<noteq> ''Infinity''" using s by (auto simp: char_tests)
  ultimately show ?thesis
    using s by (simp add: js_number_def trim decimal_number_def split_sign_digits char_tests exponent_def Let_def)
qed

lemma zeros_digits: "list_all is_digit (replicate k (CHR ''0''))" "decimal_value (replicate k (CHR ''0'')) = 0"
proof -
  show z: "list_all is_digit (replicate k (CHR ''0''))" for k by (simp add: list_all_iff digit_zero)
  show "decimal_value (replicate k (CHR ''0'')) = 0"
    by (induction k) (auto simp: decimal_value_append[OF _ z, of "''0''", simplified] digit_zero decimal_value_def)
qed

lemma pad_front_digits:
  assumes "list_all is_digit s"
  shows "list_all is_digit (pad_front k s)" "decimal_value (pad_front k s) = decimal_value s"
    "length s \<le> k \<Longrightarrow> length (pad_front k s) = k"
  using assms zeros_digits by (simp_all add: pad_front_def decimal_value_append)

lemma cut_fraction_eq: "p \<le> 6 \<Longrightarrow> cut_fraction p v = v div 10 ^ (6 - p)"
proof (induction p v rule: cut_fraction.induct)
  case (1 p v)
  show ?case
  proof (cases "p < 6")
    case True
    then have "6 - p = Suc (6 - Suc p)" by simp
    with 1 True show ?thesis
      by (subst cut_fraction.simps) (simp add: zdiv_zmult2_eq)
  next
    case False
    with 1 show ?thesis by (subst cut_fraction.simps) simp
  qed
qed

lemma shrink_small: "n \<le> 6 \<Longrightarrow> shrink n v = v"
  by (subst shrink.simps) simp

text \<open>The microseconds that a precision of p digits holds.\<close>

definition fits :: "nat \<Rightarrow> nat \<Rightarrow> bool" where
  "fits p u \<longleftrightarrow> p \<le> 6 \<and> u < 10 ^ 6 \<and> 10 ^ (6 - p) dvd u"

lemma fraction_read:
  assumes "fits p u" "0 < p" "microsec t = Some 0"
  shows "set_microsec (fraction (Some (int u)) p) t = t\<lparr>microsec := Some (int u)\<rparr>"
proof -
  from assms obtain w where w: "u = 10 ^ (6 - p) * w" and p: "p \<le> 6" "u < 10 ^ 6" by (auto simp: fits_def)
  have split: "(10::nat) ^ 6 = 10 ^ (6 - p) * 10 ^ p" using p by (simp flip: power_add)
  have "w < 10 ^ p" using p(2) unfolding split w by simp
  then have len: "length (nat_str w) \<le> p" using assms by (simp add: nat_str_length)
  show ?thesis
  proof (cases "w = 0")
    case True
    then have "fraction (Some (int u)) p = pad_front p []" by (simp add: fraction_def w)
    moreover have "pad_front p [] \<noteq> []" using assms by (simp add: pad_front_def)
    ultimately show ?thesis
      using assms True w
      by (simp add: set_microsec_def js_number_digits pad_front_digits positive_def decimal_value_Nil)
  next
    case False
    have "int u div 10 ^ (6 - p) = int w" by (simp add: w)
    with False w have f: "fraction (Some (int u)) p = pad_front p (nat_str w)"
      using p by (simp add: fraction_def cut_fraction_eq int_str_def)
    have "pad_front p (nat_str w) \<noteq> []" by (simp add: pad_front_def)
    with f False len p show ?thesis
      by (simp add: set_microsec_def js_number_digits pad_front_digits positive_def parseInt10_digits
          shrink_small expand_def w)
  qed
qed

lemma time_chars_digits:
  assumes "list_all is_digit ds" "ds \<noteq> []"
  shows "time_chars (ds @ s) = time_loop (ds @ s) [] 0"
  using assms by (cases ds) (auto simp: time_chars_def char_tests)

lemma time_chars_minus: "time_chars (CHR ''-'' # s) = time_loop s ''-'' 0"
  by (simp add: time_chars_def)

text \<open>
  C32: A time of any number of hours that is printed with a precision its microseconds fit in is
  read back with the same sign, hours, minutes, seconds and microseconds, exactly when it is not a
  negative time of less than one second, whose sign is lost.
\<close>

theorem time_string_roundtrip:
  assumes "sign t \<in> {1, -1}"
    and "hour t = Some (int h)" "minute t = Some (int m)" "second t = Some (int s)" "microsec t = Some (int u)"
    and "m < 100" "s < 100" "fits (fsp t) u"
  shows "initializeFromTimeString (toTimeString t) new_MySQLTime = new_MySQLTime\<lparr>sign := sign t,
      hour := hour t, minute := minute t, second := second t, microsec := microsec t\<rparr> \<longleftrightarrow>
    \<not> (sign t = -1 \<and> h = 0 \<and> m = 0 \<and> s = 0)"
proof -
  let ?ds = "padded h @ padded m @ padded s"
  let ?sg = "if sign t = -1 then ''-'' else []"
  have ds: "list_all is_digit ?ds" "?ds \<noteq> []" by (simp_all add: padded_facts)
  have val: "decimal_value ?ds = 10000 * h + 100 * m + s"
    using assms(6,7) by (simp add: decimal_value_append padded_facts padded_length)
  define dec where "dec = (if fsp t = 0 then [] else fraction (microsec t) (fsp t))"
  have loop: "time_loop (padded h @ '':'' @ padded m @ '':'' @ padded s @ (if fsp t \<noteq> 0 then ''.'' @ dec else [])) a 0 =
      (a @ ?ds, dec, 2)" for a
    by (simp add: time_loop_digits padded_facts char_tests dec_def)
  have chars0: "time_chars (toTimeString t) = (?sg @ ?ds, dec, 2)"
    using loop[of ?sg] time_chars_digits[OF padded_facts(1,3)]
    by (cases "sign t = -1"; cases "fsp t = 0")
      (simp_all add: toTimeString_def assms pad_num_nat dec_def time_chars_minus)
  define N where "N = 10000 * h + 100 * m + s"
  have "parseInt10 (?sg @ ?ds) = Some (sign t * int N)"
    using assms(1) ds val by (auto simp: parseInt10_digits parseInt10_minus N_def simp del: append_is_Nil_conv)
  with chars0 obtain nv where chars: "time_chars (toTimeString t) = (nv, dec, 2)"
    and n: "parseInt10 nv = Some (sign t * int N)" by blast
  have dec: "set_microsec dec r = r\<lparr>microsec := microsec t\<rparr>" if "microsec r = Some 0" for r :: mtime
  proof (cases "fsp t = 0")
    case True
    with assms(8) have "u = 0" by (auto simp: fits_def)
    with True that show ?thesis
      by (simp add: dec_def set_microsec_def js_number_def trim_def positive_def assms)
  next
    case False
    with fraction_read[OF assms(8) _ that] show ?thesis by (simp add: dec_def assms)
  qed
  have "N div 100 = 100 * h + m" "N mod 100 = s" "(100 * h + m) mod 100 = m" "N div 10000 = h"
    using assms(6,7) by (auto simp: N_def intro!: div_nat_eqI mod_nat_eqI)
  then have parts: "int N div 10000 = int h" "int N div 100 mod 100 = int m" "int N mod 100 = int s"
    by (metis of_nat_div of_nat_mod of_nat_numeral)+
  have zero: "N = 0 \<longleftrightarrow> h = 0 \<and> m = 0 \<and> s = 0" by (simp add: N_def)
  show ?thesis
  proof (cases "sign t = -1 \<and> N = 0")
    case True
    then show ?thesis
      using zero by (simp add: initializeFromTimeString_def chars n num_less_def dec new_MySQLTime_def Let_def)
  next
    case False
    then have "initializeFromTimeString (toTimeString t) new_MySQLTime = new_MySQLTime\<lparr>sign := sign t,
      hour := hour t, minute := minute t, second := second t, microsec := microsec t\<rparr>"
      using assms(1,2-4)
      by (auto simp: initializeFromTimeString_def chars n num_less_def dec new_MySQLTime_def parts Let_def)
    with False zero show ?thesis by blast
  qed
qed

theorem time_string_roundtrip_witness:
  "initializeFromTimeString (toTimeString (new_MySQLTime\<lparr>sign := -1, hour := Some 838, minute := Some 59,
      second := Some 7, microsec := Some 250000, fsp := 3\<rparr>)) new_MySQLTime =
    new_MySQLTime\<lparr>sign := -1, hour := Some 838, minute := Some 59, second := Some 7, microsec := Some 250000\<rparr>"
  using time_string_roundtrip[of "new_MySQLTime\<lparr>sign := -1, hour := Some 838, minute := Some 59,
      second := Some 7, microsec := Some 250000, fsp := 3\<rparr>" 838 59 7 250000]
  by (simp add: new_MySQLTime_def fits_def)

text \<open>
  A date that was read from a string is padded again when it is printed, because a text such as
  05 is less than ten. A time of hours and minutes with three digits of hours is taken for hours,
  minutes and seconds.
\<close>

lemma date_string_padded_again:
  "toDateString (initializeFromDateString ''2014-03-05'' t) = ''2014-003-005''"
  by (simp add: initializeFromDateString_def toDateString_def part_def pad_part_def part_num_def
      js_number_digits js_get_def is_letter_def is_digit_def digit_val_def whole_def num_less_def
      decimal_value_def Let_def part_str_def)

lemma hundred_hours_misread:
  "initializeFromTimeString ''123:45'' new_MySQLTime =
    new_MySQLTime\<lparr>hour := Some 1, minute := Some 23, second := Some 45\<rparr>"
  by code_simp

end
