(* ===== verification/AsyncQueue.thy ===== *)
theory AsyncQueue
  imports Prelude "HOL-Library.Multiset"
begin

text \<open>
  Asynchronous calls that have to run one at a time: \<open>common/QueuedAsyncCall.js\<close>, the grouping of
  equal calls into the data dictionary of \<open>common/DictionaryCall.js\<close>, and the caches of
  auto-increment values of \<open>jones-ndb/impl/ndb/NdbAutoIncrement.js\<close>, which both use it. What a
  call does and what its callbacks do are arguments of the operations; a callback that does not
  return is \<open>None\<close>.
\<close>

section \<open>Queued calls\<close>

text \<open>
  The queue is an array that several calls share; \<open>submitted\<close>, \<open>started\<close> and \<open>returned\<close> record
  what has happened to it. A queue is part of a larger state: \<open>getq\<close> and \<open>putq\<close> read and write it.
\<close>

record 'k exec =
  queue :: "'k list"
  submitted :: "'k list"
  started :: "'k list"
  returned :: "'k list"

definition new_exec :: "'k exec" where
  "new_exec = \<lparr>queue = [], submitted = [], started = [], returned = []\<rparr>"

definition start :: "('w \<Rightarrow> 'k exec) \<Rightarrow> ('k exec \<Rightarrow> 'w \<Rightarrow> 'w) \<Rightarrow> 'k \<Rightarrow> 'w \<Rightarrow> 'w" where
  "start getq putq k w = putq ((getq w)\<lparr>started := started (getq w) @ [k]\<rparr>) w"

definition enqueue ::
  "('w \<Rightarrow> 'k exec) \<Rightarrow> ('k exec \<Rightarrow> 'w \<Rightarrow> 'w) \<Rightarrow> ('k \<Rightarrow> 'w \<Rightarrow> 'w) \<Rightarrow> 'k \<Rightarrow> 'w \<Rightarrow> nat \<times> 'w" where
  "enqueue getq putq run k w =
     (let e = getq w;
          w1 = putq (e\<lparr>queue := queue e @ [k], submitted := submitted e @ [k]\<rparr>) w;
          pos = length (queue e)
      in (pos, if pos = 0 then run k w1 else w1))"

text \<open>
  The answer \<open>r\<close> of the call at the head of the queue. \<open>pre\<close> gives the postCallback, if any; a call
  without a preCallback has \<open>no_pre\<close>. When no call is outstanding nothing can be answered.
\<close>

type_synonym 'w post = "('w \<Rightarrow> 'w option) option"

definition no_pre :: "'k \<Rightarrow> 'r \<Rightarrow> 'w \<Rightarrow> 'w post \<times> 'w" where
  "no_pre k r w = (None, w)"

definition wrappedCallback ::
  "('w \<Rightarrow> 'k exec) \<Rightarrow> ('k exec \<Rightarrow> 'w \<Rightarrow> 'w) \<Rightarrow> ('k \<Rightarrow> 'w \<Rightarrow> 'w) \<Rightarrow>
   ('k \<Rightarrow> 'r \<Rightarrow> 'w \<Rightarrow> 'w post \<times> 'w) \<Rightarrow> ('k \<Rightarrow> 'r \<Rightarrow> 'w \<Rightarrow> 'w option) \<Rightarrow> 'r \<Rightarrow> 'w \<Rightarrow> 'w option" where
  "wrappedCallback getq putq run pre mainCallback r w =
     (case queue (getq w) of
        [] \<Rightarrow> Some w
      | thisCall # rest \<Rightarrow>
          (let e = getq w;
               w1 = putq (e\<lparr>queue := rest, returned := returned e @ [thisCall]\<rparr>) w;
               (postCallback, w2) = pre thisCall r w1;
               w3 = (case rest of [] \<Rightarrow> w2 | nextCall # _ \<Rightarrow> run nextCall w2)
           in case postCallback of
                Some f \<Rightarrow> f w3
              | None \<Rightarrow> mainCallback thisCall r w3))"

text \<open>
  What a callback may do to the queue: add calls to it. The first one is run at once when the
  queue was empty.
\<close>

definition extends :: "'k exec \<Rightarrow> 'k exec \<Rightarrow> bool" where
  "extends e e' \<longleftrightarrow> (\<exists>ks. e' = \<lparr>queue = queue e @ ks, submitted = submitted e @ ks,
     started = started e @ (if queue e = [] then take 1 ks else []), returned = returned e\<rparr>)"

text \<open>
  Calls are started in the order in which they were submitted, one at a time: the one that is
  running is at the head of the queue.
\<close>

definition serial :: "'k exec \<Rightarrow> bool" where
  "serial e \<longleftrightarrow> submitted e = returned e @ queue e \<and> started e = returned e @ take 1 (queue e)"

lemma extends_refl [simp]: "extends e e"
  by (auto simp: extends_def intro!: exI[of _ "[]"])

lemma extends_trans:
  assumes "extends e e'" "extends e' e''"
  shows "extends e e''"
proof -
  from assms obtain ks ls where
    "e' = \<lparr>queue = queue e @ ks, submitted = submitted e @ ks,
       started = started e @ (if queue e = [] then take 1 ks else []), returned = returned e\<rparr>"
    "e'' = \<lparr>queue = queue e' @ ls, submitted = submitted e' @ ls,
       started = started e' @ (if queue e' = [] then take 1 ls else []), returned = returned e'\<rparr>"
    unfolding extends_def by blast
  then show ?thesis
    unfolding extends_def by (intro exI[of _ "ks @ ls"]) (cases ks; simp)
qed

lemma serial_new: "serial new_exec"
  by (simp add: serial_def new_exec_def)

lemma serial_extends: "serial e \<Longrightarrow> extends e e' \<Longrightarrow> serial e'"
  by (cases "queue e") (auto simp: serial_def extends_def)

locale serial_queue =
  fixes getq :: "'w \<Rightarrow> 'k exec"
    and putq :: "'k exec \<Rightarrow> 'w \<Rightarrow> 'w"
    and run :: "'k \<Rightarrow> 'w \<Rightarrow> 'w"
    and pre :: "'k \<Rightarrow> 'r \<Rightarrow> 'w \<Rightarrow> 'w post \<times> 'w"
    and mainCallback :: "'k \<Rightarrow> 'r \<Rightarrow> 'w \<Rightarrow> 'w option"
  assumes get_put: "getq (putq e w) = e"
    and run_starts: "getq (run k w) = (getq w)\<lparr>started := started (getq w) @ [k]\<rparr>"
    and pre_extends: "pre k r w = (p, w') \<Longrightarrow> extends (getq w) (getq w')"
    and post_extends: "pre k r w = (Some f, w') \<Longrightarrow> f v = Some v' \<Longrightarrow> extends (getq v) (getq v')"
    and main_extends: "mainCallback k r w = Some w' \<Longrightarrow> extends (getq w) (getq w')"
begin

lemma enqueue_extends: "extends (getq w) (getq (snd (enqueue getq putq run k w)))"
  by (auto simp: enqueue_def extends_def Let_def get_put run_starts intro!: exI[of _ "[k]"])

lemma enqueue_position: "fst (enqueue getq putq run k w) = length (queue (getq w))"
  by (simp add: enqueue_def Let_def)

lemma enqueue_serial: "serial (getq w) \<Longrightarrow> serial (getq (snd (enqueue getq putq run k w)))"
  using enqueue_extends serial_extends by blast

text \<open>The parts of an answer: the call leaves the queue, the next one is started, callbacks run.\<close>

lemma answer_parts:
  assumes "wrappedCallback getq putq run pre mainCallback r w = Some w'" "queue (getq w) = k # rest"
  obtains w3 ks where
    "getq w3 = \<lparr>queue = rest @ ks, submitted = submitted (getq w) @ ks,
      started = started (getq w) @ take 1 (rest @ ks), returned = returned (getq w) @ [k]\<rparr>"
    "extends (getq w3) (getq w')"
proof -
  define w1 where "w1 = putq ((getq w)\<lparr>queue := rest, returned := returned (getq w) @ [k]\<rparr>) w"
  obtain p w2 where p: "pre k r w1 = (p, w2)" by fastforce
  define w3 where "w3 = (case rest of [] \<Rightarrow> w2 | n # _ \<Rightarrow> run n w2)"
  have w1: "getq w1 = (getq w)\<lparr>queue := rest, returned := returned (getq w) @ [k]\<rparr>"
    by (simp add: w1_def get_put)
  from pre_extends[OF p] obtain ks where
    w2: "getq w2 = \<lparr>queue = rest @ ks, submitted = submitted (getq w) @ ks,
      started = started (getq w) @ (if rest = [] then take 1 ks else []), returned = returned (getq w) @ [k]\<rparr>"
    by (auto simp: extends_def w1)
  have "getq w3 = \<lparr>queue = rest @ ks, submitted = submitted (getq w) @ ks,
      started = started (getq w) @ take 1 (rest @ ks), returned = returned (getq w) @ [k]\<rparr>"
    using w2 by (cases rest) (auto simp: w3_def run_starts)
  moreover have "extends (getq w3) (getq w')"
  proof (cases p)
    case None
    with assms p show ?thesis
      by (intro main_extends[of k r]) (simp add: wrappedCallback_def w1_def w3_def)
  next
    case (Some f)
    with assms p have "f w3 = Some w'" by (simp add: wrappedCallback_def w1_def w3_def)
    with post_extends p Some show ?thesis by blast
  qed
  ultimately show thesis by (rule that)
qed

lemma answer_serial:
  assumes "serial (getq w)" "wrappedCallback getq putq run pre mainCallback r w = Some w'"
  shows "serial (getq w')"
proof (cases "queue (getq w)")
  case Nil
  with assms show ?thesis by (simp add: wrappedCallback_def)
next
  case (Cons k rest)
  obtain w3 ks where w3: "getq w3 = \<lparr>queue = rest @ ks, submitted = submitted (getq w) @ ks,
      started = started (getq w) @ take 1 (rest @ ks), returned = returned (getq w) @ [k]\<rparr>"
    "extends (getq w3) (getq w')"
    by (rule answer_parts[OF assms(2) Cons])
  with assms(1) Cons have "serial (getq w3)" by (simp add: serial_def)
  then show ?thesis using w3(2) by (rule serial_extends)
qed

end

section \<open>Calls into the data dictionary\<close>

text \<open>
  \<open>callbacks\<close> maps a key to those who wait for it (a key that is absent and one with an empty list
  are the same to the code); a call in the queue is named by its key. The key is not the name of a
  property of \<open>Object.prototype\<close>: the keys of the connection pool contain a dot or a colon.
  \<open>added\<close> and \<open>called\<close> record who has asked and who has been answered with what. A callback can add
  further callbacks: \<open>user c r\<close> lists what \<open>c\<close> adds when it is called with \<open>r\<close>.
\<close>

record ('c, 'r) dict =
  execQueue :: "string exec"
  callbacks :: "string \<Rightarrow> 'c list"
  added :: "(string \<times> 'c) list"
  called :: "(string \<times> 'c \<times> 'r) list"

definition new_Queue :: "('c, 'r) dict" where
  "new_Queue = \<lparr>execQueue = new_exec, callbacks = (\<lambda>_. []), added = [], called = []\<rparr>"

definition put_exec :: "string exec \<Rightarrow> ('c, 'r) dict \<Rightarrow> ('c, 'r) dict" where
  "put_exec e d = d\<lparr>execQueue := e\<rparr>"

text \<open>\<open>Call.add\<close>: whether the call has to be made.\<close>

definition call_add :: "string \<Rightarrow> 'c \<Rightarrow> ('c, 'r) dict \<Rightarrow> bool \<times> ('c, 'r) dict" where
  "call_add key c d =
     (let d1 = d\<lparr>added := added d @ [(key, c)]\<rparr> in
      if callbacks d key \<noteq> []
      then (False, d1\<lparr>callbacks := (callbacks d)(key := callbacks d key @ [c])\<rparr>)
      else (True, d1\<lparr>callbacks := (callbacks d)(key := [c])\<rparr>))"

definition queueExecCall :: "string \<Rightarrow> ('c, 'r) dict \<Rightarrow> ('c, 'r) dict" where
  "queueExecCall key d = snd (enqueue execQueue put_exec (start execQueue put_exec) key d)"

definition queue_add :: "string \<Rightarrow> 'c \<Rightarrow> ('c, 'r) dict \<Rightarrow> ('c, 'r) dict" where
  "queue_add key c d = (let (create, d1) = call_add key c d in if create then queueExecCall key d1 else d1)"

definition add_all :: "(string \<times> 'c) list \<Rightarrow> ('c, 'r) dict \<Rightarrow> ('c, 'r) dict" where
  "add_all xs d = fold (\<lambda>(key, c). queue_add key c) xs d"

text \<open>The loop of the group callback: it calls those too that are added while it runs.\<close>

partial_function (option) group_loop ::
  "('c \<Rightarrow> 'r \<Rightarrow> (string \<times> 'c) list) \<Rightarrow> string \<Rightarrow> 'r \<Rightarrow> nat \<Rightarrow> ('c, 'r) dict \<Rightarrow> ('c, 'r) dict option" where
  "group_loop user key r i d =
     (if i < length (callbacks d key) then
        (let c = callbacks d key ! i in
         group_loop user key r (Suc i) (add_all (user c r) (d\<lparr>called := called d @ [(key, c, r)]\<rparr>)))
      else Some (d\<lparr>callbacks := (callbacks d)(key := [])\<rparr>))"

declare group_loop.simps [code]

definition makeGroupCallback ::
  "('c \<Rightarrow> 'r \<Rightarrow> (string \<times> 'c) list) \<Rightarrow> string \<Rightarrow> 'r \<Rightarrow> ('c, 'r) dict \<Rightarrow> ('c, 'r) dict option" where
  "makeGroupCallback user key r d = group_loop user key r 0 d"

definition dict_answer ::
  "('c \<Rightarrow> 'r \<Rightarrow> (string \<times> 'c) list) \<Rightarrow> 'r \<Rightarrow> ('c, 'r) dict \<Rightarrow> ('c, 'r) dict option" where
  "dict_answer user r d =
     wrappedCallback execQueue put_exec (start execQueue put_exec) no_pre (makeGroupCallback user) r d"

text \<open>What happens to a dictionary: somebody asks, or the call that is running is answered.\<close>

datatype ('c, 'r) dict_event = Ask string 'c | Answer 'r

fun dict_step :: "('c \<Rightarrow> 'r \<Rightarrow> (string \<times> 'c) list) \<Rightarrow> ('c, 'r) dict_event \<Rightarrow> ('c, 'r) dict \<Rightarrow>
    ('c, 'r) dict option" where
  "dict_step user (Ask key c) d = Some (queue_add key c d)"
| "dict_step user (Answer r) d = dict_answer user r d"

fun dict_run :: "('c \<Rightarrow> 'r \<Rightarrow> (string \<times> 'c) list) \<Rightarrow> ('c, 'r) dict_event list \<Rightarrow> ('c, 'r) dict \<Rightarrow>
    ('c, 'r) dict option" where
  "dict_run user [] d = Some d"
| "dict_run user (ev # evs) d = Option.bind (dict_step user ev d) (dict_run user evs)"

section \<open>Dictionary calls serve every caller\<close>

lemma put_exec_simps [simp]:
  "execQueue (put_exec e d) = e" "callbacks (put_exec e d) = callbacks d"
  "added (put_exec e d) = added d" "called (put_exec e d) = called d"
  by (simp_all add: put_exec_def)

lemma start_dict [simp]:
  "callbacks (start execQueue put_exec k d) = callbacks d" "added (start execQueue put_exec k d) = added d"
  "called (start execQueue put_exec k d) = called d"
  "execQueue (start execQueue put_exec k d) = (execQueue d)\<lparr>started := started (execQueue d) @ [k]\<rparr>"
  by (simp_all add: start_def)

lemma queueExecCall_extends: "extends (execQueue d) (execQueue (queueExecCall key d))"
  by (auto simp: queueExecCall_def enqueue_def extends_def Let_def intro!: exI[of _ "[key]"])

lemma queue_add_extends: "extends (execQueue d) (execQueue (queue_add key c d))"
  using queueExecCall_extends[of "snd (call_add key c d)" key]
  by (auto simp: queue_add_def call_add_def Let_def)

lemma add_all_extends: "extends (execQueue d) (execQueue (add_all xs d))"
proof (induction xs arbitrary: d)
  case (Cons x xs)
  obtain key c where "x = (key, c)" by fastforce
  with Cons.IH[of "queue_add key c d"] extends_trans[OF queue_add_extends[of d key c]]
  show ?case by (simp add: add_all_def)
qed (simp add: add_all_def)

lemma group_loop_extends:
  assumes "group_loop user key r i d = Some d'"
  shows "extends (execQueue d) (execQueue d')"
proof (rule group_loop.raw_induct[where P = "\<lambda>user key r i d d'. extends (execQueue d) (execQueue d')",
      OF _ assms], goal_cases)
  case (1 loop user key r i d d')
  show ?case
  proof (cases "i < length (callbacks d key)")
    case True
    let ?c = "callbacks d key ! i"
    let ?d = "d\<lparr>called := called d @ [(key, ?c, r)]\<rparr>"
    from 1(2) True have "loop user key r (Suc i) (add_all (user ?c r) ?d) = Some d'" by (simp add: Let_def)
    from extends_trans[OF _ 1(1)[OF this]] add_all_extends[of ?d "user ?c r"] show ?thesis by simp
  next
    case False
    with 1(2) show ?thesis by auto
  qed
qed

interpretation dictq: serial_queue execQueue put_exec "start execQueue put_exec" no_pre
  "makeGroupCallback user" for user
  by unfold_locales (auto simp: no_pre_def makeGroupCallback_def group_loop_extends)

text \<open>
  Who waits, in the order of the queue. While the callbacks of a key are called, its call has left
  the queue and those from the \<open>i\<close>th on still wait: \<open>serving\<close> is \<open>Some\<close> of the key and \<open>i\<close>.
\<close>

definition waiting :: "('c, 'r) dict \<Rightarrow> (string \<times> 'c) list" where
  "waiting d = concat (map (\<lambda>k. map (Pair k) (callbacks d k)) (queue (execQueue d)))"

definition dict_inv :: "(string \<times> nat) option \<Rightarrow> ('c, 'r) dict \<Rightarrow> bool" where
  "dict_inv serving d \<longleftrightarrow>
     distinct (queue (execQueue d)) \<and>
     (\<forall>k. callbacks d k \<noteq> [] \<longleftrightarrow> k \<in> set (queue (execQueue d)) \<or> k \<in> fst ` set_option serving) \<and>
     (\<forall>(k, i) \<in> set_option serving. k \<notin> set (queue (execQueue d)) \<and> i \<le> length (callbacks d k)) \<and>
     mset (added d) = mset (map (\<lambda>(k, c, r). (k, c)) (called d)) + mset (waiting d) +
       (case serving of None \<Rightarrow> {#} | Some (k, i) \<Rightarrow> mset (map (Pair k) (drop i (callbacks d k))))"

lemma queue_queueExecCall [simp]:
  "queue (execQueue (queueExecCall key d)) = queue (execQueue d) @ [key]"
  "callbacks (queueExecCall key d) = callbacks d" "added (queueExecCall key d) = added d"
  "called (queueExecCall key d) = called d"
  by (simp_all add: queueExecCall_def enqueue_def Let_def)

lemma waiting_update:
  assumes "distinct qs"
  shows "mset (concat (map (\<lambda>k. map (Pair k) ((f(key := f key @ [c])) k)) qs)) =
    mset (concat (map (\<lambda>k. map (Pair k) (f k)) qs)) + (if key \<in> set qs then {#(key, c)#} else {#})"
  using assms by (induction qs) auto

lemma queue_add_inv:
  assumes "dict_inv serving d"
  shows "dict_inv serving (queue_add key c d)"
proof (cases "callbacks d key = []")
  case False
  with assms waiting_update[of "queue (execQueue d)" "callbacks d" key c] show ?thesis
    by (cases serving) (auto simp: dict_inv_def queue_add_def call_add_def Let_def waiting_def)
next
  case True
  with assms have new: "key \<notin> set (queue (execQueue d))" "key \<notin> fst ` set_option serving"
    by (auto simp: dict_inv_def)
  then have same: "map (\<lambda>k. map (Pair k) (if k = key then [c] else callbacks d k)) (queue (execQueue d)) =
     map (\<lambda>k. map (Pair k) (callbacks d k)) (queue (execQueue d))"
    by auto
  have "dict_inv serving (queueExecCall key (snd (call_add key c d)))"
    using assms True new
    by (cases serving) (simp_all add: dict_inv_def call_add_def Let_def waiting_def same case_prod_beta)
  with True show ?thesis by (simp add: queue_add_def call_add_def)
qed

lemma add_all_inv: "dict_inv serving d \<Longrightarrow> dict_inv serving (add_all xs d)"
  by (induction xs arbitrary: d) (auto simp: add_all_def queue_add_inv)

lemma group_loop_inv:
  assumes "group_loop user key r i d = Some d'"
  shows "dict_inv (Some (key, i)) d \<longrightarrow> dict_inv None d'"
proof (rule group_loop.raw_induct[where P = "\<lambda>user key r i d d'. dict_inv (Some (key, i)) d \<longrightarrow> dict_inv None d'",
      OF _ assms], goal_cases)
  case (1 loop user key r i d d')
  show ?case
  proof
    assume inv: "dict_inv (Some (key, i)) d"
    show "dict_inv None d'"
    proof (cases "i < length (callbacks d key)")
      case True
      let ?c = "callbacks d key ! i"
      let ?d = "d\<lparr>called := called d @ [(key, ?c, r)]\<rparr>"
      from 1(2) True have "loop user key r (Suc i) (add_all (user ?c r) ?d) = Some d'" by (simp add: Let_def)
      moreover have "drop i (callbacks d key) = ?c # drop (Suc i) (callbacks d key)"
        using True by (rule Cons_nth_drop_Suc[symmetric])
      then have "dict_inv (Some (key, Suc i)) ?d"
        using inv True by (auto simp: dict_inv_def waiting_def)
      ultimately show ?thesis using 1(1) add_all_inv by blast
    next
      case False
      with 1(2) have d': "d' = d\<lparr>callbacks := (callbacks d)(key := [])\<rparr>" by simp
      from inv have key: "key \<notin> set (queue (execQueue d))" by (simp add: dict_inv_def)
      then have same: "map (\<lambda>k. map (Pair k) (if k = key then [] else callbacks d k)) (queue (execQueue d)) =
        map (\<lambda>k. map (Pair k) (callbacks d k)) (queue (execQueue d))"
        by auto
      show ?thesis using inv key False by (simp add: d' dict_inv_def waiting_def same)
    qed
  qed
qed

lemma dict_answer_inv:
  assumes "dict_inv None d" "dict_answer user r d = Some d'"
  shows "dict_inv None d'"
proof (cases "queue (execQueue d)")
  case Nil
  with assms show ?thesis by (simp add: dict_answer_def wrappedCallback_def)
next
  case (Cons key rest)
  obtain e where loop: "group_loop user key r 0 (put_exec e d) = Some d'" and e: "queue e = rest"
    using assms(2) Cons
    by (cases rest) (auto simp: dict_answer_def wrappedCallback_def no_pre_def makeGroupCallback_def
        start_def put_exec_def Let_def)
  have "dict_inv (Some (key, 0)) (put_exec e d)"
    using assms(1) e Cons by (auto simp: dict_inv_def waiting_def)
  with group_loop_inv[OF loop] show ?thesis by simp
qed

lemma dict_run_inv:
  assumes "dict_run user evs d = Some d'" "dict_inv None d" "serial (execQueue d)"
  shows "dict_inv None d' \<and> serial (execQueue d')"
  using assms
proof (induction evs arbitrary: d)
  case (Cons ev evs)
  then obtain d1 where d1: "dict_step user ev d = Some d1" "dict_run user evs d1 = Some d'"
    by (auto simp: bind_eq_Some_conv)
  have "dict_inv None d1 \<and> serial (execQueue d1)"
  proof (cases ev)
    case (Ask key c)
    with d1 Cons.prems queue_add_inv queue_add_extends serial_extends show ?thesis by fastforce
  next
    case (Answer r)
    with d1 Cons.prems show ?thesis
      using dict_answer_inv dictq.answer_serial by (fastforce simp: dict_answer_def)
  qed
  with Cons.IH d1(2) show ?case by blast
qed simp

lemma dict_new: "dict_inv None new_Queue" "serial (execQueue new_Queue)"
  by (simp_all add: dict_inv_def new_Queue_def new_exec_def waiting_def serial_def)

text \<open>
  C34: Whatever is asked of the dictionary, by users and by their callbacks, and however the calls
  are answered: calls are made one at a time in the order in which they were first asked for, never
  two at once for one key, and every callback that was added has been called exactly once or still
  waits for a call that is in the queue.
\<close>

theorem dictionary_serves_every_caller:
  assumes "dict_run user evs new_Queue = Some d"
  shows "started (execQueue d) = returned (execQueue d) @ take 1 (queue (execQueue d)) \<and>
    submitted (execQueue d) = returned (execQueue d) @ queue (execQueue d) \<and>
    distinct (queue (execQueue d)) \<and>
    mset (added d) = mset (map (\<lambda>(key, c, r). (key, c)) (called d)) + mset (waiting d)"
  using dict_run_inv[OF assms dict_new] by (simp add: dict_inv_def serial_def)

theorem dictionary_serves_every_caller_witness:
  "\<exists>d. dict_run (\<lambda>c r. if c = 1 then [(''b'', 4)] else []) [Ask ''a'' (1::nat), Ask ''b'' 2,
       Ask ''a'' 3, Answer True, Answer False] new_Queue = Some d \<and>
     added d = [(''a'', 1), (''b'', 2), (''a'', 3), (''b'', 4)] \<and>
     mset (added d) = mset (map (\<lambda>(key, c, r). (key, c)) (called d))"
proof -
  let ?run = "dict_run (\<lambda>c r. if c = 1 then [(''b'', 4)] else []) [Ask ''a'' (1::nat), Ask ''b'' 2,
       Ask ''a'' 3, Answer True, Answer False] new_Queue"
  have "map_option (\<lambda>d. (added d, waiting d)) ?run =
      Some ([(''a'', 1), (''b'', 2), (''a'', 3), (''b'', 4)], [])"
    by code_simp
  then obtain d where d: "?run = Some d" "added d = [(''a'', 1), (''b'', 2), (''a'', 3), (''b'', 4)]"
    "waiting d = []"
    by auto
  from dictionary_serves_every_caller[OF d(1)] d show ?thesis by auto
qed

lemma callbacks_queue_add:
  "callbacks (queue_add k c d) key = (if k = key then callbacks d key @ [c] else callbacks d key)"
  by (auto simp: queue_add_def call_add_def Let_def)

lemma callbacks_add_all:
  "callbacks (add_all xs d) key = callbacks d key @ map snd (filter (\<lambda>x. fst x = key) xs)"
  by (induction xs arbitrary: d) (auto simp: add_all_def callbacks_queue_add)

lemma group_loop_returns:
  assumes "\<forall>c. key \<notin> fst ` set (user c r)"
  shows "\<exists>d'. group_loop user key r i d = Some d'"
proof (induction "length (callbacks d key) - i" arbitrary: i d)
  case 0
  then show ?case by (subst group_loop.simps) simp
next
  case (Suc n)
  let ?c = "callbacks d key ! i"
  let ?d = "add_all (user ?c r) (d\<lparr>called := called d @ [(key, ?c, r)]\<rparr>)"
  have "filter (\<lambda>x. fst x = key) (user ?c r) = []" using assms by (auto simp: filter_empty_conv)
  then have "callbacks ?d key = callbacks d key" by (simp add: callbacks_add_all)
  with Suc have "\<exists>d'. group_loop user key r (Suc i) ?d = Some d'" by simp
  with Suc show ?case by (subst group_loop.simps) (simp add: Let_def)
qed

lemma group_loop_hangs:
  assumes "group_loop user key r i d = Some d'" "\<forall>c. key \<in> fst ` set (user c r)"
  shows "length (callbacks d key) \<le> i"
proof -
  have "(\<forall>c. key \<in> fst ` set (user c r)) \<longrightarrow> length (callbacks d key) \<le> i"
  proof (rule group_loop.raw_induct[where P = "\<lambda>user key r i d d'.
      (\<forall>c. key \<in> fst ` set (user c r)) \<longrightarrow> length (callbacks d key) \<le> i", OF _ assms(1)], goal_cases)
    case (1 loop user key r i d d')
    show ?case
    proof (rule impI, rule ccontr)
      assume again: "\<forall>c. key \<in> fst ` set (user c r)" and "\<not> length (callbacks d key) \<le> i"
      then have i: "i < length (callbacks d key)" by simp
      let ?c = "callbacks d key ! i"
      let ?d = "add_all (user ?c r) (d\<lparr>called := called d @ [(key, ?c, r)]\<rparr>)"
      from 1(2) i have "loop user key r (Suc i) ?d = Some d'" by (simp add: Let_def)
      with 1(1) again have "length (callbacks ?d key) \<le> Suc i" by blast
      moreover from again obtain x where "x \<in> set (user ?c r)" "fst x = key" by force
      then have "filter (\<lambda>x. fst x = key) (user ?c r) \<noteq> []" by (auto simp: filter_empty_conv)
      ultimately show False using i by (simp add: callbacks_add_all flip: length_greater_0_conv)
    qed
  qed
  with assms(2) show ?thesis by blast
qed

lemma dict_answer_head:
  assumes "queue (execQueue d) = key # rest"
  obtains e where "dict_answer user r d = group_loop user key r 0 (put_exec e d)"
  using that assms
  by (cases rest) (auto simp: dict_answer_def wrappedCallback_def no_pre_def makeGroupCallback_def
      start_def put_exec_def Let_def)

text \<open>
  C35: The answer of a call returns when none of the callbacks asks again for the key it is called
  for. When all of them do, as a caller that tries again after an error does, it never returns:
  the callback list grows as fast as the loop over it runs, and the stale answer is given again.
\<close>

theorem dictionary_retry_hangs:
  assumes "dict_run user evs new_Queue = Some d" "queue (execQueue d) = key # rest"
  shows "((\<forall>c. key \<notin> fst ` set (user c r)) \<longrightarrow> (\<exists>d'. dict_answer user r d = Some d')) \<and>
    ((\<forall>c. key \<in> fst ` set (user c r)) \<longrightarrow> dict_answer user r d = None)"
proof -
  obtain e where e: "dict_answer user r d = group_loop user key r 0 (put_exec e d)"
    by (rule dict_answer_head[OF assms(2)])
  have "callbacks d key \<noteq> []"
    using dict_run_inv[OF assms(1) dict_new] assms(2) by (simp add: dict_inv_def)
  then show ?thesis
    using group_loop_returns[of key user r 0 "put_exec e d"]
      group_loop_hangs[of user key r 0 "put_exec e d"] e
    by (cases "group_loop user key r 0 (put_exec e d)") auto
qed

theorem dictionary_retry_hangs_witness:
  "\<exists>d. dict_run (\<lambda>c ok. if ok then [] else [(''a'', c)]) [Ask ''a'' (1::nat)] new_Queue = Some d \<and>
     dict_answer (\<lambda>c ok. if ok then [] else [(''a'', c)]) False d = None \<and>
     (\<exists>d'. dict_answer (\<lambda>c ok. if ok then [] else [(''a'', c)]) True d = Some d')"
proof -
  let ?u = "\<lambda>(c::nat) ok. if ok then [] else [(''a'', c)]"
  have "map_option (queue \<circ> execQueue) (dict_run ?u [Ask ''a'' 1] new_Queue) = Some [''a'']" by code_simp
  then obtain d where d: "dict_run ?u [Ask ''a'' 1] new_Queue = Some d" "queue (execQueue d) = [''a'']"
    by auto
  from dictionary_retry_hangs[OF d, of False] dictionary_retry_hangs[OF d, of True] d(1)
  show ?thesis by auto
qed

section \<open>Auto-increment values\<close>

text \<open>
  An operation that may need a value, with the table it inserts into. Every table that has such a
  column has a cache, whose calls are named by the handler that makes them, the operation and the
  batch size they ask for. \<open>requests\<close> lists the calls into the NDB API, \<open>answered\<close> their answers.
  The value is put into the result and into the row of the operation: \<open>insert_id\<close>.
\<close>

record ai_op =
  op_id :: nat
  op_table :: string
  autoIncColumnNumber :: "nat option"
  needAutoInc :: bool

type_synonym ai_call = "nat \<times> ai_op \<times> int"

record ai_cache =
  cache_exec :: "ai_call exec"
  batch_size :: int

text \<open>
  \<open>finals\<close> lists the errors with which the handler has gone on to prepare its operations; the
  count of errors is \<open>errors\<close>, while failures are counted in a property of another name.
\<close>

record ai_handler =
  values_needed :: int
  autoinc_op_list :: "ai_op list"
  errors :: int
  finals :: "int list"

record ai_world =
  caches :: "string \<Rightarrow> ai_cache"
  handlers :: "ai_handler list"
  insert_id :: "nat \<Rightarrow> int option"
  requests :: "(string \<times> int) list"
  answered :: "(nat \<times> ai_op \<times> int) list"

definition new_NdbAutoIncrementCache :: ai_cache where
  "new_NdbAutoIncrementCache = \<lparr>cache_exec = new_exec, batch_size = 1\<rparr>"

definition ai_initial :: ai_world where
  "ai_initial = \<lparr>caches = (\<lambda>_. new_NdbAutoIncrementCache), handlers = [], insert_id = (\<lambda>_. None),
     requests = [], answered = []\<rparr>"

definition upd_cache :: "string \<Rightarrow> (ai_cache \<Rightarrow> ai_cache) \<Rightarrow> ai_world \<Rightarrow> ai_world" where
  "upd_cache t f w = w\<lparr>caches := (caches w)(t := f (caches w t))\<rparr>"

definition get_queue :: "string \<Rightarrow> ai_world \<Rightarrow> ai_call exec" where
  "get_queue t w = cache_exec (caches w t)"

definition put_queue :: "string \<Rightarrow> ai_call exec \<Rightarrow> ai_world \<Rightarrow> ai_world" where
  "put_queue t e w = upd_cache t (\<lambda>c. c\<lparr>cache_exec := e\<rparr>) w"

definition prefetch :: "string \<Rightarrow> int \<Rightarrow> ai_world \<Rightarrow> ai_world" where
  "prefetch t n w = upd_cache t (\<lambda>c. c\<lparr>batch_size := batch_size c + n\<rparr>) w"

definition run_getValue :: "string \<Rightarrow> ai_call \<Rightarrow> ai_world \<Rightarrow> ai_world" where
  "run_getValue t call w =
     (let w1 = start (get_queue t) (put_queue t) call w;
          w2 = w1\<lparr>requests := requests w1 @ [(t, snd (snd call))]\<rparr>
      in upd_cache t (\<lambda>c. c\<lparr>batch_size := batch_size c - 1\<rparr>) w2)"

definition getValue :: "nat \<Rightarrow> ai_op \<Rightarrow> ai_world \<Rightarrow> ai_world" where
  "getValue h op w =
     (let t = op_table op in
      snd (enqueue (get_queue t) (put_queue t) (run_getValue t) (h, op, batch_size (caches w t)) w))"

definition needs_value :: "ai_op \<Rightarrow> bool" where
  "needs_value op \<longleftrightarrow> autoIncColumnNumber op \<noteq> None \<and> needAutoInc op"

text \<open>The constructor of a handler: its number and the new state.\<close>

definition new_NdbAutoIncrementHandler :: "ai_op list \<Rightarrow> ai_world \<Rightarrow> nat \<times> ai_world" where
  "new_NdbAutoIncrementHandler operations w =
     (let (hdl, w1) = fold (\<lambda>op (hdl, w). if needs_value op
              then (hdl\<lparr>values_needed := values_needed hdl + 1, autoinc_op_list := autoinc_op_list hdl @ [op]\<rparr>,
                    prefetch (op_table op) 1 w)
              else (hdl, w))
            operations (\<lparr>values_needed = 0, autoinc_op_list = [], errors = 0, finals = []\<rparr>, w)
      in (length (handlers w1), w1\<lparr>handlers := handlers w1 @ [hdl]\<rparr>))"

definition upd_handler :: "nat \<Rightarrow> (ai_handler \<Rightarrow> ai_handler) \<Rightarrow> ai_world \<Rightarrow> ai_world" where
  "upd_handler h f w = w\<lparr>handlers := (handlers w)[h := f (handlers w ! h)]\<rparr>"

definition dispatchFinalCallback :: "nat \<Rightarrow> ai_world \<Rightarrow> ai_world" where
  "dispatchFinalCallback h w = upd_handler h (\<lambda>x. x\<lparr>finals := finals x @ [errors x]\<rparr>) w"

definition makeOperationCallback :: "ai_call \<Rightarrow> int \<Rightarrow> ai_world \<Rightarrow> ai_world option" where
  "makeOperationCallback call v w =
     (let (h, op, b) = call;
          w0 = w\<lparr>answered := answered w @ [(h, op, v)]\<rparr>;
          w1 = upd_handler h (\<lambda>x. x\<lparr>values_needed := values_needed x - 1\<rparr>) w0;
          w2 = (if 0 < v then w1\<lparr>insert_id := (insert_id w1)(op_id op := Some v)\<rparr> else w1)
      in Some (if values_needed (handlers w2 ! h) = 0 then dispatchFinalCallback h w2 else w2))"

definition getAllValues :: "nat \<Rightarrow> ai_world \<Rightarrow> ai_world" where
  "getAllValues h w = fold (getValue h) (autoinc_op_list (handlers w ! h)) w"

text \<open>\<open>getAutoIncrementValues\<close> of the transaction handler, up to the preparation of the operations.\<close>

definition getAutoIncrementValues :: "ai_op list \<Rightarrow> ai_world \<Rightarrow> ai_world" where
  "getAutoIncrementValues operations w =
     (let (h, w1) = new_NdbAutoIncrementHandler operations w in
      if 0 < values_needed (handlers w1 ! h) then getAllValues h w1
      else upd_handler h (\<lambda>x. x\<lparr>finals := finals x @ [0]\<rparr>) w1)"

definition ai_answer :: "string \<Rightarrow> int \<Rightarrow> ai_world \<Rightarrow> ai_world option" where
  "ai_answer t v w =
     wrappedCallback (get_queue t) (put_queue t) (run_getValue t) no_pre makeOperationCallback v w"

datatype ai_event = AiExecute "ai_op list" | AiAnswer string int

fun ai_step :: "ai_event \<Rightarrow> ai_world \<Rightarrow> ai_world option" where
  "ai_step (AiExecute ops) w = Some (getAutoIncrementValues ops w)"
| "ai_step (AiAnswer t v) w = ai_answer t v w"

fun ai_run :: "ai_event list \<Rightarrow> ai_world \<Rightarrow> ai_world option" where
  "ai_run [] w = Some w"
| "ai_run (ev # evs) w = Option.bind (ai_step ev w) (ai_run evs)"

lemma ai_queue_simps [simp]:
  "get_queue t (put_queue t' e w) = (if t = t' then e else get_queue t w)"
  "handlers (put_queue t' e w) = handlers w" "insert_id (put_queue t' e w) = insert_id w"
  "answered (put_queue t' e w) = answered w" "requests (put_queue t' e w) = requests w"
  "batch_size (caches (put_queue t' e w) t) = batch_size (caches w t)"
  by (simp_all add: get_queue_def put_queue_def upd_cache_def)

lemma upd_cache_simps [simp]:
  "handlers (upd_cache t f w) = handlers w" "insert_id (upd_cache t f w) = insert_id w"
  "answered (upd_cache t f w) = answered w"
  by (simp_all add: upd_cache_def)

lemma get_queue_frame [simp]:
  "get_queue t (w\<lparr>answered := a\<rparr>) = get_queue t w" "get_queue t (w\<lparr>insert_id := i\<rparr>) = get_queue t w"
  by (simp_all add: get_queue_def)

lemma run_getValue_simps [simp]:
  "get_queue t (run_getValue t' k w) =
     (if t = t' then (get_queue t w)\<lparr>started := started (get_queue t w) @ [k]\<rparr> else get_queue t w)"
  "handlers (run_getValue t' k w) = handlers w" "insert_id (run_getValue t' k w) = insert_id w"
  "answered (run_getValue t' k w) = answered w"
  "batch_size (caches (run_getValue t' k w) t) = batch_size (caches w t) - (if t = t' then 1 else 0)"
  by (simp_all add: run_getValue_def start_def upd_cache_def put_queue_def get_queue_def Let_def)

lemma upd_handler_simps [simp]:
  "get_queue t (upd_handler h f w) = get_queue t w" "caches (upd_handler h f w) = caches w"
  "insert_id (upd_handler h f w) = insert_id w" "answered (upd_handler h f w) = answered w"
  "length (handlers (upd_handler h f w)) = length (handlers w)"
  "handlers (upd_handler h f w) = (handlers w)[h := f (handlers w ! h)]"
  by (simp_all add: upd_handler_def get_queue_def)

lemma makeOperationCallback_queue: "makeOperationCallback k v w = Some w' \<Longrightarrow> get_queue t w' = get_queue t w"
  by (auto simp: makeOperationCallback_def dispatchFinalCallback_def Let_def get_queue_def upd_handler_def split: prod.splits)

interpretation aiq: serial_queue "get_queue t" "put_queue t" "run_getValue t" no_pre makeOperationCallback for t
  by unfold_locales (auto simp: no_pre_def, metis extends_refl makeOperationCallback_queue)

text \<open>The operations of a handler that have been answered, and those that still wait in a cache.\<close>

definition answered_of :: "nat \<Rightarrow> ai_world \<Rightarrow> ai_op list" where
  "answered_of h w = map (\<lambda>(h', op, v). op) (filter (\<lambda>(h', op, v). h' = h) (answered w))"

definition queued_of :: "nat \<Rightarrow> string \<Rightarrow> ai_world \<Rightarrow> ai_op list" where
  "queued_of h t w = map (\<lambda>(h', op, b). op) (filter (\<lambda>(h', op, b). h' = h) (queue (get_queue t w)))"

definition values_set :: "ai_world \<Rightarrow> nat \<Rightarrow> int option" where
  "values_set w = map_of (rev (map (\<lambda>(h, op, v). (op_id op, v)) (filter (\<lambda>(h, op, v). 0 < v) (answered w))))"

text \<open>The state while the handler \<open>h0\<close> has the calls of \<open>ops\<close> still to make.\<close>

definition table_inv :: "nat \<Rightarrow> string \<Rightarrow> ai_op list \<Rightarrow> ai_call exec \<Rightarrow> int \<Rightarrow> bool" where
  "table_inv n t ops e b \<longleftrightarrow> serial e \<and>
     b = 1 + int (length (drop 1 (queue e))) + int (length (filter (\<lambda>op. op_table op = t) ops)) \<and>
     (\<forall>(h, op, b) \<in> set (queue e). op_table op = t \<and> h < n)"

definition handler_inv :: "ai_handler \<Rightarrow> ai_op list \<Rightarrow> (string \<Rightarrow> ai_op list) \<Rightarrow> ai_op list \<Rightarrow> bool" where
  "handler_inv x as qs ops \<longleftrightarrow>
     (\<forall>op. count_list (autoinc_op_list x) op =
        count_list as op + count_list (qs (op_table op)) op + count_list ops op) \<and>
     values_needed x = int (length (autoinc_op_list x)) - int (length as) \<and>
     errors x = 0 \<and> finals x = (if values_needed x = 0 then [0] else [])"

definition ai_inv :: "nat \<Rightarrow> ai_op list \<Rightarrow> ai_world \<Rightarrow> bool" where
  "ai_inv h0 ops w \<longleftrightarrow>
     (\<forall>t. table_inv (length (handlers w)) t ops (get_queue t w) (batch_size (caches w t))) \<and>
     (\<forall>h<length (handlers w). handler_inv (handlers w ! h) (answered_of h w) (\<lambda>t. queued_of h t w)
        (if h = h0 then ops else [])) \<and>
     (\<forall>(h, op, v) \<in> set (answered w). h < length (handlers w)) \<and>
     insert_id w = values_set w"

lemma getValue_facts:
  "queue (get_queue t (getValue h op w)) = queue (get_queue t w) @
     (if t = op_table op then [(h, op, batch_size (caches w t))] else [])"
  "submitted (get_queue t (getValue h op w)) = submitted (get_queue t w) @
     (if t = op_table op then [(h, op, batch_size (caches w t))] else [])"
  "started (get_queue t (getValue h op w)) = started (get_queue t w) @
     (if t = op_table op \<and> queue (get_queue t w) = [] then [(h, op, batch_size (caches w t))] else [])"
  "returned (get_queue t (getValue h op w)) = returned (get_queue t w)"
  "handlers (getValue h op w) = handlers w" "insert_id (getValue h op w) = insert_id w"
  "answered (getValue h op w) = answered w"
  "batch_size (caches (getValue h op w) t) = batch_size (caches w t)
     - (if t = op_table op \<and> queue (get_queue t w) = [] then 1 else 0)"
  by (auto simp: getValue_def enqueue_def Let_def)

lemma getValue_inv:
  assumes "ai_inv h (op # ops) w" "h < length (handlers w)"
  shows "ai_inv h ops (getValue h op w)"
proof -
  let ?t = "op_table op"
  let ?w = "getValue h op w"
  have keep: "answered_of h' ?w = answered_of h' w" "values_set ?w = values_set w"
    "queued_of h' t ?w = queued_of h' t w @ (if t = ?t \<and> h' = h then [op] else [])" for h' t
    by (simp_all add: answered_of_def values_set_def queued_of_def getValue_facts)
  have "table_inv (length (handlers w)) t ops (get_queue t ?w) (batch_size (caches ?w t))" for t
  proof -
    have "table_inv (length (handlers w)) t (op # ops) (get_queue t w) (batch_size (caches w t))"
      using assms(1) by (simp add: ai_inv_def)
    with assms(2) show ?thesis
      by (cases "queue (get_queue t w)") (auto simp: table_inv_def serial_def getValue_facts)
  qed
  moreover have "handler_inv (handlers w ! h') (answered_of h' w) (\<lambda>t. queued_of h' t ?w) (if h' = h then ops else [])"
    if "h' < length (handlers w)" for h'
    using assms(1) that by (auto simp: ai_inv_def handler_inv_def keep)
  ultimately show ?thesis
    using assms by (simp add: ai_inv_def getValue_facts(5-7) keep(1,2))
qed

lemma getAllValues_inv:
  assumes "ai_inv h ops w" "h < length (handlers w)"
  shows "ai_inv h [] (fold (getValue h) ops w)"
  using assms by (induction ops arbitrary: w) (auto simp: getValue_inv getValue_facts(5))

definition new_handler :: "ai_op list \<Rightarrow> ai_handler" where
  "new_handler ops = \<lparr>values_needed = int (length ops), autoinc_op_list = ops, errors = 0, finals = []\<rparr>"

lemma prefetch_simps [simp]:
  "get_queue t (prefetch t' n w) = get_queue t w" "handlers (prefetch t' n w) = handlers w"
  "insert_id (prefetch t' n w) = insert_id w" "answered (prefetch t' n w) = answered w"
  "batch_size (caches (prefetch t' n w) t) = batch_size (caches w t) + (if t = t' then n else 0)"
  by (simp_all add: prefetch_def upd_cache_def get_queue_def)

lemma constructor_fold:
  assumes "fold (\<lambda>op (hdl, w). if needs_value op
              then (hdl\<lparr>values_needed := values_needed hdl + 1, autoinc_op_list := autoinc_op_list hdl @ [op]\<rparr>,
                    prefetch (op_table op) 1 w)
              else (hdl, w)) ops (hdl, w) = (hdl', w')"
  shows "hdl' = hdl\<lparr>values_needed := values_needed hdl + int (length (filter needs_value ops)),
      autoinc_op_list := autoinc_op_list hdl @ filter needs_value ops\<rparr> \<and>
    handlers w' = handlers w \<and> insert_id w' = insert_id w \<and> answered w' = answered w \<and>
    (\<forall>t. get_queue t w' = get_queue t w \<and> batch_size (caches w' t) = batch_size (caches w t) +
      int (length (filter (\<lambda>op. op_table op = t) (filter needs_value ops))))"
  using assms
proof (induction ops arbitrary: hdl w)
  case (Cons op ops)
  show ?case
  proof (cases "needs_value op")
    case True
    with Cons.prems Cons.IH[of "hdl\<lparr>values_needed := values_needed hdl + 1, autoinc_op_list := autoinc_op_list hdl @ [op]\<rparr>"
        "prefetch (op_table op) 1 w"]
    show ?thesis by auto
  next
    case False
    with Cons show ?thesis by auto
  qed
qed simp

lemma constructor_facts:
  assumes "new_NdbAutoIncrementHandler ops w = (h, w')"
  shows "h = length (handlers w)" "handlers w' = handlers w @ [new_handler (filter needs_value ops)]"
    "insert_id w' = insert_id w" "answered w' = answered w" "get_queue t w' = get_queue t w"
    "batch_size (caches w' t) = batch_size (caches w t) +
      int (length (filter (\<lambda>op. op_table op = t) (filter needs_value ops)))"
proof -
  obtain hdl w1 where f: "fold (\<lambda>op (hdl, w). if needs_value op
              then (hdl\<lparr>values_needed := values_needed hdl + 1, autoinc_op_list := autoinc_op_list hdl @ [op]\<rparr>,
                    prefetch (op_table op) 1 w)
              else (hdl, w))
            ops (\<lparr>values_needed = 0, autoinc_op_list = [], errors = 0, finals = []\<rparr>, w) = (hdl, w1)"
    by (rule prod.exhaust)
  note c = constructor_fold[OF f]
  show "h = length (handlers w)" "handlers w' = handlers w @ [new_handler (filter needs_value ops)]"
    "insert_id w' = insert_id w" "answered w' = answered w" "get_queue t w' = get_queue t w"
    "batch_size (caches w' t) = batch_size (caches w t) +
      int (length (filter (\<lambda>op. op_table op = t) (filter needs_value ops)))"
    using assms c unfolding new_NdbAutoIncrementHandler_def f
    by (auto simp: new_handler_def get_queue_def)
qed

lemma getAutoIncrementValues_inv:
  assumes "ai_inv h0 [] w"
  shows "ai_inv h0 [] (getAutoIncrementValues ops w)"
proof -
  obtain h w1 where n: "new_NdbAutoIncrementHandler ops w = (h, w1)" by fastforce
  note f = constructor_facts[OF n]
  let ?ops = "filter needs_value ops"
  have none: "answered_of h w = []" "queued_of h t w = []" for t
    using assms unfolding answered_of_def queued_of_def ai_inv_def table_inv_def f(1)
    by (fastforce simp: filter_empty_conv)+
  have keep: "answered_of h' w1 = answered_of h' w" "values_set w1 = values_set w"
    "queued_of h' t w1 = queued_of h' t w" for h' t
    by (simp_all add: answered_of_def values_set_def queued_of_def f)
  have tables: "table_inv (length (handlers w1)) t ?ops (get_queue t w1) (batch_size (caches w1 t))" for t
  proof -
    have "table_inv (length (handlers w)) t [] (get_queue t w) (batch_size (caches w t))"
      using assms by (simp add: ai_inv_def)
    then show ?thesis by (auto simp: table_inv_def f)
  qed
  have old: "handler_inv (handlers w ! h') (answered_of h' w) (\<lambda>t. queued_of h' t w) []"
    if "h' < length (handlers w)" for h'
    using assms that by (simp add: ai_inv_def)
  have answers: "\<forall>(h, op, v) \<in> set (answered w). h < length (handlers w1)"
    using assms by (fastforce simp: ai_inv_def f)
  have ids: "insert_id w = values_set w" using assms by (simp add: ai_inv_def)
  show ?thesis
  proof (cases "?ops = []")
    case True
    let ?w = "upd_handler h (\<lambda>x. x\<lparr>finals := finals x @ [0]\<rparr>) w1"
    have e: "getAutoIncrementValues ops w = ?w"
      using True by (simp add: getAutoIncrementValues_def n f new_handler_def)
    have keep2: "answered_of h' ?w = answered_of h' w" "values_set ?w = values_set w"
      "queued_of h' t ?w = queued_of h' t w" for h' t
      using keep by (simp_all add: answered_of_def values_set_def queued_of_def)
    have "handler_inv (handlers ?w ! h') (answered_of h' w) (\<lambda>t. queued_of h' t w) []"
      if "h' < length (handlers w1)" for h'
    proof (cases "h' = h")
      case True
      with \<open>?ops = []\<close> none show ?thesis by (simp add: f handler_inv_def new_handler_def)
    next
      case False
      with that old[of h'] show ?thesis by (auto simp: f nth_append)
    qed
    then show ?thesis
      using tables answers ids True
      by (simp add: e ai_inv_def keep2 f(3,4) del: upd_handler_simps(6))
  next
    case False
    then have e: "getAutoIncrementValues ops w = fold (getValue h) ?ops w1"
      by (simp add: getAutoIncrementValues_def n f new_handler_def getAllValues_def)
    have "handler_inv (handlers w1 ! h') (answered_of h' w) (\<lambda>t. queued_of h' t w) (if h' = h then ?ops else [])"
      if "h' < length (handlers w1)" for h'
    proof (cases "h' = h")
      case True
      with False none show ?thesis by (simp add: f handler_inv_def new_handler_def)
    next
      case False
      with that old[of h'] show ?thesis by (auto simp: f nth_append)
    qed
    then have "ai_inv h ?ops w1"
      using tables answers ids by (simp add: ai_inv_def keep f(3,4))
    then have "ai_inv h [] (getAutoIncrementValues ops w)"
      using getAllValues_inv f by (simp add: e)
    then show ?thesis by (simp add: ai_inv_def)
  qed
qed

lemma answer_facts:
  assumes "ai_answer t v w = Some w'" "queue (get_queue t w) = (h, op, b) # rest"
  shows "queue (get_queue t' w') = (if t' = t then rest else queue (get_queue t' w))"
    "batch_size (caches w' t') = batch_size (caches w t') - (if t' = t \<and> rest \<noteq> [] then 1 else 0)"
    "answered w' = answered w @ [(h, op, v)]"
    "insert_id w' = (if 0 < v then (insert_id w)(op_id op := Some v) else insert_id w)"
    "h < length (handlers w) \<Longrightarrow> handlers w' = (handlers w)[h := (handlers w ! h)
       \<lparr>values_needed := values_needed (handlers w ! h) - 1,
        finals := finals (handlers w ! h) @ (if values_needed (handlers w ! h) = 1 then [errors (handlers w ! h)] else [])\<rparr>]"
  using assms
  by (auto simp: ai_answer_def wrappedCallback_def no_pre_def makeOperationCallback_def Let_def
      dispatchFinalCallback_def simp del: fun_upd_apply split: list.splits if_splits)

lemma serial_answer:
  assumes "ai_answer t v w = Some w'" "\<And>t. serial (get_queue t w)"
  shows "serial (get_queue t' w')"
proof (cases "t' = t")
  case True
  with assms show ?thesis using aiq.answer_serial[of t w v w'] by (simp add: ai_answer_def)
next
  case False
  then have "get_queue t' w' = get_queue t' w"
    using assms(1)
    by (auto simp: ai_answer_def wrappedCallback_def no_pre_def Let_def dest!: makeOperationCallback_queue[where t = t']
        split: list.splits)
  with assms(2) show ?thesis by simp
qed

lemma handler_room:
  assumes "handler_inv x as qs ops" "op \<in> set (qs (op_table op))"
  shows "length as < length (autoinc_op_list x)"
proof -
  have "mset as + {#op#} \<subseteq># mset (autoinc_op_list x)"
  proof (rule mset_subset_eqI)
    fix o'
    have "0 < count_list (qs (op_table op)) op"
      using assms(2) by (metis count_list_0_iff neq0_conv)
    with assms(1) show "count (mset as + {#op#}) o' \<le> count (mset (autoinc_op_list x)) o'"
      by (auto simp: handler_inv_def count_mset)
  qed
  then have "size (mset as + {#op#}) \<le> size (mset (autoinc_op_list x))" by (rule size_mset_mono)
  then show ?thesis by simp
qed

lemma ai_answer_inv:
  assumes "ai_inv h0 [] w" "ai_answer t v w = Some w'"
  shows "ai_inv h0 [] w'"
proof (cases "queue (get_queue t w)")
  case Nil
  with assms show ?thesis by (simp add: ai_answer_def wrappedCallback_def)
next
  case (Cons c rest)
  then obtain h op b where q: "queue (get_queue t w) = (h, op, b) # rest" by (cases c) auto
  have tables: "table_inv (length (handlers w)) t' [] (get_queue t' w) (batch_size (caches w t'))" for t'
    using assms(1) by (simp add: ai_inv_def)
  from tables[of t] q have h: "h < length (handlers w)" "op_table op = t" by (auto simp: table_inv_def)
  note f = answer_facts[OF assms(2) q]
  let ?x = "handlers w ! h"
  have old: "handler_inv (handlers w ! h') (answered_of h' w) (\<lambda>t. queued_of h' t w) []"
    if "h' < length (handlers w)" for h'
    using assms(1) that by (simp add: ai_inv_def)
  have as: "answered_of h' w' = answered_of h' w @ (if h' = h then [op] else [])" for h'
    by (simp add: answered_of_def f)
  have qs: "queued_of h' t' w = (if t' = t \<and> h' = h then [op] else []) @ queued_of h' t' w'" for h' t'
    using q by (simp add: queued_of_def f)
  have len: "length (handlers w') = length (handlers w)" using f(5)[OF h(1)] by simp
  have "table_inv (length (handlers w')) t' [] (get_queue t' w') (batch_size (caches w' t'))" for t'
    using tables[of t'] q serial_answer[OF assms(2), of t'] tables len
    by (cases rest) (auto simp: table_inv_def f)
  moreover have "handler_inv (handlers w' ! h') (answered_of h' w') (\<lambda>t. queued_of h' t w') []"
    if "h' < length (handlers w)" for h'
  proof (cases "h' = h")
    case True
    have "length (answered_of h w) < length (autoinc_op_list ?x)"
      using old[OF h(1)] by (rule handler_room[of _ _ _ _ op]) (simp add: h qs)
    with old[OF h(1)] True h show ?thesis
      by (auto simp: handler_inv_def as qs f(5))
  next
    case False
    with old[OF that] h show ?thesis by (simp add: handler_inv_def as qs f(5))
  qed
  moreover have "\<forall>(h, op, v) \<in> set (answered w'). h < length (handlers w')"
    using assms(1) h len by (auto simp: ai_inv_def f)
  moreover have "insert_id w' = values_set w'"
    using assms(1) by (auto simp: ai_inv_def f values_set_def)
  ultimately show ?thesis by (simp add: ai_inv_def len)
qed

lemma ai_run_inv: "ai_run evs w = Some w' \<Longrightarrow> ai_inv h0 [] w \<Longrightarrow> ai_inv h0 [] w'"
proof (induction evs arbitrary: w)
  case (Cons ev evs)
  then obtain w1 where "ai_step ev w = Some w1" "ai_run evs w1 = Some w'" by (auto simp: bind_eq_Some_conv)
  with Cons show ?case
    by (cases ev) (auto simp: getAutoIncrementValues_inv ai_answer_inv)
qed simp

lemma ai_initial_inv: "ai_inv h0 [] ai_initial"
  by (simp add: ai_inv_def ai_initial_def table_inv_def get_queue_def new_NdbAutoIncrementCache_def
      serial_new values_set_def) (simp add: new_exec_def)

text \<open>
  C36: However the handlers of several executions share the caches of their tables: a handler goes
  on to prepare its operations exactly once, when each of its operations has been answered, which is
  so when no call is left in the caches, and is told of no errors whatever the answers were. Only
  positive answers are set in the operations. The batch size of a cache is the number of values
  still wanted from it, and at least one.
\<close>

theorem auto_increment_values:
  assumes "ai_run evs ai_initial = Some w" "h < length (handlers w)"
  shows "mset (answered_of h w) \<subseteq># mset (autoinc_op_list (handlers w ! h)) \<and>
    ((\<forall>t. queue (get_queue t w) = []) \<longrightarrow> mset (answered_of h w) = mset (autoinc_op_list (handlers w ! h))) \<and>
    finals (handlers w ! h) =
      (if mset (answered_of h w) = mset (autoinc_op_list (handlers w ! h)) then [0] else []) \<and>
    insert_id w = values_set w \<and>
    batch_size (caches w t) = max 1 (int (length (queue (get_queue t w))))"
proof -
  from ai_run_inv[OF assms(1) ai_initial_inv] have inv: "ai_inv 0 [] w" .
  then have x: "handler_inv (handlers w ! h) (answered_of h w) (\<lambda>t. queued_of h t w) []"
    using assms(2) by (simp add: ai_inv_def)
  have sub: "mset (answered_of h w) \<subseteq># mset (autoinc_op_list (handlers w ! h))"
    using x by (intro mset_subset_eqI) (simp add: handler_inv_def count_mset)
  have "length (answered_of h w) = length (autoinc_op_list (handlers w ! h)) \<longleftrightarrow>
      mset (answered_of h w) = mset (autoinc_op_list (handlers w ! h))"
    using sub by (metis mset_subset_size size_mset subset_mset.le_imp_less_or_eq less_irrefl)
  with x have fin: "finals (handlers w ! h) =
      (if mset (answered_of h w) = mset (autoinc_op_list (handlers w ! h)) then [0] else [])"
    by (auto simp: handler_inv_def)
  have batch: "batch_size (caches w t) = max 1 (int (length (queue (get_queue t w))))"
    using inv by (cases "queue (get_queue t w)") (auto simp: ai_inv_def table_inv_def)
  have "(\<forall>t. queue (get_queue t w) = []) \<longrightarrow> mset (answered_of h w) = mset (autoinc_op_list (handlers w ! h))"
    using x by (auto simp: handler_inv_def queued_of_def count_mset intro!: multiset_eqI)
  with inv sub fin batch show ?thesis by (simp add: ai_inv_def)
qed

definition demo_ai_op :: "nat \<Rightarrow> string \<Rightarrow> ai_op" where
  "demo_ai_op i t = \<lparr>op_id = i, op_table = t, autoIncColumnNumber = Some 0, needAutoInc = True\<rparr>"

theorem auto_increment_values_witness:
  "\<exists>w. ai_run [AiExecute [demo_ai_op 1 ''a'', demo_ai_op 2 ''b'', demo_ai_op 3 ''a''],
      AiExecute [demo_ai_op 4 ''a''], AiAnswer ''a'' 10, AiAnswer ''a'' (-1), AiAnswer ''b'' 7] ai_initial = Some w \<and>
    finals (handlers w ! 0) = [0] \<and> finals (handlers w ! 1) = [] \<and> insert_id w 1 = Some 10 \<and>
    insert_id w 3 = None"
proof -
  let ?run = "ai_run [AiExecute [demo_ai_op 1 ''a'', demo_ai_op 2 ''b'', demo_ai_op 3 ''a''],
      AiExecute [demo_ai_op 4 ''a''], AiAnswer ''a'' 10, AiAnswer ''a'' (-1), AiAnswer ''b'' 7] ai_initial"
  have "map_option (\<lambda>w. (length (handlers w), map op_id (answered_of 0 w), map op_id (answered_of 1 w),
      map op_id (autoinc_op_list (handlers w ! 0)), map op_id (autoinc_op_list (handlers w ! 1)),
      answered w)) ?run = Some (2, [1, 3, 2], [], [1, 2, 3], [4],
      [(0, demo_ai_op 1 ''a'', 10), (0, demo_ai_op 3 ''a'', -1), (0, demo_ai_op 2 ''b'', 7)])"
    by code_simp
  then obtain w where w: "?run = Some w" "length (handlers w) = 2" "map op_id (answered_of 1 w) = []"
    "map op_id (autoinc_op_list (handlers w ! 0)) = [1, 2, 3]" "map op_id (autoinc_op_list (handlers w ! 1)) = [4]"
    "answered w = [(0, demo_ai_op 1 ''a'', 10), (0, demo_ai_op 3 ''a'', -1), (0, demo_ai_op 2 ''b'', 7)]"
    by auto
  note c = auto_increment_values[OF w(1)]
  have "length (answered_of 0 w) = length (autoinc_op_list (handlers w ! 0))"
    using w(4) by (simp add: answered_of_def w(6)) (metis length_map length_Cons list.size(3))
  then have "mset (answered_of 0 w) = mset (autoinc_op_list (handlers w ! 0))"
    using c[of 0] w(2) by (metis mset_subset_size size_mset subset_mset.le_imp_less_or_eq less_irrefl zero_less_numeral)
  then have "finals (handlers w ! 0) = [0]" using c[of 0] w(2) by simp
  moreover have "finals (handlers w ! 1) = []"
    using c[of 1] w(2,3,5) by auto
  moreover have "insert_id w = values_set w" using c[of 0] w(2) by simp
  then have "insert_id w 1 = Some 10" "insert_id w 3 = None"
    by (simp_all add: values_set_def w(6) demo_ai_op_def)
  ultimately show ?thesis using w(1) by blast
qed

end
