(* ===== verification/NdbPool.thy ===== *)
theory NdbPool
  imports Prelude "HOL-Library.Sublist" "HOL-Library.Multiset"
begin

text \<open>
  Connections of the NDB adapter: the connection to a cluster that several pools share,
  \<open>jones-ndb/impl/ndb/NdbConnection.js\<close>, the table of those connections with their reference counts,
  and the pool of open sessions, both of \<open>NdbConnectionPool.js\<close>. Calls into the NDB API and timers
  answer as events; the callbacks given to the operations are numbers, and calling one is recorded.
\<close>

section \<open>A connection\<close>

text \<open>What the connection waits for from the NDB API.\<close>

datatype ndb_phase = NdbIdle | NdbConnecting | NdbWaitingReady

datatype connect_error = ConnectFailed | ReadyTimeout

record ndb_connection =
  connectString :: string
  referenceCount :: int
  pendingConnections :: "nat list"
  isConnected :: bool
  isDisconnecting :: bool
  phase :: ndb_phase
  native_connects :: nat
  native_deletes :: nat
  disconnect_timers :: "nat list"
  requested :: "nat list"
  connect_answers :: "(nat \<times> connect_error option) list"
  close_callbacks :: "nat list"

definition new_NdbConnection :: "string \<Rightarrow> ndb_connection" where
  "new_NdbConnection s = \<lparr>connectString = s, referenceCount = 1, pendingConnections = [],
     isConnected = False, isDisconnecting = False, phase = NdbIdle, native_connects = 0,
     native_deletes = 0, disconnect_timers = [], requested = [], connect_answers = [], close_callbacks = []\<rparr>"

definition ndb_connect :: "nat \<Rightarrow> ndb_connection \<Rightarrow> ndb_connection" where
  "ndb_connect cb c0 =
     (let c = c0\<lparr>requested := requested c0 @ [cb]\<rparr> in
      if isConnected c then c\<lparr>connect_answers := connect_answers c @ [(cb, None)]\<rparr>
      else
        let c1 = c\<lparr>pendingConnections := pendingConnections c @ [cb]\<rparr> in
        if length (pendingConnections c1) = 1
        then c1\<lparr>phase := NdbConnecting, native_connects := Suc (native_connects c1)\<rparr>
        else c1)"

text \<open>
  What the callbacks do is a parameter: \<open>user cb out\<close> lists the requests that callback \<open>cb\<close> makes on
  this connection when it is called with the error \<open>out\<close>, or with none. A request on an open connection is
  answered before \<open>connect\<close> returns, so its callback makes its own requests before the next one is made.
  The loop of \<open>runCallbacks\<close> reads the length of \<open>pendingConnections\<close> each time: it also
  calls the callbacks that the callbacks append. Both may not return, which is the value \<open>None\<close>.
\<close>

type_synonym reaction = "nat \<Rightarrow> connect_error option \<Rightarrow> nat list"

partial_function (option) ndb_connects :: "reaction \<Rightarrow> nat list \<Rightarrow> ndb_connection \<Rightarrow> ndb_connection option" where
  "ndb_connects user cbs c = (case cbs of [] \<Rightarrow> Some c
     | cb # rest \<Rightarrow> ndb_connects user ((if isConnected c then user cb None else []) @ rest) (ndb_connect cb c))"

partial_function (option) runCallbacks ::
    "reaction \<Rightarrow> connect_error option \<Rightarrow> nat \<Rightarrow> ndb_connection \<Rightarrow> ndb_connection option" where
  "runCallbacks user out i c =
     (if i < length (pendingConnections c)
      then Option.bind
        (ndb_connects user (user (pendingConnections c ! i) out)
          (c\<lparr>connect_answers := connect_answers c @ [(pendingConnections c ! i, out)]\<rparr>))
        (runCallbacks user out (Suc i))
      else Some c)"

text \<open>The answer of the connection attempt, and that of waiting for the cluster to be ready.\<close>

definition onConnected :: "reaction \<Rightarrow> int \<Rightarrow> ndb_connection \<Rightarrow> ndb_connection option" where
  "onConnected user rval c =
     (if rval = 0 then Some (c\<lparr>phase := NdbWaitingReady\<rparr>)
      else runCallbacks user (Some ConnectFailed) 0 (c\<lparr>phase := NdbIdle\<rparr>))"

definition onReady :: "reaction \<Rightarrow> int \<Rightarrow> ndb_connection \<Rightarrow> ndb_connection option" where
  "onReady user nnodes c0 =
     (let c = c0\<lparr>phase := NdbIdle\<rparr> in
      if nnodes < 0 then runCallbacks user (Some ReadyTimeout) 0 c
      else runCallbacks user None 0 (c\<lparr>isConnected := True\<rparr>))"

text \<open>The callback of a close is called when the NDB API has deleted the connection.\<close>

definition disconnect :: "nat \<Rightarrow> ndb_connection \<Rightarrow> ndb_connection" where
  "disconnect cb c = c\<lparr>isConnected := False, native_deletes := Suc (native_deletes c),
     close_callbacks := close_callbacks c @ [cb]\<rparr>"

definition ndb_close :: "nat \<Rightarrow> ndb_connection \<Rightarrow> ndb_connection" where
  "ndb_close cb c =
     (if \<not> isConnected c then disconnect cb c
      else if isDisconnecting c then c
      else c\<lparr>isDisconnecting := True, disconnect_timers := disconnect_timers c @ [cb]\<rparr>)"

datatype conn_event = Connect nat | Connected int | Ready int | Close nat | DisconnectTimer

fun conn_step :: "reaction \<Rightarrow> conn_event \<Rightarrow> ndb_connection \<Rightarrow> ndb_connection option" where
  "conn_step user (Connect cb) c = ndb_connects user [cb] c"
| "conn_step user (Connected rval) c = (if phase c = NdbConnecting then onConnected user rval c else Some c)"
| "conn_step user (Ready n) c = (if phase c = NdbWaitingReady then onReady user n c else Some c)"
| "conn_step user (Close cb) c = Some (ndb_close cb c)"
| "conn_step user DisconnectTimer c = Some (case disconnect_timers c of [] \<Rightarrow> c
     | cb # cbs \<Rightarrow> disconnect cb (c\<lparr>disconnect_timers := cbs\<rparr>))"

fun conn_run :: "reaction \<Rightarrow> conn_event list \<Rightarrow> ndb_connection \<Rightarrow> ndb_connection option" where
  "conn_run user [] c = Some c"
| "conn_run user (ev # evs) c = Option.bind (conn_step user ev c) (conn_run user evs)"

section \<open>The table of connections\<close>

text \<open>
  \<open>baseConnections\<close> maps a connect string to its connection (a number of \<open>conns\<close>), or to nothing;
  \<open>lingering\<close> lists the timers of \<open>releaseNdbConnection\<close> that have not fired. Only these close a
  connection. What the callbacks of a connection do is here a further event of the table.
\<close>

definition quiet :: reaction where
  "quiet cb out = []"

definition quiet_step :: "conn_event \<Rightarrow> ndb_connection \<Rightarrow> ndb_connection" where
  "quiet_step ev c = (case conn_step quiet ev c of Some c' \<Rightarrow> c' | None \<Rightarrow> c)"

record base =
  conns :: "ndb_connection list"
  baseConnections :: "string \<Rightarrow> nat option"
  lingering :: "(string \<times> nat \<times> nat) list"
  release_callbacks :: "nat list"

definition new_base :: base where
  "new_base = \<lparr>conns = [], baseConnections = (\<lambda>_. None), lingering = [], release_callbacks = []\<rparr>"

definition upd_conn :: "nat \<Rightarrow> (ndb_connection \<Rightarrow> ndb_connection) \<Rightarrow> base \<Rightarrow> base" where
  "upd_conn i f b = b\<lparr>conns := (conns b)[i := f (conns b ! i)]\<rparr>"

definition addRef :: "int \<Rightarrow> ndb_connection \<Rightarrow> ndb_connection" where
  "addRef n c = c\<lparr>referenceCount := referenceCount c + n\<rparr>"

definition getNdbConnection :: "string \<Rightarrow> base \<Rightarrow> nat \<times> base" where
  "getNdbConnection s b =
     (case baseConnections b s of
        Some i \<Rightarrow> (i, upd_conn i (addRef 1) b)
      | None \<Rightarrow> (let i = length (conns b) in
          (i, b\<lparr>conns := conns b @ [new_NdbConnection s], baseConnections := (baseConnections b)(s := Some i)\<rparr>)))"

definition releaseNdbConnection :: "string \<Rightarrow> nat \<Rightarrow> base \<Rightarrow> base res" where
  "releaseNdbConnection s cb b =
     (case baseConnections b s of
        None \<Rightarrow> Inl TypeError
      | Some i \<Rightarrow>
          (let b1 = upd_conn i (addRef (-1)) b; n = referenceCount (conns b1 ! i) in
           if n < 0 then Inl AssertionError
           else if n = 0 then Inr (b1\<lparr>lingering := lingering b1 @ [(s, i, cb)]\<rparr>)
           else Inr (b1\<lparr>release_callbacks := release_callbacks b1 @ [cb]\<rparr>)))"

definition closeReally :: "string \<Rightarrow> nat \<Rightarrow> nat \<Rightarrow> base \<Rightarrow> base" where
  "closeReally s i cb b =
     (if referenceCount (conns b ! i) = 0
      then upd_conn i (ndb_close cb) (b\<lparr>baseConnections := (baseConnections b)(s := None)\<rparr>)
      else b)"

definition remove_nth :: "nat \<Rightarrow> 'a list \<Rightarrow> 'a list" where
  "remove_nth k xs = take k xs @ drop (Suc k) xs"

datatype base_event = Get string | Release string nat | LingerTimer nat | OnConnection nat conn_event

fun base_step :: "base_event \<Rightarrow> base \<Rightarrow> base res" where
  "base_step (Get s) b = Inr (snd (getNdbConnection s b))"
| "base_step (Release s cb) b = releaseNdbConnection s cb b"
| "base_step (LingerTimer k) b =
     (if k < length (lingering b)
      then (case lingering b ! k of (s, i, cb) \<Rightarrow>
        Inr (closeReally s i cb (b\<lparr>lingering := remove_nth k (lingering b)\<rparr>)))
      else Inr b)"
| "base_step (OnConnection i ev) b =
     Inr (if i < length (conns b) \<and> (\<forall>cb. ev \<noteq> Close cb) then upd_conn i (quiet_step ev) b else b)"

fun base_run :: "base_event list \<Rightarrow> base \<Rightarrow> base res" where
  "base_run [] b = Inr b"
| "base_run (ev # evs) b = rbind (base_step ev b) (base_run evs)"

section \<open>The pool of sessions\<close>

text \<open>
  Sessions are numbered. \<open>fetching\<close> lists the users whose session the NDB API is opening,
  \<open>prefetching\<close> is the session that the pool opens for itself, and \<open>execQueue\<close> lists the
  native objects that are being closed, with what is called when one is gone: the callback of a user,
  nothing, or the counting of a close of the pool (every close has a counter of its own, in
  \<open>nclose\<close>). \<open>held\<close>, \<open>close_requests\<close> and \<open>destroyed\<close> record the sessions that users
  hold, the closes that users asked for, and the sessions whose native object was given up.
\<close>

datatype close_call = UserCb nat | NoCb | OfPool nat

datatype native_close = CloseImpl nat close_call | CloseTable close_call

record ndb_session =
  hasImpl :: bool
  isOpenNdbSession :: bool

record session_pool =
  sessions :: "ndb_session list"
  ndbSessionFreeList :: "nat list"
  pool_min :: nat
  pool_max :: nat
  connUp :: bool
  connDisconnecting :: bool
  fetching :: "(nat \<times> nat) list"
  prefetching :: "nat option"
  held :: "nat list"
  session_answers :: "(nat \<times> nat option) list"
  close_requests :: "nat list"
  close_answers :: "nat list"
  execQueue :: "native_close list"
  destroyed :: "nat list"
  openTables :: nat
  nclose :: "int list"
  releases :: nat

definition new_session :: "bool \<Rightarrow> session_pool \<Rightarrow> nat \<times> session_pool" where
  "new_session opened p = (length (sessions p),
     p\<lparr>sessions := sessions p @ [\<lparr>hasImpl = False, isOpenNdbSession = opened\<rparr>]\<rparr>)"

definition upd_session :: "nat \<Rightarrow> (ndb_session \<Rightarrow> ndb_session) \<Rightarrow> session_pool \<Rightarrow> session_pool" where
  "upd_session i f p = p\<lparr>sessions := (sessions p)[i := f (sessions p ! i)]\<rparr>"

definition prefetch_fetch :: "session_pool \<Rightarrow> session_pool" where
  "prefetch_fetch p = (let (i, p1) = new_session False p in p1\<lparr>prefetching := Some i\<rparr>)"

definition prefetchSession :: "session_pool \<Rightarrow> session_pool" where
  "prefetchSession p = (if connDisconnecting p then p else prefetch_fetch p)"

definition pool_connected :: "nat \<Rightarrow> nat \<Rightarrow> session_pool" where
  "pool_connected mn mx =
     prefetchSession \<lparr>sessions = [], ndbSessionFreeList = [], pool_min = mn, pool_max = mx,
       connUp = True, connDisconnecting = False, fetching = [], prefetching = None, held = [],
       session_answers = [], close_requests = [], close_answers = [], execQueue = [], destroyed = [],
       openTables = 0, nclose = [], releases = 0\<rparr>"

text \<open>
  When one of the native objects that the \<open>k\<close>th close of the pool closes is gone, it is counted; the
  last one releases the connection.
\<close>

definition onNdbClose :: "nat \<Rightarrow> session_pool \<Rightarrow> session_pool" where
  "onNdbClose k p0 = (let p = p0\<lparr>nclose := (nclose p0)[k := nclose p0 ! k - 1]\<rparr> in
     if nclose p ! k = 0 then p\<lparr>releases := Suc (releases p)\<rparr> else p)"

fun call_back :: "close_call \<Rightarrow> session_pool \<Rightarrow> session_pool" where
  "call_back (UserCb cb) p = p\<lparr>close_answers := close_answers p @ [cb]\<rparr>"
| "call_back NoCb p = p"
| "call_back (OfPool k) p = onNdbClose k p"

text \<open>Closing the native object of a session throws when there is none.\<close>

definition closeDbSessionImpl :: "bool \<Rightarrow> nat \<Rightarrow> close_call \<Rightarrow> session_pool \<Rightarrow> session_pool res" where
  "closeDbSessionImpl impl i k p =
     (if impl then Inr (p\<lparr>execQueue := execQueue p @ [CloseImpl i k], destroyed := destroyed p @ [i]\<rparr>)
      else Inl TypeError)"

definition closeNdb :: "close_call \<Rightarrow> session_pool \<Rightarrow> session_pool" where
  "closeNdb k p = p\<lparr>execQueue := execQueue p @ [CloseTable k]\<rparr>"

definition closeNdbSession :: "nat \<Rightarrow> close_call \<Rightarrow> session_pool \<Rightarrow> session_pool res" where
  "closeNdbSession i k p =
     (if \<not> isOpenNdbSession (sessions p ! i) then Inr (call_back k p)
      else if \<not> connUp p then Inr (call_back k p)
      else if connDisconnecting p \<or> pool_max p < length (ndbSessionFreeList p) then
        (let impl = hasImpl (sessions p ! i); p1 = upd_session i (\<lambda>s. s\<lparr>hasImpl := False\<rparr>) p
         in closeDbSessionImpl impl i k p1)
      else
        (let p1 = upd_session i (\<lambda>s. s\<lparr>isOpenNdbSession := False\<rparr>) p
         in Inr (call_back k (p1\<lparr>ndbSessionFreeList := ndbSessionFreeList p1 @ [i]\<rparr>))))"

definition prefetch_onFetch :: "bool \<Rightarrow> nat \<Rightarrow> session_pool \<Rightarrow> session_pool res" where
  "prefetch_onFetch ok i p0 =
     (let p = p0\<lparr>prefetching := None\<rparr> in
      if \<not> ok then Inr p
      else
        let p1 = upd_session i (\<lambda>s. s\<lparr>hasImpl := True\<rparr>) p in
        if connDisconnecting p1 then closeNdbSession i NoCb p1
        else
          let p2 = p1\<lparr>ndbSessionFreeList := ndbSessionFreeList p1 @ [i]\<rparr> in
          Inr (if length (ndbSessionFreeList p2) < pool_min p2 then prefetch_fetch p2 else p2))"

definition getDBSession :: "nat \<Rightarrow> session_pool \<Rightarrow> session_pool" where
  "getDBSession cb p =
     (if ndbSessionFreeList p \<noteq> [] then
        (let i = last (ndbSessionFreeList p);
             p1 = p\<lparr>ndbSessionFreeList := butlast (ndbSessionFreeList p), held := held p @ [i]\<rparr>
         in (upd_session i (\<lambda>s. s\<lparr>isOpenNdbSession := True\<rparr>) p1)
              \<lparr>session_answers := session_answers p @ [(cb, Some i)]\<rparr>)
      else
        (let (i, p1) = new_session True p in p1\<lparr>fetching := fetching p1 @ [(i, cb)]\<rparr>))"

text \<open>The NDB API has opened the session of the \<open>k\<close>th user who waits, or failed to.\<close>

definition session_fetched :: "nat \<Rightarrow> bool \<Rightarrow> session_pool \<Rightarrow> session_pool" where
  "session_fetched k ok p =
     (let (i, cb) = fetching p ! k; p1 = p\<lparr>fetching := remove_nth k (fetching p)\<rparr> in
      if ok then (upd_session i (\<lambda>s. s\<lparr>hasImpl := True\<rparr>) p1)
                   \<lparr>session_answers := session_answers p @ [(cb, Some i)], held := held p @ [i]\<rparr>
      else p1\<lparr>session_answers := session_answers p @ [(cb, None)]\<rparr>)"

text \<open>
  The close of the pool: one native close for every open table and every free session. When there is
  nothing to close the connection is released at once; the callback of the close is then taken to act
  after the close has returned.
\<close>

primrec close_tables :: "nat \<Rightarrow> nat \<Rightarrow> session_pool \<Rightarrow> session_pool" where
  "close_tables k 0 p = p"
| "close_tables k (Suc n) p = close_tables k n (closeNdb (OfPool k) (p\<lparr>openTables := n\<rparr>))"

primrec close_free :: "nat \<Rightarrow> nat list \<Rightarrow> session_pool \<Rightarrow> session_pool res" where
  "close_free k [] p = Inr p"
| "close_free k (i # is) p = rbind
     (closeDbSessionImpl (hasImpl (sessions p ! i)) i (OfPool k) (p\<lparr>ndbSessionFreeList := rev is\<rparr>))
     (close_free k is)"

definition pool_close :: "session_pool \<Rightarrow> session_pool res" where
  "pool_close p0 =
     (let n = int (length (ndbSessionFreeList p0)) + int (openTables p0); k = length (nclose p0);
          p1 = (if n = 0 then onNdbClose k (p0\<lparr>nclose := nclose p0 @ [1]\<rparr>)
                else p0\<lparr>nclose := nclose p0 @ [n]\<rparr>);
          p2 = close_tables k (openTables p1) p1
      in close_free k (rev (ndbSessionFreeList p2)) p2)"

datatype pool_event =
    GetSession nat
  | Fetched nat bool
  | Prefetched bool
  | CloseSession nat nat
  | NativeClosed
  | TableOpened
  | Disconnecting
  | ConnectionGone
  | ClosePool

text \<open>
  A user can close any session that was ever given to a user, and as often as they like: also one that
  is on the free list again, that another user has by now, or that is gone.
\<close>

definition given :: "session_pool \<Rightarrow> nat \<Rightarrow> bool" where
  "given p i \<longleftrightarrow> list_ex (\<lambda>(cb, a). a = Some i) (session_answers p)"

fun pool_step :: "pool_event \<Rightarrow> session_pool \<Rightarrow> session_pool res" where
  "pool_step (GetSession cb) p = Inr (getDBSession cb p)"
| "pool_step (Fetched k ok) p = Inr (if k < length (fetching p) then session_fetched k ok p else p)"
| "pool_step (Prefetched ok) p = (case prefetching p of None \<Rightarrow> Inr p | Some i \<Rightarrow> prefetch_onFetch ok i p)"
| "pool_step (CloseSession i cb) p = (if given p i
     then closeNdbSession i (UserCb cb)
       (p\<lparr>held := remove1 i (held p), close_requests := close_requests p @ [cb]\<rparr>)
     else Inr p)"
| "pool_step NativeClosed p = Inr (case execQueue p of [] \<Rightarrow> p
     | CloseImpl i k # q \<Rightarrow> call_back k (p\<lparr>execQueue := q\<rparr>)
     | CloseTable k # q \<Rightarrow> call_back k (p\<lparr>execQueue := q\<rparr>))"
| "pool_step TableOpened p = Inr (p\<lparr>openTables := Suc (openTables p)\<rparr>)"
| "pool_step Disconnecting p = Inr (p\<lparr>connDisconnecting := True\<rparr>)"
| "pool_step ConnectionGone p = Inr (p\<lparr>connUp := False\<rparr>)"
| "pool_step ClosePool p = pool_close p"

fun pool_run :: "pool_event list \<Rightarrow> session_pool \<Rightarrow> session_pool res" where
  "pool_run [] p = Inr p"
| "pool_run (ev # evs) p = rbind (pool_step ev p) (pool_run evs)"

section \<open>A connection that has failed\<close>

lemma ndb_connects_Nil: "ndb_connects user [] c = Some c"
  by (subst ndb_connects.simps) simp

lemma ndb_connects_Cons:
  "ndb_connects user (cb # rest) c =
     ndb_connects user ((if isConnected c then user cb None else []) @ rest) (ndb_connect cb c)"
  by (subst ndb_connects.simps) simp

lemma runCallbacks_end: "\<not> i < length (pendingConnections c) \<Longrightarrow> runCallbacks user out i c = Some c"
  by (subst runCallbacks.simps) simp

lemma runCallbacks_next:
  "i < length (pendingConnections c) \<Longrightarrow> runCallbacks user out i c = Option.bind
     (ndb_connects user (user (pendingConnections c ! i) out)
       (c\<lparr>connect_answers := connect_answers c @ [(pendingConnections c ! i, out)]\<rparr>))
     (runCallbacks user out (Suc i))"
  by (subst runCallbacks.simps) simp

text \<open>On a connection that is not open the requests are kept; on an open one each is answered.\<close>

lemma connects_kept:
  assumes "\<not> isConnected c" "pendingConnections c \<noteq> []"
  shows "ndb_connects user cbs c =
    Some (c\<lparr>requested := requested c @ cbs, pendingConnections := pendingConnections c @ cbs\<rparr>)"
  using assms
proof (induction cbs arbitrary: c)
  case (Cons cb cbs)
  have "ndb_connect cb c = c\<lparr>requested := requested c @ [cb], pendingConnections := pendingConnections c @ [cb]\<rparr>"
    using Cons.prems by (simp add: ndb_connect_def)
  with Cons.prems Cons.IH[of "c\<lparr>requested := requested c @ [cb], pendingConnections := pendingConnections c @ [cb]\<rparr>"]
  show ?case by (simp add: ndb_connects_Cons)
qed (simp add: ndb_connects_Nil)

definition answered :: "nat list \<Rightarrow> ndb_connection \<Rightarrow> ndb_connection" where
  "answered xs c = c\<lparr>requested := requested c @ xs,
     connect_answers := connect_answers c @ map (\<lambda>cb. (cb, None)) xs\<rparr>"

lemma answered_simps [simp]:
  "isConnected (answered xs c) = isConnected c" "pendingConnections (answered xs c) = pendingConnections c"
  "phase (answered xs c) = phase c" "native_connects (answered xs c) = native_connects c"
  "requested (answered xs c) = requested c @ xs"
  "connect_answers (answered xs c) = connect_answers c @ map (\<lambda>cb. (cb, None)) xs"
  "answered ys (answered xs c) = answered (xs @ ys) c" "answered [] c = c"
  by (simp_all add: answered_def)

lemma connects_answered:
  assumes "ndb_connects user cbs c = Some c'"
  shows "isConnected c \<longrightarrow> (\<exists>xs. c' = answered xs c \<and> ((\<forall>cb. user cb None = []) \<longrightarrow> xs = cbs))"
proof (rule ndb_connects.raw_induct[where P = "\<lambda>user cbs c c'. isConnected c \<longrightarrow>
    (\<exists>xs. c' = answered xs c \<and> ((\<forall>cb. user cb None = []) \<longrightarrow> xs = cbs))", OF _ assms], goal_cases)
  case (1 rec user cbs c c')
  show ?case
  proof
    assume up: "isConnected c"
    show "\<exists>xs. c' = answered xs c \<and> ((\<forall>cb. user cb None = []) \<longrightarrow> xs = cbs)"
    proof (cases cbs)
      case Nil
      with 1(2) show ?thesis by (intro exI[of _ "[]"]) simp
    next
      case (Cons cb rest)
      have c1: "ndb_connect cb c = answered [cb] c" using up by (simp add: ndb_connect_def answered_def)
      with 1(2) Cons up have "rec user (user cb None @ rest) (answered [cb] c) = Some c'" by simp
      from 1(1)[OF this] up obtain xs where "c' = answered xs (answered [cb] c)"
        "(\<forall>cb. user cb None = []) \<longrightarrow> xs = user cb None @ rest" by auto
      with Cons show ?thesis by (intro exI[of _ "cb # xs"]) simp
    qed
  qed
qed

lemma quiet_connects_return: "(\<forall>cb. user cb None = []) \<Longrightarrow> isConnected c \<Longrightarrow> ndb_connects user cbs c = Some (answered cbs c)"
proof (induction cbs arbitrary: c)
  case (Cons cb cbs)
  then show ?case by (simp add: ndb_connects_Cons ndb_connect_def answered_def)
qed (simp add: ndb_connects_Nil)

text \<open>The loop over the callbacks after an error: it answers all that it finds, the appended ones too.\<close>

definition all_failed :: "connect_error \<Rightarrow> nat \<Rightarrow> ndb_connection \<Rightarrow> bool" where
  "all_failed e i c \<longleftrightarrow> \<not> isConnected c \<and> pendingConnections c \<noteq> [] \<and> phase c = NdbIdle \<and> native_connects c = 1 \<and>
     requested c = pendingConnections c \<and> i \<le> length (pendingConnections c) \<and>
     connect_answers c = map (\<lambda>cb. (cb, Some e)) (take i (pendingConnections c))"

lemma run_failed:
  assumes "runCallbacks user out i c = Some c'"
  shows "\<forall>e. out = Some e \<longrightarrow> all_failed e i c \<longrightarrow> all_failed e (length (pendingConnections c')) c'"
proof (rule runCallbacks.raw_induct[where P = "\<lambda>user out i c c'. \<forall>e. out = Some e \<longrightarrow>
    all_failed e i c \<longrightarrow> all_failed e (length (pendingConnections c')) c'", OF _ assms], goal_cases)
  case (1 rec user out i c c')
  show ?case
  proof (intro allI impI)
    fix e
    assume e: "out = Some e" and inv: "all_failed e i c"
    show "all_failed e (length (pendingConnections c')) c'"
    proof (cases "i < length (pendingConnections c)")
      case False
      with 1(2) inv show ?thesis by (auto simp: all_failed_def)
    next
      case True
      let ?c = "c\<lparr>connect_answers := connect_answers c @ [(pendingConnections c ! i, out)]\<rparr>"
      let ?cbs = "user (pendingConnections c ! i) out"
      let ?d = "?c\<lparr>requested := requested ?c @ ?cbs, pendingConnections := pendingConnections ?c @ ?cbs\<rparr>"
      have "ndb_connects user ?cbs ?c = Some ?d"
        using inv by (intro connects_kept) (simp_all add: all_failed_def)
      with 1(2) True have "rec user out (Suc i) ?d = Some c'" by simp
      moreover have "all_failed e (Suc i) ?d"
        using inv True e by (simp add: all_failed_def take_Suc_conv_app_nth)
      ultimately show ?thesis using 1(1) e by blast
    qed
  qed
qed

text \<open>The loop after success: what the callbacks request is answered in between.\<close>

definition all_answered :: "reaction \<Rightarrow> nat \<Rightarrow> ndb_connection \<Rightarrow> bool" where
  "all_answered user i c \<longleftrightarrow> isConnected c \<and> pendingConnections c \<noteq> [] \<and> phase c = NdbIdle \<and> native_connects c = 1 \<and>
     mset (map fst (connect_answers c)) + mset (drop i (pendingConnections c)) = mset (requested c) \<and>
     snd ` set (connect_answers c) \<subseteq> {None} \<and>
     ((\<forall>cb. user cb None = []) \<longrightarrow> map fst (connect_answers c) @ drop i (pendingConnections c) = requested c)"

lemma run_answered:
  assumes "runCallbacks user out i c = Some c'"
  shows "out = None \<longrightarrow> all_answered user i c \<longrightarrow> all_answered user (length (pendingConnections c')) c'"
proof (rule runCallbacks.raw_induct[where P = "\<lambda>user out i c c'. out = None \<longrightarrow>
    all_answered user i c \<longrightarrow> all_answered user (length (pendingConnections c')) c'", OF _ assms], goal_cases)
  case (1 rec user out i c c')
  show ?case
  proof (intro impI)
    assume out: "out = None" and inv: "all_answered user i c"
    show "all_answered user (length (pendingConnections c')) c'"
    proof (cases "i < length (pendingConnections c)")
      case False
      with 1(2) inv show ?thesis by (auto simp: all_answered_def)
    next
      case True
      let ?cb = "pendingConnections c ! i"
      let ?c = "c\<lparr>connect_answers := connect_answers c @ [(?cb, out)]\<rparr>"
      from 1(2) True obtain d where d: "ndb_connects user (user ?cb out) ?c = Some d" "rec user out (Suc i) d = Some c'"
        by (auto simp: bind_eq_Some_conv)
      have "isConnected ?c" using inv by (simp add: all_answered_def)
      with connects_answered[OF d(1)] obtain xs where xs: "d = answered xs ?c"
        "(\<forall>cb. user cb None = []) \<longrightarrow> xs = user ?cb out" by blast
      have drop: "drop i (pendingConnections c) = ?cb # drop (Suc i) (pendingConnections c)"
        using True by (simp add: Cons_nth_drop_Suc)
      have "all_answered user (Suc i) d"
        using inv xs(2) out by (auto simp: xs(1) all_answered_def drop comp_def)
      with 1(1)[OF d(2)] out show ?thesis by blast
    qed
  qed
qed

text \<open>
  The four states of a connection: not used yet, waiting for the NDB API, connected, and dead.
\<close>

definition dead :: "ndb_connection \<Rightarrow> bool" where
  "dead c \<longleftrightarrow> phase c = NdbIdle \<and> \<not> isConnected c \<and> pendingConnections c \<noteq> []"

lemma dead_step:
  assumes "dead c"
  shows "\<exists>c'. conn_step user ev c = Some c' \<and> dead c' \<and> connect_answers c' = connect_answers c \<and>
    native_connects c' = native_connects c"
proof (cases ev)
  case (Connect cb)
  with assms connects_kept[of c user "[cb]"] show ?thesis by (simp add: dead_def)
qed (use assms in \<open>auto simp: dead_def ndb_close_def disconnect_def split: list.splits\<close>)

lemma dead_run:
  assumes "dead c"
  shows "\<exists>c'. conn_run user evs c = Some c' \<and> connect_answers c' = connect_answers c \<and>
    native_connects c' = native_connects c"
  using assms
proof (induction evs arbitrary: c)
  case (Cons ev evs)
  obtain c1 where "conn_step user ev c = Some c1" "dead c1" "connect_answers c1 = connect_answers c"
    "native_connects c1 = native_connects c" using dead_step[OF Cons.prems] by blast
  with Cons.IH[of c1] show ?case by simp
qed simp

definition conn_inv :: "reaction \<Rightarrow> ndb_connection \<Rightarrow> bool" where
  "conn_inv user c \<longleftrightarrow>
     (if pendingConnections c = []
      then phase c = NdbIdle \<and> \<not> isConnected c \<and> requested c = [] \<and> connect_answers c = [] \<and> native_connects c = 0
      else native_connects c = 1 \<and>
        (if phase c \<noteq> NdbIdle
         then \<not> isConnected c \<and> requested c = pendingConnections c \<and> connect_answers c = []
         else (isConnected c \<longrightarrow> mset (map fst (connect_answers c)) = mset (requested c) \<and>
                 snd ` set (connect_answers c) \<subseteq> {None}) \<and>
              mset (map fst (connect_answers c)) \<subseteq># mset (requested c) \<and>
              ((\<forall>cb. user cb None = []) \<longrightarrow> prefix (map fst (connect_answers c)) (requested c))))"

lemma conn_inv_new: "conn_inv user (new_NdbConnection s)"
  by (simp add: conn_inv_def new_NdbConnection_def)

lemma conn_inv_failed: "all_failed e (length (pendingConnections c)) c \<Longrightarrow> conn_inv user c"
  by (simp add: all_failed_def conn_inv_def comp_def)

lemma conn_inv_answered: "all_answered user (length (pendingConnections c)) c \<Longrightarrow> conn_inv user c"
  by (auto simp: all_answered_def conn_inv_def)

lemma conn_inv_connect:
  assumes "conn_inv user c" "ndb_connects user [cb] c = Some c'"
  shows "conn_inv user c'"
proof (cases "pendingConnections c = []")
  case True
  with assms have "c' = ndb_connect cb c" by (simp add: conn_inv_def ndb_connects_Cons ndb_connects_Nil)
  with assms(1) True show ?thesis by (auto simp: conn_inv_def ndb_connect_def Let_def)
next
  case pend: False
  show ?thesis
  proof (cases "isConnected c")
    case False
    with pend assms connects_kept[of c user "[cb]"] show ?thesis
      by (auto simp: conn_inv_def subset_mset.add_increasing2 intro: subset_mset.order_trans)
  next
    case True
    with connects_answered[OF assms(2)] obtain xs where xs: "c' = answered xs c"
      "(\<forall>cb. user cb None = []) \<longrightarrow> xs = [cb]" by blast
    from assms(1) pend True have idle: "phase c = NdbIdle" by (auto simp: conn_inv_def split: if_splits)
    have "requested c = map fst (connect_answers c)" if "\<forall>cb. user cb None = []"
    proof -
      from assms(1) pend True idle that have "prefix (map fst (connect_answers c)) (requested c)"
        "mset (map fst (connect_answers c)) = mset (requested c)" by (simp_all add: conn_inv_def)
      then show ?thesis by (metis mset_eq_length append_Nil2 append_eq_conv_conj length_append prefixE add_left_cancel list.size(3) length_0_conv)
    qed
    with assms(1) pend True idle xs(1) show ?thesis
      by (auto simp: conn_inv_def comp_def simp flip: mset_map)
  qed
qed

lemma conn_inv_step:
  assumes "conn_inv user c" "conn_step user ev c = Some c'"
  shows "conn_inv user c'"
proof (cases ev)
  case (Connect cb)
  with assms conn_inv_connect show ?thesis by simp
next
  case (Connected rval)
  show ?thesis
  proof (cases "phase c = NdbConnecting \<and> rval \<noteq> 0")
    case True
    with assms(1) have "all_failed ConnectFailed 0 (c\<lparr>phase := NdbIdle\<rparr>)"
      by (auto simp: conn_inv_def all_failed_def split: if_splits)
    moreover from True Connected assms(2)
    have "runCallbacks user (Some ConnectFailed) 0 (c\<lparr>phase := NdbIdle\<rparr>) = Some c'" by (simp add: onConnected_def)
    ultimately show ?thesis using run_failed conn_inv_failed by blast
  next
    case False
    with Connected assms show ?thesis by (auto simp: conn_inv_def onConnected_def split: if_splits)
  qed
next
  case (Ready n)
  show ?thesis
  proof (cases "phase c = NdbWaitingReady")
    case True
    with assms(1) have "all_failed ReadyTimeout 0 (c\<lparr>phase := NdbIdle\<rparr>)"
      "all_answered user 0 (c\<lparr>phase := NdbIdle, isConnected := True\<rparr>)"
      by (auto simp: conn_inv_def all_failed_def all_answered_def split: if_splits)
    moreover from True Ready assms(2)
    have "runCallbacks user (Some ReadyTimeout) 0 (c\<lparr>phase := NdbIdle\<rparr>) = Some c' \<or>
        runCallbacks user None 0 (c\<lparr>phase := NdbIdle, isConnected := True\<rparr>) = Some c'"
      by (auto simp: onReady_def Let_def split: if_splits)
    ultimately show ?thesis using run_failed conn_inv_failed run_answered conn_inv_answered by blast
  next
    case False
    with Ready assms show ?thesis by simp
  qed
next
  case (Close cb)
  with assms show ?thesis
    by (simp add: conn_inv_def ndb_close_def disconnect_def split: if_splits) fastforce+
next
  case DisconnectTimer
  with assms show ?thesis
    by (auto simp: conn_inv_def disconnect_def split: if_splits list.splits)
qed

lemma conn_inv_run: "conn_run user evs c = Some c' \<Longrightarrow> conn_inv user c \<Longrightarrow> conn_inv user c'"
proof (induction evs arbitrary: c)
  case (Cons ev evs)
  then obtain c1 where "conn_step user ev c = Some c1" "conn_run user evs c1 = Some c'"
    by (auto simp: bind_eq_Some_conv)
  with Cons conn_inv_step show ?case by blast
qed simp

text \<open>
  C39: Whatever requests the callbacks make when they are called: each request for a connection is
  answered at most once, by at most one attempt to connect; while the connection is open, every one
  has been answered, without an error; and when no callback requests again after success, the answers
  come in the order of the requests. But when one has been answered with an error (the requests that
  the callbacks make meanwhile included), whatever happens later returns, but answers no request and
  makes no further attempt.
\<close>

theorem failed_connection_is_dead:
  assumes "conn_run user evs (new_NdbConnection s) = Some c"
  shows "mset (map fst (connect_answers c)) \<subseteq># mset (requested c) \<and> native_connects c \<le> 1 \<and>
    (isConnected c \<longrightarrow> mset (map fst (connect_answers c)) = mset (requested c) \<and> snd ` set (connect_answers c) \<subseteq> {None}) \<and>
    ((\<forall>cb. user cb None = []) \<longrightarrow> prefix (map fst (connect_answers c)) (requested c)) \<and>
    ((\<exists>cb e. (cb, Some e) \<in> set (connect_answers c)) \<longrightarrow>
      (\<forall>evs'. \<exists>c'. conn_run user evs' c = Some c' \<and> connect_answers c' = connect_answers c \<and>
        native_connects c' = native_connects c))"
proof -
  have inv: "conn_inv user c" using assms conn_inv_new conn_inv_run by blast
  have "dead c" if e: "(cb, Some e) \<in> set (connect_answers c)" for cb e
  proof -
    from inv e have "pendingConnections c \<noteq> []" "phase c = NdbIdle" by (auto simp: conn_inv_def split: if_splits)
    moreover with inv e have "\<not> isConnected c" by (fastforce simp: conn_inv_def)
    ultimately show ?thesis by (simp add: dead_def)
  qed
  then have "\<exists>c'. conn_run user evs' c = Some c' \<and> connect_answers c' = connect_answers c \<and>
      native_connects c' = native_connects c" if "\<exists>cb e. (cb, Some e) \<in> set (connect_answers c)" for evs'
    using that dead_run by blast
  with inv show ?thesis by (auto simp: conn_inv_def split: if_splits)
qed

text \<open>Callback 1 asks again when it gets an error, and is answered with the same error.\<close>

definition asks_again :: reaction where
  "asks_again cb out = (if cb = 1 \<and> out \<noteq> None then [7] else [])"

theorem failed_connection_is_dead_witness:
  "\<exists>c c'. conn_run asks_again [Connect 1, Connect 2, Connected (-1)] (new_NdbConnection ''localhost'') = Some c \<and>
     conn_run asks_again [Connect 3, Connected 0, Ready 1] c = Some c' \<and>
     connect_answers c' = [(1, Some ConnectFailed), (2, Some ConnectFailed), (7, Some ConnectFailed)]"
proof -
  obtain c where c: "conn_run asks_again [Connect 1, Connect 2, Connected (-1)] (new_NdbConnection ''localhost'') = Some c"
      "connect_answers c = [(1, Some ConnectFailed), (2, Some ConnectFailed), (7, Some ConnectFailed)]"
    by (simp add: new_NdbConnection_def ndb_connect_def onConnected_def ndb_connects_Nil ndb_connects_Cons
        runCallbacks_end runCallbacks_next asks_again_def Let_def)
  from failed_connection_is_dead[OF c(1)] c(2)
  have "\<exists>c'. conn_run asks_again [Connect 3, Connected 0, Ready 1] c = Some c' \<and> connect_answers c' = connect_answers c"
    by (metis list.set_intros(1))
  with c show ?thesis by metis
qed

text \<open>
  A callback that asks for the connection again whenever it gets an error keeps the loop running for
  ever: the program hangs, without a further attempt.
\<close>

lemma retry_in_callback_hangs:
  assumes "\<And>cb. user cb (Some e) \<noteq> []" "\<not> isConnected c" "i < length (pendingConnections c)"
  shows "runCallbacks user (Some e) i c = None"
proof (rule ccontr)
  have "\<forall>e. out = Some e \<longrightarrow> (\<forall>cb. user cb (Some e) \<noteq> []) \<longrightarrow> \<not> isConnected c \<longrightarrow> i < length (pendingConnections c) \<longrightarrow> False"
    if "runCallbacks user out i c = Some c'" for user out i c c'
  proof (rule runCallbacks.raw_induct[where P = "\<lambda>user out i c c'. \<forall>e. out = Some e \<longrightarrow>
      (\<forall>cb. user cb (Some e) \<noteq> []) \<longrightarrow> \<not> isConnected c \<longrightarrow> i < length (pendingConnections c) \<longrightarrow> False",
      OF _ that], goal_cases)
    case (1 rec user out i c c')
    show ?case
    proof (intro allI impI)
      fix e
      assume e: "out = Some e" and u: "\<forall>cb. user cb (Some e) \<noteq> []" and c: "\<not> isConnected c" "i < length (pendingConnections c)"
      let ?c = "c\<lparr>connect_answers := connect_answers c @ [(pendingConnections c ! i, out)]\<rparr>"
      let ?cbs = "user (pendingConnections c ! i) out"
      let ?d = "?c\<lparr>requested := requested ?c @ ?cbs, pendingConnections := pendingConnections ?c @ ?cbs\<rparr>"
      have "pendingConnections c \<noteq> []" using c(2) by auto
      then have "ndb_connects user ?cbs ?c = Some ?d" using c by (intro connects_kept) simp_all
      with 1(2) c(2) have "rec user out (Suc i) ?d = Some c'" by simp
      moreover have "Suc i < length (pendingConnections ?d)" using c(2) u e by (cases ?cbs) auto
      ultimately show False using 1(1) e u c(1) by fastforce
    qed
  qed
  moreover assume "runCallbacks user (Some e) i c \<noteq> None"
  ultimately show False using assms by blast
qed

text \<open>Callbacks that request nothing let every step return.\<close>

lemma quiet_no_requests: "quiet cb out = []"
  by (simp add: quiet_def)

lemma quiet_runCallbacks:
  "runCallbacks quiet out i c =
     Some (c\<lparr>connect_answers := connect_answers c @ map (\<lambda>cb. (cb, out)) (drop i (pendingConnections c))\<rparr>)"
proof (induction "length (pendingConnections c) - i" arbitrary: i c)
  case 0
  then show ?case by (simp add: runCallbacks_end)
next
  case (Suc n)
  let ?c = "c\<lparr>connect_answers := connect_answers c @ [(pendingConnections c ! i, out)]\<rparr>"
  have i: "i < length (pendingConnections c)" using Suc.hyps(2) by simp
  have "runCallbacks quiet out i c = runCallbacks quiet out (Suc i) ?c"
    using i by (simp add: runCallbacks_next quiet_def ndb_connects_Nil)
  also have "\<dots> = Some (?c\<lparr>connect_answers := connect_answers ?c @ map (\<lambda>cb. (cb, out)) (drop (Suc i) (pendingConnections ?c))\<rparr>)"
    using Suc.hyps(2) by (intro Suc.hyps(1)) simp
  finally show ?case by (simp flip: Cons_nth_drop_Suc[OF i])
qed

lemma quiet_step_returns: "conn_step quiet ev c = Some (quiet_step ev c)"
  by (cases ev) (simp_all add: quiet_step_def onConnected_def onReady_def quiet_runCallbacks ndb_connects_Cons ndb_connects_Nil
      quiet_def Let_def)

section \<open>Connections that linger\<close>

text \<open>
  A run in which no connection ever has two linger timers at once: it is not released to zero again
  while the timer of an earlier release is pending.
\<close>

definition one_timer :: "base \<Rightarrow> bool" where
  "one_timer b \<longleftrightarrow> distinct (map (\<lambda>(s, i, cb). i) (lingering b))"

fun calm_run :: "base_event list \<Rightarrow> base \<Rightarrow> bool" where
  "calm_run [] b = one_timer b"
| "calm_run (ev # evs) b = (one_timer b \<and>
     (case base_step ev b of Inl e \<Rightarrow> True | Inr b' \<Rightarrow> calm_run evs b'))"

definition lingers :: "nat \<Rightarrow> base \<Rightarrow> bool" where
  "lingers i b \<longleftrightarrow> i \<in> (\<lambda>(s, i, cb). i) ` set (lingering b)"

definition closed_conn :: "ndb_connection \<Rightarrow> bool" where
  "closed_conn c \<longleftrightarrow> isDisconnecting c \<or> 0 < native_deletes c"

definition conn_in_table :: "base \<Rightarrow> nat \<Rightarrow> bool" where
  "conn_in_table b i \<longleftrightarrow> baseConnections b (connectString (conns b ! i)) = Some i"

definition base_inv :: "base \<Rightarrow> bool" where
  "base_inv b \<longleftrightarrow>
     (\<forall>s i. baseConnections b s = Some i \<longrightarrow> i < length (conns b) \<and> connectString (conns b ! i) = s) \<and>
     (\<forall>i < length (conns b). 0 \<le> referenceCount (conns b ! i) \<and>
        (0 < referenceCount (conns b ! i) \<or> lingers i b \<longrightarrow> conn_in_table b i) \<and>
        (conn_in_table b i \<longrightarrow> \<not> closed_conn (conns b ! i) \<and> disconnect_timers (conns b ! i) = [])) \<and>
     (\<forall>(s, i, cb) \<in> set (lingering b). i < length (conns b) \<and> connectString (conns b ! i) = s)"

lemma base_inv_new: "base_inv new_base"
  by (simp add: base_inv_def new_base_def)

lemma quiet_step_frame:
  assumes "\<forall>cb. ev \<noteq> Close cb"
  shows "connectString (quiet_step ev c) = connectString c \<and> referenceCount (quiet_step ev c) = referenceCount c \<and>
     (disconnect_timers c = [] \<longrightarrow> disconnect_timers (quiet_step ev c) = [] \<and>
        closed_conn (quiet_step ev c) = closed_conn c)"
  using assms
  by (cases ev) (auto simp: quiet_step_def ndb_connects_Cons ndb_connects_Nil ndb_connect_def onConnected_def
      onReady_def quiet_runCallbacks quiet_no_requests disconnect_def closed_conn_def Let_def split: list.splits)

lemma upd_conn_simps [simp]:
  "length (conns (upd_conn i f b)) = length (conns b)"
  "baseConnections (upd_conn i f b) = baseConnections b" "lingering (upd_conn i f b) = lingering b"
  "j < length (conns b) \<Longrightarrow> conns (upd_conn i f b) ! j = (if j = i then f (conns b ! i) else conns b ! j)"
  by (auto simp: upd_conn_def)

lemma addRef_simps [simp]:
  "connectString (addRef n c) = connectString c" "referenceCount (addRef n c) = referenceCount c + n"
  "closed_conn (addRef n c) = closed_conn c" "disconnect_timers (addRef n c) = disconnect_timers c"
  by (simp_all add: addRef_def closed_conn_def)

lemma lingers_iff: "lingers i b \<longleftrightarrow> (\<exists>s cb. (s, i, cb) \<in> set (lingering b))"
  by (force simp: lingers_def)

lemma base_invI:
  assumes "\<And>s i. baseConnections b s = Some i \<Longrightarrow> i < length (conns b) \<and> connectString (conns b ! i) = s"
    and "\<And>i. i < length (conns b) \<Longrightarrow> 0 \<le> referenceCount (conns b ! i)"
    and "\<And>i. i < length (conns b) \<Longrightarrow> 0 < referenceCount (conns b ! i) \<or> lingers i b \<Longrightarrow> conn_in_table b i"
    and "\<And>i. i < length (conns b) \<Longrightarrow> conn_in_table b i \<Longrightarrow>
      \<not> closed_conn (conns b ! i) \<and> disconnect_timers (conns b ! i) = []"
    and "\<And>s i cb. (s, i, cb) \<in> set (lingering b) \<Longrightarrow> i < length (conns b) \<and> connectString (conns b ! i) = s"
  shows "base_inv b"
  using assms unfolding base_inv_def by blast

lemma base_invD:
  assumes "base_inv b"
  shows "baseConnections b s = Some i \<Longrightarrow> i < length (conns b)" "baseConnections b s = Some i \<Longrightarrow> connectString (conns b ! i) = s"
    "i < length (conns b) \<Longrightarrow> 0 \<le> referenceCount (conns b ! i)"
    "i < length (conns b) \<Longrightarrow> 0 < referenceCount (conns b ! i) \<Longrightarrow> conn_in_table b i"
    "lingers i b \<Longrightarrow> conn_in_table b i"
    "i < length (conns b) \<Longrightarrow> conn_in_table b i \<Longrightarrow> \<not> closed_conn (conns b ! i)"
    "i < length (conns b) \<Longrightarrow> conn_in_table b i \<Longrightarrow> disconnect_timers (conns b ! i) = []"
    "(s, i, cb) \<in> set (lingering b) \<Longrightarrow> i < length (conns b)"
    "(s, i, cb) \<in> set (lingering b) \<Longrightarrow> connectString (conns b ! i) = s"
proof -
  from assms have t: "\<And>s i. baseConnections b s = Some i \<Longrightarrow> i < length (conns b) \<and> connectString (conns b ! i) = s"
    and c: "\<And>i. i < length (conns b) \<Longrightarrow> 0 \<le> referenceCount (conns b ! i) \<and>
        (0 < referenceCount (conns b ! i) \<or> lingers i b \<longrightarrow> conn_in_table b i) \<and>
        (conn_in_table b i \<longrightarrow> \<not> closed_conn (conns b ! i) \<and> disconnect_timers (conns b ! i) = [])"
    and l: "\<And>x. x \<in> set (lingering b) \<Longrightarrow> case x of (s, i, cb) \<Rightarrow> i < length (conns b) \<and> connectString (conns b ! i) = s"
    unfolding base_inv_def by blast+
  show "baseConnections b s = Some i \<Longrightarrow> i < length (conns b)" "baseConnections b s = Some i \<Longrightarrow> connectString (conns b ! i) = s"
    using t by blast+
  show "i < length (conns b) \<Longrightarrow> 0 \<le> referenceCount (conns b ! i)"
    "i < length (conns b) \<Longrightarrow> 0 < referenceCount (conns b ! i) \<Longrightarrow> conn_in_table b i"
    "i < length (conns b) \<Longrightarrow> conn_in_table b i \<Longrightarrow> \<not> closed_conn (conns b ! i)"
    "i < length (conns b) \<Longrightarrow> conn_in_table b i \<Longrightarrow> disconnect_timers (conns b ! i) = []"
    using c by blast+
  show ls: "(s, i, cb) \<in> set (lingering b) \<Longrightarrow> i < length (conns b)"
    "(s, i, cb) \<in> set (lingering b) \<Longrightarrow> connectString (conns b ! i) = s" for s i cb
    using l by fastforce+
  show "lingers i b \<Longrightarrow> conn_in_table b i"
  proof -
    assume li: "lingers i b"
    then obtain s cb where "(s, i, cb) \<in> set (lingering b)" by (auto simp: lingers_def)
    then show ?thesis using ls(1) c li by blast
  qed
qed

lemma base_inv_addRef:
  assumes "base_inv b" "baseConnections b s = Some i" "0 \<le> referenceCount (conns b ! i) + n"
  shows "base_inv (upd_conn i (addRef n) b)"
proof -
  note d = base_invD[OF assms(1)]
  have i: "i < length (conns b)" "connectString (conns b ! i) = s" using d assms(2) by auto
  have tab: "conn_in_table (upd_conn i (addRef n) b) j = conn_in_table b j" if "j < length (conns b)" for j
    using that by (simp add: conn_in_table_def)
  have ling: "lingers j (upd_conn i (addRef n) b) = lingers j b" for j by (simp add: lingers_def)
  show ?thesis
  proof (rule base_invI, goal_cases)
    case (1 s' j)
    with d(1,2) show ?case by simp
  next
    case (2 j)
    with d(3) assms(3) show ?case by simp
  next
    case (3 j)
    show ?case
    proof (cases "j = i")
      case True
      then show ?thesis using i assms(2) tab by (simp add: conn_in_table_def)
    next
      case False
      with 3 d(4,5) tab ling show ?thesis by auto
    qed
  next
    case (4 j)
    with d(6,7) tab show ?case by (cases "j = i") simp_all
  next
    case (5 s' j cb)
    with d(8,9) show ?case by (cases "j = i") simp_all
  qed
qed

lemma base_inv_linger:
  assumes "base_inv b" "baseConnections b s = Some i"
  shows "base_inv (b\<lparr>lingering := lingering b @ [(s, i, cb)]\<rparr>)"
proof (rule base_invI, goal_cases)
  case (3 j)
  note d = base_invD[OF assms(1)]
  show ?case
  proof (cases "j = i")
    case True
    with d(2) assms(2) show ?thesis by (simp add: conn_in_table_def)
  next
    case False
    with 3 d(4,5)[of j] show ?thesis by (auto simp: conn_in_table_def lingers_iff)
  qed
next
  case (5 s' j cb')
  with base_invD(1,2,8,9)[OF assms(1)] assms(2) show ?case by auto
next
  case (1 s' j)
  with base_invD(1,2)[OF assms(1)] show ?case by simp
next
  case (2 j)
  with base_invD(3)[OF assms(1)] show ?case by simp
next
  case (4 j)
  with base_invD(6,7)[OF assms(1), of j] show ?case by (simp add: conn_in_table_def)
qed

lemma base_inv_get:
  assumes "base_inv b"
  shows "base_inv (snd (getNdbConnection s b))"
proof (cases "baseConnections b s")
  case (Some i)
  have "0 \<le> referenceCount (conns b ! i) + 1" using base_invD(1,3)[OF assms] Some by fastforce
  with base_inv_addRef[OF assms Some] Some show ?thesis by (simp add: getNdbConnection_def)
next
  case None
  note d = base_invD[OF assms]
  let ?b = "b\<lparr>conns := conns b @ [new_NdbConnection s], baseConnections := (baseConnections b)(s := Some (length (conns b)))\<rparr>"
  have old: "conn_in_table ?b j = conn_in_table b j" if "j < length (conns b)" for j
    using that None by (auto simp: conn_in_table_def nth_append)
  have ling: "lingers j ?b = lingers j b" for j by (simp add: lingers_def)
  have "base_inv ?b"
  proof (rule base_invI, goal_cases)
    case (1 s' j)
    then show ?case using d(1,2) by (auto simp: nth_append new_NdbConnection_def split: if_splits)
  next
    case (2 j)
    then show ?case using d(3) by (auto simp: nth_append new_NdbConnection_def less_Suc_eq)
  next
    case (3 j)
    show ?case
    proof (cases "j < length (conns b)")
      case True
      with 3 d(4,5) old ling show ?thesis by (simp add: nth_append) blast
    next
      case False
      with 3 show ?thesis by (simp add: conn_in_table_def new_NdbConnection_def nth_append)
    qed
  next
    case (4 j)
    show ?case
    proof (cases "j < length (conns b)")
      case True
      with 4 d(6,7) old show ?thesis by (simp add: nth_append)
    next
      case False
      with 4 show ?thesis by (simp add: closed_conn_def new_NdbConnection_def nth_append)
    qed
  next
    case (5 s' j cb)
    with d(8,9) show ?case by (fastforce simp: nth_append)
  qed
  with None show ?thesis by (simp add: getNdbConnection_def Let_def)
qed

lemma set_remove: "set (remove_nth k xs) \<subseteq> set xs"
  by (auto simp: remove_nth_def dest: in_set_takeD in_set_dropD)

lemma closed_other:
  assumes "distinct (map f xs)" "k < length xs" "x \<in> set (remove_nth k xs)"
  shows "f x \<noteq> f (xs ! k)"
proof -
  have "map f xs = map f (take k xs) @ f (xs ! k) # map f (drop (Suc k) xs)"
    using id_take_nth_drop[OF assms(2)] by (metis list.simps(9) map_append)
  with assms(1) have "f (xs ! k) \<notin> f ` set (take k xs @ drop (Suc k) xs)" by auto
  with assms(3) show ?thesis unfolding remove_nth_def by (metis imageI)
qed

lemma base_inv_timer:
  assumes "base_inv b" "one_timer b" "k < length (lingering b)" "lingering b ! k = (s, i, cb)"
  shows "base_inv (closeReally s i cb (b\<lparr>lingering := remove_nth k (lingering b)\<rparr>))"
proof -
  note d = base_invD[OF assms(1)]
  have mem: "(s, i, cb) \<in> set (lingering b)" using assms(3,4) by (metis nth_mem)
  have "lingers i b" using mem by (force simp: lingers_def)
  with d(5) have "conn_in_table b i" by blast
  with mem d(8,9) have i: "i < length (conns b)" "connectString (conns b ! i) = s" "baseConnections b s = Some i"
    by (auto simp: conn_in_table_def)
  let ?b = "b\<lparr>lingering := remove_nth k (lingering b)\<rparr>"
  have gone: "\<not> lingers i ?b"
    using closed_other[OF assms(2)[unfolded one_timer_def] assms(3)] assms(4)
    by (fastforce simp: lingers_def)
  have sub: "lingers j ?b \<Longrightarrow> lingers j b" for j
    using set_remove[of k "lingering b"] by (auto simp: lingers_iff)
  show ?thesis
  proof (cases "referenceCount (conns b ! i) = 0")
    case False
    have "base_inv ?b"
    proof (rule base_invI, goal_cases)
      case (1 s' j)
      with d(1,2) show ?case by simp
    next
      case (2 j)
      with d(3) show ?case by simp
    next
      case (3 j)
      with d(4,5)[of j] sub[of j] show ?case by (auto simp: conn_in_table_def)
    next
      case (4 j)
      with d(6,7)[of j] show ?case by (simp add: conn_in_table_def)
    next
      case (5 s' j cb')
      with d(8,9) set_remove[of k "lingering b"] show ?case by auto
    qed
    with False show ?thesis by (simp add: closeReally_def)
  next
    case True
    let ?b2 = "upd_conn i (ndb_close cb) (?b\<lparr>baseConnections := (baseConnections b)(s := None)\<rparr>)"
    have cs: "connectString (ndb_close cb c) = connectString c" "referenceCount (ndb_close cb c) = referenceCount c" for c
      by (auto simp: ndb_close_def disconnect_def)
    have out: "\<not> conn_in_table ?b2 i" using i by (simp add: conn_in_table_def cs)
    have tab: "conn_in_table ?b2 j \<longleftrightarrow> conn_in_table b j" if "j < length (conns b)" "j \<noteq> i" for j
      using that i by (auto simp: conn_in_table_def)
    have ling: "lingers j ?b2 = lingers j ?b" for j by (simp add: lingers_def)
    have "base_inv ?b2"
    proof (rule base_invI, goal_cases)
      case (1 s' j)
      with d(1)[of s' j] d(2)[of s' j] i show ?case by (auto simp: cs split: if_splits)
    next
      case (2 j)
      with d(3) show ?case by (simp add: cs)
    next
      case (3 j)
      show ?case
      proof (cases "j = i")
        case True
        with 3 gone \<open>referenceCount (conns b ! i) = 0\<close> i show ?thesis by (simp add: cs ling)
      next
        case False
        with 3 d(4,5) tab sub ling show ?thesis by (simp add: cs) blast
      qed
    next
      case (4 j)
      with d(6,7) tab out show ?case by (cases "j = i") (simp_all add: cs)
    next
      case (5 s' j cb')
      then have "(s', j, cb') \<in> set (lingering b)" using set_remove[of k "lingering b"] by auto
      with d(8)[of s' j cb'] d(9)[of s' j cb'] show ?case by (cases "j = i") (simp_all add: cs)
    qed
    with True show ?thesis by (simp add: closeReally_def)
  qed
qed

lemma base_inv_connection:
  assumes "base_inv b" "i < length (conns b)" "\<forall>cb. ev \<noteq> Close cb"
  shows "base_inv (upd_conn i (quiet_step ev) b)"
proof -
  note d = base_invD[OF assms(1)]
  note fr = quiet_step_frame[OF assms(3), of "conns b ! i"]
  have tab: "conn_in_table (upd_conn i (quiet_step ev) b) j = conn_in_table b j" if "j < length (conns b)" for j
    using that fr by (simp add: conn_in_table_def)
  have ling: "lingers j (upd_conn i (quiet_step ev) b) = lingers j b" for j by (simp add: lingers_def)
  show ?thesis
  proof (rule base_invI, goal_cases)
    case (1 s' j)
    with d(1,2) fr show ?case by simp
  next
    case (2 j)
    with d(3) fr show ?case by simp
  next
    case (3 j)
    with d(4,5)[of j] tab[of j] ling fr show ?case by (auto split: if_splits)
  next
    case (4 j)
    with d(6,7)[of j] tab[of j] fr show ?case by (auto split: if_splits)
  next
    case (5 s' j cb')
    with d(8,9) fr show ?case by (cases "j = i") simp_all
  qed
qed

lemma base_inv_callbacks: "base_inv (b\<lparr>release_callbacks := x\<rparr>) = base_inv b"
  by (simp add: base_inv_def lingers_def conn_in_table_def)

lemma base_inv_step:
  assumes "base_inv b" "one_timer b" "base_step ev b = Inr b'"
  shows "base_inv b'"
proof (cases ev)
  case (Get s)
  with assms base_inv_get show ?thesis by auto
next
  case (Release s cb)
  then obtain i where i: "baseConnections b s = Some i"
    using assms(3) by (auto simp: releaseNdbConnection_def split: option.splits)
  then have len: "i < length (conns b)" using base_invD(1)[OF assms(1)] by blast
  with Release i assms(3) have n: "0 \<le> referenceCount (conns b ! i) + - 1"
    and b': "b' = (let b1 = upd_conn i (addRef (-1)) b in
      if referenceCount (conns b ! i) = 1 then b1\<lparr>lingering := lingering b1 @ [(s, i, cb)]\<rparr>
      else b1\<lparr>release_callbacks := release_callbacks b1 @ [cb]\<rparr>)"
    by (auto simp: releaseNdbConnection_def Let_def split: if_splits)
  have b1: "base_inv (upd_conn i (addRef (-1)) b)" using base_inv_addRef[OF assms(1) i n] .
  show ?thesis
  proof (cases "referenceCount (conns b ! i) = 1")
    case True
    with base_inv_linger[OF b1, of s i cb] i b' show ?thesis by (simp add: Let_def)
  next
    case False
    with b' b1 base_inv_callbacks show ?thesis by (simp add: Let_def)
  qed
next
  case (LingerTimer k)
  obtain s i cb where "lingering b ! k = (s, i, cb)" by (metis surj_pair)
  with LingerTimer assms base_inv_timer[OF assms(1,2), of k s i cb] show ?thesis
    by (auto split: if_splits)
next
  case (OnConnection i ev')
  with assms base_inv_connection show ?thesis by (auto split: if_splits)
qed

lemma calm_inv:
  assumes "base_run evs b = Inr b'" "calm_run evs b" "base_inv b"
  shows "base_inv b'"
  using assms
proof (induction evs arbitrary: b)
  case (Cons ev evs)
  then obtain b1 where "base_step ev b = Inr b1" "base_run evs b1 = Inr b'" by (auto simp: rbind_Inr_iff)
  with Cons base_inv_step show ?case by auto
qed simp

text \<open>
  C38: As long as a connection is not released to zero again while an earlier linger timer of it is
  pending: the table has one connection for each connect string that has clients, that connection
  is not closed, so every client can release it, and connections that linger are found again.
\<close>

theorem shared_connection_sound:
  assumes "base_run evs new_base = Inr b" "calm_run evs new_base"
    and "i < length (conns b)" "0 < referenceCount (conns b ! i)"
  shows "baseConnections b (connectString (conns b ! i)) = Some i \<and> \<not> closed_conn (conns b ! i) \<and>
    (\<exists>b'. releaseNdbConnection (connectString (conns b ! i)) cb b = Inr b')"
proof -
  from calm_inv[OF assms(1,2) base_inv_new] have inv: "base_inv b" .
  from base_invD(4,6)[OF inv] assms(3,4) have "conn_in_table b i" "\<not> closed_conn (conns b ! i)" by auto
  with assms(3,4) show ?thesis
    by (auto simp: conn_in_table_def releaseNdbConnection_def Let_def)
qed

theorem shared_connection_sound_witness:
  "\<exists>b b'. base_run [Get ''a'', Release ''a'' 1, Get ''a'', LingerTimer 0] new_base = Inr b \<and>
     baseConnections b ''a'' = Some 0 \<and> \<not> closed_conn (conns b ! 0) \<and> releaseNdbConnection ''a'' 2 b = Inr b'"
proof -
  let ?evs = "[Get ''a'', Release ''a'' 1, Get ''a'', LingerTimer 0]"
  obtain b where b: "base_run ?evs new_base = Inr b" "calm_run ?evs new_base" "length (conns b) = 1"
      "referenceCount (conns b ! 0) = 1" "connectString (conns b ! 0) = ''a''"
    by (simp add: new_base_def getNdbConnection_def releaseNdbConnection_def upd_conn_def addRef_def
        new_NdbConnection_def closeReally_def remove_nth_def one_timer_def Let_def)
  from shared_connection_sound[OF b(1,2), of 0 2] b show ?thesis by auto
qed

text \<open>
  With two timers the second one drops a connection that has a client: the next request gets another
  connection to the same cluster, and if there is none, the release of the first throws.
\<close>

lemma second_timer_drops_connection:
  "case base_run [Get ''a'', Release ''a'' 1, Get ''a'', Release ''a'' 2, LingerTimer 0, Get ''a'', LingerTimer 0] new_base
   of Inl _ \<Rightarrow> False
    | Inr b \<Rightarrow> referenceCount (conns b ! 1) = 1 \<and> baseConnections b ''a'' = None \<and>
        releaseNdbConnection ''a'' 3 b = Inl TypeError"
  by (simp add: new_base_def getNdbConnection_def releaseNdbConnection_def upd_conn_def addRef_def
      new_NdbConnection_def closeReally_def remove_nth_def ndb_close_def disconnect_def Let_def)

section \<open>The native objects that are being closed\<close>

fun call_of :: "native_close \<Rightarrow> close_call" where
  "call_of (CloseImpl i k) = k"
| "call_of (CloseTable k) = k"

definition calls :: "session_pool \<Rightarrow> close_call list" where
  "calls p = map call_of (execQueue p)"

text \<open>
  Every close of a user has been answered or is one of the calls \<open>M\<close> to come, and the counter of
  each close of the pool is the number of its calls among them.
\<close>

definition queue_inv :: "close_call multiset \<Rightarrow> session_pool \<Rightarrow> bool" where
  "queue_inv M p \<longleftrightarrow>
     (\<forall>cb. count_list (close_requests p) cb = count_list (close_answers p) cb + count M (UserCb cb)) \<and>
     (\<forall>k < length (nclose p). nclose p ! k = int (count M (OfPool k))) \<and>
     (\<forall>k. OfPool k \<in># M \<longrightarrow> k < length (nclose p)) \<and>
     releases p = count_list (nclose p) 0"

lemma count_list_update:
  "k < length xs \<Longrightarrow>
     count_list (xs[k := v]) x + (if xs ! k = x then 1 else 0) = count_list xs x + (if v = x then 1 else 0)"
proof (induction xs arbitrary: k)
  case (Cons y ys)
  show ?case
  proof (cases k)
    case (Suc j)
    with Cons.prems Cons.IH[of j] show ?thesis by (auto split: if_splits)
  qed simp
qed simp

lemma queue_inv_cong:
  "close_requests p = close_requests p' \<Longrightarrow> close_answers p = close_answers p' \<Longrightarrow> nclose p = nclose p' \<Longrightarrow>
   releases p = releases p' \<Longrightarrow> queue_inv M p = queue_inv M p'"
  by (simp add: queue_inv_def)

lemma queue_inv_call_back:
  assumes "queue_inv (add_mset k M) p"
  shows "queue_inv M (call_back k p)"
proof (cases k)
  case (UserCb cb)
  with assms show ?thesis by (auto simp: queue_inv_def)
next
  case NoCb
  with assms show ?thesis by (auto simp: queue_inv_def)
next
  case (OfPool j)
  from assms OfPool have j: "j < length (nclose p)" by (simp add: queue_inv_def)
  with assms OfPool have n: "nclose p ! j = int (count M (OfPool j)) + 1" by (simp add: queue_inv_def)
  have "count_list ((nclose p)[j := nclose p ! j - 1]) 0 =
      count_list (nclose p) 0 + (if nclose p ! j - 1 = 0 then 1 else 0)"
    using count_list_update[OF j, of "nclose p ! j - 1" 0] n by simp
  with assms OfPool j n show ?thesis
    by (auto simp: queue_inv_def onNdbClose_def Let_def nth_list_update simp flip: count_eq_zero_iff)
qed

lemma call_back_simps [simp]:
  "sessions (call_back k p) = sessions p" "ndbSessionFreeList (call_back k p) = ndbSessionFreeList p"
  "held (call_back k p) = held p" "fetching (call_back k p) = fetching p"
  "prefetching (call_back k p) = prefetching p" "session_answers (call_back k p) = session_answers p"
  "destroyed (call_back k p) = destroyed p" "pool_max (call_back k p) = pool_max p"
  "pool_min (call_back k p) = pool_min p" "execQueue (call_back k p) = execQueue p"
  "connUp (call_back k p) = connUp p" "connDisconnecting (call_back k p) = connDisconnecting p"
  "length (nclose (call_back k p)) = length (nclose p)" "openTables (call_back k p) = openTables p"
  by (cases k; simp add: onNdbClose_def Let_def)+

lemma upd_session_simps [simp]:
  "length (sessions (upd_session i f p)) = length (sessions p)"
  "sessions (upd_session i f p) ! j = (if j = i \<and> i < length (sessions p) then f (sessions p ! i) else sessions p ! j)"
  "ndbSessionFreeList (upd_session i f p) = ndbSessionFreeList p" "fetching (upd_session i f p) = fetching p"
  "held (upd_session i f p) = held p" "prefetching (upd_session i f p) = prefetching p"
  "pool_max (upd_session i f p) = pool_max p" "pool_min (upd_session i f p) = pool_min p"
  "connDisconnecting (upd_session i f p) = connDisconnecting p" "connUp (upd_session i f p) = connUp p"
  "destroyed (upd_session i f p) = destroyed p" "session_answers (upd_session i f p) = session_answers p"
  "close_requests (upd_session i f p) = close_requests p" "close_answers (upd_session i f p) = close_answers p"
  "nclose (upd_session i f p) = nclose p" "releases (upd_session i f p) = releases p"
  "execQueue (upd_session i f p) = execQueue p" "openTables (upd_session i f p) = openTables p"
  by (auto simp: upd_session_def nth_list_update list_update_beyond)

lemma queue_inv_closeNdbSession:
  assumes "queue_inv (add_mset k (mset (calls p))) p" "closeNdbSession i k p = Inr p'"
  shows "queue_inv (mset (calls p')) p'"
proof -
  have add: "queue_inv (add_mset k (mset (calls p))) q" if "close_requests q = close_requests p"
    "close_answers q = close_answers p" "nclose q = nclose p" "releases q = releases p" for q
    using that assms(1) queue_inv_cong[of q p] by simp
  from assms(2) consider "p' = call_back k p"
    | "p' = (upd_session i (\<lambda>s. s\<lparr>hasImpl := False\<rparr>) p)\<lparr>execQueue := execQueue p @ [CloseImpl i k], destroyed := destroyed p @ [i]\<rparr>"
    | q where "p' = call_back k q" "execQueue q = execQueue p" "close_requests q = close_requests p"
      "close_answers q = close_answers p" "nclose q = nclose p" "releases q = releases p"
    by (auto simp: closeNdbSession_def closeDbSessionImpl_def Let_def split: if_splits)
  then show ?thesis
  proof cases
    case 1
    with queue_inv_call_back[OF assms(1)] show ?thesis by (simp add: calls_def)
  next
    case 2
    with add[of p'] show ?thesis by (simp add: calls_def)
  next
    case 3
    with queue_inv_call_back[OF add[of q]] show ?thesis by (simp add: calls_def)
  qed
qed

lemma close_tables_frame:
  "close_tables k n p = p\<lparr>openTables := (if n = 0 then openTables p else 0),
     execQueue := execQueue p @ replicate n (CloseTable (OfPool k))\<rparr>"
  by (induction n arbitrary: p) (auto simp: closeNdb_def replicate_append_same simp flip: replicate_Suc)

lemma close_tables_all:
  "openTables p = n \<Longrightarrow> close_tables k n p =
     p\<lparr>openTables := 0, execQueue := execQueue p @ replicate n (CloseTable (OfPool k))\<rparr>"
  by (simp add: close_tables_frame)

lemma close_free_frame:
  assumes "close_free k is p = Inr p'" "is = rev (ndbSessionFreeList p)"
  shows "p' = p\<lparr>ndbSessionFreeList := [], execQueue := execQueue p @ map (\<lambda>i. CloseImpl i (OfPool k)) is,
    destroyed := destroyed p @ is\<rparr>"
  using assms
proof (induction "is" arbitrary: p)
  case (Cons i "is")
  let ?q = "p\<lparr>ndbSessionFreeList := rev is, execQueue := execQueue p @ [CloseImpl i (OfPool k)], destroyed := destroyed p @ [i]\<rparr>"
  have "close_free k is ?q = Inr p'"
    using Cons.prems(1) by (auto simp: rbind_Inr_iff closeDbSessionImpl_def split: if_splits)
  from Cons.IH[OF this] show ?case by simp
qed simp

lemma pool_close_frame:
  assumes "pool_close p = Inr p'"
  defines "n \<equiv> length (ndbSessionFreeList p) + openTables p"
  shows "\<exists>q. p' = q\<lparr>ndbSessionFreeList := [], openTables := 0,
      execQueue := execQueue p @ replicate (openTables p) (CloseTable (OfPool (length (nclose p)))) @
        map (\<lambda>i. CloseImpl i (OfPool (length (nclose p)))) (rev (ndbSessionFreeList p)),
      destroyed := destroyed p @ rev (ndbSessionFreeList p)\<rparr> \<and>
    q = (if n = 0 then call_back (OfPool (length (nclose p))) (p\<lparr>nclose := nclose p @ [1]\<rparr>)
         else p\<lparr>nclose := nclose p @ [int n]\<rparr>)"
proof -
  let ?k = "length (nclose p)"
  define q where "q = (if n = 0 then call_back (OfPool ?k) (p\<lparr>nclose := nclose p @ [1]\<rparr>)
    else p\<lparr>nclose := nclose p @ [int n]\<rparr>)"
  have f: "ndbSessionFreeList q = ndbSessionFreeList p" "openTables q = openTables p" "execQueue q = execQueue p"
    "destroyed q = destroyed p" by (simp_all add: q_def del: call_back.simps)
  have "close_free ?k (rev (ndbSessionFreeList p)) (close_tables ?k (openTables p) q) = Inr p'"
  proof (cases "n = 0")
    case True
    then show ?thesis using assms(1) unfolding n_def pool_close_def Let_def q_def
      by (auto simp: onNdbClose_def close_tables_all)
  next
    case False
    then have ne: "\<not> (int (length (ndbSessionFreeList p)) + int (openTables p) = 0)" unfolding n_def by linarith
    show ?thesis using assms(1) False unfolding pool_close_def Let_def q_def if_not_P[OF ne]
      by (auto simp: n_def close_tables_all)
  qed
  from close_free_frame[OF this] f have "p' = q\<lparr>ndbSessionFreeList := [], openTables := 0,
      execQueue := execQueue p @ replicate (openTables p) (CloseTable (OfPool ?k)) @
        map (\<lambda>i. CloseImpl i (OfPool ?k)) (rev (ndbSessionFreeList p)),
      destroyed := destroyed p @ rev (ndbSessionFreeList p)\<rparr>"
    by (auto simp: close_tables_all)
  then show ?thesis unfolding q_def by blast
qed

lemma queue_inv_pool_close:
  assumes "queue_inv (mset (calls p)) p" "pool_close p = Inr p'"
  shows "queue_inv (mset (calls p')) p'"
proof -
  let ?k = "length (nclose p)" and ?n = "length (ndbSessionFreeList p) + openTables p"
  obtain q where p': "p' = q\<lparr>ndbSessionFreeList := [], openTables := 0,
      execQueue := execQueue p @ replicate (openTables p) (CloseTable (OfPool ?k)) @
        map (\<lambda>i. CloseImpl i (OfPool ?k)) (rev (ndbSessionFreeList p)),
      destroyed := destroyed p @ rev (ndbSessionFreeList p)\<rparr>"
    and q: "q = (if ?n = 0 then call_back (OfPool ?k) (p\<lparr>nclose := nclose p @ [1]\<rparr>)
         else p\<lparr>nclose := nclose p @ [int ?n]\<rparr>)"
    using pool_close_frame[OF assms(2)] by blast
  have new: "OfPool ?k \<notin># mset (calls p)" using assms(1) by (fastforce simp: queue_inv_def)
  have "mset (calls p') = mset (calls p) + replicate_mset ?n (OfPool ?k)"
    by (intro multiset_eqI) (simp add: calls_def p' comp_def image_mset_const_eq)
  moreover have start: "queue_inv (mset (calls p) + replicate_mset m (OfPool ?k)) (p\<lparr>nclose := nclose p @ [int m]\<rparr>)" if "0 < m" for m
    using assms(1) new that unfolding queue_inv_def
    by (auto simp: nth_append less_Suc_eq not_in_iff)
  have "queue_inv (mset (calls p) + replicate_mset ?n (OfPool ?k)) q"
  proof (cases "?n = 0")
    case True
    from start[of 1] have "queue_inv (add_mset (OfPool ?k) (mset (calls p))) (p\<lparr>nclose := nclose p @ [1]\<rparr>)" by simp
    from queue_inv_call_back[OF this] True q show ?thesis by simp
  next
    case False
    then have "q = p\<lparr>nclose := nclose p @ [int ?n]\<rparr>" using q by (simp only: if_False)
    with start[of ?n] False show ?thesis by simp
  qed
  moreover have "queue_inv M p' = queue_inv M q" for M by (rule queue_inv_cong) (simp_all add: p')
  ultimately show ?thesis by simp
qed

lemma queue_inv_step:
  assumes "queue_inv (mset (calls p)) p" "pool_step ev p = Inr p'"
  shows "queue_inv (mset (calls p')) p'"
proof (cases ev)
  case (GetSession cb)
  with assms show ?thesis
    by (auto simp: getDBSession_def new_session_def Let_def queue_inv_def calls_def)
next
  case (Fetched k ok)
  with assms show ?thesis
    by (auto simp: session_fetched_def Let_def queue_inv_def calls_def split: prod.splits if_splits)
next
  case (Prefetched ok)
  show ?thesis
  proof (cases "prefetching p")
    case None
    with Prefetched assms show ?thesis by simp
  next
    case (Some i)
    let ?q = "upd_session i (\<lambda>s. s\<lparr>hasImpl := True\<rparr>) (p\<lparr>prefetching := None\<rparr>)"
    have "queue_inv (add_mset NoCb (mset (calls ?q))) ?q"
      using assms(1) by (auto simp: queue_inv_def calls_def)
    note close = queue_inv_closeNdbSession[OF this]
    have "queue_inv (mset (calls p')) p'" if "closeNdbSession i NoCb ?q = Inr p'" using close that .
    with Some Prefetched assms show ?thesis
      by (auto simp: prefetch_onFetch_def prefetch_fetch_def new_session_def Let_def queue_inv_def calls_def
          split: if_splits)
  qed
next
  case (CloseSession i cb)
  let ?q = "p\<lparr>held := remove1 i (held p), close_requests := close_requests p @ [cb]\<rparr>"
  have "queue_inv (add_mset (UserCb cb) (mset (calls ?q))) ?q"
    using assms(1) by (auto simp: queue_inv_def calls_def)
  from queue_inv_closeNdbSession[OF this] CloseSession assms show ?thesis by (auto split: if_splits)
next
  case NativeClosed
  show ?thesis
  proof (cases "execQueue p")
    case Nil
    with NativeClosed assms show ?thesis by simp
  next
    case (Cons c q)
    then have "queue_inv (add_mset (call_of c) (mset (map call_of q))) (p\<lparr>execQueue := q\<rparr>)"
      using assms(1) by (simp add: queue_inv_def calls_def)
    from queue_inv_call_back[OF this] NativeClosed Cons assms(2) show ?thesis
      by (cases c) (auto simp: calls_def)
  qed
next
  case ClosePool
  with queue_inv_pool_close assms show ?thesis by simp
qed (use assms in \<open>auto simp: queue_inv_def calls_def\<close>)

section \<open>Sessions\<close>

definition session_is :: "session_pool \<Rightarrow> bool \<Rightarrow> bool \<Rightarrow> nat \<Rightarrow> bool" where
  "session_is p impl opened i \<longleftrightarrow> i < length (sessions p) \<and> (impl \<longrightarrow> hasImpl (sessions p ! i)) \<and>
     isOpenNdbSession (sessions p ! i) = opened"

text \<open>A session that the NDB API is not opening any more.\<close>

definition fetched :: "session_pool \<Rightarrow> nat \<Rightarrow> bool" where
  "fetched p i \<longleftrightarrow> i < length (sessions p) \<and> i \<notin> fst ` set (fetching p) \<and> prefetching p \<noteq> Some i"

text \<open>A session whose native object has been given up is never opened again.\<close>

definition given_up :: "session_pool \<Rightarrow> nat \<Rightarrow> bool" where
  "given_up p i \<longleftrightarrow> fetched p i \<and>
     (\<not> hasImpl (sessions p ! i) \<or> \<not> isOpenNdbSession (sessions p ! i) \<and> i \<notin> set (ndbSessionFreeList p))"

text \<open>With \<open>impl\<close> the sessions that are free or held also have their native object.\<close>

definition pool_inv :: "bool \<Rightarrow> session_pool \<Rightarrow> bool" where
  "pool_inv impl p \<longleftrightarrow>
     distinct (ndbSessionFreeList p @ held p @ map fst (fetching p)) \<and>
     (\<forall>i\<in>set (ndbSessionFreeList p). session_is p impl False i \<and> prefetching p \<noteq> Some i) \<and>
     (\<forall>i\<in>set (held p). session_is p impl True i) \<and>
     (\<forall>i\<in>fst ` set (fetching p). session_is p False True i) \<and>
     (\<forall>i\<in>set_option (prefetching p). session_is p False False i) \<and>
     length (ndbSessionFreeList p) \<le> max (Suc (pool_max p)) (pool_min p) +
        (if prefetching p = None then 1 else 0) \<and>
     (\<forall>i. given p i \<longrightarrow> fetched p i) \<and>
     distinct (destroyed p) \<and> (\<forall>i\<in>set (destroyed p). given_up p i)"

lemma pool_inv_cong:
  assumes "sessions p = sessions p'" "ndbSessionFreeList p = ndbSessionFreeList p'" "held p = held p'"
    "fetching p = fetching p'" "prefetching p = prefetching p'" "pool_max p = pool_max p'"
    "pool_min p = pool_min p'" "session_answers p = session_answers p'" "destroyed p = destroyed p'"
  shows "pool_inv impl p = pool_inv impl p'"
  unfolding pool_inv_def session_is_def given_def fetched_def given_up_def assms ..

lemma pool_inv_call_back [simp]: "pool_inv impl (call_back k p) = pool_inv impl p"
  by (rule pool_inv_cong) simp_all

lemma pool_inv_unheld:
  assumes "pool_inv impl p"
  shows "pool_inv impl (p\<lparr>held := remove1 i (held p), close_requests := r\<rparr>)"
proof -
  let ?q = "p\<lparr>held := remove1 i (held p), close_requests := r\<rparr>"
  have same: "session_is ?q = session_is p" "given ?q = given p" "fetched ?q = fetched p" "given_up ?q = given_up p"
    by (simp_all add: session_is_def given_def fetched_def given_up_def fun_eq_iff)
  have "set (remove1 i (held p)) \<subseteq> set (held p)" by (rule set_remove1_subset)
  moreover have "distinct (remove1 i (held p))" using assms by (simp add: pool_inv_def distinct_remove1)
  ultimately show ?thesis using assms unfolding pool_inv_def same by auto
qed

lemma fetched_upd [simp]: "fetched (upd_session i f p) j = fetched p j"
  by (simp add: fetched_def)

lemma session_is_upd:
  "session_is p impl opened i \<Longrightarrow> j \<noteq> i \<Longrightarrow> session_is (upd_session j f p) impl opened i"
  by (auto simp: session_is_def)

lemma session_is_cong:
  "sessions p = sessions p' \<Longrightarrow> session_is p = session_is p'"
  by (auto simp: session_is_def fun_eq_iff)

lemma given_cong: "session_answers p = session_answers p' \<Longrightarrow> given p = given p'"
  by (auto simp: given_def fun_eq_iff)

lemma given_append [simp]:
  "given (p\<lparr>session_answers := session_answers p @ [(cb, a)]\<rparr>) i \<longleftrightarrow> given p i \<or> a = Some i"
  by (auto simp: given_def)

lemma pool_invD:
  assumes "pool_inv impl p"
  shows "distinct (ndbSessionFreeList p)" "i \<in> set (ndbSessionFreeList p) \<Longrightarrow> session_is p impl False i"
    "i \<in> set (held p) \<Longrightarrow> session_is p impl True i"
    "i \<in> set (ndbSessionFreeList p) \<Longrightarrow> fetched p i" "given p i \<Longrightarrow> fetched p i"
    "i \<in> set (destroyed p) \<Longrightarrow> given_up p i" "distinct (destroyed p)"
    "prefetching p = Some i \<Longrightarrow> session_is p False False i"
    "(i, cb) \<in> set (fetching p) \<Longrightarrow> session_is p False True i"
  using assms by (auto simp: pool_inv_def fetched_def session_is_def)

text \<open>A user's close: the session is not held any more, and no other list has it unless it is free.\<close>

lemma closeNdbSession_inv:
  assumes inv: "pool_inv impl p" and i: "fetched p i" "i \<notin> set (held p)"
    and has: "impl \<Longrightarrow> isOpenNdbSession (sessions p ! i) \<Longrightarrow> hasImpl (sessions p ! i)"
  shows "case closeNdbSession i k p of Inl e \<Rightarrow> e = TypeError \<and> \<not> impl | Inr p' \<Rightarrow> pool_inv impl p'"
proof -
  consider (answer) "\<not> isOpenNdbSession (sessions p ! i) \<or> \<not> connUp p"
    | (destroy) "isOpenNdbSession (sessions p ! i)" "connUp p" "connDisconnecting p \<or> pool_max p < length (ndbSessionFreeList p)"
    | (free) "isOpenNdbSession (sessions p ! i)" "connUp p" "\<not> (connDisconnecting p \<or> pool_max p < length (ndbSessionFreeList p))"
    by blast
  then show ?thesis
  proof cases
    case answer
    with inv show ?thesis by (auto simp: closeNdbSession_def)
  next
    case destroy
    then have nf: "i \<notin> set (ndbSessionFreeList p)" using pool_invD(2)[OF inv] by (auto simp: session_is_def)
    show ?thesis
    proof (cases "hasImpl (sessions p ! i)")
      case False
      with destroy has show ?thesis by (auto simp: closeNdbSession_def closeDbSessionImpl_def Let_def)
    next
      case True
      let ?p = "upd_session i (\<lambda>s. s\<lparr>hasImpl := False\<rparr>) p"
      let ?q = "?p\<lparr>execQueue := execQueue p @ [CloseImpl i k], destroyed := destroyed p @ [i]\<rparr>"
      have q: "closeNdbSession i k p = Inr ?q"
        using destroy True by (simp add: closeNdbSession_def closeDbSessionImpl_def)
      have new: "i \<notin> set (destroyed p)" using pool_invD(6)[OF inv, of i] True destroy by (auto simp: given_up_def)
      have s: "session_is ?q = session_is ?p" by (rule session_is_cong) simp
      have up: "given_up ?q j" if "given_up p j \<or> j = i" for j
        using that i by (auto simp: given_up_def fetched_def)
      have "pool_inv impl ?q"
        using inv i nf new up unfolding pool_inv_def s given_def fetched_def
        by (auto intro!: session_is_upd)
      with q show ?thesis by simp
    qed
  next
    case free
    let ?p = "upd_session i (\<lambda>s. s\<lparr>isOpenNdbSession := False\<rparr>) p"
    let ?q = "?p\<lparr>ndbSessionFreeList := ndbSessionFreeList p @ [i]\<rparr>"
    have nf: "i \<notin> set (ndbSessionFreeList p)" using pool_invD(2)[OF inv] free by (auto simp: session_is_def)
    have q: "closeNdbSession i k p = Inr (call_back k ?q)" using free by (simp add: closeNdbSession_def Let_def)
    have s: "session_is ?q = session_is ?p" by (rule session_is_cong) simp
    have new: "session_is ?p impl False i" using i has free by (auto simp: session_is_def fetched_def)
    have up: "given_up ?q j" if "given_up p j" for j
      using that free by (auto simp: given_up_def fetched_def)
    have "pool_inv impl ?q"
      using inv i nf new up free unfolding pool_inv_def s given_def fetched_def
      by (auto intro!: session_is_upd)
    with q show ?thesis by simp
  qed
qed

lemma getDBSession_inv:
  assumes inv: "pool_inv impl p"
  shows "pool_inv impl (getDBSession cb p)"
proof (cases "ndbSessionFreeList p" rule: rev_cases)
  case Nil
  let ?p = "p\<lparr>sessions := sessions p @ [\<lparr>hasImpl = False, isOpenNdbSession = True\<rparr>]\<rparr>"
  let ?q = "?p\<lparr>fetching := fetching p @ [(length (sessions p), cb)]\<rparr>"
  have q: "getDBSession cb p = ?q" using Nil by (simp add: getDBSession_def new_session_def)
  have old: "session_is ?q b opened j" if "session_is p b opened j" for b opened j
    using that by (auto simp: session_is_def nth_append)
  have new: "session_is ?q False True (length (sessions p))" by (simp add: session_is_def)
  have less: "session_is p b opened j \<Longrightarrow> j < length (sessions p)" for b opened j by (simp add: session_is_def)
  have ft: "fetched ?q j" if "fetched p j" for j using that by (auto simp: fetched_def)
  have up: "given_up ?q j" if "given_up p j" for j
    using that ft[of j] by (auto simp: given_up_def fetched_def nth_append)
  have g: "given ?q = given p" by (rule given_cong) simp
  have "length (sessions p) \<notin> set (held p)" using pool_invD(3)[OF inv] by (auto dest: less)
  moreover have "length (sessions p) \<notin> fst ` set (fetching p)" using pool_invD(9)[OF inv] by (fastforce dest: less)
  ultimately show ?thesis using inv Nil new old up ft unfolding q pool_inv_def g
    by (auto simp: less_imp_neq)
next
  case (snoc xs i)
  let ?p = "upd_session i (\<lambda>s. s\<lparr>isOpenNdbSession := True\<rparr>) p"
  let ?q = "?p\<lparr>ndbSessionFreeList := xs, held := held p @ [i],
     session_answers := session_answers p @ [(cb, Some i)]\<rparr>"
  have q: "getDBSession cb p = ?q" using snoc by (simp add: getDBSession_def Let_def upd_session_def)
  have s: "session_is ?q = session_is ?p" by (rule session_is_cong) simp
  have i: "session_is p impl False i" "fetched p i" using pool_invD(2,4)[OF inv] snoc by auto
  then have new: "session_is ?p impl True i" by (simp add: session_is_def)
  have up: "given_up ?q j" if "given_up p j" for j
    using that snoc i by (auto simp: given_up_def fetched_def)
  have g: "given ?q j \<longleftrightarrow> given p j \<or> j = i" for j by (auto simp: given_def)
  have ft: "fetched ?q j = fetched p j" for j by (simp add: fetched_def)
  show ?thesis
    using inv snoc new up i(2) unfolding q pool_inv_def s g ft
    by (auto intro!: session_is_upd)
qed

lemma nth_remove_nth:
  assumes "k < length xs"
  shows "mset xs = add_mset (xs ! k) (mset (remove_nth k xs))"
proof -
  have "mset xs = mset (take k xs @ xs ! k # drop (Suc k) xs)"
    using id_take_nth_drop[OF assms] by metis
  then show ?thesis by (simp add: remove_nth_def)
qed

lemma session_fetched_inv:
  assumes inv: "pool_inv impl p" and less: "k < length (fetching p)"
  shows "pool_inv impl (session_fetched k ok p)"
proof -
  obtain i cb where k: "fetching p ! k = (i, cb)" by fastforce
  let ?fs = "remove_nth k (fetching p)"
  have m: "mset (fetching p) = add_mset (i, cb) (mset ?fs)" using nth_remove_nth[OF less] k by simp
  then have sets: "set (fetching p) = insert (i, cb) (set ?fs)" by (metis set_mset_add_mset_insert set_mset_mset)
  from m have "mset (map fst (fetching p)) = mset (i # map fst ?fs)" by simp
  then have "distinct (map fst (fetching p)) \<longleftrightarrow> distinct (i # map fst ?fs)" by (metis mset_eq_imp_distinct_iff)
  then have dist: "i \<notin> fst ` set ?fs" "distinct (map fst ?fs)" using inv by (auto simp: pool_inv_def)
  have i: "session_is p False True i" "i \<in> fst ` set (fetching p)" using inv sets by (auto simp: pool_inv_def)
  have other: "i \<notin> set (ndbSessionFreeList p)" "i \<notin> set (held p)" "prefetching p \<noteq> Some i" "\<not> given_up p i" "\<not> given p i"
    using inv sets i by (auto simp: pool_inv_def session_is_def given_up_def fetched_def)
  show ?thesis
  proof (cases ok)
    case False
    let ?q = "p\<lparr>fetching := ?fs, session_answers := session_answers p @ [(cb, None)]\<rparr>"
    have q: "session_fetched k ok p = ?q" using False k by (simp add: session_fetched_def)
    have s: "session_is ?q = session_is p" by (rule session_is_cong) simp
    have g: "given ?q = given p" by (auto simp: given_def fun_eq_iff)
    have ft: "fetched ?q j" if "fetched p j" for j using that sets by (auto simp: fetched_def)
    have up: "given_up ?q j" if "given_up p j" for j using that ft by (auto simp: given_up_def)
    show ?thesis using inv sets dist ft up unfolding q pool_inv_def s g by auto
  next
    case True
    let ?p = "upd_session i (\<lambda>s. s\<lparr>hasImpl := True\<rparr>) p"
    let ?q = "?p\<lparr>fetching := ?fs, session_answers := session_answers p @ [(cb, Some i)], held := held p @ [i]\<rparr>"
    have q: "session_fetched k ok p = ?q" using True k by (simp add: session_fetched_def upd_session_def)
    have s: "session_is ?q = session_is ?p" by (rule session_is_cong) simp
    have new: "session_is ?p impl True i" using i by (simp add: session_is_def)
    have g: "given ?q j \<longleftrightarrow> given p j \<or> j = i" for j by (auto simp: given_def)
    have ft: "fetched ?q j" if "fetched p j \<or> j = i" for j
      using that sets dist(1) i(1) other by (auto simp: fetched_def session_is_def)
    have up: "given_up ?q j" if "given_up p j" for j
      using that ft other by (auto simp: given_up_def)
    show ?thesis
      using inv sets dist new other ft up unfolding q pool_inv_def s g
      by (auto intro!: session_is_upd)
  qed
qed

lemma prefetch_fetch_inv:
  assumes inv: "pool_inv impl p" and none: "prefetching p = None"
    and len: "length (ndbSessionFreeList p) \<le> max (Suc (pool_max p)) (pool_min p)"
  shows "pool_inv impl (prefetch_fetch p)"
proof -
  let ?q = "p\<lparr>sessions := sessions p @ [\<lparr>hasImpl = False, isOpenNdbSession = False\<rparr>], prefetching := Some (length (sessions p))\<rparr>"
  have q: "prefetch_fetch p = ?q" by (simp add: prefetch_fetch_def new_session_def)
  have old: "session_is ?q b opened j" if "session_is p b opened j" for b opened j
    using that by (auto simp: session_is_def nth_append)
  have new: "session_is ?q False False (length (sessions p))" by (simp add: session_is_def)
  have less: "session_is p b opened j \<Longrightarrow> j \<noteq> length (sessions p)" for b opened j by (auto simp: session_is_def)
  have ft: "fetched ?q j" if "fetched p j" for j using that none by (auto simp: fetched_def)
  have up: "given_up ?q j" if "given_up p j" for j
    using that ft[of j] by (auto simp: given_up_def fetched_def nth_append)
  have g: "given ?q = given p" by (rule given_cong) simp
  show ?thesis
    using inv len new old up ft unfolding q pool_inv_def g by (auto dest: less)
qed

lemma prefetch_onFetch_inv:
  assumes inv: "pool_inv impl p" and pre: "prefetching p = Some i"
  shows "\<exists>p'. prefetch_onFetch ok i p = Inr p' \<and> pool_inv impl p'"
proof -
  let ?start = "p\<lparr>prefetching := None\<rparr>"
  have i: "session_is p False False i" using pool_invD(8)[OF inv pre] .
  then have other: "i \<notin> set (ndbSessionFreeList p)" "i \<notin> set (held p)" "i \<notin> fst ` set (fetching p)"
    "\<not> given_up p i" "\<not> given p i"
    using inv pre by (auto simp: pool_inv_def session_is_def given_up_def fetched_def)
  have len: "length (ndbSessionFreeList p) \<le> max (Suc (pool_max p)) (pool_min p)"
    using inv pre by (simp add: pool_inv_def)
  have ft: "fetched ?start j" if "fetched p j \<or> j = i" for j
    using that i other by (auto simp: fetched_def session_is_def)
  have s0: "session_is ?start = session_is p" by (rule session_is_cong) simp
  have g0: "given ?start = given p" by (rule given_cong) simp
  have up0: "given_up ?start j" if "given_up p j" for j using that ft by (auto simp: given_up_def)
  have inv0: "pool_inv impl ?start"
    using inv len ft up0 unfolding pool_inv_def s0 g0 by auto
  show ?thesis
  proof (cases ok)
    case False
    with inv0 show ?thesis by (simp add: prefetch_onFetch_def)
  next
    case True
    let ?p = "upd_session i (\<lambda>s. s\<lparr>hasImpl := True\<rparr>) ?start"
    have new: "session_is ?p True False i" using i by (simp add: session_is_def)
    have g: "given ?p = given p" by (rule given_cong) simp
    have nd: "i \<notin> set (destroyed p)" using pool_invD(6)[OF inv] other by blast
    have up: "given_up ?p j" if "j \<in> set (destroyed p)" for j
    proof -
      from that nd have "j \<noteq> i" by auto
      moreover have "given_up ?start j" using that pool_invD(6)[OF inv] up0 by blast
      ultimately show ?thesis by (auto simp: given_up_def)
    qed
    have inv1: "pool_inv impl ?p"
      using inv0 other up nd unfolding pool_inv_def g g0
      by (auto intro!: session_is_upd)
    show ?thesis
    proof (cases "connDisconnecting p")
      case dis: True
      then have "prefetch_onFetch ok i p = Inr ?p"
        using True i by (simp add: prefetch_onFetch_def closeNdbSession_def session_is_def)
      with inv1 show ?thesis by blast
    next
      case False
      let ?q = "?p\<lparr>ndbSessionFreeList := ndbSessionFreeList p @ [i]\<rparr>"
      have s: "session_is ?q = session_is ?p" by (rule session_is_cong) simp
      have g: "given ?q = given ?p" by (rule given_cong) simp
      have ftq: "fetched ?q = fetched ?p" by (simp add: fetched_def fun_eq_iff)
      have upq: "given_up ?q j" if "j \<in> set (destroyed p)" for j
      proof -
        from that nd have "j \<noteq> i" by auto
        with up[OF that] show ?thesis by (auto simp: given_up_def ftq)
      qed
      have "pool_inv impl ?q"
        using inv1 other new len nd upq unfolding pool_inv_def s g ftq
        by (auto simp: session_is_def)
      moreover have "prefetch_onFetch ok i p = Inr (if length (ndbSessionFreeList ?q) < pool_min ?q then prefetch_fetch ?q else ?q)"
        using True False by (simp add: prefetch_onFetch_def Let_def)
      ultimately show ?thesis
        using prefetch_fetch_inv[of impl ?q] by (cases "length (ndbSessionFreeList ?q) < pool_min ?q") auto
    qed
  qed
qed

lemma pool_close_inv:
  assumes inv: "pool_inv impl p"
  shows "case pool_close p of Inl e \<Rightarrow> e = TypeError \<and> \<not> impl | Inr p' \<Rightarrow> pool_inv impl p'"
proof -
  have total: "\<exists>p'. close_free k is q = Inr p'"
    if "impl" "\<forall>i\<in>set is. hasImpl (sessions q ! i)" for k "is" q
    using that(2) by (induction "is" arbitrary: q) (auto simp: closeDbSessionImpl_def)
  have error: "e = TypeError" if "close_free k is q = Inl e" for k "is" q e
    using that by (induction "is" arbitrary: q) (auto simp: closeDbSessionImpl_def rbind_def split: if_splits)
  show ?thesis
  proof (cases "pool_close p")
    case (Inl e)
    then have "e = TypeError" using error by (auto simp: pool_close_def Let_def)
    moreover have "\<not> impl"
    proof
      assume "impl"
      then have "\<forall>i\<in>set (rev (ndbSessionFreeList p)). hasImpl (sessions p ! i)"
        using pool_invD(2)[OF inv] by (auto simp: session_is_def)
      then have "\<exists>p'. pool_close p = Inr p'"
        using total[OF \<open>impl\<close>] by (auto simp: pool_close_def Let_def close_tables_frame onNdbClose_def)
      with Inl show False by simp
    qed
    ultimately show ?thesis using Inl by simp
  next
    case (Inr p')
    from pool_close_frame[OF Inr] have
      "sessions p' = sessions p" "ndbSessionFreeList p' = []" "held p' = held p" "fetching p' = fetching p"
      "prefetching p' = prefetching p" "pool_max p' = pool_max p" "pool_min p' = pool_min p"
      "session_answers p' = session_answers p" "destroyed p' = destroyed p @ rev (ndbSessionFreeList p)"
      by (auto simp del: call_back.simps)
    note f = this
    have s: "session_is p' = session_is p" "given p' = given p"
      using f by (auto intro: session_is_cong given_cong)
    have ft: "fetched p' = fetched p" using f by (auto simp: fetched_def)
    have all: "\<forall>i\<in>set is. hasImpl (sessions q ! i)" if "close_free k is q = Inr q'" for k "is" q q'
      using that by (induction "is" arbitrary: q) (fastforce simp: rbind_Inr_iff closeDbSessionImpl_def split: if_splits)+
    have has: "hasImpl (sessions p ! i)" if "i \<in> set (ndbSessionFreeList p)" for i
      using Inr that by (auto simp: pool_close_def Let_def close_tables_frame onNdbClose_def dest!: all split: if_splits)
    have up: "given_up p' i" if "given_up p i \<or> i \<in> set (ndbSessionFreeList p)" for i
      using that pool_invD(2,4)[OF inv] f(2) by (auto simp: given_up_def ft f(1) session_is_def)
    have "i \<notin> set (destroyed p)" if "i \<in> set (ndbSessionFreeList p)" for i
      using pool_invD(6)[OF inv] that has by (auto simp: given_up_def)
    then have "pool_inv impl p'" using inv up unfolding pool_inv_def s ft f by auto
    with Inr show ?thesis by simp
  qed
qed

text \<open>
  The runs in which nobody closes a session that was given to them when its native object is gone, so
  that an earlier close has given it up.
\<close>

fun no_reclose :: "pool_event list \<Rightarrow> session_pool \<Rightarrow> bool" where
  "no_reclose [] p = True"
| "no_reclose (ev # evs) p =
     ((case ev of CloseSession i cb \<Rightarrow> given p i \<longrightarrow> hasImpl (sessions p ! i) | _ \<Rightarrow> True) \<and>
      (case pool_step ev p of Inl e \<Rightarrow> True | Inr p' \<Rightarrow> no_reclose evs p'))"

lemma pool_step_inv:
  assumes inv: "pool_inv impl p"
    and close: "\<And>i cb. ev = CloseSession i cb \<Longrightarrow> impl \<Longrightarrow> given p i \<Longrightarrow> hasImpl (sessions p ! i)"
  shows "case pool_step ev p of Inl e \<Rightarrow> e = TypeError \<and> \<not> impl | Inr p' \<Rightarrow> pool_inv impl p'"
proof (cases ev)
  case (GetSession cb)
  with getDBSession_inv[OF inv] show ?thesis by simp
next
  case (Fetched k ok)
  with session_fetched_inv[OF inv, of k ok] inv show ?thesis by simp
next
  case (Prefetched ok)
  with inv prefetch_onFetch_inv[OF inv, of _ ok] show ?thesis by (fastforce split: option.splits)
next
  case (CloseSession i cb)
  show ?thesis
  proof (cases "given p i")
    case True
    let ?p = "p\<lparr>held := remove1 i (held p), close_requests := close_requests p @ [cb]\<rparr>"
    have "distinct (held p)" using inv by (simp add: pool_inv_def)
    then have "i \<notin> set (held ?p)" by simp
    moreover have "fetched ?p i" using pool_invD(5)[OF inv True] by (simp add: fetched_def)
    moreover have "pool_inv impl ?p" by (rule pool_inv_unheld[OF inv])
    ultimately show ?thesis
      using closeNdbSession_inv[of impl ?p i "UserCb cb"] close[OF CloseSession _ True] CloseSession True by simp
  next
    case False
    with CloseSession inv show ?thesis by simp
  qed
next
  case NativeClosed
  have "pool_inv impl (p\<lparr>execQueue := q\<rparr>)" for q using inv pool_inv_cong[of "p\<lparr>execQueue := q\<rparr>" p] by simp
  with NativeClosed inv show ?thesis by (auto split: list.splits native_close.splits simp del: call_back.simps)
next
  case TableOpened
  with inv pool_inv_cong[of "p\<lparr>openTables := Suc (openTables p)\<rparr>" p] show ?thesis by simp
next
  case Disconnecting
  with inv pool_inv_cong[of "p\<lparr>connDisconnecting := True\<rparr>" p] show ?thesis by simp
next
  case ConnectionGone
  with inv pool_inv_cong[of "p\<lparr>connUp := False\<rparr>" p] show ?thesis by simp
next
  case ClosePool
  with pool_close_inv[OF inv] show ?thesis by simp
qed

lemma closeNdbSession_limits:
  "closeNdbSession i k p = Inr p' \<Longrightarrow> pool_max p' = pool_max p \<and> pool_min p' = pool_min p \<and>
     length (nclose p') = length (nclose p)"
  by (auto simp: closeNdbSession_def closeDbSessionImpl_def Let_def split: if_splits)

lemma pool_step_limits:
  assumes "pool_step ev p = Inr p'"
  shows "pool_max p' = pool_max p \<and> pool_min p' = pool_min p \<and>
    length (nclose p') = length (nclose p) + (if ev = ClosePool then 1 else 0)"
proof (cases ev)
  case (Prefetched ok)
  show ?thesis
  proof (cases "prefetching p")
    case (Some i)
    have "closeNdbSession i NoCb (upd_session i (\<lambda>s. s\<lparr>hasImpl := True\<rparr>) (p\<lparr>prefetching := None\<rparr>)) = Inr p' \<Longrightarrow> ?thesis"
      using closeNdbSession_limits Prefetched by fastforce
    with Some Prefetched assms show ?thesis
      by (auto simp: prefetch_onFetch_def prefetch_fetch_def new_session_def Let_def split: if_splits)
  qed (use Prefetched assms in simp)
next
  case (CloseSession i cb)
  with assms closeNdbSession_limits show ?thesis by (fastforce split: if_splits)
next
  case NativeClosed
  with assms show ?thesis by (auto split: list.splits native_close.splits simp del: call_back.simps)
next
  case ClosePool
  with assms have "pool_close p = Inr p'" by simp
  from pool_close_frame[OF this] show ?thesis using ClosePool by (auto simp del: call_back.simps)
qed (use assms in \<open>auto simp: getDBSession_def new_session_def session_fetched_def Let_def split: if_splits prod.splits\<close>)

lemma pool_run_inv:
  assumes "pool_inv impl p" "impl \<Longrightarrow> no_reclose evs p" "queue_inv (mset (calls p)) p"
  shows "case pool_run evs p of
      Inl e \<Rightarrow> e = TypeError \<and> \<not> impl
    | Inr p' \<Rightarrow> pool_inv impl p' \<and> queue_inv (mset (calls p')) p' \<and> pool_max p' = pool_max p \<and> pool_min p' = pool_min p \<and>
        length (nclose p') = length (nclose p) + count_list evs ClosePool"
  using assms
proof (induction evs arbitrary: p)
  case (Cons ev evs)
  have "case pool_step ev p of Inl e \<Rightarrow> e = TypeError \<and> \<not> impl | Inr p' \<Rightarrow> pool_inv impl p'"
    using Cons.prems(1,2) by (intro pool_step_inv) auto
  then show ?case
  proof (cases "pool_step ev p")
    case (Inr p1)
    with \<open>case pool_step ev p of Inl e \<Rightarrow> _ | Inr p' \<Rightarrow> _\<close> have inv1: "pool_inv impl p1" by simp
    have "impl \<Longrightarrow> no_reclose evs p1" using Cons.prems(2) Inr by simp
    from Cons.IH[OF inv1 this queue_inv_step[OF Cons.prems(3) Inr]] pool_step_limits[OF Inr] Inr
    show ?thesis by (auto split: sum.splits)
  qed simp
qed simp

lemma pool_connected_inv: "pool_inv impl (pool_connected mn mx)"
  "queue_inv (mset (calls (pool_connected mn mx))) (pool_connected mn mx)"
  by (simp_all add: pool_connected_def prefetchSession_def prefetch_fetch_def new_session_def pool_inv_def
      session_is_def given_def queue_inv_def calls_def)



text \<open>
  A session whose native object was given up because the free list was full stays open: when it is
  closed again its use throws, or it is put on the free list without a native object.
\<close>

lemma closed_twice:
  assumes "connUp p" "i < length (sessions p)" "isOpenNdbSession (sessions p ! i)" "\<not> hasImpl (sessions p ! i)"
  shows "case closeNdbSession i k p of
      Inl e \<Rightarrow> connDisconnecting p \<or> pool_max p < length (ndbSessionFreeList p)
    | Inr p' \<Rightarrow> i \<in> set (ndbSessionFreeList p') \<and> \<not> hasImpl (sessions p' ! i)"
  using assms by (simp add: closeNdbSession_def closeDbSessionImpl_def Let_def)

lemma reclose_throws:
  "pool_run [GetSession 1, Fetched 0 True, Prefetched True, CloseSession 1 5, CloseSession 1 6] (pool_connected 0 0) =
     Inl TypeError"
  by code_simp

text \<open>A session that is closed a second time when another user has it is handed out to a third.\<close>

lemma reclose_shares_session:
  "case pool_run [GetSession 1, Fetched 0 True, CloseSession 1 5, GetSession 2, CloseSession 1 6, GetSession 3]
      (pool_connected 0 1) of
     Inl e \<Rightarrow> False
   | Inr p \<Rightarrow> session_answers p = [(1, Some 1), (2, Some 1), (3, Some 1)]"
  by code_simp

end
