(* ===== verification/Connections.thy ===== *)
theory Connections
  imports Prelude "HOL-Library.Multiset"
begin

text \<open>
  How a session factory is found or made: \<open>getSessionFactory\<close> of \<open>api/UserContext.js\<close> with the
  connections that several factories share, and the session slots and the closing of a factory of
  \<open>api/SessionFactory.js\<close>. Database service providers, sessions of the database and the resolution
  of table mappings answer as events. A user's callback is a number; calling it is recorded. What it
  does is further events: also between two callbacks of the loop that tells the requests that waited
  for a connection. The callback of a close acts after the close has returned.
\<close>

section \<open>State\<close>

text \<open>
  A request of \<open>connect\<close> or \<open>openSession\<close>: the key of the connection (a function of the
  properties), the database, whether there are mappings to resolve, and the callback.
\<close>

record request =
  r_key :: string
  r_database :: string
  r_mappings :: bool
  r_callback :: nat

text \<open>
  A connection with its factories, by database and in the order in which they were added; \<open>opener\<close>
  is the request that made it. A pool is known by its connection.
\<close>

record connection =
  connectionKey :: string
  opener :: request
  factories :: "(string \<times> nat) list"
  count :: int
  isConnecting :: bool
  waitingForConnection :: "request list"
  hasError :: bool
  hasPool :: bool

text \<open>
  A slot of a factory: empty, a placeholder, or a session. \<open>f_conn\<close> is the connection in the scope
  of the factory's \<open>delete_callback\<close>. A close that waits for its sessions has a counter.
\<close>

datatype slot = Empty | Placeholder | Open nat

record closing =
  numberOfSessionsToClose :: nat
  closedSessions :: nat
  close_callback :: nat

record factory =
  f_key :: string
  f_database :: string
  f_conn :: nat
  slots :: "slot list"
  closings :: "closing list"

text \<open>
  \<open>notifying\<close> lists the requests that the loop over \<open>waitingForConnection\<close> has still to tell, with
  the connection and whether it has a pool;
  \<open>resolving\<close> lists the requests that wait for a session to resolve their mappings or for the
  mappings, with the factory and the slot; \<open>pendingOpens\<close> the sessions being opened for users, with
  factory, slot and callback; \<open>sessionCloses\<close> the sessions being closed, with factory and slot, by
  the \<open>c\<close>th close of the factory (\<open>Inl c\<close>) or by a user (\<open>Inr\<close> of the callback).
\<close>

record jones_state =
  conns :: "connection list"
  jonesConnections :: "string \<Rightarrow> nat option"
  heap :: "factory list"
  notifying :: "(nat \<times> bool \<times> request) list"
  resolving :: "(request \<times> nat \<times> nat) list"
  pendingOpens :: "(nat \<times> nat \<times> nat) list"
  sessionCloses :: "(nat \<times> nat \<times> (nat + nat)) list"
  asked :: "nat list"
  answers :: "(nat \<times> nat option) list"
  poolCloses :: "nat list"
  closeAnswers :: "nat list"
  sessionAnswers :: "(nat \<times> nat option) list"

definition new_jones :: jones_state where
  "new_jones = \<lparr>conns = [], jonesConnections = (\<lambda>_. None), heap = [], notifying = [], resolving = [],
     pendingOpens = [], sessionCloses = [], asked = [], answers = [], poolCloses = [], closeAnswers = [],
     sessionAnswers = []\<rparr>"

definition upd_conn :: "nat \<Rightarrow> (connection \<Rightarrow> connection) \<Rightarrow> jones_state \<Rightarrow> jones_state" where
  "upd_conn i f j = j\<lparr>conns := (conns j)[i := f (conns j ! i)]\<rparr>"

definition upd_factory :: "nat \<Rightarrow> (factory \<Rightarrow> factory) \<Rightarrow> jones_state \<Rightarrow> jones_state" where
  "upd_factory i f j = j\<lparr>heap := (heap j)[i := f (heap j ! i)]\<rparr>"

definition drop_nth :: "nat \<Rightarrow> 'a list \<Rightarrow> 'a list" where
  "drop_nth k xs = take k xs @ drop (Suc k) xs"

definition answer :: "request \<Rightarrow> nat option \<Rightarrow> jones_state \<Rightarrow> jones_state" where
  "answer r res j = j\<lparr>answers := answers j @ [(r_callback r, res)]\<rparr>"

section \<open>Session slots\<close>

definition allocateSessionSlot :: "slot list \<Rightarrow> nat \<times> slot list" where
  "allocateSessionSlot ss =
     (let i = length (takeWhile (\<lambda>s. s \<noteq> Empty) ss) in (i, js_set Empty ss i Placeholder))"

definition closeSession :: "nat \<Rightarrow> factory \<Rightarrow> factory" where
  "closeSession i f = f\<lparr>slots := js_set Empty (slots f) i Empty\<rparr>"

definition getOpenSessions :: "factory \<Rightarrow> slot list" where
  "getOpenSessions f = filter (\<lambda>s. s \<noteq> Empty) (slots f)"

section \<open>Finding a factory\<close>

definition resolveTableMappingsAndCallback :: "request \<Rightarrow> nat \<Rightarrow> jones_state \<Rightarrow> jones_state" where
  "resolveTableMappingsAndCallback r f j =
     (if \<not> r_mappings r then answer r (Some f) j
      else
        (let (i, ss) = allocateSessionSlot (slots (heap j ! f));
             j1 = upd_factory f (\<lambda>x. x\<lparr>slots := ss\<rparr>) j
         in j1\<lparr>resolving := resolving j1 @ [(r, f, i)]\<rparr>))"

text \<open>A new factory of the connection \<open>c\<close>, entered under the database.\<close>

definition createFactory :: "nat \<Rightarrow> request \<Rightarrow> jones_state \<Rightarrow> nat \<times> jones_state" where
  "createFactory c r j =
     (let f = length (heap j);
          j1 = j\<lparr>heap := heap j @ [\<lparr>f_key = r_key r, f_database = r_database r, f_conn = c,
                     slots = [], closings = []\<rparr>]\<rparr>
      in (f, upd_conn c (\<lambda>x. x\<lparr>factories := factories x @ [(r_database r, f)], count := count x + 1\<rparr>) j1))"

definition useFactory :: "nat \<Rightarrow> request \<Rightarrow> jones_state \<Rightarrow> jones_state" where
  "useFactory c r j =
     (case map_of (factories (conns j ! c)) (r_database r) of
        Some f \<Rightarrow> resolveTableMappingsAndCallback r f j
      | None \<Rightarrow> (let (f, j1) = createFactory c r j in resolveTableMappingsAndCallback r f j1))"

text \<open>The callback of a request that waited for the connection of another one.\<close>

definition notify :: "nat \<Rightarrow> bool \<Rightarrow> request \<Rightarrow> jones_state \<Rightarrow> jones_state" where
  "notify c ok r j = (if \<not> ok then answer r None j else useFactory c r j)"

text \<open>
  The provider has made the pool of the connection \<open>c\<close>, or failed to. The callback of the first request may
  be called here; the loop that tells the others follows, as the steps \<open>notify_next\<close>. In between the
  callbacks can do anything.
\<close>

definition dbConnectionPoolCreated :: "nat \<Rightarrow> bool \<Rightarrow> jones_state \<Rightarrow> jones_state" where
  "dbConnectionPoolCreated c ok j =
     (let r = opener (conns j ! c);
          j1 = upd_conn c (\<lambda>x. x\<lparr>isConnecting := False, hasError := \<not> ok\<rparr>) j;
          j2 = (if \<not> ok then answer r None j1
                else
                  (let (f, j2) = createFactory c r (upd_conn c (\<lambda>x. x\<lparr>hasPool := True\<rparr>) j1)
                   in resolveTableMappingsAndCallback r f j2))
      in j2\<lparr>notifying := notifying j2 @ map (\<lambda>r. (c, ok, r)) (waitingForConnection (conns j2 ! c))\<rparr>)"

definition notify_next :: "nat \<Rightarrow> jones_state \<Rightarrow> jones_state" where
  "notify_next k j = (case notifying j ! k of (c, ok, r) \<Rightarrow>
     notify c ok r (j\<lparr>notifying := drop_nth k (notifying j)\<rparr>))"

definition getSessionFactory :: "request \<Rightarrow> jones_state \<Rightarrow> jones_state" where
  "getSessionFactory r j0 =
     (let j = j0\<lparr>asked := asked j0 @ [r_callback r]\<rparr> in
      case jonesConnections j (r_key r) of
        None \<Rightarrow> j\<lparr>conns := conns j @ [\<lparr>connectionKey = r_key r, opener = r, factories = [], count = 0,
                    isConnecting = True, waitingForConnection = [], hasError = False, hasPool = False\<rparr>],
                  jonesConnections := (jonesConnections j)(r_key r := Some (length (conns j)))\<rparr>
      | Some c \<Rightarrow>
          if isConnecting (conns j ! c)
          then upd_conn c (\<lambda>x. x\<lparr>waitingForConnection := waitingForConnection x @ [r]\<rparr>) j
          else (case map_of (factories (conns j ! c)) (r_database r) of
                  Some f \<Rightarrow> resolveTableMappingsAndCallback r f j
                | None \<Rightarrow> if \<not> hasPool (conns j ! c) then answer r None j
                    else (let (f, j1) = createFactory c r j in resolveTableMappingsAndCallback r f j1)))"

text \<open>A session for the mappings has been opened, or not: then the slot keeps its placeholder.\<close>

definition onMappingSession :: "nat \<Rightarrow> bool \<Rightarrow> jones_state \<Rightarrow> jones_state" where
  "onMappingSession k ok j =
     (case resolving j ! k of (r, f, i) \<Rightarrow>
        if ok then upd_factory f (\<lambda>x. x\<lparr>slots := js_set Empty (slots x) i (Open (r_callback r))\<rparr>) j
        else answer r None (j\<lparr>resolving := drop_nth k (resolving j)\<rparr>))"

text \<open>
  The mappings have been resolved, with or without errors, and the database has closed the session,
  or failed to.
\<close>

definition onMappingsResolved :: "nat \<Rightarrow> bool \<Rightarrow> bool \<Rightarrow> jones_state \<Rightarrow> jones_state" where
  "onMappingsResolved k closed ok j =
     (case resolving j ! k of (r, f, i) \<Rightarrow>
        let j1 = j\<lparr>resolving := drop_nth k (resolving j)\<rparr> in
        if \<not> closed then answer r None j1
        else answer r (if ok then Some f else None) (upd_factory f (closeSession i) j1))"

section \<open>Sessions of users\<close>

definition openSessionOnSessionFactory :: "nat \<Rightarrow> nat \<Rightarrow> jones_state \<Rightarrow> jones_state" where
  "openSessionOnSessionFactory f cb j =
     (let (i, ss) = allocateSessionSlot (slots (heap j ! f));
          j1 = upd_factory f (\<lambda>x. x\<lparr>slots := ss\<rparr>) j
      in j1\<lparr>pendingOpens := pendingOpens j1 @ [(f, i, cb)]\<rparr>)"

definition openSessionOnSession :: "nat \<Rightarrow> bool \<Rightarrow> jones_state \<Rightarrow> jones_state" where
  "openSessionOnSession k ok j =
     (case pendingOpens j ! k of (f, i, cb) \<Rightarrow>
        let j1 = j\<lparr>pendingOpens := drop_nth k (pendingOpens j)\<rparr> in
        if ok then (upd_factory f (\<lambda>x. x\<lparr>slots := js_set Empty (slots x) i (Open cb)\<rparr>) j1)
                     \<lparr>sessionAnswers := sessionAnswers j1 @ [(cb, Some i)]\<rparr>
        else j1\<lparr>sessionAnswers := sessionAnswers j1 @ [(cb, None)]\<rparr>)"

definition userCloseSession :: "nat \<Rightarrow> nat \<Rightarrow> nat \<Rightarrow> jones_state \<Rightarrow> jones_state" where
  "userCloseSession f i cb j = j\<lparr>sessionCloses := sessionCloses j @ [(f, i, Inr cb)]\<rparr>"

section \<open>Closing a factory\<close>

text \<open>
  The \<open>delete_callback\<close> of the factory \<open>f\<close>. It takes the factory that the table has under the key
  and the database, and counts down the connection in its own scope.
\<close>

definition deleteFactory :: "nat \<Rightarrow> nat \<Rightarrow> jones_state \<Rightarrow> jones_state res" where
  "deleteFactory f cb j =
     (let key = f_key (heap j ! f); db = f_database (heap j ! f) in
      case jonesConnections j key of
        None \<Rightarrow> Inl TypeError
      | Some c \<Rightarrow> (case map_of (factories (conns j ! c)) db of
          None \<Rightarrow> Inl TypeError
        | Some g \<Rightarrow>
            (let own = f_conn (heap j ! f);
                 j1 = upd_conn c (\<lambda>x. x\<lparr>factories := filter (\<lambda>(d, _). d \<noteq> db) (factories x)\<rparr>) j;
                 j2 = upd_conn own (\<lambda>x. x\<lparr>count := count x - 1\<rparr>) j1
             in if count (conns j2 ! own) = 0
                then Inr (j2\<lparr>poolCloses := poolCloses j2 @ [f_conn (heap j ! g)],
                             jonesConnections := (jonesConnections j2)(key := None)\<rparr>)
                else Inr (j2\<lparr>closeAnswers := closeAnswers j2 @ [cb]\<rparr>))))"

text \<open>
  Closing: the slots are emptied; placeholders answer at once, sessions when the database has closed
  them, which empties their slot again. The last answer deletes the factory.
\<close>

fun is_open :: "slot \<Rightarrow> bool" where
  "is_open (Open n) = True"
| "is_open _ = False"

definition open_slots :: "slot list \<Rightarrow> nat list" where
  "open_slots ss = filter (\<lambda>i. is_open (ss ! i)) [0..<length ss]"

definition factory_close :: "nat \<Rightarrow> nat \<Rightarrow> jones_state \<Rightarrow> jones_state res" where
  "factory_close f cb j =
     (let ss = slots (heap j ! f);
          n = length (filter (\<lambda>s. s \<noteq> Empty) ss);
          direct = length (filter (\<lambda>s. s = Placeholder) ss);
          c = length (closings (heap j ! f));
          j1 = upd_factory f (\<lambda>x. x\<lparr>slots := map (\<lambda>_. Empty) ss,
                 closings := closings x @ [\<lparr>numberOfSessionsToClose = n, closedSessions = direct, close_callback = cb\<rparr>]\<rparr>) j;
          j2 = j1\<lparr>sessionCloses := sessionCloses j1 @ map (\<lambda>i. (f, i, Inl c)) (open_slots ss)\<rparr>
      in if direct = n then deleteFactory f cb j2 else Inr j2)"

definition onSessionClose :: "nat \<Rightarrow> jones_state \<Rightarrow> jones_state res" where
  "onSessionClose k j =
     (case sessionCloses j ! k of (f, i, who) \<Rightarrow>
        let j1 = upd_factory f (closeSession i) (j\<lparr>sessionCloses := drop_nth k (sessionCloses j)\<rparr>) in
        case who of
          Inr cb \<Rightarrow> Inr (j1\<lparr>sessionAnswers := sessionAnswers j1 @ [(cb, None)]\<rparr>)
        | Inl c \<Rightarrow>
            (let cl = closings (heap j1 ! f) ! c;
                 cl' = cl\<lparr>closedSessions := Suc (closedSessions cl)\<rparr>;
                 j2 = upd_factory f (\<lambda>x. x\<lparr>closings := (closings x)[c := cl']\<rparr>) j1
             in if closedSessions cl' = numberOfSessionsToClose cl'
                then deleteFactory f (close_callback cl') j2 else Inr j2))"

section \<open>Runs\<close>

text \<open>
  What can happen. Users open sessions with a factory, close sessions, and close a factory, this
  once.
\<close>

datatype event =
    Connect request
  | PoolCreated nat bool
  | NotifyNext nat
  | MappingSession nat bool
  | MappingsResolved nat bool bool
  | OpenSession nat nat
  | SessionOpened nat bool
  | CloseSession nat nat nat
  | SessionClosed nat
  | CloseFactory nat nat

fun step :: "event \<Rightarrow> jones_state \<Rightarrow> jones_state res" where
  "step (Connect r) j = Inr (getSessionFactory r j)"
| "step (PoolCreated c ok) j = Inr (if c < length (conns j) \<and> isConnecting (conns j ! c)
     then dbConnectionPoolCreated c ok j else j)"
| "step (NotifyNext k) j = Inr (if k < length (notifying j) then notify_next k j else j)"
| "step (MappingSession k ok) j = Inr (if k < length (resolving j) then onMappingSession k ok j else j)"
| "step (MappingsResolved k closed ok) j =
     Inr (if k < length (resolving j) then onMappingsResolved k closed ok j else j)"
| "step (OpenSession f cb) j = Inr (if f < length (heap j) then openSessionOnSessionFactory f cb j else j)"
| "step (SessionOpened k ok) j = Inr (if k < length (pendingOpens j) then openSessionOnSession k ok j else j)"
| "step (CloseSession f i cb) j = Inr (if f < length (heap j) then userCloseSession f i cb j else j)"
| "step (SessionClosed k) j = (if k < length (sessionCloses j) then onSessionClose k j else Inr j)"
| "step (CloseFactory f cb) j =
     (if f < length (heap j) \<and> closings (heap j ! f) = [] then factory_close f cb j else Inr j)"

fun run :: "event list \<Rightarrow> jones_state \<Rightarrow> jones_state res" where
  "run [] j = Inr j"
| "run (ev # evs) j = rbind (step ev j) (run evs)"

section \<open>Shared connections\<close>

lemma connection_simps [simp]:
  "length (conns (upd_conn c g j)) = length (conns j)"
  "d < length (conns j) \<Longrightarrow> conns (upd_conn c g j) ! d = (if d = c then g (conns j ! c) else conns j ! d)"
  "jonesConnections (upd_conn c g j) = jonesConnections j" "heap (upd_conn c g j) = heap j"
  "resolving (upd_conn c g j) = resolving j" "sessionCloses (upd_conn c g j) = sessionCloses j"
  "poolCloses (upd_conn c g j) = poolCloses j" "answers (upd_conn c g j) = answers j"
  "asked (upd_conn c g j) = asked j" "notifying (upd_conn c g j) = notifying j"
  by (auto simp: upd_conn_def)

lemma upd_factory_simps [simp]:
  "length (heap (upd_factory f g j)) = length (heap j)"
  "h < length (heap j) \<Longrightarrow> heap (upd_factory f g j) ! h = (if h = f then g (heap j ! f) else heap j ! h)"
  "jonesConnections (upd_factory f g j) = jonesConnections j" "conns (upd_factory f g j) = conns j"
  "resolving (upd_factory f g j) = resolving j" "sessionCloses (upd_factory f g j) = sessionCloses j"
  "poolCloses (upd_factory f g j) = poolCloses j" "answers (upd_factory f g j) = answers j"
  "asked (upd_factory f g j) = asked j" "notifying (upd_factory f g j) = notifying j"
  by (auto simp: upd_factory_def)

lemma answer_simps [simp]:
  "conns (answer r x j) = conns j" "jonesConnections (answer r x j) = jonesConnections j"
  "heap (answer r x j) = heap j" "resolving (answer r x j) = resolving j"
  "sessionCloses (answer r x j) = sessionCloses j" "poolCloses (answer r x j) = poolCloses j"
  "answers (answer r x j) = answers j @ [(r_callback r, x)]" "asked (answer r x j) = asked j"
  "notifying (answer r x j) = notifying j"
  by (simp_all add: answer_def)

lemma closeSession_simps [simp]:
  "f_key (closeSession i f) = f_key f" "f_database (closeSession i f) = f_database f"
  "f_conn (closeSession i f) = f_conn f" "closings (closeSession i f) = closings f"
  by (simp_all add: closeSession_def)

text \<open>A factory is live until its close has been answered by all its sessions.\<close>

definition live :: "factory \<Rightarrow> bool" where
  "live f \<longleftrightarrow> (case closings f of [] \<Rightarrow> True | cl # _ \<Rightarrow> closedSessions cl < numberOfSessionsToClose cl)"

definition closes_pending :: "nat \<Rightarrow> jones_state \<Rightarrow> nat" where
  "closes_pending f j = length (filter (\<lambda>(g, i, who). g = f \<and> who = Inl 0) (sessionCloses j))"

definition conn_ok :: "connection \<Rightarrow> bool \<Rightarrow> bool \<Rightarrow> factory list \<Rightarrow> nat \<Rightarrow> bool" where
  "conn_ok x listed closed fs c \<longleftrightarrow>
     count x = int (length (factories x)) \<and> distinct (map fst (factories x)) \<and>
     (\<forall>(d, f) \<in> set (factories x). f < length fs \<and> f_conn (fs ! f) = c \<and>
        f_database (fs ! f) = d \<and> live (fs ! f)) \<and>
     (factories x \<noteq> [] \<longrightarrow> listed \<and> hasPool x \<and> \<not> isConnecting x) \<and>
     (isConnecting x \<longrightarrow> listed \<and> \<not> hasPool x) \<and>
     (closed \<longleftrightarrow> hasPool x \<and> factories x = []) \<and>
     (hasPool x \<and> factories x = [] \<longrightarrow> \<not> listed) \<and>
     r_key (opener x) = connectionKey x \<and> (\<forall>r \<in> set (waitingForConnection x). r_key r = connectionKey x)"

definition factory_ok :: "jones_state \<Rightarrow> nat \<Rightarrow> bool" where
  "factory_ok j f \<longleftrightarrow> (let x = heap j ! f in
     f_conn x < length (conns j) \<and> f_key x = connectionKey (conns j ! f_conn x) \<and>
     (live x \<longrightarrow> (f_database x, f) \<in> set (factories (conns j ! f_conn x))) \<and>
     (closings x = [] \<longrightarrow> closes_pending f j = 0) \<and>
     (\<forall>cl cls. closings x = cl # cls \<longrightarrow> cls = [] \<and>
        closes_pending f j + closedSessions cl = numberOfSessionsToClose cl))"

definition conns_inv :: "jones_state \<Rightarrow> bool" where
  "conns_inv j \<longleftrightarrow>
     (\<forall>k c. jonesConnections j k = Some c \<longrightarrow> c < length (conns j) \<and> connectionKey (conns j ! c) = k) \<and>
     (\<forall>c<length (conns j). conn_ok (conns j ! c) (jonesConnections j (connectionKey (conns j ! c)) = Some c)
        (c \<in> set (poolCloses j)) (heap j) c) \<and>
     (\<forall>f<length (heap j). factory_ok j f) \<and>
     (\<forall>(f, i, who) \<in> set (sessionCloses j). f < length (heap j) \<and> (\<forall>c. who = Inl c \<longrightarrow> c = 0)) \<and>
     distinct (poolCloses j) \<and> (\<forall>c \<in> set (poolCloses j). c < length (conns j))"

lemma conns_inv_new: "conns_inv new_jones"
  by (simp add: conns_inv_def new_jones_def)

text \<open>The invariant does not depend on the slots, the answers and the pending work.\<close>

definition same_factory :: "factory \<Rightarrow> factory \<Rightarrow> bool" where
  "same_factory x y \<longleftrightarrow> f_key x = f_key y \<and> f_database x = f_database y \<and> f_conn x = f_conn y \<and>
     closings x = closings y"

definition frame :: "jones_state \<Rightarrow> jones_state \<Rightarrow> bool" where
  "frame j j' \<longleftrightarrow> conns j' = conns j \<and> jonesConnections j' = jonesConnections j \<and>
     poolCloses j' = poolCloses j \<and> list_all2 same_factory (heap j) (heap j') \<and>
     (\<forall>f. closes_pending f j' = closes_pending f j) \<and>
     (\<forall>(f, i, who) \<in> set (sessionCloses j'). f < length (heap j) \<and> (\<forall>c. who = Inl c \<longrightarrow> c = 0))"

lemma frame_inv:
  assumes "conns_inv j" "frame j j'"
  shows "conns_inv j'"
proof -
  from assms(2) have len: "length (heap j') = length (heap j)"
    and same: "\<And>f. f < length (heap j) \<Longrightarrow> same_factory (heap j ! f) (heap j' ! f)"
    by (auto simp: frame_def list_all2_conv_all_nth)
  have live: "live (heap j' ! f) = live (heap j ! f)" if "f < length (heap j)" for f
    using same[OF that] by (simp add: same_factory_def live_def)
  have c: "conn_ok x listed closed (heap j') c" if "conn_ok x listed closed (heap j) c" for x listed closed c
    using that same live unfolding conn_ok_def by (auto simp: len same_factory_def)
  have f: "factory_ok j' f" if "factory_ok j f" "f < length (heap j)" for f
    using that assms(2) same[OF that(2)] live[OF that(2)] unfolding factory_ok_def Let_def frame_def
    by (auto simp: same_factory_def)
  show ?thesis
    using assms c f unfolding conns_inv_def by (auto simp: len frame_def)
qed

lemma frame_upd_factory:
  assumes "conns_inv j" "\<And>x. same_factory x (g x)"
  shows "frame j (upd_factory f g j)"
  using assms by (auto simp: frame_def conns_inv_def closes_pending_def list_all2_conv_all_nth same_factory_def)

lemma same_factories: "list_all2 same_factory fs fs"
  by (auto simp: list_all2_conv_all_nth same_factory_def)

lemma frame_eq:
  assumes "conns_inv j" "conns j' = conns j" "jonesConnections j' = jonesConnections j" "heap j' = heap j"
    "poolCloses j' = poolCloses j" "sessionCloses j' = sessionCloses j"
  shows "conns_inv j'"
proof (rule frame_inv[OF assms(1)])
  have "\<forall>(f, i, who) \<in> set (sessionCloses j). f < length (heap j) \<and> (\<forall>c. who = Inl c \<longrightarrow> c = 0)"
    using assms(1) by (simp add: conns_inv_def)
  then show "frame j j'"
    using assms(2-) by (simp add: frame_def closes_pending_def same_factories)
qed

lemma resolve_inv:
  assumes "conns_inv j"
  shows "conns_inv (resolveTableMappingsAndCallback r f j)"
proof -
  have a: "frame j (answer r x j)" for x
    using assms by (auto simp: frame_def conns_inv_def closes_pending_def same_factory_def list_all2_conv_all_nth)
  have b: "frame j ((upd_factory f (\<lambda>x. x\<lparr>slots := ss\<rparr>) j)\<lparr>resolving := rs\<rparr>)" for ss rs
    using assms by (auto simp: frame_def conns_inv_def closes_pending_def same_factory_def list_all2_conv_all_nth)
  show ?thesis
    using frame_inv[OF assms a] frame_inv[OF assms b]
    by (auto simp: resolveTableMappingsAndCallback_def split: prod.splits)
qed

lemma conns_invD:
  assumes "conns_inv j"
  shows "jonesConnections j k = Some c \<Longrightarrow> c < length (conns j)"
    "jonesConnections j k = Some c \<Longrightarrow> connectionKey (conns j ! c) = k"
    "c < length (conns j) \<Longrightarrow> conn_ok (conns j ! c) (jonesConnections j (connectionKey (conns j ! c)) = Some c)
        (c \<in> set (poolCloses j)) (heap j) c"
    "f < length (heap j) \<Longrightarrow> factory_ok j f"
    "(f, i, who) \<in> set (sessionCloses j) \<Longrightarrow> f < length (heap j)"
    "(f, i, Inl n) \<in> set (sessionCloses j) \<Longrightarrow> n = 0" "distinct (poolCloses j)"
    "c \<in> set (poolCloses j) \<Longrightarrow> c < length (conns j)"
proof -
  from assms have t: "\<And>k c. jonesConnections j k = Some c \<Longrightarrow> c < length (conns j) \<and> connectionKey (conns j ! c) = k"
    and s: "\<And>x. x \<in> set (sessionCloses j) \<Longrightarrow>
      case x of (f, i, who) \<Rightarrow> f < length (heap j) \<and> (\<forall>c. who = Inl c \<longrightarrow> c = 0)"
    unfolding conns_inv_def by blast+
  show "jonesConnections j k = Some c \<Longrightarrow> c < length (conns j)"
    "jonesConnections j k = Some c \<Longrightarrow> connectionKey (conns j ! c) = k"
    using t by blast+
  show "(f, i, who) \<in> set (sessionCloses j) \<Longrightarrow> f < length (heap j)"
    "(f, i, Inl n) \<in> set (sessionCloses j) \<Longrightarrow> n = 0"
    using s by fastforce+
qed (use assms in \<open>simp_all add: conns_inv_def\<close>)

lemma conns_invI:
  assumes "\<And>k c. jonesConnections j k = Some c \<Longrightarrow> c < length (conns j) \<and> connectionKey (conns j ! c) = k"
    "\<And>c. c < length (conns j) \<Longrightarrow> conn_ok (conns j ! c) (jonesConnections j (connectionKey (conns j ! c)) = Some c)
        (c \<in> set (poolCloses j)) (heap j) c"
    "\<And>f. f < length (heap j) \<Longrightarrow> factory_ok j f"
    "\<And>f i who. (f, i, who) \<in> set (sessionCloses j) \<Longrightarrow> f < length (heap j)"
    "\<And>f i c. (f, i, Inl c) \<in> set (sessionCloses j) \<Longrightarrow> c = 0"
    "distinct (poolCloses j)" "\<And>c. c \<in> set (poolCloses j) \<Longrightarrow> c < length (conns j)"
  shows "conns_inv j"
  using assms unfolding conns_inv_def by fast

lemma conn_ok_append: "conn_ok x listed closed fs c \<Longrightarrow> conn_ok x listed closed (fs @ gs) c"
  by (auto simp: conn_ok_def nth_append)

lemma conn_ok_add:
  assumes "conn_ok x True False fs c" "r_database r \<notin> fst ` set (factories x)"
    "connectionKey (g x) = connectionKey x" "opener (g x) = opener x" "factories (g x) = factories x"
    "count (g x) = count x" "waitingForConnection (g x) = waitingForConnection x" "hasPool (g x)"
    "\<not> isConnecting (g x)"
  shows "conn_ok ((g x)\<lparr>factories := factories x @ [(r_database r, length fs)], count := count x + 1\<rparr>) True False
    (fs @ [\<lparr>f_key = r_key r, f_database = r_database r, f_conn = c, slots = [], closings = []\<rparr>]) c"
proof -
  let ?new = "\<lparr>f_key = r_key r, f_database = r_database r, f_conn = c, slots = [], closings = []\<rparr> :: factory"
  have x: "count x = int (length (factories x))" "distinct (map fst (factories x))"
    "r_key (opener x) = connectionKey x" "\<forall>r \<in> set (waitingForConnection x). r_key r = connectionKey x"
    and old: "\<forall>(d, f) \<in> set (factories x). f < length fs \<and> f_conn (fs ! f) = c \<and> f_database (fs ! f) = d \<and> live (fs ! f)"
    using assms(1) by (simp_all add: conn_ok_def)
  have "\<forall>(d, f) \<in> set (factories x @ [(r_database r, length fs)]). f < length (fs @ [?new]) \<and>
      f_conn ((fs @ [?new]) ! f) = c \<and> f_database ((fs @ [?new]) ! f) = d \<and> live ((fs @ [?new]) ! f)"
    using old by (auto simp: nth_append live_def)
  then show ?thesis
    using x assms(2-) unfolding conn_ok_def by simp
qed

text \<open>
  A factory is added to the connection \<open>c\<close> that is in the table; \<open>g\<close> changes the connection
  otherwise, as when its pool has just been made.
\<close>

lemma new_factory_inv:
  assumes inv: "conns_inv j" and c: "c < length (conns j)" "jonesConnections j (r_key r) = Some c"
    and "c \<notin> set (poolCloses j)" "r_database r \<notin> fst ` set (factories (conns j ! c))"
    and g: "\<And>x. connectionKey (g x) = connectionKey x \<and> opener (g x) = opener x \<and> factories (g x) = factories x \<and>
      count (g x) = count x \<and> waitingForConnection (g x) = waitingForConnection x \<and> hasPool (g x) \<and>
      \<not> isConnecting (g x)"
  shows "conns_inv (snd (createFactory c r (upd_conn c g j)))"
proof -
  note d = conns_invD[OF inv]
  let ?F = "length (heap j)"
  let ?new = "\<lparr>f_key = r_key r, f_database = r_database r, f_conn = c, slots = [], closings = []\<rparr>"
  let ?j = "snd (createFactory c r (upd_conn c g j))"
  have heap: "heap ?j = heap j @ [?new]" and table: "jonesConnections ?j = jonesConnections j"
    and pools: "poolCloses ?j = poolCloses j" and closes: "sessionCloses ?j = sessionCloses j"
    and len: "length (conns ?j) = length (conns j)"
    by (simp_all add: createFactory_def Let_def upd_conn_def)
  have nth: "conns ?j ! e = (if e = c then (let x = g (conns j ! c) in
      x\<lparr>factories := factories x @ [(r_database r, ?F)], count := count x + 1\<rparr>) else conns j ! e)"
    if "e < length (conns j)" for e
    using that c by (simp add: createFactory_def Let_def upd_conn_def)
  have key: "connectionKey (conns j ! c) = r_key r" using d(2) c by blast
  have old: "heap ?j ! f = heap j ! f" if "f < ?F" for f using that by (simp add: heap nth_append)
  have pend: "closes_pending f ?j = closes_pending f j" for f by (simp add: closes_pending_def closes)
  have "conn_ok (conns ?j ! e) (jonesConnections ?j (connectionKey (conns ?j ! e)) = Some e)
      (e \<in> set (poolCloses ?j)) (heap ?j) e" if "e < length (conns j)" for e
  proof (cases "e = c")
    case True
    have "conn_ok (conns j ! c) True False (heap j) c" using d(3)[OF c(1)] key c(2) assms(4) by simp
    from conn_ok_add[OF this assms(5), of g] g[of "conns j ! c"] nth[OF that] True key c(2) assms(4)
    show ?thesis by (simp add: heap table pools Let_def)
  next
    case False
    from conn_ok_append[OF d(3)[OF that]] nth[OF that] False show ?thesis by (simp add: heap table pools)
  qed
  moreover have "factory_ok ?j f" if "f < length (heap ?j)" for f
  proof (cases "f < ?F")
    case True
    have "factory_ok j f" using d(4) True by blast
    then show ?thesis
      using nth g True by (auto simp: factory_ok_def Let_def old pend len)
  next
    case False
    then have "f = ?F" using that by (simp add: heap)
    moreover have "closes_pending ?F j = 0"
      using d(5) by (fastforce simp: closes_pending_def filter_empty_conv)
    ultimately show ?thesis
      using nth[OF c(1)] g c key by (auto simp: factory_ok_def Let_def pend len heap live_def)
  qed
  moreover have "connectionKey (conns ?j ! e) = connectionKey (conns j ! e)" if "e < length (conns j)" for e
    using nth[OF that] g by (simp add: Let_def)
  ultimately show ?thesis
    using inv d(1,2) unfolding conns_inv_def by (fastforce simp: table len closes heap pools)
qed

definition ready :: "nat \<Rightarrow> jones_state \<Rightarrow> bool" where
  "ready c j \<longleftrightarrow> conns_inv j \<and> c < length (conns j) \<and> jonesConnections j (connectionKey (conns j ! c)) = Some c \<and>
     hasPool (conns j ! c) \<and> \<not> isConnecting (conns j ! c)"

lemma not_closed:
  assumes "conns_inv j" "c < length (conns j)" "jonesConnections j (connectionKey (conns j ! c)) = Some c"
  shows "c \<notin> set (poolCloses j)"
  using conns_invD(3)[OF assms(1,2)] assms(3) unfolding conn_ok_def by blast

lemma resolve_simps [simp]:
  "conns (resolveTableMappingsAndCallback r f j) = conns j"
  "jonesConnections (resolveTableMappingsAndCallback r f j) = jonesConnections j"
  by (auto simp: resolveTableMappingsAndCallback_def split: prod.splits)

lemma create_resolve_ready:
  assumes inv: "conns_inv j" and c: "c < length (conns j)" "jonesConnections j (r_key r) = Some c"
    and db: "r_database r \<notin> fst ` set (factories (conns j ! c))"
    and g: "\<And>x. connectionKey (g x) = connectionKey x \<and> opener (g x) = opener x \<and> factories (g x) = factories x \<and>
      count (g x) = count x \<and> waitingForConnection (g x) = waitingForConnection x \<and> hasPool (g x) \<and>
      \<not> isConnecting (g x)"
  shows "ready c (case createFactory c r (upd_conn c g j) of (f, j1) \<Rightarrow> resolveTableMappingsAndCallback r f j1)"
proof -
  have key: "connectionKey (conns j ! c) = r_key r" using conns_invD(2)[OF inv c(2)] .
  obtain f j1 where j1: "createFactory c r (upd_conn c g j) = (f, j1)" by fastforce
  have "conns_inv j1"
    using new_factory_inv[OF inv c _ db g] not_closed[OF inv c(1)] key c(2) j1 by simp
  moreover have "c < length (conns j1)" "jonesConnections j1 = jonesConnections j"
    "connectionKey (conns j1 ! c) = r_key r" "hasPool (conns j1 ! c)" "\<not> isConnecting (conns j1 ! c)"
    using j1 c g key by (auto simp: createFactory_def Let_def upd_conn_def)
  ultimately show ?thesis using c resolve_inv by (simp add: ready_def j1)
qed

lemma useFactory_ready:
  assumes "ready c j" "r_key r = connectionKey (conns j ! c)"
  shows "ready c (useFactory c r j)"
proof (cases "map_of (factories (conns j ! c)) (r_database r)")
  case None
  then have "r_database r \<notin> fst ` set (factories (conns j ! c))" by (simp add: map_of_eq_None_iff)
  moreover have "upd_conn c (\<lambda>x. x\<lparr>hasPool := True, isConnecting := False\<rparr>) j = j"
  proof -
    have "(conns j ! c)\<lparr>hasPool := True, isConnecting := False\<rparr> = conns j ! c"
      using assms by (cases "conns j ! c") (simp add: ready_def)
    then show ?thesis by (simp add: upd_conn_def)
  qed
  ultimately show ?thesis
    using create_resolve_ready[of j c r "\<lambda>x. x\<lparr>hasPool := True, isConnecting := False\<rparr>"] assms None
    by (simp add: useFactory_def ready_def)
next
  case (Some f)
  with assms resolve_inv show ?thesis by (simp add: useFactory_def ready_def)
qed

lemma useFactory_key:
  assumes "c < length (conns j)"
  shows "connectionKey (conns (useFactory c r j) ! c) = connectionKey (conns j ! c)"
  using assms by (auto simp: useFactory_def createFactory_def Let_def upd_conn_def split: option.splits)

lemma answer_inv: "conns_inv j \<Longrightarrow> conns_inv (answer r x j)"
  by (erule frame_eq) simp_all

text \<open>
  The requests that are still to be told about a connection: it is not connecting any more, and has a
  pool if they are told so. Connections only grow.
\<close>

definition notify_inv :: "jones_state \<Rightarrow> bool" where
  "notify_inv j \<longleftrightarrow> (\<forall>(c, ok, r) \<in> set (notifying j). c < length (conns j) \<and> (ok \<longrightarrow> hasPool (conns j ! c)) \<and>
     \<not> isConnecting (conns j ! c) \<and> r_key r = connectionKey (conns j ! c))"

definition undisturbed :: "jones_state \<Rightarrow> bool" where
  "undisturbed j \<longleftrightarrow> list_all (\<lambda>(c, ok, r). c \<notin> set (poolCloses j)) (notifying j)"

lemma notify_inv_step:
  assumes inv: "conns_inv j" and n: "notify_inv j" "undisturbed j" and k: "k < length (notifying j)"
  shows "conns_inv (notify_next k j)"
proof -
  obtain c ok r where kr: "notifying j ! k = (c, ok, r)" using prod_cases3 by blast
  then have mem: "(c, ok, r) \<in> set (notifying j)" using k nth_mem by metis
  with n have c: "c < length (conns j)" "ok \<longrightarrow> hasPool (conns j ! c)" "\<not> isConnecting (conns j ! c)"
    "r_key r = connectionKey (conns j ! c)" "c \<notin> set (poolCloses j)"
    by (fastforce simp: notify_inv_def undisturbed_def list_all_iff)+
  let ?j = "j\<lparr>notifying := drop_nth k (notifying j)\<rparr>"
  have inv1: "conns_inv ?j" by (rule frame_eq[OF inv]) simp_all
  show ?thesis
  proof (cases ok)
    case True
    from conns_invD(3)[OF inv c(1)] c True
    have "jonesConnections j (connectionKey (conns j ! c)) = Some c" by (auto simp: conn_ok_def)
    with inv1 c True have "ready c ?j" by (simp add: ready_def)
    from useFactory_ready[OF this, of r] c True show ?thesis
      by (simp add: notify_next_def kr notify_def ready_def)
  next
    case False
    with inv1 answer_inv show ?thesis by (simp add: notify_next_def kr notify_def)
  qed
qed

lemma poolCreated_inv:
  assumes inv: "conns_inv j" and c: "c < length (conns j)" "isConnecting (conns j ! c)"
  shows "conns_inv (dbConnectionPoolCreated c ok j)"
proof -
  let ?x = "conns j ! c"
  have x: "factories ?x = []" "jonesConnections j (connectionKey ?x) = Some c" "\<not> hasPool ?x"
    "r_key (opener ?x) = connectionKey ?x" "\<forall>r\<in>set (waitingForConnection ?x). r_key r = connectionKey ?x"
    "count ?x = 0"
    using conns_invD(3)[OF inv c(1)] c(2) by (auto simp: conn_ok_def)
  show ?thesis
  proof (cases ok)
    case True
    let ?g = "\<lambda>x. x\<lparr>isConnecting := False, hasError := False, hasPool := True\<rparr>"
    have e: "upd_conn c (\<lambda>x. x\<lparr>hasPool := True\<rparr>) (upd_conn c (\<lambda>x. x\<lparr>isConnecting := False, hasError := False\<rparr>) j) =
      upd_conn c ?g j"
      using c by (simp add: upd_conn_def)
    let ?j = "case createFactory c (opener ?x) (upd_conn c ?g j) of (f, j1) \<Rightarrow>
      resolveTableMappingsAndCallback (opener ?x) f j1"
    have r: "ready c ?j" using x c by (intro create_resolve_ready[OF inv c(1)]) auto
    then have "conns_inv ?j" by (simp add: ready_def)
    then have "conns_inv (?j\<lparr>notifying := ns\<rparr>)" for ns by (rule frame_eq) simp_all
    then show ?thesis
      using True by (simp add: dbConnectionPoolCreated_def Let_def e)
  next
    case False
    let ?j = "upd_conn c (\<lambda>x. x\<lparr>isConnecting := False, hasError := True\<rparr>) j"
    have "conn_ok (conns ?j ! e) (jonesConnections ?j (connectionKey (conns ?j ! e)) = Some e)
        (e \<in> set (poolCloses ?j)) (heap ?j) e" if "e < length (conns j)" for e
      using conns_invD(3)[OF inv that] x c that by (cases "e = c") (simp_all add: conn_ok_def)
    moreover have "factory_ok ?j f" if "f < length (heap j)" for f
    proof -
      have fo: "factory_ok j f" using conns_invD(4)[OF inv that] .
      have "closes_pending f ?j = closes_pending f j" by (simp add: closes_pending_def)
      with fo show ?thesis by (auto simp: factory_ok_def Let_def)
    qed
    ultimately have "conns_inv ?j"
      using inv c unfolding conns_inv_def by auto
    then have "conns_inv (answer (opener ?x) None ?j)" by (rule answer_inv)
    then have "conns_inv ((answer (opener ?x) None ?j)\<lparr>notifying := ns\<rparr>)" for ns by (rule frame_eq) simp_all
    then show ?thesis
      using False by (simp add: dbConnectionPoolCreated_def Let_def)
  qed
qed

lemma getSessionFactory_use:
  assumes "jonesConnections j (r_key r) = Some c" "\<not> isConnecting (conns j ! c)"
    "map_of (factories (conns j ! c)) (r_database r) \<noteq> None \<or> hasPool (conns j ! c)"
  shows "getSessionFactory r j = useFactory c r (j\<lparr>asked := asked j @ [r_callback r]\<rparr>)"
proof (cases "map_of (factories (conns j ! c)) (r_database r)")
  case None
  with assms show ?thesis by (simp add: getSessionFactory_def useFactory_def)
next
  case (Some f)
  with assms show ?thesis by (simp add: getSessionFactory_def useFactory_def)
qed

lemma getSessionFactory_inv:
  assumes "conns_inv j0"
  shows "conns_inv (getSessionFactory r j0)"
proof -
  define j where "j = j0\<lparr>asked := asked j0 @ [r_callback r]\<rparr>"
  have inv: "conns_inv j"
    by (rule frame_eq[OF assms]) (simp_all add: j_def)
  show ?thesis
  proof (cases "jonesConnections j (r_key r)")
    case None
    let ?x = "\<lparr>connectionKey = r_key r, opener = r, factories = [], count = 0, isConnecting = True,
      waitingForConnection = [], hasError = False, hasPool = False\<rparr>"
    let ?j = "j\<lparr>conns := conns j @ [?x], jonesConnections := (jonesConnections j)(r_key r := Some (length (conns j)))\<rparr>"
    have len: "\<And>c k. jonesConnections j k = Some c \<Longrightarrow> c < length (conns j)" using conns_invD(1)[OF inv] .
    have "conn_ok (conns ?j ! e) (jonesConnections ?j (connectionKey (conns ?j ! e)) = Some e)
        (e \<in> set (poolCloses ?j)) (heap ?j) e" if "e < Suc (length (conns j))" for e
    proof (cases "e < length (conns j)")
      case True
      with None conns_invD(3)[OF inv True] show ?thesis by (auto simp: nth_append)
    next
      case False
      then have e: "e = length (conns j)" using that by simp
      have "e \<notin> set (poolCloses j)" using conns_invD(8)[OF inv, of e] e by auto
      then show ?thesis by (simp add: e conn_ok_def)
    qed
    moreover have "factory_ok ?j f" if "f < length (heap j)" for f
      using conns_invD(4)[OF inv that] by (auto simp: factory_ok_def Let_def nth_append closes_pending_def)
    ultimately have "conns_inv ?j"
    proof (intro conns_invI, goal_cases)
      case (1 k c)
      with None len conns_invD(2)[OF inv, of k c] show ?case by (auto simp: nth_append split: if_splits)
    next
      case (7 c)
      with conns_invD(8)[OF inv, of c] show ?case by simp
    qed (use conns_invD(5-7)[OF inv] in auto)
    with None show ?thesis by (simp add: getSessionFactory_def j_def Let_def)
  next
    case (Some c)
    have c: "c < length (conns j)" "connectionKey (conns j ! c) = r_key r"
      using conns_invD(1,2)[OF inv Some] by auto
    show ?thesis
    proof (cases "isConnecting (conns j ! c)")
      case True
      let ?j = "upd_conn c (\<lambda>x. x\<lparr>waitingForConnection := waitingForConnection x @ [r]\<rparr>) j"
      have "conn_ok (conns ?j ! e) (jonesConnections ?j (connectionKey (conns ?j ! e)) = Some e)
          (e \<in> set (poolCloses ?j)) (heap ?j) e" if "e < length (conns j)" for e
        using conns_invD(3)[OF inv that] c that by (cases "e = c") (simp_all add: conn_ok_def)
      moreover have "factory_ok ?j f" if "f < length (heap j)" for f
      proof -
        have fo: "factory_ok j f" using conns_invD(4)[OF inv that] .
        have "closes_pending f ?j = closes_pending f j" by (simp add: closes_pending_def)
        with fo show ?thesis by (auto simp: factory_ok_def Let_def)
      qed
      ultimately have "conns_inv ?j" using inv c unfolding conns_inv_def by auto
      then show ?thesis
        using Some True by (simp add: getSessionFactory_def j_def[symmetric] Let_def)
    next
      case False
      show ?thesis
      proof (cases "map_of (factories (conns j ! c)) (r_database r) = None \<and> \<not> hasPool (conns j ! c)")
        case True
        then show ?thesis
          using Some False inv by (simp add: getSessionFactory_def j_def[symmetric] Let_def answer_inv)
      next
        case ok: False
        have "hasPool (conns j ! c)"
        proof (cases "factories (conns j ! c) = []")
          case False
          with conns_invD(3)[OF inv c(1)] show ?thesis unfolding conn_ok_def by blast
        qed (use ok in simp)
        then have "ready c j" using inv c Some False by (simp add: ready_def)
        then have "ready c (useFactory c r j)" using c(2)[symmetric] by (rule useFactory_ready)
        moreover have "getSessionFactory r j0 = useFactory c r j"
          unfolding j_def by (rule getSessionFactory_use[where c = c]) (use Some False ok in \<open>auto simp: j_def\<close>)
        ultimately show ?thesis by (simp add: ready_def)
      qed
    qed
  qed
qed

section \<open>Closing\<close>

lemma drop_nth_split: "k < length xs \<Longrightarrow> xs = take k xs @ xs ! k # drop (Suc k) xs"
  by (rule id_take_nth_drop)

lemma set_drop_nth: "set (drop_nth k xs) \<subseteq> set xs"
  by (auto simp: drop_nth_def dest: in_set_takeD in_set_dropD)

text \<open>The last answer: the factory \<open>f\<close>, changed by \<open>g\<close> so that it is not live, is deleted.\<close>

lemma delete_inv:
  assumes inv: "conns_inv j" and f: "f < length (heap j)" "live (heap j ! f)"
    and g: "f_key (g (heap j ! f)) = f_key (heap j ! f)" "f_database (g (heap j ! f)) = f_database (heap j ! f)"
      "f_conn (g (heap j ! f)) = f_conn (heap j ! f)"
    and fin: "closings (g (heap j ! f)) = [cl]" "closedSessions cl = numberOfSessionsToClose cl"
    and j': "conns j' = conns j" "jonesConnections j' = jonesConnections j" "poolCloses j' = poolCloses j"
      "heap j' = (heap j)[f := g (heap j ! f)]"
    and pend: "closes_pending f j' = 0" "\<And>h. h \<noteq> f \<Longrightarrow> closes_pending h j' = closes_pending h j"
    and closes: "\<And>h i who. (h, i, who) \<in> set (sessionCloses j') \<Longrightarrow> h < length (heap j)"
      "\<And>h i c. (h, i, Inl c) \<in> set (sessionCloses j') \<Longrightarrow> c = 0"
  obtains j'' where "deleteFactory f cb j' = Inr j''" "conns_inv j''"
proof -
  define c where "c = f_conn (heap j ! f)"
  define db where "db = f_database (heap j ! f)"
  define fs where "fs = filter (\<lambda>(d, _). d \<noteq> db) (factories (conns j ! c))"
  have fo: "c < length (conns j)" "f_key (heap j ! f) = connectionKey (conns j ! c)"
    "(db, f) \<in> set (factories (conns j ! c))"
    using conns_invD(4)[OF inv f(1)] f(2) by (auto simp: factory_ok_def Let_def c_def db_def)
  have co: "conn_ok (conns j ! c) (jonesConnections j (connectionKey (conns j ! c)) = Some c)
        (c \<in> set (poolCloses j)) (heap j) c" using conns_invD(3)[OF inv fo(1)] .
  have ne: "factories (conns j ! c) \<noteq> []" using fo(3) by auto
  from co ne have listed: "jonesConnections j (connectionKey (conns j ! c)) = Some c"
    and pool: "hasPool (conns j ! c)" "\<not> isConnecting (conns j ! c)" "c \<notin> set (poolCloses j)"
    and cnt: "count (conns j ! c) = int (length (factories (conns j ! c)))"
    and dist: "distinct (map fst (factories (conns j ! c)))"
    and entries: "\<And>d h. (d, h) \<in> set (factories (conns j ! c)) \<Longrightarrow> h < length (heap j) \<and>
        f_conn (heap j ! h) = c \<and> f_database (heap j ! h) = d \<and> live (heap j ! h)"
    unfolding conn_ok_def by blast+
  have lookup: "map_of (factories (conns j ! c)) db = Some f" using dist fo(3) by (rule map_of_is_SomeI)
  have len: "int (length (factories (conns j ! c))) - 1 = int (length fs)"
  proof -
    obtain xs ys where xs: "factories (conns j ! c) = xs @ (db, f) # ys" using split_list[OF fo(3)] by blast
    then have "db \<notin> fst ` set xs" "db \<notin> fst ` set ys" using dist by auto
    then have "filter (\<lambda>(d, _). d \<noteq> db) xs = xs" "filter (\<lambda>(d, _). d \<noteq> db) ys = ys"
      unfolding filter_id_conv by (auto simp: image_iff)
    then have "fs = xs @ ys" by (simp add: fs_def xs)
    then show ?thesis by (simp add: xs)
  qed
  have mem: "(d, h) \<in> set fs \<longleftrightarrow> (d, h) \<in> set (factories (conns j ! c)) \<and> d \<noteq> db" for d h
    by (auto simp: fs_def)
  have notf: "h \<noteq> f" if "(d, h) \<in> set fs" for d h
    using entries that mem by (auto simp: db_def)
  let ?x = "(conns j ! c)\<lparr>factories := fs, count := int (length fs)\<rparr>"
  define table where "table = (if fs = [] then (jonesConnections j)(connectionKey (conns j ! c) := None) else jonesConnections j)"
  define pools where "pools = (if fs = [] then poolCloses j @ [c] else poolCloses j)"
  have hf: "heap j' ! h = (if h = f then g (heap j ! f) else heap j ! h)" if "h < length (heap j)" for h
    using that f by (simp add: j'(4))
  obtain j'' where d: "deleteFactory f cb j' = Inr j''"
    and j'': "conns j'' = (conns j)[c := ?x]" "jonesConnections j'' = table" "poolCloses j'' = pools"
      "heap j'' = heap j'" "sessionCloses j'' = sessionCloses j'"
    using f g fo listed lookup len cnt
    by (cases "fs = []") (simp_all add: deleteFactory_def Let_def hf j'(1-3) c_def[symmetric] db_def[symmetric]
        fs_def[symmetric] upd_conn_def table_def pools_def)
  have old: "conns j'' ! e = (if e = c then ?x else conns j ! e)" if "e < length (conns j)" for e
    using that fo(1) by (simp add: j'')
  have notlive: "\<not> live (g (heap j ! f))" using fin by (simp add: live_def)
  have "conns_inv j''"
  proof (rule conns_invI, goal_cases)
    case (1 k e)
    then have "jonesConnections j k = Some e" by (auto simp: j'' table_def split: if_splits)
    moreover from this have "e < length (conns j)" "connectionKey (conns j ! e) = k"
      using conns_invD(1,2)[OF inv] by blast+
    ultimately show ?case by (cases "e = c") (simp_all add: j''(1))
  next
    case (2 e)
    then have e: "e < length (conns j)" by (simp add: j''(1))
    have oe: "conn_ok (conns j ! e) (jonesConnections j (connectionKey (conns j ! e)) = Some e)
        (e \<in> set (poolCloses j)) (heap j) e" using conns_invD(3)[OF inv e] .
    show ?case
    proof (cases "e = c")
      case True
      have ent: "\<forall>(d, h) \<in> set fs. h < length (heap j') \<and> f_conn (heap j' ! h) = c \<and>
          f_database (heap j' ! h) = d \<and> live (heap j' ! h)"
        using entries mem notf hf by (fastforce simp: j'(4))
      have "distinct (map fst fs)" using dist by (simp add: fs_def distinct_map_filter)
      moreover have "r_key (opener (conns j ! c)) = connectionKey (conns j ! c)"
        "\<forall>r \<in> set (waitingForConnection (conns j ! c)). r_key r = connectionKey (conns j ! c)"
        using co by (simp_all add: conn_ok_def)
      moreover have "jonesConnections j'' (connectionKey ?x) = Some c \<longleftrightarrow> fs \<noteq> []"
        using listed by (simp add: j'' table_def)
      moreover have "c \<in> set (poolCloses j'') \<longleftrightarrow> fs = []" using pool(3) by (simp add: j'' pools_def)
      ultimately show ?thesis
        using ent pool True old[OF e] by (simp add: conn_ok_def j''(4))
    next
      case False
      have keep: "jonesConnections j'' (connectionKey (conns j ! e)) = Some e \<longleftrightarrow>
          jonesConnections j (connectionKey (conns j ! e)) = Some e"
        using listed False by (auto simp: j'' table_def)
      have "\<forall>(d, h) \<in> set (factories (conns j ! e)). h < length (heap j') \<and> f_conn (heap j' ! h) = e \<and>
          f_database (heap j' ! h) = d \<and> live (heap j' ! h)"
      proof (clarify)
        fix d h assume "(d, h) \<in> set (factories (conns j ! e))"
        with oe have h: "h < length (heap j)" "f_conn (heap j ! h) = e" "f_database (heap j ! h) = d" "live (heap j ! h)"
          unfolding conn_ok_def by blast+
        then have "h \<noteq> f" using False by (auto simp: c_def)
        with h show "h < length (heap j') \<and> f_conn (heap j' ! h) = e \<and> f_database (heap j' ! h) = d \<and> live (heap j' ! h)"
          by (simp add: hf j'(4))
      qed
      moreover have "e \<in> set (poolCloses j'') \<longleftrightarrow> e \<in> set (poolCloses j)" using False by (simp add: j'' pools_def)
      ultimately show ?thesis
        using oe old[OF e] False keep unfolding conn_ok_def by (simp add: j''(4))
    qed
  next
    case (3 h)
    then have h: "h < length (heap j)" by (simp add: j''(4) j'(4))
    have ho: "factory_ok j h" using conns_invD(4)[OF inv h] .
    have p: "closes_pending h j'' = closes_pending h j'" for h by (simp add: closes_pending_def j''(5))
    show ?case
    proof (cases "h = f")
      case True
      then show ?thesis
        using f g fo fin notlive pend(1) old[OF fo(1)]
        by (simp add: factory_ok_def Let_def p j''(4) hf c_def[symmetric] j''(1))
    next
      case False
      have hc: "f_conn (heap j ! h) < length (conns j)" using ho by (simp add: factory_ok_def Let_def)
      have "(f_database (heap j ! h), h) \<in> set fs"
        if "f_conn (heap j ! h) = c" "(f_database (heap j ! h), h) \<in> set (factories (conns j ! c))"
      proof -
        have "f_database (heap j ! h) \<noteq> db"
          using eq_key_imp_eq_value[OF dist, of "f_database (heap j ! h)" h f] that fo(3) False by auto
        then show ?thesis using that(2) mem by blast
      qed
      then show ?thesis
        using ho h hc fo(1) False pend(2)[OF False]
        by (cases "f_conn (heap j ! h) = c") (auto simp: factory_ok_def Let_def p j''(4) hf j''(1))
    qed
  next
    case (4 h i who)
    with closes(1) show ?case by (simp add: j''(4,5) j'(4))
  next
    case (5 h i n)
    with closes(2) show ?case by (simp add: j''(5))
  next
    case 6
    then show ?case using conns_invD(7)[OF inv] pool(3) by (simp add: j'' pools_def)
  next
    case (7 e)
    then show ?case using conns_invD(8)[OF inv, of e] fo(1) by (auto simp: j'' pools_def split: if_splits)
  qed
  with d show thesis by (rule that)
qed

lemma closes_pending_drop:
  assumes "k < length (sessionCloses j)" "sessionCloses j ! k = (f, i, who)"
    "sessionCloses j' = drop_nth k (sessionCloses j)"
  shows "closes_pending h j = closes_pending h j' + (if h = f \<and> who = Inl 0 then 1 else 0)"
proof -
  have "sessionCloses j = take k (sessionCloses j) @ (f, i, who) # drop (Suc k) (sessionCloses j)"
    using drop_nth_split[OF assms(1)] assms(2) by simp
  then have "closes_pending h j = length (filter (\<lambda>(g, i, who). g = h \<and> who = Inl 0)
      (take k (sessionCloses j) @ (f, i, who) # drop (Suc k) (sessionCloses j)))"
    by (simp add: closes_pending_def)
  then show ?thesis by (auto simp: closes_pending_def assms(3) drop_nth_def)
qed

lemma frameI:
  assumes "conns_inv j" "conns j' = conns j" "jonesConnections j' = jonesConnections j"
    "poolCloses j' = poolCloses j" "list_all2 same_factory (heap j) (heap j')"
    "\<And>f. closes_pending f j' = closes_pending f j"
    "\<And>f i who. (f, i, who) \<in> set (sessionCloses j') \<Longrightarrow> f < length (heap j)"
    "\<And>f i c. (f, i, Inl c) \<in> set (sessionCloses j') \<Longrightarrow> c = 0"
  shows "conns_inv j'"
proof (rule frame_inv[OF assms(1)])
  show "frame j j'" unfolding frame_def using assms(2-8) by fast
qed

lemma same_factories_upd: "(\<And>x. same_factory x (g x)) \<Longrightarrow> list_all2 same_factory (heap j) (heap (upd_factory f g j))"
  by (auto simp: list_all2_conv_all_nth same_factory_def)

lemma same_slots: "same_factory x (x\<lparr>slots := ss\<rparr>)" "same_factory x (closeSession i x)"
  by (simp_all add: same_factory_def)

lemma slots_inv:
  assumes "conns_inv j" "conns j' = conns j" "jonesConnections j' = jonesConnections j"
    "poolCloses j' = poolCloses j" "sessionCloses j' = sessionCloses j"
    "heap j' = heap (upd_factory f g j)" "\<And>x. same_factory x (g x)"
  shows "conns_inv j'"
proof (rule frameI[OF assms(1)], goal_cases)
  case 5
  then show ?case by (simp add: closes_pending_def assms(5))
next
  case (6 f i who)
  then show ?case using conns_invD(5)[OF assms(1)] by (simp add: assms(5))
next
  case (7 f i c)
  then show ?case using conns_invD(6)[OF assms(1)] by (simp add: assms(5))
qed (simp_all add: assms(2-6) same_factories_upd[OF assms(7)])

lemma onMappingSession_inv: "conns_inv j \<Longrightarrow> conns_inv (onMappingSession k ok j)"
proof (cases "resolving j ! k")
  case (fields r f i)
  assume inv: "conns_inv j"
  show ?thesis
  proof (cases ok)
    case True
    then show ?thesis
      by (intro slots_inv[OF inv, where f = f and g = "\<lambda>x. x\<lparr>slots := js_set Empty (slots x) i (Open (r_callback r))\<rparr>"])
        (simp_all add: onMappingSession_def fields same_slots)
  next
    case False
    then show ?thesis by (intro frame_eq[OF inv]) (simp_all add: onMappingSession_def fields)
  qed
qed

lemma onMappingsResolved_inv: "conns_inv j \<Longrightarrow> conns_inv (onMappingsResolved k closed ok j)"
proof (cases "resolving j ! k")
  case (fields r f i)
  assume inv: "conns_inv j"
  show ?thesis
  proof (cases closed)
    case True
    then show ?thesis
      by (intro slots_inv[OF inv, where f = f and g = "closeSession i"])
        (simp_all add: onMappingsResolved_def fields same_slots upd_factory_def)
  next
    case False
    then show ?thesis by (intro frame_eq[OF inv]) (simp_all add: onMappingsResolved_def fields)
  qed
qed

lemma openSession_inv: "conns_inv j \<Longrightarrow> conns_inv (openSessionOnSessionFactory f cb j)"
proof -
  assume inv: "conns_inv j"
  obtain i ss where a: "allocateSessionSlot (slots (heap j ! f)) = (i, ss)" by fastforce
  show ?thesis
    by (intro slots_inv[OF inv, where f = f and g = "\<lambda>x. x\<lparr>slots := ss\<rparr>"])
      (simp_all add: openSessionOnSessionFactory_def a same_slots Let_def)
qed

lemma openSessionOnSession_inv: "conns_inv j \<Longrightarrow> conns_inv (openSessionOnSession k ok j)"
proof (cases "pendingOpens j ! k")
  case (fields f i cb)
  assume inv: "conns_inv j"
  show ?thesis
  proof (cases ok)
    case True
    then show ?thesis
      by (intro slots_inv[OF inv, where f = f and g = "\<lambda>x. x\<lparr>slots := js_set Empty (slots x) i (Open cb)\<rparr>"])
        (simp_all add: openSessionOnSession_def fields same_slots upd_factory_def)
  next
    case False
    then show ?thesis by (intro frame_eq[OF inv]) (simp_all add: openSessionOnSession_def fields)
  qed
qed

lemma userCloseSession_inv:
  assumes inv: "conns_inv j" and f: "f < length (heap j)"
  shows "conns_inv (userCloseSession f i cb j)"
proof (rule frameI[OF inv], goal_cases)
  case (6 g i who)
  then show ?case using conns_invD(5)[OF inv] f by (auto simp: userCloseSession_def)
next
  case (7 g i c)
  then show ?case using conns_invD(6)[OF inv] by (auto simp: userCloseSession_def)
qed (simp_all add: userCloseSession_def closes_pending_def same_factories)

text \<open>The factory \<open>f\<close> is changed by \<open>g\<close> and stays live, in its first close.\<close>

lemma still_live_inv:
  assumes inv: "conns_inv j" and f: "f < length (heap j)" "live (heap j ! f)"
    and g: "f_key (g (heap j ! f)) = f_key (heap j ! f)" "f_database (g (heap j ! f)) = f_database (heap j ! f)"
      "f_conn (g (heap j ! f)) = f_conn (heap j ! f)" "live (g (heap j ! f))"
    and one: "closings (g (heap j ! f)) = [cl]"
      "closes_pending f j' + closedSessions cl = numberOfSessionsToClose cl"
    and j': "conns j' = conns j" "jonesConnections j' = jonesConnections j" "poolCloses j' = poolCloses j"
      "heap j' = (heap j)[f := g (heap j ! f)]"
    and pend: "\<And>h. h \<noteq> f \<Longrightarrow> closes_pending h j' = closes_pending h j"
    and closes: "\<And>h i who. (h, i, who) \<in> set (sessionCloses j') \<Longrightarrow> h < length (heap j)"
      "\<And>h i c. (h, i, Inl c) \<in> set (sessionCloses j') \<Longrightarrow> c = 0"
  shows "conns_inv j'"
proof (rule conns_invI, goal_cases)
  case (1 k c)
  then show ?case using conns_invD(1,2)[OF inv] by (simp add: j')
next
  case (2 c)
  then have co: "conn_ok (conns j ! c) (jonesConnections j (connectionKey (conns j ! c)) = Some c)
      (c \<in> set (poolCloses j)) (heap j) c" using conns_invD(3)[OF inv] by (simp add: j')
  have "\<forall>(d, h) \<in> set (factories (conns j ! c)). h < length (heap j') \<and> f_conn (heap j' ! h) = c \<and>
      f_database (heap j' ! h) = d \<and> live (heap j' ! h)"
  proof (clarify)
    fix d h assume "(d, h) \<in> set (factories (conns j ! c))"
    with co have "h < length (heap j) \<and> f_conn (heap j ! h) = c \<and> f_database (heap j ! h) = d \<and> live (heap j ! h)"
      unfolding conn_ok_def by blast
    then show "h < length (heap j') \<and> f_conn (heap j' ! h) = c \<and> f_database (heap j' ! h) = d \<and> live (heap j' ! h)"
      using g by (cases "h = f") (simp_all add: j')
  qed
  with co show ?case unfolding conn_ok_def by (simp add: j')
next
  case (3 h)
  then have "factory_ok j h" using conns_invD(4)[OF inv] by (simp add: j')
  with 3 f g one pend[of h] show ?case
    by (cases "h = f") (auto simp: factory_ok_def Let_def j')
next
  case (4 h i who)
  then show ?case using closes(1) by (simp add: j')
qed (use closes(2) conns_invD(7,8)[OF inv] j' in auto)

lemma open_placeholder_count:
  "length (filter (\<lambda>s. s \<noteq> Empty) ss) = length (filter (\<lambda>s. s = Placeholder) ss) + length (open_slots ss)"
proof -
  have "length (open_slots ss) = length (filter (\<lambda>s. is_open s) ss)"
  proof -
    have "filter (\<lambda>s. is_open s) (map ((!) ss) [0..<length ss]) = map ((!) ss) (open_slots ss)"
      by (simp add: filter_map open_slots_def o_def)
    then have "filter (\<lambda>s. is_open s) ss = map ((!) ss) (open_slots ss)" by (simp add: map_nth)
    then show ?thesis by simp
  qed
  moreover have "length (filter (\<lambda>s. s \<noteq> Empty) ss) =
      length (filter (\<lambda>s. s = Placeholder) ss) + length (filter (\<lambda>s. is_open s) ss)"
  proof (induction ss)
    case (Cons s ss)
    then show ?case by (cases s) simp_all
  qed simp
  ultimately show ?thesis by simp
qed

lemma filter_first_close [simp]:
  "filter (\<lambda>(g, i, who). g = h \<and> who = Inl 0) (map (\<lambda>i. (f, i, Inl 0)) is) =
     (if h = f then map (\<lambda>i. (f, i, Inl 0)) is else [])"
  by (induction "is") auto

lemma factory_close_inv:
  assumes inv: "conns_inv j" and f: "f < length (heap j)" "closings (heap j ! f) = []"
  obtains j' where "factory_close f cb j = Inr j'" "conns_inv j'"
proof -
  define ss where "ss = slots (heap j ! f)"
  define n where "n = length (filter (\<lambda>s. s \<noteq> Empty) ss)"
  define direct where "direct = length (filter (\<lambda>s. s = Placeholder) ss)"
  define cl where "cl = \<lparr>numberOfSessionsToClose = n, closedSessions = direct, close_callback = cb\<rparr>"
  define g where "g x = x\<lparr>slots := map (\<lambda>_. Empty) ss, closings := closings x @ [cl]\<rparr>" for x :: factory
  define j2 where "j2 = (upd_factory f g j)\<lparr>sessionCloses :=
    sessionCloses j @ map (\<lambda>i. (f, i, Inl 0)) (open_slots ss)\<rparr>"
  have run: "factory_close f cb j = (if direct = n then deleteFactory f cb j2 else Inr j2)"
    using f by (simp add: factory_close_def Let_def ss_def[symmetric] n_def[symmetric] direct_def[symmetric]
        cl_def g_def[abs_def] j2_def)
  have split: "n = direct + length (open_slots ss)"
    unfolding n_def direct_def by (rule open_placeholder_count)
  have live: "live (heap j ! f)" using f by (simp add: live_def)
  have none: "closes_pending f j = 0"
    using conns_invD(4)[OF inv f(1)] f(2) by (simp add: factory_ok_def Let_def)
  have pend: "closes_pending h j2 = closes_pending h j + (if h = f then length (open_slots ss) else 0)" for h
    by (simp add: j2_def closes_pending_def)
  have gs: "f_key (g (heap j ! f)) = f_key (heap j ! f)" "f_database (g (heap j ! f)) = f_database (heap j ! f)"
    "f_conn (g (heap j ! f)) = f_conn (heap j ! f)" "closings (g (heap j ! f)) = [cl]"
    using f by (simp_all add: g_def)
  have j2: "conns j2 = conns j" "jonesConnections j2 = jonesConnections j" "poolCloses j2 = poolCloses j"
    "heap j2 = (heap j)[f := g (heap j ! f)]"
    by (simp_all add: j2_def upd_factory_def)
  have closes: "\<And>h i who. (h, i, who) \<in> set (sessionCloses j2) \<Longrightarrow> h < length (heap j)"
    "\<And>h i c. (h, i, Inl c) \<in> set (sessionCloses j2) \<Longrightarrow> c = 0"
    using conns_invD(5,6)[OF inv] f by (auto simp: j2_def)
  show thesis
  proof (cases "direct = n")
    case True
    have full: "closedSessions cl = numberOfSessionsToClose cl" using True by (simp add: cl_def)
    have p0: "closes_pending f j2 = 0" using pend none split True by simp
    have ph: "closes_pending h j2 = closes_pending h j" if "h \<noteq> f" for h using pend that by simp
    obtain j'' where "deleteFactory f cb j2 = Inr j''" "conns_inv j''"
      by (rule delete_inv[where g = g and cl = cl and cb = cb, OF inv f(1) live gs full j2 p0 ph closes])
    then show thesis using that run True by simp
  next
    case False
    have alive: "live (g (heap j ! f))" using gs(4) False split by (simp add: live_def cl_def)
    have sum: "closes_pending f j2 + closedSessions cl = numberOfSessionsToClose cl"
      using pend none split by (simp add: cl_def)
    have ph: "closes_pending h j2 = closes_pending h j" if "h \<noteq> f" for h using pend that by simp
    have "conns_inv j2"
      by (rule still_live_inv[where g = g and cl = cl, OF inv f(1) live gs(1-3) alive gs(4) sum j2 ph closes])
    then show thesis using that run False by simp
  qed
qed

lemma onSessionClose_inv:
  assumes inv: "conns_inv j" and k: "k < length (sessionCloses j)"
  obtains j' where "onSessionClose k j = Inr j'" "conns_inv j'"
proof (cases "sessionCloses j ! k")
  case (fields f i who)
  have mem: "(f, i, who) \<in> set (sessionCloses j)" using k fields nth_mem by fastforce
  have f: "f < length (heap j)" using conns_invD(5)[OF inv mem] .
  define j1 where "j1 = upd_factory f (closeSession i) (j\<lparr>sessionCloses := drop_nth k (sessionCloses j)\<rparr>)"
  have s1: "sessionCloses j1 = drop_nth k (sessionCloses j)" by (simp add: j1_def)
  note pend = closes_pending_drop[OF k fields s1]
  have closes: "\<And>h i who. (h, i, who) \<in> set (sessionCloses j1) \<Longrightarrow> h < length (heap j)"
    "\<And>h i c. (h, i, Inl c) \<in> set (sessionCloses j1) \<Longrightarrow> c = 0"
    unfolding s1 by (auto dest!: set_drop_nth[THEN subsetD] intro: conns_invD(5,6)[OF inv])
  show thesis
  proof (cases who)
    case (Inr cb)
    let ?j = "j1\<lparr>sessionAnswers := sessionAnswers j1 @ [(cb, None)]\<rparr>"
    have "conns_inv ?j"
    proof (rule frameI[OF inv], goal_cases)
      case 4
      have "list_all2 same_factory (heap j) (heap (upd_factory f (closeSession i) j))"
        by (rule same_factories_upd) (rule same_slots)
      then show ?case by (simp add: j1_def upd_factory_def)
    next
      case (5 h)
      show ?case using pend[of h] Inr by (simp add: closes_pending_def)
    next
      case (6 h i who)
      then show ?case using closes(1) by simp
    next
      case (7 h i c)
      then show ?case using closes(2) by simp
    qed (simp_all add: j1_def)
    then show thesis using that Inr by (simp add: onSessionClose_def fields j1_def Let_def)
  next
    case (Inl c)
    have c0: "c = 0" using conns_invD(6)[OF inv] mem Inl by blast
    have "closes_pending f j > 0" using pend[of f] Inl c0 by simp
    then obtain cl where cl: "closings (heap j ! f) = [cl]"
        "closes_pending f j + closedSessions cl = numberOfSessionsToClose cl"
      using conns_invD(4)[OF inv f] by (cases "closings (heap j ! f)") (auto simp: factory_ok_def Let_def)
    define cl' where "cl' = cl\<lparr>closedSessions := Suc (closedSessions cl)\<rparr>"
    define g where "g x = (closeSession i x)\<lparr>closings := [cl']\<rparr>" for x :: factory
    define j2 where "j2 = (j\<lparr>sessionCloses := drop_nth k (sessionCloses j), heap := (heap j)[f := g (heap j ! f)]\<rparr>)"
    have live: "live (heap j ! f)" using cl \<open>closes_pending f j > 0\<close> by (simp add: live_def)
    have run: "onSessionClose k j =
        (if closedSessions cl' = numberOfSessionsToClose cl' then deleteFactory f (close_callback cl') j2 else Inr j2)"
    proof -
      have "upd_factory f (\<lambda>x. x\<lparr>closings := (closings x)[0 := cl']\<rparr>) j1 = j2"
        using f cl by (simp add: j1_def j2_def upd_factory_def g_def)
      moreover have "closings (heap j1 ! f) ! 0 = cl" using f cl by (simp add: j1_def)
      ultimately show ?thesis
        unfolding onSessionClose_def fields prod.case Inl sum.case c0 j1_def[symmetric] Let_def
        by (simp only: cl'_def[symmetric])
    qed
    have gs: "f_key (g (heap j ! f)) = f_key (heap j ! f)" "f_database (g (heap j ! f)) = f_database (heap j ! f)"
      "f_conn (g (heap j ! f)) = f_conn (heap j ! f)" "closings (g (heap j ! f)) = [cl']"
      by (simp_all add: g_def)
    have j2: "conns j2 = conns j" "jonesConnections j2 = jonesConnections j" "poolCloses j2 = poolCloses j"
      "heap j2 = (heap j)[f := g (heap j ! f)]"
      by (simp_all add: j2_def)
    have p2: "closes_pending h j2 = closes_pending h j1" for h by (simp add: closes_pending_def j2_def s1)
    have pf: "Suc (closes_pending f j2) = closes_pending f j" using pend[of f] p2 Inl c0 by simp
    have ph: "closes_pending h j2 = closes_pending h j" if "h \<noteq> f" for h using pend[of h] p2 that by simp
    have c2: "\<And>h i who. (h, i, who) \<in> set (sessionCloses j2) \<Longrightarrow> h < length (heap j)"
      "\<And>h i c. (h, i, Inl c) \<in> set (sessionCloses j2) \<Longrightarrow> c = 0"
      using closes unfolding s1 by (simp_all add: j2_def)
    show thesis
    proof (cases "closedSessions cl' = numberOfSessionsToClose cl'")
      case True
      have "closes_pending f j2 = 0" using True pf cl(2) by (simp add: cl'_def)
      note p0 = this
      obtain j'' where "deleteFactory f (close_callback cl') j2 = Inr j''" "conns_inv j''"
        by (rule delete_inv[where g = g and cl = cl' and cb = "close_callback cl'", OF inv f live gs True j2 p0 ph c2])
      then show thesis using that run True by simp
    next
      case False
      have sum: "closes_pending f j2 + closedSessions cl' = numberOfSessionsToClose cl'"
        using pf cl(2) by (simp add: cl'_def)
      then have "live (g (heap j ! f))" using gs(4) False by (simp add: live_def)
      from still_live_inv[where g = g and cl = cl', OF inv f live gs(1-3) this gs(4) sum j2 ph c2]
      show thesis using that run False by simp
    qed
  qed
qed

text \<open>Connections keep their key and their pool, and never connect again.\<close>

definition grow :: "jones_state \<Rightarrow> jones_state \<Rightarrow> bool" where
  "grow j j' \<longleftrightarrow> length (conns j) \<le> length (conns j') \<and>
     (\<forall>c < length (conns j). connectionKey (conns j' ! c) = connectionKey (conns j ! c) \<and>
        (hasPool (conns j ! c) \<longrightarrow> hasPool (conns j' ! c)) \<and>
        (\<not> isConnecting (conns j ! c) \<longrightarrow> \<not> isConnecting (conns j' ! c))) \<and>
     notifying j' = notifying j"

lemma grow_same: "conns j' = conns j \<Longrightarrow> notifying j' = notifying j \<Longrightarrow> grow j j'"
  by (simp add: grow_def)

lemma grow_trans: "grow j j1 \<Longrightarrow> grow j1 j2 \<Longrightarrow> grow j j2"
  unfolding grow_def by (metis order.strict_trans2 order.trans)

lemma grow_upd_conn:
  assumes "\<And>x. connectionKey (g x) = connectionKey x \<and> (hasPool x \<longrightarrow> hasPool (g x)) \<and> (isConnecting (g x) \<longrightarrow> isConnecting x)"
  shows "grow j (upd_conn c g j)"
  using assms by (auto simp: grow_def)

lemma notify_inv_grow: "notify_inv j \<Longrightarrow> grow j j' \<Longrightarrow> notify_inv j'"
  unfolding notify_inv_def grow_def by fastforce

lemma notify_inv_fewer: "notify_inv j \<Longrightarrow> set ns \<subseteq> set (notifying j) \<Longrightarrow> notify_inv (j\<lparr>notifying := ns\<rparr>)"
  unfolding notify_inv_def by auto

lemma notify_inv_more:
  assumes "notify_inv j" "\<forall>(c, ok, r) \<in> set ns. c < length (conns j) \<and> (ok \<longrightarrow> hasPool (conns j ! c)) \<and>
     \<not> isConnecting (conns j ! c) \<and> r_key r = connectionKey (conns j ! c)"
  shows "notify_inv (j\<lparr>notifying := notifying j @ ns\<rparr>)"
  using assms by (auto simp: notify_inv_def)

lemma resolve_notifying [simp]: "notifying (resolveTableMappingsAndCallback r f j) = notifying j"
  by (auto simp: resolveTableMappingsAndCallback_def split: prod.splits)

lemma grow_create_resolve:
  "grow j (case createFactory c r j of (f, j1) \<Rightarrow> resolveTableMappingsAndCallback r f j1)"
proof -
  let ?g = "\<lambda>x. x\<lparr>factories := factories x @ [(r_database r, length (heap j))], count := count x + 1\<rparr>"
  have "grow j (upd_conn c ?g j)" by (rule grow_upd_conn) simp
  then show ?thesis by (auto simp: createFactory_def Let_def grow_def upd_conn_def)
qed

lemma grow_useFactory: "grow j (useFactory c r j)"
  using grow_create_resolve by (auto simp: useFactory_def grow_same split: option.splits)

lemma grow_getSessionFactory: "grow j (getSessionFactory r j)"
proof -
  let ?j = "j\<lparr>asked := asked j @ [r_callback r]\<rparr>"
  have j: "grow j ?j" by (rule grow_same) simp_all
  have w: "grow ?j (upd_conn c (\<lambda>x. x\<lparr>waitingForConnection := waitingForConnection x @ [r]\<rparr>) ?j)" for c
    by (rule grow_upd_conn) simp
  show ?thesis
  proof (cases "jonesConnections j (r_key r)")
    case None
    then show ?thesis by (simp add: getSessionFactory_def grow_def nth_append)
  next
    case (Some c)
    show ?thesis
    proof (rule grow_trans[OF j])
      show "grow ?j (getSessionFactory r j)"
        using w[of c] grow_create_resolve[where j = ?j and c = c and r = r] Some
        by (auto simp: getSessionFactory_def Let_def grow_same split: option.splits)
    qed
  qed
qed

lemma grow_deleteFactory:
  assumes "deleteFactory f cb j = Inr j'"
  shows "grow j j'"
proof -
  let ?db = "f_database (heap j ! f)" and ?own = "f_conn (heap j ! f)"
  obtain c where j': "conns j' = conns (upd_conn ?own (\<lambda>x. x\<lparr>count := count x - 1\<rparr>)
      (upd_conn c (\<lambda>x. x\<lparr>factories := filter (\<lambda>(d, _). d \<noteq> ?db) (factories x)\<rparr>) j))" "notifying j' = notifying j"
    using assms by (auto simp: deleteFactory_def Let_def split: option.splits if_splits)
  have "grow j (upd_conn c (\<lambda>x. x\<lparr>factories := filter (\<lambda>(d, _). d \<noteq> ?db) (factories x)\<rparr>) j)"
    by (rule grow_upd_conn) simp
  moreover have "grow i (upd_conn ?own (\<lambda>x. x\<lparr>count := count x - 1\<rparr>) i)" for i by (rule grow_upd_conn) simp
  ultimately have "grow j (upd_conn ?own (\<lambda>x. x\<lparr>count := count x - 1\<rparr>)
      (upd_conn c (\<lambda>x. x\<lparr>factories := filter (\<lambda>(d, _). d \<noteq> ?db) (factories x)\<rparr>) j))"
    by (rule grow_trans)
  then show ?thesis using j' by (simp add: grow_def)
qed

lemma grow_maybe_delete:
  assumes "(if b then deleteFactory f cb j2 else Inr j2) = Inr j'" "conns j2 = conns j" "notifying j2 = notifying j"
  shows "grow j j'"
proof (cases b)
  case True
  with assms(1) grow_deleteFactory have "grow j2 j'" by simp
  with assms(2,3) show ?thesis by (simp add: grow_def)
next
  case False
  with assms show ?thesis by (simp add: grow_same)
qed

lemma grow_factory_close:
  assumes "factory_close f cb j = Inr j'"
  shows "grow j j'"
  using assms unfolding factory_close_def Let_def by (rule grow_maybe_delete) simp_all

lemma grow_onSessionClose:
  assumes "onSessionClose k j = Inr j'"
  shows "grow j j'"
proof (cases "sessionCloses j ! k")
  case (fields f i who)
  show ?thesis
  proof (cases who)
    case (Inl c)
    show ?thesis
      using assms unfolding onSessionClose_def fields Let_def Inl prod.case sum.case by (rule grow_maybe_delete) simp_all
  next
    case (Inr cb)
    with assms show ?thesis by (auto simp: onSessionClose_def fields Let_def grow_same)
  qed
qed

lemma grow_step:
  assumes "step ev j = Inr j'" "\<And>c ok. ev \<noteq> PoolCreated c ok" "\<And>k. ev \<noteq> NotifyNext k"
  shows "grow j j'"
proof (cases ev)
  case (Connect r)
  with assms grow_getSessionFactory show ?thesis by auto
next
  case (SessionClosed k)
  with assms grow_onSessionClose grow_same show ?thesis by (fastforce split: if_splits)
next
  case (CloseFactory f cb)
  with assms grow_factory_close grow_same show ?thesis by (fastforce split: if_splits)
next
  case (MappingSession k ok)
  with assms show ?thesis
    by (auto intro!: grow_same simp: onMappingSession_def split: if_splits prod.splits)
next
  case (MappingsResolved k closed ok)
  with assms show ?thesis
    by (auto intro!: grow_same simp: onMappingsResolved_def Let_def split: if_splits prod.splits)
next
  case (OpenSession f cb)
  with assms show ?thesis
    by (auto intro!: grow_same simp: openSessionOnSessionFactory_def Let_def split: if_splits prod.splits)
next
  case (SessionOpened k ok)
  with assms show ?thesis
    by (auto intro!: grow_same simp: openSessionOnSession_def Let_def split: if_splits prod.splits)
next
  case (CloseSession f i cb)
  with assms show ?thesis by (auto intro!: grow_same simp: userCloseSession_def)
qed (use assms in simp_all)

lemma notify_inv_poolCreated:
  assumes inv: "conns_inv j" "notify_inv j" and c: "c < length (conns j)" "isConnecting (conns j ! c)"
  shows "notify_inv (dbConnectionPoolCreated c ok j)"
proof -
  let ?x = "conns j ! c"
  let ?j1 = "upd_conn c (\<lambda>x. x\<lparr>isConnecting := False, hasError := \<not> ok\<rparr>) j"
  let ?jp = "upd_conn c (\<lambda>x. x\<lparr>hasPool := True\<rparr>) ?j1"
  define j2 where "j2 = (if \<not> ok then answer (opener ?x) None ?j1
    else (case createFactory c (opener ?x) ?jp of (f, j2) \<Rightarrow> resolveTableMappingsAndCallback (opener ?x) f j2))"
  have run: "dbConnectionPoolCreated c ok j =
      j2\<lparr>notifying := notifying j2 @ map (\<lambda>r. (c, ok, r)) (waitingForConnection (conns j2 ! c))\<rparr>"
    by (simp add: dbConnectionPoolCreated_def Let_def j2_def)
  have g1: "grow j ?j1" by (rule grow_upd_conn) simp
  have "grow ?j1 ?jp" by (rule grow_upd_conn) simp
  then have g2: "grow j ?jp" by (rule grow_trans[OF g1])
  have g3: "grow ?j1 (answer (opener ?x) None ?j1)" by (rule grow_same) simp_all
  have "grow j j2"
  proof (cases ok)
    case True
    with grow_trans[OF g2 grow_create_resolve] show ?thesis by (simp add: j2_def)
  next
    case False
    with grow_trans[OF g1 g3] show ?thesis by (simp add: j2_def)
  qed
  then have inv2: "notify_inv j2" using notify_inv_grow inv(2) by blast
  have "c < length (conns j2)" "connectionKey (conns j2 ! c) = connectionKey ?x"
    "waitingForConnection (conns j2 ! c) = waitingForConnection ?x" "\<not> isConnecting (conns j2 ! c)"
    "ok \<longrightarrow> hasPool (conns j2 ! c)"
    using c by (auto simp: j2_def createFactory_def Let_def upd_conn_def)
  moreover have "\<forall>r\<in>set (waitingForConnection ?x). r_key r = connectionKey ?x"
    using conns_invD(3)[OF inv(1) c(1)] by (simp add: conn_ok_def)
  ultimately show ?thesis unfolding run using inv2 by (intro notify_inv_more) auto
qed

lemma notify_inv_keeps:
  assumes "conns_inv j" "notify_inv j" "step ev j = Inr j'"
  shows "notify_inv j'"
proof (cases "(\<exists>c ok. ev = PoolCreated c ok) \<or> (\<exists>k. ev = NotifyNext k)")
  case False
  with assms grow_step notify_inv_grow show ?thesis by blast
next
  case True
  then show ?thesis
  proof
    assume "\<exists>c ok. ev = PoolCreated c ok"
    with assms notify_inv_poolCreated show ?thesis by (auto split: if_splits)
  next
    assume "\<exists>k. ev = NotifyNext k"
    then obtain k where k: "ev = NotifyNext k" by blast
    let ?j = "j\<lparr>notifying := drop_nth k (notifying j)\<rparr>"
    have n: "notify_inv ?j" using assms(2) by (rule notify_inv_fewer) (rule set_drop_nth)
    have "grow ?j (notify c ok r ?j)" for c ok r by (simp add: notify_def grow_useFactory grow_same)
    with n notify_inv_grow have "notify_inv (notify_next k j)" by (auto simp: notify_next_def split: prod.splits)
    with assms k show ?thesis by (auto split: if_splits)
  qed
qed

text \<open>
  The runs in which no pool is closed while the loop has still to tell requests that this pool is
  there: so no callback that the loop calls closes the last factory of the connection.
\<close>

fun patient :: "event list \<Rightarrow> jones_state \<Rightarrow> bool" where
  "patient [] j = undisturbed j"
| "patient (ev # evs) j = (undisturbed j \<and> (case step ev j of Inl e \<Rightarrow> True | Inr j' \<Rightarrow> patient evs j'))"

lemma step_inv:
  assumes "conns_inv j" "notify_inv j" "undisturbed j"
  obtains j' where "step ev j = Inr j'" "conns_inv j'"
proof (cases ev)
  case (Connect r)
  with that getSessionFactory_inv[OF assms(1)] show thesis by simp
next
  case (PoolCreated c ok)
  with that assms poolCreated_inv[OF assms(1)] show thesis by auto
next
  case (NotifyNext k)
  with that assms(1) notify_inv_step[OF assms, of k] show thesis by auto
next
  case (MappingSession k ok)
  with that assms onMappingSession_inv[OF assms(1)] show thesis by auto
next
  case (MappingsResolved k closed ok)
  with that assms onMappingsResolved_inv[OF assms(1)] show thesis by auto
next
  case (OpenSession f cb)
  with that assms openSession_inv[OF assms(1)] show thesis by auto
next
  case (SessionOpened k ok)
  with that assms openSessionOnSession_inv[OF assms(1)] show thesis by auto
next
  case (CloseSession f i cb)
  with that assms userCloseSession_inv[OF assms(1)] show thesis by auto
next
  case (SessionClosed k)
  then show thesis
    using that assms by (cases "k < length (sessionCloses j)") (auto elim: onSessionClose_inv[OF assms(1)])
next
  case (CloseFactory f cb)
  then show thesis
    using that assms
    by (cases "f < length (heap j) \<and> closings (heap j ! f) = []") (auto elim: factory_close_inv[OF assms(1)])
qed

text \<open>
  What the table of connections promises: a live factory is the one that its key and its database
  find, on a connection that is in the table and whose pool is not closed; and a pool is closed, once,
  exactly when no live factory uses it.
\<close>

definition uses :: "jones_state \<Rightarrow> nat \<Rightarrow> nat \<Rightarrow> bool" where
  "uses j c f \<longleftrightarrow> f < length (heap j) \<and> live (heap j ! f) \<and> f_conn (heap j ! f) = c"

definition table_sound :: "jones_state \<Rightarrow> bool" where
  "table_sound j \<longleftrightarrow>
     (\<forall>c f. uses j c f \<longrightarrow> jonesConnections j (f_key (heap j ! f)) = Some c \<and>
        map_of (factories (conns j ! c)) (f_database (heap j ! f)) = Some f) \<and>
     distinct (poolCloses j) \<and>
     (\<forall>c<length (conns j). c \<in> set (poolCloses j) \<longleftrightarrow> hasPool (conns j ! c) \<and> (\<forall>f. \<not> uses j c f))"

lemma inv_table_sound:
  assumes inv: "conns_inv j"
  shows "table_sound j"
proof -
  have use: "c < length (conns j) \<and> (f_database (heap j ! f), f) \<in> set (factories (conns j ! c)) \<and>
      f_key (heap j ! f) = connectionKey (conns j ! c)" if "uses j c f" for c f
    using conns_invD(4)[OF inv, of f] that by (auto simp: uses_def factory_ok_def Let_def)
  have c: "conn_ok (conns j ! c) (jonesConnections j (connectionKey (conns j ! c)) = Some c)
      (c \<in> set (poolCloses j)) (heap j) c" if "c < length (conns j)" for c
    using conns_invD(3)[OF inv that] .
  have "jonesConnections j (f_key (heap j ! f)) = Some c \<and>
      map_of (factories (conns j ! c)) (f_database (heap j ! f)) = Some f" if "uses j c f" for c f
  proof -
    from use[OF that] have u: "c < length (conns j)" "(f_database (heap j ! f), f) \<in> set (factories (conns j ! c))"
      "f_key (heap j ! f) = connectionKey (conns j ! c)" by blast+
    then have "factories (conns j ! c) \<noteq> []" by auto
    with c[OF u(1)] have "jonesConnections j (connectionKey (conns j ! c)) = Some c"
      "distinct (map fst (factories (conns j ! c)))"
      unfolding conn_ok_def by blast+
    then show ?thesis using u map_of_is_SomeI[OF _ u(2)] by simp
  qed
  moreover have "c \<in> set (poolCloses j) \<longleftrightarrow> hasPool (conns j ! c) \<and> (\<forall>f. \<not> uses j c f)"
    if "c < length (conns j)" for c
  proof -
    have "factories (conns j ! c) = [] \<longleftrightarrow> (\<forall>f. \<not> uses j c f)"
    proof
      assume "factories (conns j ! c) = []"
      then show "\<forall>f. \<not> uses j c f" using use by fastforce
    next
      assume none: "\<forall>f. \<not> uses j c f"
      show "factories (conns j ! c) = []"
      proof (rule ccontr)
        assume "factories (conns j ! c) \<noteq> []"
        then obtain d f where "(d, f) \<in> set (factories (conns j ! c))" by (metis list.set_intros(1) neq_Nil_conv surj_pair)
        with c[OF that] have "uses j c f" unfolding conn_ok_def uses_def by blast
        with none show False by blast
      qed
    qed
    with c[OF that] show ?thesis unfolding conn_ok_def by blast
  qed
  ultimately show ?thesis using conns_invD(7)[OF inv] unfolding table_sound_def by blast
qed

section \<open>Answers\<close>

text \<open>The requests that wait for a pool, and those that have asked and are not answered.\<close>

definition connecting :: "connection \<Rightarrow> nat list" where
  "connecting x = (if isConnecting x then map r_callback (opener x # waitingForConnection x) else [])"

definition unanswered :: "jones_state \<Rightarrow> nat multiset" where
  "unanswered j = (\<Sum>x\<leftarrow>conns j. mset (connecting x)) + mset (map (\<lambda>(r, f, i). r_callback r) (resolving j)) +
     mset (map (\<lambda>(c, ok, r). r_callback r) (notifying j))"

definition accounted :: "jones_state \<Rightarrow> nat multiset" where
  "accounted j = mset (map fst (answers j)) + unanswered j"

lemma sum_upd:
  assumes "i < length xs"
  shows "(\<Sum>x\<leftarrow>xs[i := y]. g x) + g (xs ! i) = (\<Sum>x\<leftarrow>xs. g x) + (g y :: 'a multiset)"
proof -
  have "(\<Sum>x\<leftarrow>xs. g x) = (\<Sum>x\<leftarrow>take i xs. g x) + (g (xs ! i) + (\<Sum>x\<leftarrow>drop (Suc i) xs. g x))"
    by (subst id_take_nth_drop[OF assms]) simp
  moreover have "(\<Sum>x\<leftarrow>xs[i := y]. g x) = (\<Sum>x\<leftarrow>take i xs. g x) + (g y + (\<Sum>x\<leftarrow>drop (Suc i) xs. g x))"
    by (simp add: upd_conv_take_nth_drop[OF assms])
  ultimately show ?thesis by (simp add: ac_simps)
qed

lemma accounted_same:
  "conns j' = conns j \<Longrightarrow> resolving j' = resolving j \<Longrightarrow> answers j' = answers j \<Longrightarrow>
   notifying j' = notifying j \<Longrightarrow> accounted j' = accounted j"
  by (simp add: accounted_def unanswered_def)

lemma resolve_accounted:
  "accounted (resolveTableMappingsAndCallback r f j) = add_mset (r_callback r) (accounted j)"
  by (auto simp: resolveTableMappingsAndCallback_def accounted_def unanswered_def split: prod.splits)

lemma answer_accounted: "accounted (answer r x j) = add_mset (r_callback r) (accounted j)"
  by (simp add: accounted_def unanswered_def)

lemma upd_accounted:
  assumes "c < length (conns j)"
  shows "accounted (upd_conn c g j) + mset (connecting (conns j ! c)) =
    accounted j + mset (connecting (g (conns j ! c)))"
  using sum_upd[OF assms, of "\<lambda>x. mset (connecting x)" "g (conns j ! c)"]
  by (simp add: accounted_def unanswered_def upd_conn_def ac_simps)

lemma upd_accounted_same:
  assumes "c < length (conns j)" "connecting (g (conns j ! c)) = connecting (conns j ! c)"
  shows "accounted (upd_conn c g j) = accounted j"
  using upd_accounted[OF assms(1), of g] assms(2) by simp

lemma create_accounted:
  assumes "c < length (conns j)" "createFactory c r j = (f, j')"
  shows "accounted j' = accounted j" "asked j' = asked j" "length (conns j') = length (conns j)"
proof -
  let ?g = "\<lambda>x. x\<lparr>factories := factories x @ [(r_database r, length (heap j))], count := count x + 1\<rparr>"
  let ?j = "j\<lparr>heap := heap j @ [\<lparr>f_key = r_key r, f_database = r_database r, f_conn = c, slots = [], closings = []\<rparr>]\<rparr>"
  have j': "j' = upd_conn c ?g ?j" using assms(2) by (auto simp: createFactory_def Let_def)
  have "accounted j' = accounted ?j"
    unfolding j' by (rule upd_accounted_same) (use assms(1) in \<open>simp_all add: connecting_def\<close>)
  also have "\<dots> = accounted j" by (rule accounted_same) simp_all
  finally show "accounted j' = accounted j" .
  show "asked j' = asked j" "length (conns j') = length (conns j)" by (simp_all add: j')
qed

lemma asked_simps [simp]:
  "asked (resolveTableMappingsAndCallback r f j) = asked j"
  by (auto simp: resolveTableMappingsAndCallback_def split: prod.splits)

lemma useFactory_accounted:
  assumes "c < length (conns j)"
  shows "accounted (useFactory c r j) = add_mset (r_callback r) (accounted j)"
    "asked (useFactory c r j) = asked j" "length (conns (useFactory c r j)) = length (conns j)"
  using create_accounted[OF assms, of r]
  by (auto simp: useFactory_def resolve_accounted split: option.splits prod.splits)

lemma drop_notifying:
  assumes "k < length (notifying j)" "notifying j ! k = (c, ok, r)"
  shows "mset (map (\<lambda>(c, ok, r). r_callback r) (notifying j)) =
    add_mset (r_callback r) (mset (map (\<lambda>(c, ok, r). r_callback r) (drop_nth k (notifying j))))"
proof -
  have "mset (map (\<lambda>(c, ok, r). r_callback r) (notifying j)) =
      mset (map (\<lambda>(c, ok, r). r_callback r) (take k (notifying j) @ (c, ok, r) # drop (Suc k) (notifying j)))"
    using drop_nth_split[OF assms(1)] assms(2) by simp
  then show ?thesis by (simp add: drop_nth_def)
qed

lemma notify_accounted:
  assumes "notify_inv j" "k < length (notifying j)"
  shows "accounted (notify_next k j) = accounted j" "asked (notify_next k j) = asked j"
proof -
  obtain c ok r where kr: "notifying j ! k = (c, ok, r)" using prod_cases3 by blast
  then have "(c, ok, r) \<in> set (notifying j)" using assms(2) nth_mem by metis
  with assms(1) have c: "c < length (conns j)" by (auto simp: notify_inv_def)
  let ?j = "j\<lparr>notifying := drop_nth k (notifying j)\<rparr>"
  have "accounted j = add_mset (r_callback r) (accounted ?j)"
    using drop_notifying[OF assms(2) kr] by (simp add: accounted_def unanswered_def)
  moreover have "accounted (notify c ok r ?j) = add_mset (r_callback r) (accounted ?j)" "asked (notify c ok r ?j) = asked j"
    using useFactory_accounted[of c ?j r] c by (simp_all add: notify_def answer_accounted)
  ultimately show "accounted (notify_next k j) = accounted j" "asked (notify_next k j) = asked j"
    by (simp_all add: notify_next_def kr)
qed

lemma poolCreated_accounted:
  assumes c: "c < length (conns j)" "isConnecting (conns j ! c)"
  shows "accounted (dbConnectionPoolCreated c ok j) = accounted j"
    "asked (dbConnectionPoolCreated c ok j) = asked j"
proof -
  let ?x = "conns j ! c"
  define j1 where "j1 = upd_conn c (\<lambda>x. x\<lparr>isConnecting := False, hasError := \<not> ok\<rparr>) j"
  define j2 where "j2 = (if \<not> ok then answer (opener ?x) None j1
    else (case createFactory c (opener ?x) (upd_conn c (\<lambda>x. x\<lparr>hasPool := True\<rparr>) j1) of
      (f, j2) \<Rightarrow> resolveTableMappingsAndCallback (opener ?x) f j2))"
  have run: "dbConnectionPoolCreated c ok j =
      j2\<lparr>notifying := notifying j2 @ map (\<lambda>r. (c, ok, r)) (waitingForConnection (conns j2 ! c))\<rparr>"
    by (simp add: dbConnectionPoolCreated_def Let_def j1_def j2_def)
  have l1: "c < length (conns j1)" using c by (simp add: j1_def)
  have a1: "accounted j1 + mset (map r_callback (opener ?x # waitingForConnection ?x)) = accounted j"
    using upd_accounted[OF c(1), of "\<lambda>x. x\<lparr>isConnecting := False, hasError := \<not> ok\<rparr>"] c(2)
    by (simp add: j1_def connecting_def)
  have up: "accounted (upd_conn c (\<lambda>x. x\<lparr>hasPool := True\<rparr>) j1) = accounted j1"
    by (rule upd_accounted_same[OF l1]) (simp add: connecting_def)
  obtain f jf where jf: "createFactory c (opener ?x) (upd_conn c (\<lambda>x. x\<lparr>hasPool := True\<rparr>) j1) = (f, jf)" by fastforce
  have cf: "accounted jf = accounted j1" "asked jf = asked j1" "length (conns jf) = length (conns j1)"
    using create_accounted[OF _ jf] l1 up by simp_all
  have wf: "waitingForConnection (conns jf ! c) = waitingForConnection ?x"
    using jf c by (auto simp: createFactory_def Let_def j1_def upd_conn_def)
  have j2: "accounted j2 = add_mset (r_callback (opener ?x)) (accounted j1)" "asked j2 = asked j"
    "c < length (conns j2)" "waitingForConnection (conns j2 ! c) = waitingForConnection ?x"
    using cf wf l1 c by (simp_all add: j2_def jf resolve_accounted answer_accounted) (simp_all add: j1_def)
  have more: "accounted (j2\<lparr>notifying := notifying j2 @ map (\<lambda>r. (c, ok, r)) rs\<rparr>) = accounted j2 + mset (map r_callback rs)" for rs
    by (simp add: accounted_def unanswered_def comp_def)
  show "accounted (dbConnectionPoolCreated c ok j) = accounted j"
    "asked (dbConnectionPoolCreated c ok j) = asked j"
    using j2 a1 more by (simp_all add: run ac_simps)
qed

lemma getSessionFactory_accounted:
  assumes inv: "conns_inv j"
  shows "accounted (getSessionFactory r j) = add_mset (r_callback r) (accounted j)"
    "asked (getSessionFactory r j) = asked j @ [r_callback r]"
proof -
  let ?j = "j\<lparr>asked := asked j @ [r_callback r]\<rparr>"
  have same: "accounted ?j = accounted j" by (rule accounted_same) simp_all
  have "accounted (getSessionFactory r j) = add_mset (r_callback r) (accounted j) \<and>
    asked (getSessionFactory r j) = asked j @ [r_callback r]"
  proof (cases "jonesConnections j (r_key r)")
    case None
    then show ?thesis
      by (simp add: getSessionFactory_def accounted_def unanswered_def connecting_def)
  next
    case (Some c)
    then have c: "c < length (conns j)" using conns_invD(1)[OF inv] by blast
    consider (wait) "isConnecting (conns j ! c)"
      | (use) "\<not> isConnecting (conns j ! c)"
          "map_of (factories (conns j ! c)) (r_database r) \<noteq> None \<or> hasPool (conns j ! c)"
      | (none) "\<not> isConnecting (conns j ! c)" "map_of (factories (conns j ! c)) (r_database r) = None"
          "\<not> hasPool (conns j ! c)" by blast
    then show ?thesis
    proof cases
      case wait
      let ?g = "\<lambda>x. x\<lparr>waitingForConnection := waitingForConnection x @ [r]\<rparr>"
      have g: "getSessionFactory r j = upd_conn c ?g ?j"
        using Some wait by (simp add: getSessionFactory_def)
      have "accounted (upd_conn c ?g ?j) + mset (connecting (conns j ! c)) =
          accounted ?j + mset (connecting (conns j ! c)) + {#r_callback r#}"
        using upd_accounted[of c ?j ?g] c wait by (simp add: connecting_def)
      then show ?thesis by (simp add: g same)
    next
      case use
      show ?thesis
        using useFactory_accounted[of c ?j r] c same
        by (simp add: getSessionFactory_use[OF Some use])
    next
      case none
      then have "getSessionFactory r j = answer r None ?j" using Some by (simp add: getSessionFactory_def)
      then show ?thesis by (simp add: answer_accounted same)
    qed
  qed
  then show "accounted (getSessionFactory r j) = add_mset (r_callback r) (accounted j)"
    "asked (getSessionFactory r j) = asked j @ [r_callback r]" by blast+
qed

lemma drop_resolving:
  assumes "k < length (resolving j)" "resolving j ! k = (r, f, i)"
  shows "mset (map (\<lambda>(r, f, i). r_callback r) (resolving j)) =
    add_mset (r_callback r) (mset (map (\<lambda>(r, f, i). r_callback r) (drop_nth k (resolving j))))"
proof -
  have "mset (map (\<lambda>(r, f, i). r_callback r) (resolving j)) =
      mset (map (\<lambda>(r, f, i). r_callback r) (take k (resolving j) @ (r, f, i) # drop (Suc k) (resolving j)))"
    using drop_nth_split[OF assms(1)] assms(2) by simp
  then show ?thesis by (simp add: drop_nth_def)
qed

lemma mapping_accounted:
  assumes "k < length (resolving j)"
  shows "accounted (onMappingSession k ok j) = accounted j" "asked (onMappingSession k ok j) = asked j"
    "accounted (onMappingsResolved k closed ok j) = accounted j" "asked (onMappingsResolved k closed ok j) = asked j"
proof -
  obtain r f i where k: "resolving j ! k = (r, f, i)" by (cases "resolving j ! k") auto
  show "accounted (onMappingSession k ok j) = accounted j" "asked (onMappingSession k ok j) = asked j"
    "accounted (onMappingsResolved k closed ok j) = accounted j" "asked (onMappingsResolved k closed ok j) = asked j"
    using drop_resolving[OF assms k]
    by (simp_all add: onMappingSession_def onMappingsResolved_def k accounted_def unanswered_def upd_factory_def Let_def)
qed

definition calm :: "jones_state \<Rightarrow> jones_state \<Rightarrow> bool" where
  "calm j j' \<longleftrightarrow> accounted j' = accounted j \<and> asked j' = asked j"

lemma deleteFactory_calm:
  assumes "deleteFactory f cb j = Inr j'" "conns_inv j0" "conns j = conns j0" "jonesConnections j = jonesConnections j0"
    "f_conn (heap j ! f) < length (conns j)"
  shows "calm j j'"
proof -
  obtain c g where c: "jonesConnections j (f_key (heap j ! f)) = Some c"
    "map_of (factories (conns j ! c)) (f_database (heap j ! f)) = Some g"
    using assms(1) by (auto simp: deleteFactory_def Let_def split: option.splits)
  then have len: "c < length (conns j)" using conns_invD(1)[OF assms(2)] assms(3,4) by metis
  let ?db = "f_database (heap j ! f)"
  let ?j1 = "upd_conn c (\<lambda>x. x\<lparr>factories := filter (\<lambda>(d, _). d \<noteq> ?db) (factories x)\<rparr>) j"
  let ?j2 = "upd_conn (f_conn (heap j ! f)) (\<lambda>x. x\<lparr>count := count x - 1\<rparr>) ?j1"
  have "accounted ?j1 = accounted j" by (rule upd_accounted_same[OF len]) (simp add: connecting_def)
  moreover have "accounted ?j2 = accounted ?j1"
    by (rule upd_accounted_same) (use assms(5) in \<open>simp_all add: connecting_def\<close>)
  moreover have "conns j' = conns ?j2" "resolving j' = resolving ?j2" "answers j' = answers ?j2" "asked j' = asked ?j2"
    "notifying j' = notifying ?j2"
    using assms(1) c by (auto simp: deleteFactory_def Let_def split: if_splits)
  ultimately show ?thesis using accounted_same[of j' ?j2] by (simp add: calm_def)
qed

lemma calm_upd_factory:
  "calm j ((upd_factory f g j)\<lparr>sessionCloses := cs\<rparr>)" "calm j (upd_factory f g (j\<lparr>sessionCloses := cs\<rparr>))"
  by (simp_all add: calm_def accounted_def unanswered_def upd_factory_def)

lemma calm_step_trans: "calm j j1 \<Longrightarrow> calm j1 j2 \<Longrightarrow> calm j j2"
  by (simp add: calm_def)

lemma f_conn_bound: "conns_inv j \<Longrightarrow> f < length (heap j) \<Longrightarrow> f_conn (heap j ! f) < length (conns j)"
  using conns_invD(4)[of j f] by (simp add: factory_ok_def Let_def)

lemma factory_close_calm:
  assumes inv: "conns_inv j" and f: "f < length (heap j)" and ok: "factory_close f cb j = Inr j'"
  shows "calm j j'"
proof -
  define ss where "ss = slots (heap j ! f)"
  define n where "n = length (filter (\<lambda>s. s \<noteq> Empty) ss)"
  define direct where "direct = length (filter (\<lambda>s. s = Placeholder) ss)"
  define g where "g x = x\<lparr>slots := map (\<lambda>_. Empty) ss, closings := closings x @
    [\<lparr>numberOfSessionsToClose = n, closedSessions = direct, close_callback = cb\<rparr>]\<rparr>" for x :: factory
  define j2 where "j2 = (upd_factory f g j)\<lparr>sessionCloses := sessionCloses j @
    map (\<lambda>i. (f, i, Inl (length (closings (heap j ! f))))) (open_slots ss)\<rparr>"
  have run: "factory_close f cb j = (if direct = n then deleteFactory f cb j2 else Inr j2)"
    by (simp add: factory_close_def Let_def ss_def[symmetric] n_def[symmetric] direct_def[symmetric]
        g_def[abs_def] j2_def)
  have c2: "calm j j2" unfolding j2_def by (rule calm_upd_factory)
  show ?thesis
  proof (cases "direct = n")
    case True
    have "calm j2 j'"
      by (rule deleteFactory_calm[where f = f and j = j2, OF _ inv])
        (use ok run True f f_conn_bound[OF inv f] in \<open>simp_all add: j2_def g_def\<close>)
    with c2 show ?thesis by (rule calm_step_trans)
  next
    case False
    then show ?thesis using ok run c2 by simp
  qed
qed

lemma onSessionClose_calm:
  assumes inv: "conns_inv j" and k: "k < length (sessionCloses j)" and ok: "onSessionClose k j = Inr j'"
  shows "calm j j'"
proof (cases "sessionCloses j ! k")
  case (fields f i who)
  have "(f, i, who) \<in> set (sessionCloses j)" using k fields nth_mem by fastforce
  then have f: "f < length (heap j)" using conns_invD(5)[OF inv] by blast
  define j1 where "j1 = upd_factory f (closeSession i) (j\<lparr>sessionCloses := drop_nth k (sessionCloses j)\<rparr>)"
  have c1: "calm j j1" unfolding j1_def by (rule calm_upd_factory)
  show ?thesis
  proof (cases who)
    case (Inr cb)
    then have "j' = j1\<lparr>sessionAnswers := sessionAnswers j1 @ [(cb, None)]\<rparr>"
      using ok by (simp add: onSessionClose_def fields Let_def j1_def)
    then show ?thesis using c1 by (simp add: calm_def accounted_def unanswered_def)
  next
    case (Inl c)
    define cl' where "cl' = (let cl = closings (heap j1 ! f) ! c in cl\<lparr>closedSessions := Suc (closedSessions cl)\<rparr>)"
    define j2 where "j2 = upd_factory f (\<lambda>x. x\<lparr>closings := (closings x)[c := cl']\<rparr>) j1"
    have run: "onSessionClose k j =
        (if closedSessions cl' = numberOfSessionsToClose cl' then deleteFactory f (close_callback cl') j2 else Inr j2)"
      unfolding onSessionClose_def fields prod.case Inl sum.case j1_def[symmetric] j2_def cl'_def Let_def ..
    have c2: "calm j1 j2" by (simp add: j2_def calm_def accounted_def unanswered_def upd_factory_def)
    show ?thesis
    proof (cases "closedSessions cl' = numberOfSessionsToClose cl'")
      case True
      have "calm j2 j'"
        by (rule deleteFactory_calm[where f = f and j = j2, OF _ inv])
          (use ok run True f f_conn_bound[OF inv f] in \<open>simp_all add: j2_def j1_def\<close>)
      with c1 c2 show ?thesis by (blast intro: calm_step_trans)
    next
      case False
      then show ?thesis using ok run c1 c2 by (auto intro: calm_step_trans)
    qed
  qed
qed

lemma step_accounted:
  assumes inv: "conns_inv j" "notify_inv j" and ok: "step ev j = Inr j'" and acc: "accounted j = mset (asked j)"
  shows "accounted j' = mset (asked j')"
proof -
  have calm_done: "accounted j' = mset (asked j')" if "calm j j'" using that acc by (simp add: calm_def)
  show ?thesis
  proof (cases ev)
    case (Connect r)
    with ok acc getSessionFactory_accounted[OF inv(1)] show ?thesis by auto
  next
    case (PoolCreated c b)
    with ok acc poolCreated_accounted show ?thesis by (auto split: if_splits)
  next
    case (NotifyNext k)
    with ok acc notify_accounted[OF inv(2), of k] show ?thesis by (auto split: if_splits)
  next
    case (MappingSession k b)
    with ok acc mapping_accounted show ?thesis by (auto split: if_splits)
  next
    case (MappingsResolved k closed b)
    with ok acc mapping_accounted show ?thesis by (auto split: if_splits)
  next
    case (OpenSession f cb)
    with ok have "calm j j'"
      by (auto simp: calm_def accounted_def unanswered_def openSessionOnSessionFactory_def Let_def
          split: if_splits prod.splits)
    then show ?thesis by (rule calm_done)
  next
    case (SessionOpened k b)
    with ok have "calm j j'"
      by (auto simp: calm_def accounted_def unanswered_def openSessionOnSession_def Let_def upd_factory_def
          split: if_splits prod.splits)
    then show ?thesis by (rule calm_done)
  next
    case (CloseSession f i cb)
    with ok have "calm j j'"
      by (auto simp: calm_def accounted_def unanswered_def userCloseSession_def split: if_splits)
    then show ?thesis by (rule calm_done)
  next
    case (SessionClosed k)
    with ok have "calm j j'" using onSessionClose_calm[OF inv(1)] by (auto simp: calm_def split: if_splits)
    then show ?thesis by (rule calm_done)
  next
    case (CloseFactory f cb)
    with ok have "calm j j'" using factory_close_calm[OF inv(1)] by (auto simp: calm_def split: if_splits)
    then show ?thesis by (rule calm_done)
  qed
qed

lemma run_sound:
  assumes "conns_inv j" "notify_inv j" "patient evs j" "accounted j = mset (asked j)"
  obtains j' where "run evs j = Inr j'" "conns_inv j'" "accounted j' = mset (asked j')"
  using assms
proof (induction evs arbitrary: j thesis)
  case (Cons ev evs)
  have quiet: "undisturbed j" using Cons.prems(4) by simp
  obtain j1 where j1: "step ev j = Inr j1" "conns_inv j1"
    by (rule step_inv[OF Cons.prems(2,3) quiet])
  have "notify_inv j1" using notify_inv_keeps[OF Cons.prems(2,3) j1(1)] .
  moreover have "patient evs j1" using Cons.prems(4) j1(1) by simp
  moreover have "accounted j1 = mset (asked j1)" using step_accounted[OF Cons.prems(2,3) j1(1) Cons.prems(5)] .
  ultimately obtain j' where "run evs j1 = Inr j'" "conns_inv j'" "accounted j' = mset (asked j')"
    using Cons.IH[OF _ j1(2)] by blast
  with j1 Cons.prems(1) show ?case by simp
qed simp

text \<open>
  C40: Whatever requests, sessions and closes are interleaved, also by callbacks between two steps of the
  loop that tells the requests which waited for a connection, as long as every factory is closed once
  and no pool is closed while that loop has still to hand it out, no step throws. There is at most one live factory for a
  key and a database, and connecting finds it;
  the pool of a connection is closed, once, exactly when no live factory is left on it; and every
  callback of a request has been called exactly once, or its request still waits for a pool, for the loop,
  or for its mappings. (The callback of a close acts after the close has returned.)
\<close>

theorem connections_correct:
  assumes "patient evs new_jones"
  shows "case run evs new_jones of
     Inl _ \<Rightarrow> False
   | Inr j \<Rightarrow> table_sound j \<and> mset (asked j) = mset (map fst (answers j)) + unanswered j"
proof -
  have "accounted new_jones = mset (asked new_jones)" "notify_inv new_jones"
    by (simp_all add: accounted_def unanswered_def notify_inv_def new_jones_def)
  with run_sound[OF conns_inv_new _ assms] obtain j where "run evs new_jones = Inr j" "conns_inv j"
    "accounted j = mset (asked j)" by blast
  then show ?thesis using inv_table_sound by (simp add: accounted_def)
qed

text \<open>
  Two requests for two databases share a connection. Its pool is closed with the second factory;
  closing that factory once more throws, for its connection has left the table.
\<close>

definition ask :: "string \<Rightarrow> nat \<Rightarrow> request" where
  "ask db cb = \<lparr>r_key = ''ndb://1186'', r_database = db, r_mappings = False, r_callback = cb\<rparr>"

theorem connections_correct_witness:
  "case run [Connect (ask ''a'' 1), Connect (ask ''b'' 2), PoolCreated 0 True, OpenSession 0 3, NotifyNext 0,
      CloseFactory 1 5] new_jones of
     Inl _ \<Rightarrow> False
   | Inr j \<Rightarrow> table_sound j \<and> answers j = [(1, Some 0), (2, Some 1)] \<and> closeAnswers j = [5]"
proof -
  let ?evs = "[Connect (ask ''a'' 1), Connect (ask ''b'' 2), PoolCreated 0 True, OpenSession 0 3, NotifyNext 0, CloseFactory 1 5]"
  have r: "case run ?evs new_jones of Inl _ \<Rightarrow> False | Inr j \<Rightarrow> answers j = [(1, Some 0), (2, Some 1)] \<and> closeAnswers j = [5]"
    by code_simp
  have "patient ?evs new_jones" by code_simp
  from connections_correct[OF this] r show ?thesis by (cases "run ?evs new_jones") simp_all
qed

lemma connections_example:
  "(case run [Connect (ask ''a'' 1), Connect (ask ''b'' 2), PoolCreated 0 True, NotifyNext 0, OpenSession 1 3,
        SessionOpened 0 True, CloseFactory 0 4, CloseFactory 1 5, SessionClosed 0] new_jones of
      Inl e \<Rightarrow> False
    | Inr j \<Rightarrow> answers j = [(1, Some 0), (2, Some 1)] \<and> poolCloses j = [0] \<and> closeAnswers j = [4] \<and>
        (case factory_close 1 6 j of Inl e \<Rightarrow> e = TypeError | Inr _ \<Rightarrow> False))"
  by code_simp

text \<open>
  When the callback of the first request closes its factory at once, the request that waited still
  gets a factory on the closed pool; closing that one, for the first time, throws.
\<close>

lemma close_in_callback:
  "(case run [Connect (ask ''a'' 1), Connect (ask ''b'' 2), PoolCreated 0 True, CloseFactory 0 4, NotifyNext 0,
      CloseFactory 1 5] new_jones of Inl e \<Rightarrow> e = TypeError | Inr _ \<Rightarrow> False)"
  "(case run [Connect (ask ''a'' 1), Connect (ask ''b'' 2), PoolCreated 0 True, CloseFactory 0 4, NotifyNext 0]
      new_jones of
     Inl e \<Rightarrow> False
   | Inr j \<Rightarrow> poolCloses j = [0] \<and> answers j = [(1, Some 0), (2, Some 1)] \<and> f_conn (heap j ! 1) = 0)"
  by code_simp+

text \<open>A placeholder takes the first slot that is empty, or a new one.\<close>

lemma allocateSessionSlot_free:
  assumes "allocateSessionSlot ss = (i, ss')"
  shows "i \<le> length ss" "i < length ss \<Longrightarrow> ss ! i = Empty" "\<forall>k<i. ss ! k \<noteq> Empty"
    "ss' = (if i < length ss then ss[i := Placeholder] else ss @ [Placeholder])"
proof -
  let ?n = "length (takeWhile (\<lambda>s. s \<noteq> Empty) ss)"
  have i: "i = ?n" and ss': "ss' = js_set Empty ss ?n Placeholder"
    using assms by (auto simp: allocateSessionSlot_def Let_def)
  show le: "i \<le> length ss" unfolding i by (rule length_takeWhile_le)
  show "i < length ss \<Longrightarrow> ss ! i = Empty" unfolding i using nth_length_takeWhile by blast
  show "\<forall>k<i. ss ! k \<noteq> Empty"
    unfolding i by (metis (mono_tags, lifting) nth_mem set_takeWhileD takeWhile_nth)
  show "ss' = (if i < length ss then ss[i := Placeholder] else ss @ [Placeholder])"
    using le unfolding ss' i[symmetric] by (auto simp: js_set_def)
qed

end
