(* ===== verification/Spec2Isabelle.thy ===== *)
theory Spec2Isabelle imports IndexBounds Serialize TableMapping TableHandler Transactions ControlParser Promises DataScanner Loader
  MySQLTime AsyncQueue NdbPool Connections begin

text \<open>
  Database Jones: verification of the JavaScript connector for MySQL and MySQL Cluster.

  The program. An application calls the API (\<^verbatim>\<open>src/database-jones/Adapter/api\<close>): it describes how
  its objects map to tables (\<open>TableMapping\<close>), connects (\<open>UserContext.getSessionFactory\<close>), opens sessions,
  runs transactions and queries. The API stands on a service provider for a database:
  \<^verbatim>\<open>src/jones-mysql\<close> sends SQL, \<^verbatim>\<open>src/jones-ndb\<close> calls the NDB API through a native addon. Both use
  \<^verbatim>\<open>src/database-jones/Adapter/common\<close>: the resolution of a mapping against a table, the choice of an
  index, the bounds of an index scan, batches of SQL operations, the encodings of JSON and of times.
  \<^verbatim>\<open>src/jones-promises\<close> has the promises that the API returns, and \<^verbatim>\<open>src/loader\<close> is a program that
  loads data files through the API.

  The theories, from the bottom.

    \<^item> \<open>Prelude\<close>: JavaScript arrays and property lists as total functions (\<open>js_get\<close>, \<open>js_set\<close>, \<open>obj_get\<close>,
      \<open>obj_put\<close>), results of code that throws (\<open>'a res\<close>, \<open>rbind\<close>, \<open>rmap\<close>), decimal texts.
    \<^item> \<open>BitMask\<close>: \<^verbatim>\<open>common/BitMask.js\<close>, sets of column numbers in 32-bit words. Refinement of finite sets,
      the invariant of the array, and the termination of \<open>toArray\<close>.
    \<^item> \<open>Query\<close>: \<^verbatim>\<open>api/Query.js\<close>, the fields of a query domain type, predicates, and the visitors that
      make SQL, parameters and masks. The SQL is that of a specification by recursion on the predicate.
    \<^item> \<open>IndexChoice\<close>: \<^verbatim>\<open>DBIndexHandler\<close> and \<open>chooseIndex\<close> of \<^verbatim>\<open>common/DBTableHandler.js\<close>, and \<open>QueryHandler\<close>
      of \<^verbatim>\<open>api/Query.js\<close>. The index chosen is the first unique one that the equalities cover, or an
      ordered one with the best score; the keys of a lookup are the parameters. As in \<open>Query\<close>, what
      rests on masks holds for columns that are not a multiple of 24 from 24 on.
    \<^item> \<open>NumberLine\<close> and \<open>IndexBounds\<close>: \<^verbatim>\<open>common/IndexBounds.js\<close>. Union, intersection and complement of
      lines equal those of sets of points; for an index on one column and predicates without NOT
      over null tests or several columns, every row that satisfies the predicate lies in the bounds.
    \<^item> \<open>Serialize\<close>: \<^verbatim>\<open>common/MySQLSerialize.js\<close>, the binary encoding of JSON, with the round trip.
    \<^item> \<open>MySQLTime\<close>: \<^verbatim>\<open>common/MySQLTime.js\<close>, texts and dates, with the round trips.
    \<^item> \<open>TableMapping\<close>: \<^verbatim>\<open>api/TableMapping.js\<close> and \<^verbatim>\<open>api/Meta.js\<close>. The mapping keeps its invariant under
      every operation, valid or not, and reports an error for exactly what is invalid.
    \<^item> \<open>TableHandler\<close>: \<^verbatim>\<open>common/DBTableHandler.js\<close> and \<^verbatim>\<open>common/FieldValueDefinedListener.js\<close>. The tables
      of columns, fields and indexes agree with one another, and values survive the way to a
      row and back.
    \<^item> \<open>Transactions\<close>: \<^verbatim>\<open>common/SQLTransactionHandler.js\<close>, the transactions of \<^verbatim>\<open>MySQLConnection.js\<close>,
      \<^verbatim>\<open>api/Transaction.js\<close>, \<open>commit\<close> and \<open>rollback\<close> of \<^verbatim>\<open>api/UserContext.js\<close>. Batches run in order and
      complete, the two implementations agree, and the state machine has the states it names.
    \<^item> \<open>AsyncQueue\<close>: \<^verbatim>\<open>common/QueuedAsyncCall.js\<close>, \<^verbatim>\<open>common/DictionaryCall.js\<close>, \<^verbatim>\<open>impl/ndb/NdbAutoIncrement.js\<close>.
      The contract of a serial queue is the locale \<open>serial_queue\<close>, interpreted for the queue of
      dictionary calls and for that of auto-increment fetches.
    \<^item> \<open>NdbPool\<close>: \<^verbatim>\<open>impl/ndb/NdbConnection.js\<close>, \<^verbatim>\<open>NdbConnectionPool.js\<close>, \<^verbatim>\<open>NdbSession.js\<close>: shared
      connections with reference counts and linger timers, and pools of sessions. Callbacks may ask
      for the connection again while they are called (\<open>reaction\<close>); users may close a session twice.
    \<^item> \<open>Connections\<close>: \<open>getSessionFactory\<close>, \<open>openSession\<close> and \<open>closeSession\<close> of \<^verbatim>\<open>api/UserContext.js\<close>, slots and
      closing of \<^verbatim>\<open>api/SessionFactory.js\<close>: one factory for each key and database, pools closed once. What callbacks do
      between the steps of the loop that tells waiting requests is any list of events; the callback of
      a close acts after the close has returned.
    \<^item> \<open>Promises\<close>: \<^verbatim>\<open>jones-promises/lib/Promise.js\<close>, a heap of promises and a queue of tasks. A promise
      settles at most once, and a chain computes what the composition of its callbacks computes.
    \<^item> \<open>Tokenizer\<close>, \<open>ControlParser\<close>, \<open>DataScanner\<close>: \<^verbatim>\<open>loader/lib/Scanner.js\<close>, \<^verbatim>\<open>Parser.js\<close> and
      \<^verbatim>\<open>control_file.js\<close>: round trips for tokens and for records, termination of the parser.
    \<^item> \<open>Loader\<close>: \<^verbatim>\<open>loader/lib/Controller.js\<close>, \<^verbatim>\<open>DbWriter.js\<close>, \<^verbatim>\<open>DataSource.js\<close>: rows, batches and
      transactions of a load, who waits for whom, and how loads end or stall.

  How the code is modelled. An object is a record, an object literal with open properties an
  association list in the order of its properties, a class hierarchy a datatype. What mutates is
  threaded through as a state; objects that are shared are addresses in a list of the state, as in
  \<open>Promises\<close>, \<open>NdbPool\<close> and \<open>Connections\<close>. What is answered later (a query, a native call, a timer) is
  listed in the state as pending and answered by an event; a theorem over a run quantifies over all
  lists of events, so over all orders of answers. An exception is \<open>Inl\<close>. Numbers are integers, 32-bit words where the code
  uses bitwise operators, bytes in buffers. The functions of users, converters, constructors and
  databases are parameters.

  Loops. What recurs on the structure is \<open>fun\<close>. Loops that the code does not bound are
  \<open>partial_function (option)\<close>: \<open>None\<close> is a loop that does not return, and theorems state that the
  result is \<open>Some\<close> (\<open>bm_toArray_correct\<close>, \<open>loader_returns\<close>) or that it is \<open>None\<close> where the code
  hangs. The parser of control statements recurs on the grammar and, in its one loop, on the tokens
  left; a loop that would not move on is the outcome \<open>Diverges\<close>, and \<open>evaluation_progresses\<close> says where the
  others end. The parser of binary JSON follows offsets that can point anywhere and has fuel;
  \<open>serialize_roundtrip\<close> says that some fuel is enough for what the serializer wrote.

  The kinds of lemmas in each theory: frame and invariant lemmas for each operation, lemmas that
  evaluate an operation, and then the properties, numbered C1 to C40. Lemmas on concrete inputs
  record where the code departs from its documentation.

  Not modelled. Output of debug messages, counters and inspect functions; the argument shuffling of
  the API's surface; the texts of SQL beyond those of \<open>Query\<close>; the operations of \<^verbatim>\<open>api/UserContext.js\<close>
  that compose the modelled components over callbacks; the drivers (felix mysql, the NDB addon and
  its C++ code), which are outside the repository or bind libraries that are; the bounds of an index
  on several columns, whose visitor shares endpoint objects between nodes; conversions in local time,
  which depend on the host; the reading of files by the loader; the test harness, the shell,
  benchmarks and samples.
\<close>

end
